(* ===== verification/Base.thy ===== *)
theory Base
  imports Main "HOL-Library.Word"
begin

text \<open>
  The prelude of the development: the machine types of the program, the faults a C++
  operation can end in, sequencing of operations that may fault, and the list facts
  (reading and overwriting a range of a buffer) that the buffer, file and codec
  components share.

  \<^item> \<open>fault\<close> names what the program's undefined or aborting behaviours are: a null or
    past-the-end dereference, an access outside a buffer, a failed assertion, an
    uncaught exception, a loop that does not return.  An operation that can fault
    returns \<open>fault + 'a\<close>; \<open>rbind\<close> sequences two of them.
  \<^item> \<open>slice_at\<close> and \<open>put_at\<close> are \<open>memcpy\<close> out of and into a buffer.
\<close>

section \<open>Machine types\<close>

type_synonym byte = "8 word"
type_synonym u16 = "16 word"
type_synonym u32 = "32 word"
type_synonym u64 = "64 word"

named_theorems fault_simps \<open>sequencing of operations that may fault\<close>
named_theorems buffer_simps \<open>reading and writing ranges of buffers\<close>

section \<open>Faults\<close>

datatype fault =
    NullDeref         \<comment> \<open>a null pointer is dereferenced\<close>
  | EndDeref          \<comment> \<open>the past-the-end iterator of a container is dereferenced\<close>
  | OutOfBounds       \<comment> \<open>a buffer is read or written outside its bounds\<close>
  | AssertFail        \<comment> \<open>an \<open>assert\<close> of the source fails\<close>
  | Uncaught          \<comment> \<open>a C++ exception no one catches: the program terminates\<close>
  | NoReturn          \<comment> \<open>a loop of the source does not return within the fuel\<close>

type_synonym 'a res = "fault + 'a"

definition rbind :: "'a res \<Rightarrow> ('a \<Rightarrow> 'b res) \<Rightarrow> 'b res" where
  "rbind m f = (case m of Inl e \<Rightarrow> Inl e | Inr x \<Rightarrow> f x)"

lemma rbind_Inr [simp, fault_simps]: "rbind (Inr x) f = f x"
  by (simp add: rbind_def)

lemma rbind_Inl [simp, fault_simps]: "rbind (Inl e) f = Inl e"
  by (simp add: rbind_def)

lemma rbind_eq_Inr: "rbind m f = Inr y \<longleftrightarrow> (\<exists>x. m = Inr x \<and> f x = Inr y)"
  by (cases m) auto

lemma rbind_assoc: "rbind (rbind m f) g = rbind m (\<lambda>x. rbind (f x) g)"
  by (cases m) simp_all

lemma rbind_InrE:
  assumes "rbind m f = Inr y"
  obtains x where "m = Inr x" and "f x = Inr y"
  using assms by (auto simp: rbind_eq_Inr)

section \<open>Ranges of a buffer\<close>

definition slice_at :: "nat \<Rightarrow> nat \<Rightarrow> 'a list \<Rightarrow> 'a list" where
  "slice_at pos n xs = take n (drop pos xs)"

definition put_at :: "nat \<Rightarrow> 'a list \<Rightarrow> 'a list \<Rightarrow> 'a list" where
  "put_at pos ys xs = take pos xs @ ys @ drop (pos + length ys) xs"

lemma length_slice_at [simp, buffer_simps]:
  "pos + n \<le> length xs \<Longrightarrow> length (slice_at pos n xs) = n"
  by (simp add: slice_at_def)

lemma slice_at_all [simp, buffer_simps]: "slice_at 0 (length xs) xs = xs"
  by (simp add: slice_at_def)

lemma slice_at_append: "slice_at p m xs @ slice_at (p + m) n xs = slice_at p (m + n) xs"
  by (simp add: slice_at_def take_add add.commute [of m p])

lemma length_put_at [simp, buffer_simps]:
  "pos + length ys \<le> length xs \<Longrightarrow> length (put_at pos ys xs) = length xs"
  by (simp add: put_at_def)

lemma slice_at_put_at_same [buffer_simps]:
  "pos + length ys \<le> length xs \<Longrightarrow> slice_at pos (length ys) (put_at pos ys xs) = ys"
  by (simp add: slice_at_def put_at_def)

lemma slice_at_put_at_before [buffer_simps]:
  assumes "p + n \<le> pos" and "pos + length ys \<le> length xs"
  shows "slice_at p n (put_at pos ys xs) = slice_at p n xs"
  using assms by (intro nth_equalityI) (auto simp: slice_at_def put_at_def nth_append)

lemma take_put_at_before [buffer_simps]:
  "n \<le> pos \<Longrightarrow> pos \<le> length xs \<Longrightarrow> take n (put_at pos ys xs) = take n xs"
  by (simp add: put_at_def min_def)

lemma take_put_at_upto [buffer_simps]:
  "pos + length ys \<le> length xs \<Longrightarrow>
    take (pos + length ys) (put_at pos ys xs) = take pos xs @ ys"
  by (simp add: put_at_def)

lemma put_at_nil [simp, buffer_simps]: "put_at pos [] xs = xs"
  by (simp add: put_at_def)

section \<open>Words and naturals\<close>

lemma unat_of_nat_small: "n < 2 ^ LENGTH('a) \<Longrightarrow> unat (of_nat n :: 'a::len word) = n"
  by (simp add: unat_of_nat take_bit_nat_eq_self)

lemma of_nat_eq_0_iff_small:
  "n < 2 ^ LENGTH('a) \<Longrightarrow> (of_nat n :: 'a::len word) = 0 \<longleftrightarrow> n = 0"
  by (metis unat_of_nat_small unat_eq_zero)

lemma unat_add_small:
  "unat a + unat b < 2 ^ LENGTH('a) \<Longrightarrow> unat (a + b :: 'a::len word) = unat a + unat b"
  by (simp add: unat_word_ariths)

lemma unat_ucast_up:
  fixes w :: "'a::len word"
  assumes "LENGTH('a) \<le> LENGTH('b::len)"
  shows "unat (ucast w :: 'b word) = unat w"
proof -
  have "unat w < 2 ^ LENGTH('a)" by (rule unsigned_less)
  also have "\<dots> \<le> 2 ^ LENGTH('b)" using assms by simp
  finally show ?thesis by (simp add: unsigned_ucast_eq take_bit_nat_eq_self)
qed

lemma unat_ucast_u32_u64 [simp]: "unat (ucast (w :: u32) :: u64) = unat w"
  by (simp add: unat_ucast_up)

lemma u32_bound: "unat (w :: u32) < 2 ^ 32"
proof -
  have "unat w < 2 ^ LENGTH(32)" by (rule unsigned_less)
  then show ?thesis by simp
qed

lemma u64_bound: "unat (w :: u64) < 2 ^ 64"
proof -
  have "unat w < 2 ^ LENGTH(64)" by (rule unsigned_less)
  then show ?thesis by simp
qed

lemma of_nat_eq_iff_small:
  assumes "a < 2 ^ LENGTH('a)" and "b < 2 ^ LENGTH('a)"
  shows "(of_nat a :: 'a::len word) = of_nat b \<longleftrightarrow> a = b"
  using assms unat_of_nat_small by metis

section \<open>Singly linked chains\<close>

text \<open>\<open>linked nx a xs z\<close>: following the link function \<open>nx\<close> from \<open>a\<close> visits \<open>xs\<close> and arrives at
  \<open>z\<close>; \<open>walk\<close> computes that list.  The free list of the memory pool and both lists of the
  lock-free queue are such chains.\<close>

primrec linked :: "('n \<Rightarrow> 'n) \<Rightarrow> 'n \<Rightarrow> 'n list \<Rightarrow> 'n \<Rightarrow> bool" where
  "linked nx a [] z \<longleftrightarrow> a = z"
| "linked nx a (x # xs) z \<longleftrightarrow> a = x \<and> linked nx (nx x) xs z"

lemma linked_append: "linked nx a (xs @ ys) z \<longleftrightarrow> (\<exists>b. linked nx a xs b \<and> linked nx b ys z)"
  by (induction xs arbitrary: a) auto

lemma linked_off [simp]: "x \<notin> set xs \<Longrightarrow> linked (nx(x := v)) a xs z = linked nx a xs z"
  by (induction xs arbitrary: a) auto

lemma linked_snoc: "linked nx a (xs @ [x]) z \<longleftrightarrow> linked nx a xs x \<and> nx x = z"
  by (auto simp: linked_append)

fun walk :: "nat \<Rightarrow> ('n \<Rightarrow> 'n) \<Rightarrow> 'n \<Rightarrow> 'n \<Rightarrow> 'n list" where
  "walk 0 nx a z = []"
| "walk (Suc n) nx a z = (if a = z then [] else a # walk n nx (nx a) z)"

lemma walk_linked: "linked nx a xs z \<Longrightarrow> z \<notin> set xs \<Longrightarrow> length xs \<le> n \<Longrightarrow> walk n nx a z = xs"
proof (induction xs arbitrary: a n)
  case Nil
  then show ?case by (cases n) auto
next
  case (Cons x xs)
  then show ?case by (cases n) auto
qed

section \<open>Little-endian integers\<close>

text \<open>An integer in memory: \<open>le_bytes n v\<close> are the \<open>n\<close> bytes of \<open>v\<close>, least significant first,
  \<open>of_le\<close> reads them back.\<close>

primrec le_bytes :: "nat \<Rightarrow> nat \<Rightarrow> byte list" where
  "le_bytes 0 v = []"
| "le_bytes (Suc n) v = of_nat v # le_bytes n (v div 256)"

primrec of_le :: "byte list \<Rightarrow> nat" where
  "of_le [] = 0"
| "of_le (b # bs) = unat b + 256 * of_le bs"

lemma length_le_bytes [simp]: "length (le_bytes n v) = n"
  by (induction n arbitrary: v) simp_all

lemma of_le_bytes: "of_le (le_bytes n v) = v mod 256 ^ n"
proof (induction n arbitrary: v)
  case (Suc n)
  have "v mod (256 * 256 ^ n) = 256 * (v div 256 mod 256 ^ n) + v mod 256"
    by (rule mod_mult2_eq)
  then show ?case using Suc by (simp add: unat_of_nat take_bit_eq_mod)
qed simp

lemma of_le_bound: "of_le bs < 256 ^ length bs"
proof (induction bs)
  case (Cons b bs)
  have "unat b < 2 ^ LENGTH(8)" by (rule unsigned_less)
  then have "unat b < 256" by simp
  then show ?case using Cons by simp
qed simp

lemma le_bytes_of_le: "length bs = n \<Longrightarrow> le_bytes n (of_le bs) = bs"
proof (induction bs arbitrary: n)
  case (Cons b bs)
  have lt: "unat b < 2 ^ LENGTH(8)" by (rule unsigned_less)
  then have "(unat b + 256 * of_le bs) div 256 = of_le bs" by simp
  moreover have "(of_nat (unat b + 256 * of_le bs) :: byte) = b"
  proof -
    have "unat (of_nat m :: byte) = m mod 256" for m
      by (simp add: unat_of_nat take_bit_eq_mod)
    then show ?thesis unfolding word_unat_eq_iff using lt by (simp only:) simp
  qed
  ultimately show ?case using Cons by auto
qed simp

definition word_bytes :: "u32 \<Rightarrow> byte list" where
  "word_bytes w = le_bytes 4 (unat w)"

definition bytes_word :: "byte list \<Rightarrow> u32" where
  "bytes_word bs = of_nat (of_le bs)"

lemma length_word_bytes [simp]: "length (word_bytes w) = 4"
  by (simp add: word_bytes_def)

lemma bytes_word_bytes [simp]: "bytes_word (word_bytes w) = w"
  using u32_bound [of w] by (simp add: bytes_word_def word_bytes_def of_le_bytes of_nat_unat)

end
