(* ===== verification/DataSource.thy ===== *)
theory DataSource
  imports Base
begin

text \<open>
  The data source of the server, \<open>ServerDataInterpreter/Data.cpp\<close> and the exported
  functions of \<open>DataInterp.cpp\<close> that delegate to its one global \<open>Data\<close> object: the data
  file is cut into consecutive chunks, handed out in file order, each with an index.

  \<open>File\<close> is a class of the closed \<open>TCPCS.dll\<close> of which the repository holds only the
  declarations (\<open>Common/CNLIB/File.h\<close>).  Its operations are a parameter of the model, the
  record \<open>file_ops\<close> over an abstract handle type; what the code relies on is the
  predicate \<open>file_laws\<close>: \<open>Read\<close> returns the bytes at the cursor (fewer at the end of the
  file) and advances, \<open>MoveCursor\<close> moves the cursor by a signed number of bytes,
  \<open>GetSize\<close> is the size of the contents.
\<close>

section \<open>The file interface\<close>

record 'f file_ops =
  f_Open :: "'f \<Rightarrow> string \<Rightarrow> 'f"
  f_GetSize :: "'f \<Rightarrow> u64"
  f_Read :: "'f \<Rightarrow> u32 \<Rightarrow> byte list \<times> 'f"
  f_MoveCursor :: "'f \<Rightarrow> u32 \<Rightarrow> 'f"

text \<open>The argument of \<open>MoveCursor\<close> is a \<open>LONG\<close>: 32 bits, read as a signed number.\<close>

definition file_laws :: "'f file_ops \<Rightarrow> ('f \<Rightarrow> byte list) \<Rightarrow> ('f \<Rightarrow> nat) \<Rightarrow> bool" where
  "file_laws ops cont pos \<longleftrightarrow>
     (\<forall>f n. fst (f_Read ops f n) = slice_at (pos f) (unat n) (cont f)
        \<and> pos (snd (f_Read ops f n)) = pos f + length (slice_at (pos f) (unat n) (cont f))
        \<and> cont (snd (f_Read ops f n)) = cont f)
   \<and> (\<forall>f k. 0 \<le> int (pos f) + sint k \<longrightarrow>
        pos (f_MoveCursor ops f k) = nat (int (pos f) + sint k)
        \<and> cont (f_MoveCursor ops f k) = cont f)
   \<and> (\<forall>f. f_GetSize ops f = of_nat (length (cont f)))
   \<and> (\<forall>f name. pos (f_Open ops f name) = 0)"

lemma file_laws_read:
  assumes "file_laws ops cont pos" and "f_Read ops f n = (bs, f')"
  shows "bs = slice_at (pos f) (unat n) (cont f)"
    and "pos f' = pos f + length bs" and "cont f' = cont f"
  using assms unfolding file_laws_def by (metis fst_conv snd_conv)+

lemma file_laws_move:
  assumes "file_laws ops cont pos" and "0 \<le> int (pos f) + sint k"
  shows "pos (f_MoveCursor ops f k) = nat (int (pos f) + sint k)"
    and "cont (f_MoveCursor ops f k) = cont f"
  using assms unfolding file_laws_def by blast+

text \<open>A file held in memory: its contents and the cursor.  It satisfies the laws, so they
  are consistent, and it is what the witnesses compute with.\<close>

definition mem_file_ops :: "byte list \<Rightarrow> (byte list \<times> nat) file_ops" where
  "mem_file_ops disk =
     \<lparr>f_Open = (\<lambda>_ _. (disk, 0)),
      f_GetSize = (\<lambda>(c, _). of_nat (length c)),
      f_Read = (\<lambda>(c, p) n. (slice_at p (unat n) c, (c, p + length (slice_at p (unat n) c)))),
      f_MoveCursor = (\<lambda>(c, p) k. (c, nat (int p + sint k)))\<rparr>"

lemma mem_file_laws: "file_laws (mem_file_ops disk) fst snd"
  by (simp add: file_laws_def mem_file_ops_def split: prod.split)

section \<open>WorkInfo and the state of Data\<close>

record work_info =
  wi_cursor :: u64
  wi_size :: u32
  wi_curIndex :: u32

definition WorkInfo :: "u64 \<Rightarrow> u32 \<Rightarrow> u32 \<Rightarrow> work_info" where
  "WorkInfo cursor sz curIndex =
     \<lparr>wi_cursor = cursor, wi_size = sz, wi_curIndex = curIndex\<rparr>"

definition WorkInfo_default :: work_info where
  "WorkInfo_default = \<lparr>wi_cursor = 0, wi_size = 0, wi_curIndex = 0\<rparr>"

lemmas work_info_defs = WorkInfo_def WorkInfo_default_def

record 'f data_state =
  d_file :: 'f
  d_fileSize :: u64
  d_cursorPos :: u64
  d_chunkSize :: u32
  d_curIndex :: u32

definition Data_init :: "'f \<Rightarrow> 'f data_state" where
  "Data_init f = \<lparr>d_file = f, d_fileSize = 0, d_cursorPos = 0, d_chunkSize = 0, d_curIndex = 0\<rparr>"

section \<open>Operations\<close>

text \<open>\<open>fileSize > desiredChunkSize\<close> compares at 64 bits; \<open>chunkSize = fileSize\<close> narrows.\<close>

definition Data_LoadData :: "'f file_ops \<Rightarrow> u32 \<Rightarrow> u32 \<Rightarrow> 'f data_state \<Rightarrow> 'f data_state" where
  "Data_LoadData ops expectedClientCount desiredChunkSize d =
     (let f = f_Open ops (d_file d) ''Data.dat'';
          fileSize = f_GetSize ops f
      in d\<lparr>d_file := f, d_fileSize := fileSize,
           d_chunkSize := (if fileSize > ucast desiredChunkSize then desiredChunkSize
                           else ucast fileSize),
           d_cursorPos := 0\<rparr>)"

definition Data_GetChunkSize :: "'f data_state \<Rightarrow> u32" where
  "Data_GetChunkSize d = d_chunkSize d"

definition Data_GetFileSize :: "'f data_state \<Rightarrow> u64" where
  "Data_GetFileSize d = d_fileSize d"

text \<open>The result is the \<open>WorkInfo\<close>, the bytes \<open>Read\<close> stored into \<open>buffer\<close>, and the new
  state.  A default \<open>WorkInfo\<close> (size 0) means that there is no work.\<close>

definition Data_GetClientWork ::
  "'f file_ops \<Rightarrow> u32 \<Rightarrow> 'f data_state \<Rightarrow> work_info \<times> byte list \<times> 'f data_state" where
  "Data_GetClientWork ops buffSize d =
     (if buffSize < d_chunkSize d then (WorkInfo_default, [], d)
      else
        let (bs, f) = f_Read ops (d_file d) buffSize;
            readn = (of_nat (length bs) :: u32);
            d1 = d\<lparr>d_file := f\<rparr>
        in if readn \<noteq> 0 then
             let cur = d_cursorPos d + ucast readn
             in (WorkInfo cur readn (d_curIndex d), bs,
                 d1\<lparr>d_cursorPos := cur, d_curIndex := d_curIndex d + 1\<rparr>)
           else (WorkInfo_default, bs, d1))"

text \<open>\<open>MoveCursor\<close> takes a \<open>LONG\<close>: the 64-bit difference is narrowed to 32 bits.\<close>

definition Data_GetClientWorkPrev ::
  "'f file_ops \<Rightarrow> u32 \<Rightarrow> work_info \<Rightarrow> 'f data_state \<Rightarrow> work_info \<times> byte list \<times> 'f data_state"
where
  "Data_GetClientWorkPrev ops buffSize wi d =
     (let f1 = f_MoveCursor ops (d_file d) (ucast (d_cursorPos d - wi_cursor wi));
          (bs, f2) = f_Read ops f1 buffSize;
          f3 = f_MoveCursor ops f2 (ucast (wi_cursor wi - d_cursorPos d))
      in (wi, bs, d\<lparr>d_file := f3\<rparr>))"

text \<open>The functions the DLL exports act on its one global \<open>Data\<close> object.\<close>

definition DataInterp_LoadData :: "'f file_ops \<Rightarrow> u32 \<Rightarrow> u32 \<Rightarrow> 'f data_state \<Rightarrow> 'f data_state"
  where "DataInterp_LoadData = Data_LoadData"

definition DataInterp_GetFileSize :: "'f data_state \<Rightarrow> u64" where
  "DataInterp_GetFileSize = Data_GetFileSize"

definition DataInterp_GetChunkSize :: "'f data_state \<Rightarrow> u32" where
  "DataInterp_GetChunkSize = Data_GetChunkSize"

definition DataInterp_GetClientWork ::
  "'f file_ops \<Rightarrow> u32 \<Rightarrow> 'f data_state \<Rightarrow> work_info \<times> byte list \<times> 'f data_state" where
  "DataInterp_GetClientWork = Data_GetClientWork"

definition DataInterp_GetClientWorkPrev ::
  "'f file_ops \<Rightarrow> u32 \<Rightarrow> work_info \<Rightarrow> 'f data_state \<Rightarrow> work_info \<times> byte list \<times> 'f data_state"
  where "DataInterp_GetClientWorkPrev = Data_GetClientWorkPrev"

definition DataInterp_WAITTIME :: u32 where "DataInterp_WAITTIME = 15"
definition DataInterp_BUFFERSIZE :: u32 where "DataInterp_BUFFERSIZE = 16 * 1024"
definition DataInterp_ORDERED :: bool where "DataInterp_ORDERED = True"

lemmas DataInterp_defs = DataInterp_LoadData_def DataInterp_GetFileSize_def
  DataInterp_GetChunkSize_def DataInterp_GetClientWork_def DataInterp_GetClientWorkPrev_def

section \<open>Handing out the file\<close>

text \<open>
  \<open>data_at cont pos xs p i d\<close>: the file holds \<open>xs\<close>, \<open>p\<close> bytes of it and \<open>i\<close> chunks
  have been handed out, and the class's own counters agree with the file cursor.
\<close>

definition data_at ::
  "('f \<Rightarrow> byte list) \<Rightarrow> ('f \<Rightarrow> nat) \<Rightarrow> byte list \<Rightarrow> nat \<Rightarrow> nat \<Rightarrow> 'f data_state \<Rightarrow> bool" where
  "data_at cont pos xs p i d \<longleftrightarrow>
     cont (d_file d) = xs \<and> pos (d_file d) = p \<and> p \<le> length xs
     \<and> d_cursorPos d = of_nat p \<and> d_curIndex d = of_nat i"

lemma unat_length_slice_at:
  "unat (of_nat (length (slice_at p (unat (c :: u32)) xs)) :: u32) = length (slice_at p (unat c) xs)"
proof -
  have "length (slice_at p (unat c) xs) \<le> unat c" by (simp add: slice_at_def)
  also have "unat c < 2 ^ 32" by (rule u32_bound)
  finally show ?thesis by (simp add: unat_of_nat_small)
qed

lemma GetClientWork_more:
  assumes "file_laws ops cont pos" and "data_at cont pos xs p i d"
    and "p < length xs" and "d_chunkSize d \<noteq> 0"
  defines "bs \<equiv> slice_at p (unat (d_chunkSize d)) xs"
  obtains d' where
    "Data_GetClientWork ops (d_chunkSize d) d =
      (WorkInfo (of_nat (p + length bs)) (of_nat (length bs)) (of_nat i), bs, d')"
    and "data_at cont pos xs (p + length bs) (Suc i) d'" and "d_chunkSize d' = d_chunkSize d"
proof -
  let ?n = "of_nat (length bs) :: u32"
  obtain f where f: "f_Read ops (d_file d) (d_chunkSize d) = (bs, f)"
    "pos f = p + length bs" "cont f = xs"
  proof (cases "f_Read ops (d_file d) (d_chunkSize d)")
    case (Pair b f)
    with assms(2) file_laws_read [OF assms(1) Pair] show ?thesis
      by (intro that [of f]) (simp_all add: bs_def data_at_def)
  qed
  have len: "unat ?n = length bs"
    unfolding bs_def by (rule unat_length_slice_at)
  have "unat (d_chunkSize d) \<noteq> 0" using assms(4) by (simp add: unat_eq_zero)
  then have "bs \<noteq> []" using assms(3) by (simp add: bs_def slice_at_def)
  with len have n0: "?n \<noteq> 0" by (metis length_0_conv unat_0)
  have uc: "ucast ?n = (of_nat (length bs) :: u64)"
    using len by (metis of_nat_unat)
  have le: "p + length bs \<le> length xs" using assms(3) by (simp add: bs_def slice_at_def)
  show ?thesis
    using assms(2) f n0 uc le
    by (intro that [of "d\<lparr>d_file := f, d_cursorPos := of_nat (p + length bs), d_curIndex := of_nat (Suc i)\<rparr>"])
      (simp_all add: Data_GetClientWork_def data_at_def Let_def add.commute)
qed

lemma GetClientWork_end:
  assumes "file_laws ops cont pos" and "data_at cont pos xs (length xs) i d"
  obtains d' where "Data_GetClientWork ops (d_chunkSize d) d = (WorkInfo_default, [], d')"
    and "data_at cont pos xs (length xs) i d'" and "d_chunkSize d' = d_chunkSize d"
proof -
  obtain f where "f_Read ops (d_file d) (d_chunkSize d) = ([], f)"
    and "pos f = length xs" and "cont f = xs"
    using assms file_laws_read [OF assms(1)]
    by (metis add_cancel_left_right data_at_def drop_all list.size(3) order_refl prod.collapse
        slice_at_def take_Nil)
  then show ?thesis
    using assms(2)
    by (intro that [of "d\<lparr>d_file := f\<rparr>"]) (auto simp: Data_GetClientWork_def data_at_def)
qed

text \<open>\<open>n\<close> successive requests with a buffer of exactly one chunk, as \<open>GiveNewWork\<close> makes.\<close>

fun hand_out ::
  "'f file_ops \<Rightarrow> nat \<Rightarrow> 'f data_state \<Rightarrow> (work_info \<times> byte list) list \<times> 'f data_state" where
  "hand_out ops 0 d = ([], d)"
| "hand_out ops (Suc n) d =
     (let (wi, bs, d1) = DataInterp_GetClientWork ops (DataInterp_GetChunkSize d) d;
          (rest, d2) = hand_out ops n d1
      in ((wi, bs) # rest, d2))"

definition chunk_work :: "nat \<Rightarrow> nat \<Rightarrow> byte list \<Rightarrow> work_info \<times> byte list" where
  "chunk_work c k xs =
     (let bs = slice_at (k * c) c xs
      in (if bs = [] then WorkInfo_default
          else WorkInfo (of_nat (k * c + length bs)) (of_nat (length bs)) (of_nat k), bs))"

lemma chunk_work_past_end: "length xs \<le> k * c \<Longrightarrow> chunk_work c k xs = (WorkInfo_default, [])"
  by (simp add: chunk_work_def slice_at_def)

lemma hand_out_at:
  assumes "file_laws ops cont pos" and "d_chunkSize d \<noteq> 0"
    and "data_at cont pos xs (min (k * c) (length xs)) (if k * c < length xs then k else m) d"
    and "c = unat (d_chunkSize d)"
  shows "fst (hand_out ops n d) = map (\<lambda>j. chunk_work c j xs) [k..<k + n]"
  using assms(2-)
proof (induction n arbitrary: k m d)
  case 0
  then show ?case by simp
next
  case (Suc n)
  note prems = Suc.prems(1-3)
  have c: "0 < c" using prems by (metis unat_gt_0)
  have upt: "[k..<k + Suc n] = k # [Suc k..<Suc k + n]"
    by (simp add: upt_rec)
  let ?bs = "slice_at (k * c) c xs"
  show ?case
  proof (cases "k * c < length xs")
    case True
    then have at: "data_at cont pos xs (k * c) k d" and ne: "?bs \<noteq> []"
      using prems c by (auto simp: slice_at_def)
    obtain d' where step: "Data_GetClientWork ops (d_chunkSize d) d =
        (WorkInfo (of_nat (k * c + length ?bs)) (of_nat (length ?bs)) (of_nat k), ?bs, d')"
      and at': "data_at cont pos xs (k * c + length ?bs) (Suc k) d'"
      and ch: "d_chunkSize d' = d_chunkSize d"
      using GetClientWork_more [OF assms(1) at True prems(1)] prems(3) by metis
    have "k * c + length ?bs = min (Suc k * c) (length xs)"
      using True by (auto simp: slice_at_def min_def)
    then have "fst (hand_out ops n d') = map (\<lambda>j. chunk_work c j xs) [Suc k..<Suc k + n]"
      using at' ch prems by (intro Suc.IH [where m = "Suc k"]) auto
    moreover have "fst (hand_out ops (Suc n) d) = chunk_work c k xs # fst (hand_out ops n d')"
      using step ne
      by (simp add: DataInterp_defs Data_GetChunkSize_def chunk_work_def Let_def split: prod.split)
    ultimately show ?thesis unfolding upt by simp
  next
    case False
    then have "min (k * c) (length xs) = length xs" by simp
    with False have at: "data_at cont pos xs (length xs) m d" using prems by simp
    obtain d' where step: "Data_GetClientWork ops (d_chunkSize d) d = (WorkInfo_default, [], d')"
      and at': "data_at cont pos xs (length xs) m d'" and ch: "d_chunkSize d' = d_chunkSize d"
      using GetClientWork_end [OF assms(1) at] by metis
    have le: "length xs \<le> Suc k * c" using False by (simp add: trans_le_add2)
    then have "fst (hand_out ops n d') = map (\<lambda>j. chunk_work c j xs) [Suc k..<Suc k + n]"
      using at' ch prems by (intro Suc.IH [where m = m]) (auto simp: min_def)
    moreover have "fst (hand_out ops (Suc n) d) = chunk_work c k xs # fst (hand_out ops n d')"
      using step False
      by (simp add: DataInterp_defs Data_GetChunkSize_def chunk_work_past_end split: prod.split)
    ultimately show ?thesis unfolding upt by simp
  qed
qed

lemma concat_chunks: "concat (map (\<lambda>j. slice_at (j * c) c xs) [0..<n]) = take (n * c) xs"
proof (induction n)
  case (Suc n)
  have "take (n * c) xs @ slice_at (n * c) c xs = take (Suc n * c) xs"
    by (simp add: slice_at_def take_add add.commute [of c])
  with Suc show ?case by simp
qed simp

lemma LoadData_at:
  assumes "file_laws ops cont pos" and "d_curIndex d0 = 0" and "desired \<noteq> 0"
    and d1_def: "d1 = Data_LoadData ops ec desired d0"
    and "cont (d_file d1) \<noteq> []" and "length (cont (d_file d1)) < 2 ^ 64"
  shows "data_at cont pos (cont (d_file d1)) 0 0 d1" and "d_chunkSize d1 \<noteq> 0"
    and "unat (d_chunkSize d1) \<le> length (cont (d_file d1))"
proof -
  let ?xs = "cont (d_file d1)"
  let ?size = "of_nat (length ?xs) :: u64"
  have size: "f_GetSize ops (d_file d1) = ?size" and "pos (d_file d1) = 0"
    using assms(1) by (simp_all add: file_laws_def d1_def Data_LoadData_def Let_def)
  then show "data_at cont pos ?xs 0 0 d1"
    using assms(2) by (simp add: data_at_def d1_def Data_LoadData_def Let_def)
  have un: "unat ?size = length ?xs" using assms(6) by (simp add: unat_of_nat_small)
  have ch: "d_chunkSize d1 = (if ?size > ucast desired then desired else ucast ?size)"
    using size by (simp add: d1_def Data_LoadData_def Let_def)
  have small: "unat (ucast ?size :: u32) = length ?xs" if "\<not> ?size > ucast desired"
  proof -
    have "unat ?size \<le> unat desired" using that by (simp add: not_less word_le_nat_alt)
    also have "unat desired < 2 ^ 32" by (rule u32_bound)
    finally show ?thesis using un by (simp add: unsigned_ucast_eq take_bit_nat_eq_self)
  qed
  show "d_chunkSize d1 \<noteq> 0"
    using ch small assms(3,5) by (metis length_0_conv unat_0)
  show "unat (d_chunkSize d1) \<le> length ?xs"
    using ch small un by (auto simp: word_less_nat_alt)
qed

text \<open>C16: the data file is handed out completely, in order and without overlap.  After
  \<open>LoadData\<close> of a nonempty file, \<open>n\<close> successive requests of one chunk return the file's
  consecutive chunks \<open>0, 1, ..., n - 1\<close>, each with its index, its length and the file offset
  where it ends, and a work item of size 0 once the file is exhausted; their bytes
  concatenate to the first \<open>n\<close> chunks of the file, so \<open>n\<close> requests with \<open>n * c\<close> at least
  the file size hand out every byte exactly once.\<close>

theorem data_hands_out_file:
  assumes "file_laws ops cont pos" and "d_curIndex d0 = 0" and "desired \<noteq> 0"
    and "d1 = DataInterp_LoadData ops ec desired d0" and "xs = cont (d_file d1)"
    and "xs \<noteq> []" and "length xs < 2 ^ 64" and "c = unat (DataInterp_GetChunkSize d1)"
  shows "fst (hand_out ops n d1) = map (\<lambda>k. chunk_work c k xs) [0..<n]
    \<and> concat (map snd (fst (hand_out ops n d1))) = take (n * c) xs
    \<and> 0 < c \<and> c \<le> length xs"
proof -
  note d1 = assms(4) [unfolded DataInterp_defs]
  have at: "data_at cont pos xs 0 0 d1" and ch: "d_chunkSize d1 \<noteq> 0" "unat (d_chunkSize d1) \<le> length xs"
    using LoadData_at [OF assms(1-3), where ec = ec] assms(5-7) d1 by simp_all
  have c: "c = unat (d_chunkSize d1)"
    using assms(8) by (simp add: DataInterp_defs Data_GetChunkSize_def)
  have out: "fst (hand_out ops n d1) = map (\<lambda>k. chunk_work c k xs) [0..<n]"
    using hand_out_at [OF assms(1) ch(1), of xs 0 c 0 n] at c assms(6) by simp
  then have "concat (map snd (fst (hand_out ops n d1)))
      = concat (map (\<lambda>k. slice_at (k * c) c xs) [0..<n])"
    by (simp add: comp_def chunk_work_def Let_def)
  then show ?thesis
    using out c ch by (simp add: concat_chunks unat_gt_0)
qed

theorem data_hands_out_file_witness:
  "concat (map snd (fst (hand_out (mem_file_ops [1,2,3,4,5]) 3
     (DataInterp_LoadData (mem_file_ops [1,2,3,4,5]) 1 2 (Data_init ([], 0)))))) = [1,2,3,4,5]"
proof -
  let ?ops = "mem_file_ops [1,2,3,4,5]"
  let ?d = "DataInterp_LoadData ?ops 1 2 (Data_init ([], 0))"
  have 1: "d_curIndex (Data_init ([] :: byte list, 0 :: nat)) = 0" and 2: "(2 :: u32) \<noteq> 0"
    by (simp_all add: Data_init_def)
  have xs: "fst (d_file ?d) = [1,2,3,4,5]" and c: "unat (DataInterp_GetChunkSize ?d) = 2"
    by (simp_all add: DataInterp_defs Data_LoadData_def Data_GetChunkSize_def mem_file_ops_def
        Data_init_def)
  then have 3: "fst (d_file ?d) \<noteq> []" and 4: "length (fst (d_file ?d)) < 2 ^ 64" by simp_all
  have "concat (map snd (fst (hand_out ?ops 3 ?d))) = take (3 * 2) [1,2,3,4,5]"
    using data_hands_out_file [OF mem_file_laws 1 2 refl refl 3 4 refl, of 3]
    unfolding xs c by blast
  then show ?thesis by simp
qed

lemma sint_narrow_diff:
  fixes p q :: nat
  assumes "q \<le> p" and "p - q < 2 ^ 31"
  shows "sint (ucast (of_nat p - of_nat q :: u64) :: u32) = int (p - q)"
    and "sint (ucast (of_nat q - of_nat p :: u64) :: u32) = - int (p - q)"
proof -
  have narrow: "(ucast (word_of_int k :: u64) :: u32) = word_of_int k" for k
    by (simp add: unsigned_of_int word_of_int_eq_iff)
  have small: "sint (word_of_int k :: u32) = k" if "- (2 ^ 31) \<le> k" "k < 2 ^ 31" for k
    using that by (simp add: signed_of_int signed_take_bit_int_eq_self)
  have "int p - int q = int (p - q)" and "int q - int p = - int (p - q)"
    using assms(1) by simp_all
  then have "(of_nat p - of_nat q :: u64) = word_of_int (int (p - q))"
    and "(of_nat q - of_nat p :: u64) = word_of_int (- int (p - q))"
    by (metis of_int_diff of_int_of_nat_eq)+
  moreover have "int (p - q) < 2 ^ 31" using assms(2) by simp
  ultimately show "sint (ucast (of_nat p - of_nat q :: u64) :: u32) = int (p - q)"
    and "sint (ucast (of_nat q - of_nat p :: u64) :: u32) = - int (p - q)"
    using small [of "int (p - q)"] small [of "- int (p - q)"] by (simp_all only: narrow)
qed

text \<open>C36: \<open>GetClientWorkPrev\<close> reads ahead instead of back.  When \<open>p\<close> bytes have been handed
  out and \<open>wi\<close> ends at offset \<open>q\<close>, it reads from offset \<open>p + (p - q)\<close>, that is at or after the
  end of everything handed out, never a byte of the chunk \<open>wi\<close> names; it returns \<open>wi\<close>
  unchanged, and it leaves the file cursor ahead of \<open>cursorPos\<close> by the number of bytes read,
  so that those bytes are missing from the work handed out afterwards.\<close>

theorem data_prev_reads_ahead:
  assumes "file_laws ops cont pos" and "data_at cont pos xs p i d"
    and "wi_cursor wi = of_nat q" and "q \<le> p" and "p - q < 2 ^ 31"
    and "DataInterp_GetClientWorkPrev ops buffSize wi d = (w, bs, d')"
  shows "w = wi \<and> bs = slice_at (p + (p - q)) (unat buffSize) xs
    \<and> pos (d_file d') = p + length bs \<and> d_cursorPos d' = of_nat p \<and> cont (d_file d') = xs"
proof -
  let ?k = "ucast (d_cursorPos d - wi_cursor wi) :: u32"
  let ?f1 = "f_MoveCursor ops (d_file d) ?k"
  have f: "cont (d_file d) = xs" "pos (d_file d) = p" "d_cursorPos d = of_nat p"
    using assms(2) by (simp_all add: data_at_def)
  have "sint ?k = int (p - q)"
    and rewind: "sint (ucast (wi_cursor wi - d_cursorPos d) :: u32) = - int (p - q)"
    using sint_narrow_diff [OF assms(4,5)] assms(3) f(3) by simp_all
  then have f1: "pos ?f1 = p + (p - q)" "cont ?f1 = xs"
    using file_laws_move [OF assms(1), of "d_file d" ?k] f by auto
  obtain bs' f2 where r: "f_Read ops ?f1 buffSize = (bs', f2)" by fastforce
  have f2: "bs' = slice_at (p + (p - q)) (unat buffSize) xs" "pos f2 = p + (p - q) + length bs'"
    "cont f2 = xs"
    using file_laws_read [OF assms(1) r] f1 by simp_all
  have "int (pos f2) - int (p - q) = int (p + length bs')" using f2(2) by simp
  then have f3: "pos (f_MoveCursor ops f2 (ucast (wi_cursor wi - d_cursorPos d))) = p + length bs'"
    "cont (f_MoveCursor ops f2 (ucast (wi_cursor wi - d_cursorPos d))) = xs"
    using file_laws_move [OF assms(1), of f2 "ucast (wi_cursor wi - d_cursorPos d)"] rewind f2(3)
    by simp_all
  show ?thesis
    using assms(6) r f2(1) f3 f
    by (auto simp: DataInterp_defs Data_GetClientWorkPrev_def Let_def)
qed

text \<open>On a 16-byte file of which the chunks at 0 and 4 were handed out, resending the first
  one (it ends at 4) reads bytes 12 to 15.\<close>

theorem data_prev_reads_ahead_witness:
  "fst (snd (DataInterp_GetClientWorkPrev (mem_file_ops [0,1,2,3,4,5,6,7,8,9,10,11,12,13,14,15]) 4
     (WorkInfo 4 4 0)
     \<lparr>d_file = ([0,1,2,3,4,5,6,7,8,9,10,11,12,13,14,15], 8), d_fileSize = 16, d_cursorPos = 8,
      d_chunkSize = 4, d_curIndex = 2\<rparr>)) = [12,13,14,15]"
proof -
  let ?xs = "[0,1,2,3,4,5,6,7,8,9,10,11,12,13,14,15] :: byte list"
  let ?d = "\<lparr>d_file = (?xs, 8 :: nat), d_fileSize = 16, d_cursorPos = 8, d_chunkSize = 4, d_curIndex = 2\<rparr>"
  have 1: "data_at fst snd ?xs 8 2 ?d" by (simp add: data_at_def)
  have 2: "wi_cursor (WorkInfo 4 4 0) = of_nat 4" by (simp add: WorkInfo_def)
  have 3: "(4 :: nat) \<le> 8" and 4: "(8 :: nat) - 4 < 2 ^ 31" by simp_all
  obtain w bs d' where g: "DataInterp_GetClientWorkPrev (mem_file_ops ?xs) 4 (WorkInfo 4 4 0) ?d
      = (w, bs, d')" by (meson prod_cases3)
  have "bs = slice_at (8 + (8 - 4)) (unat (4 :: u32)) ?xs"
    using data_prev_reads_ahead [OF mem_file_laws 1 2 3 4 g] by blast
  then have "bs = [12,13,14,15]" by (simp add: slice_at_def)
  with g show ?thesis by simp
qed

end
