(* ===== verification/WorkMap.thy ===== *)
theory WorkMap
  imports DataSource
begin

text \<open>
  \<open>Server/ClientWorkMap.cpp\<close>: the work each client is processing.  The
  \<open>std::unordered_map<ClientData*, WorkInfo>\<close> is an association list with distinct keys,
  in an order no operation reveals; a \<open>ClientData*\<close> is a number, its address.  Every
  operation but \<open>Empty\<close> runs under the class's mutex, so each is one atomic step.

  The interface the server relies on is the locale \<open>work_table\<close>: a partial map from
  clients to work.  The concrete operations are its interpretation \<open>wm\<close>.
\<close>

section \<open>The operations\<close>

type_synonym client = nat
type_synonym work_map = "(client \<times> work_info) list"

definition ClientWorkMap_init :: work_map where
  "ClientWorkMap_init = []"

text \<open>\<open>emplace\<close> leaves an existing entry alone.\<close>

definition ClientWorkMap_Add :: "client \<Rightarrow> u64 \<Rightarrow> u32 \<Rightarrow> u32 \<Rightarrow> work_map \<Rightarrow> work_map" where
  "ClientWorkMap_Add clint cursorPos dataSize dataIndex m =
     (case map_of m clint of
        None \<Rightarrow> (clint, WorkInfo cursorPos dataSize dataIndex) # m
      | Some _ \<Rightarrow> m)"

text \<open>\<open>it->second = wi\<close> on the entry \<open>find\<close> returned.\<close>

fun assign_entry :: "client \<Rightarrow> work_info \<Rightarrow> work_map \<Rightarrow> work_map" where
  "assign_entry clint wi [] = []"
| "assign_entry clint wi ((k, v) # m) =
     (if k = clint then (k, wi) # m else (k, v) # assign_entry clint wi m)"

definition ClientWorkMap_Change :: "client \<Rightarrow> work_info \<Rightarrow> work_map \<Rightarrow> work_map" where
  "ClientWorkMap_Change clint wi m =
     (case map_of m clint of
        Some _ \<Rightarrow> assign_entry clint wi m
      | None \<Rightarrow> (clint, wi) # m)"

definition erase_entry :: "client \<Rightarrow> work_map \<Rightarrow> work_map" where
  "erase_entry clint m = filter (\<lambda>(k, _). k \<noteq> clint) m"

definition ClientWorkMap_Remove :: "client \<Rightarrow> work_map \<Rightarrow> bool \<times> work_map" where
  "ClientWorkMap_Remove clint m = (map_of m clint \<noteq> None, erase_entry clint m)"

text \<open>The out-parameter \<open>work\<close> is written only when \<open>true\<close> is returned.\<close>

definition ClientWorkMap_GetClientWork :: "client \<Rightarrow> work_map \<Rightarrow> work_info option \<times> work_map" where
  "ClientWorkMap_GetClientWork clint m =
     (case map_of m clint of
        Some wi \<Rightarrow> (Some wi, erase_entry clint m)
      | None \<Rightarrow> (None, m))"

definition ClientWorkMap_Empty :: "work_map \<Rightarrow> bool" where
  "ClientWorkMap_Empty m \<longleftrightarrow> m = []"

lemmas ClientWorkMap_defs = ClientWorkMap_init_def ClientWorkMap_Add_def
  ClientWorkMap_Change_def ClientWorkMap_Remove_def ClientWorkMap_GetClientWork_def
  ClientWorkMap_Empty_def

section \<open>The interface\<close>

locale work_table =
  fixes empty :: "'m"
    and change :: "'c \<Rightarrow> 'w \<Rightarrow> 'm \<Rightarrow> 'm"
    and remove :: "'c \<Rightarrow> 'm \<Rightarrow> bool \<times> 'm"
    and get :: "'c \<Rightarrow> 'm \<Rightarrow> 'w option \<times> 'm"
    and is_empty :: "'m \<Rightarrow> bool"
    and lookup :: "'m \<Rightarrow> 'c \<Rightarrow> 'w option"
    and invar :: "'m \<Rightarrow> bool"
  assumes invar_empty: "invar empty"
    and lookup_empty: "lookup empty = Map.empty"
    and invar_change: "invar m \<Longrightarrow> invar (change c w m)"
    and lookup_change: "invar m \<Longrightarrow> lookup (change c w m) = (lookup m)(c \<mapsto> w)"
    and invar_remove: "invar m \<Longrightarrow> invar (snd (remove c m))"
    and lookup_remove: "invar m \<Longrightarrow> lookup (snd (remove c m)) = (lookup m)(c := None)"
    and remove_result: "invar m \<Longrightarrow> fst (remove c m) \<longleftrightarrow> lookup m c \<noteq> None"
    and invar_get: "invar m \<Longrightarrow> invar (snd (get c m))"
    and lookup_get: "invar m \<Longrightarrow> lookup (snd (get c m)) = (lookup m)(c := None)"
    and get_result: "invar m \<Longrightarrow> fst (get c m) = lookup m c"
    and is_empty_iff: "invar m \<Longrightarrow> is_empty m \<longleftrightarrow> lookup m = Map.empty"
begin

lemma get_after_change:
  "invar m \<Longrightarrow> fst (get c (change d w m)) = (if c = d then Some w else lookup m c)"
  by (simp add: get_result invar_change lookup_change)

lemma get_at_most_once: "invar m \<Longrightarrow> fst (get c (snd (get c m))) = None"
  by (simp add: get_result invar_get lookup_get)

lemma get_after_remove: "invar m \<Longrightarrow> fst (get c (snd (remove c m))) = None"
  by (simp add: get_result invar_remove lookup_remove)

lemma get_other: "invar m \<Longrightarrow> c \<noteq> d \<Longrightarrow> fst (get c (snd (get d m))) = fst (get c m)"
  by (simp add: get_result invar_get lookup_get)

lemma not_empty_after_change: "invar m \<Longrightarrow> \<not> is_empty (change c w m)"
  by (simp add: is_empty_iff invar_change lookup_change)

end

section \<open>The class implements the interface\<close>

definition ClientWorkMap_inv :: "work_map \<Rightarrow> bool" where
  "ClientWorkMap_inv m \<longleftrightarrow> distinct (map fst m)"

lemma map_fst_assign_entry [simp]: "map fst (assign_entry c w m) = map fst m"
  by (induction c w m rule: assign_entry.induct) auto

lemma map_of_assign_entry:
  "map_of m c \<noteq> None \<Longrightarrow> map_of (assign_entry c w m) = (map_of m)(c \<mapsto> w)"
  by (induction c w m rule: assign_entry.induct) (auto split: if_splits)

lemma map_of_erase_entry: "map_of (erase_entry c m) = (map_of m)(c := None)"
  unfolding erase_entry_def by (induction m) (auto simp: fun_eq_iff)

lemma erase_entry_absent: "map_of m c = None \<Longrightarrow> erase_entry c m = m"
  unfolding erase_entry_def by (induction m) (auto split: if_splits)

lemma distinct_erase_entry: "distinct (map fst m) \<Longrightarrow> distinct (map fst (erase_entry c m))"
  unfolding erase_entry_def by (induction m) auto

lemma map_of_empty_iff: "map_of m = Map.empty \<longleftrightarrow> m = []"
  by (cases m) (auto simp: fun_eq_iff)

lemma ClientWorkMap_inv_Add: "ClientWorkMap_inv m \<Longrightarrow> ClientWorkMap_inv (ClientWorkMap_Add c p s i m)"
  by (auto simp: ClientWorkMap_inv_def ClientWorkMap_Add_def map_of_eq_None_iff split: option.split)

lemma map_of_Add:
  "map_of (ClientWorkMap_Add c p s i m) =
    (if map_of m c = None then (map_of m)(c \<mapsto> WorkInfo p s i) else map_of m)"
  by (auto simp: ClientWorkMap_Add_def split: option.split)

interpretation wm: work_table
  ClientWorkMap_init ClientWorkMap_Change ClientWorkMap_Remove ClientWorkMap_GetClientWork
  ClientWorkMap_Empty map_of ClientWorkMap_inv
proof (unfold_locales, goal_cases)
  case (3 m c w)
  then show ?case
    by (auto simp: ClientWorkMap_Change_def ClientWorkMap_inv_def map_of_eq_None_iff
        split: option.split)
next
  case (4 m c w)
  then show ?case
    by (auto simp: ClientWorkMap_Change_def map_of_assign_entry split: option.split)
next
  case (8 m c)
  then show ?case
    by (auto simp: ClientWorkMap_GetClientWork_def ClientWorkMap_inv_def distinct_erase_entry
        split: option.split)
next
  case (9 m c)
  then show ?case
    by (auto simp: ClientWorkMap_GetClientWork_def map_of_erase_entry fun_eq_iff
        split: option.split)
qed (auto simp: ClientWorkMap_defs ClientWorkMap_inv_def distinct_erase_entry map_of_erase_entry
    map_of_empty_iff split: option.split)

lemmas wm_laws = wm.invar_change wm.lookup_change wm.invar_remove wm.lookup_remove
  wm.remove_result wm.invar_get wm.lookup_get wm.get_result wm.is_empty_iff

section \<open>Runs of operations against partial maps\<close>

datatype wm_op =
    OpAdd client u64 u32 u32
  | OpChange client work_info
  | OpRemove client
  | OpGet client

datatype wm_out = OutUnit | OutBool bool | OutWork "work_info option"

fun wm_step :: "wm_op \<Rightarrow> work_map \<Rightarrow> wm_out \<times> work_map" where
  "wm_step (OpAdd c p s i) m = (OutUnit, ClientWorkMap_Add c p s i m)"
| "wm_step (OpChange c w) m = (OutUnit, ClientWorkMap_Change c w m)"
| "wm_step (OpRemove c) m = (let (b, m') = ClientWorkMap_Remove c m in (OutBool b, m'))"
| "wm_step (OpGet c) m = (let (w, m') = ClientWorkMap_GetClientWork c m in (OutWork w, m'))"

fun wm_spec :: "wm_op \<Rightarrow> (client \<rightharpoonup> work_info) \<Rightarrow> wm_out \<times> (client \<rightharpoonup> work_info)" where
  "wm_spec (OpAdd c p s i) f =
     (OutUnit, if f c = None then f(c \<mapsto> WorkInfo p s i) else f)"
| "wm_spec (OpChange c w) f = (OutUnit, f(c \<mapsto> w))"
| "wm_spec (OpRemove c) f = (OutBool (c \<in> dom f), f(c := None))"
| "wm_spec (OpGet c) f = (OutWork (f c), f(c := None))"

fun wm_run :: "('o \<Rightarrow> 's \<Rightarrow> 'r \<times> 's) \<Rightarrow> 'o list \<Rightarrow> 's \<Rightarrow> 'r list \<times> 's" where
  "wm_run step [] s = ([], s)"
| "wm_run step (x # xs) s =
     (let (r, s1) = step x s; (rs, s2) = wm_run step xs s1 in (r # rs, s2))"

lemma wm_step_refines:
  assumes "ClientWorkMap_inv m"
  shows "ClientWorkMap_inv (snd (wm_step x m))"
    and "wm_spec x (map_of m) = (fst (wm_step x m), map_of (snd (wm_step x m)))"
  using assms
  by (cases x; simp add: wm_laws ClientWorkMap_inv_Add map_of_Add domIff case_prod_beta;
      metis wm.lookup_remove wm.remove_result wm.lookup_get wm.get_result prod.collapse)+

lemma wm_run_refines:
  assumes "ClientWorkMap_inv m"
  shows "wm_run wm_spec xs (map_of m) =
      (fst (wm_run wm_step xs m), map_of (snd (wm_run wm_step xs m)))
    \<and> ClientWorkMap_inv (snd (wm_run wm_step xs m))"
  using assms
proof (induction xs arbitrary: m)
  case (Cons x xs)
  then show ?case
    using wm_step_refines [OF Cons.prems, of x] Cons.IH [of "snd (wm_step x m)"]
    by (simp add: case_prod_beta)
qed simp

text \<open>C24: the client work map behaves as a partial map from clients to work.  From the empty
  map, any sequence of \<open>Add\<close>, \<open>Change\<close>, \<open>Remove\<close> and \<open>GetClientWork\<close> returns exactly what
  the same sequence returns on partial maps (an \<open>Add\<close> keeps an existing entry, a \<open>Change\<close>
  overwrites it, a \<open>Remove\<close> tells whether there was one, a \<open>GetClientWork\<close> hands the entry
  out and removes it, so that no work is handed out twice), it keeps one entry per client,
  and \<open>Empty\<close> tells whether any client has work.\<close>

theorem work_map_refines:
  "wm_run wm_spec xs Map.empty =
      (fst (wm_run wm_step xs ClientWorkMap_init), map_of (snd (wm_run wm_step xs ClientWorkMap_init)))
    \<and> distinct (map fst (snd (wm_run wm_step xs ClientWorkMap_init)))
    \<and> (ClientWorkMap_Empty (snd (wm_run wm_step xs ClientWorkMap_init))
        \<longleftrightarrow> snd (wm_run wm_spec xs Map.empty) = Map.empty)"
  using wm_run_refines [OF wm.invar_empty, of xs]
  by (simp add: wm.lookup_empty wm.is_empty_iff ClientWorkMap_inv_def [symmetric])

end
