(* ===== verification/Performance.thy ===== *)
theory Performance
  imports Complex_Main Base
begin

text \<open>
  \<open>Server/StandardDeviation.cpp\<close> and \<open>Server/PerformanceModel.cpp\<close>: the running mean and
  standard deviation of the clients' response times, updated once per batch of \<open>maxResults\<close>
  samples, and the classification of a response as fast, normal or too slow.

  A \<open>float\<close> or \<open>double\<close> is a real number; where the source rounds, the model applies a
  rounding function: \<open>r32\<close> where a value is stored in a \<open>float\<close>, \<open>r64\<close> after each
  \<open>double\<close> operation.  Both are parameters (they belong to the hardware).  What the
  classes compute when no operation rounds is the instance \<open>r32 = r64 = id\<close>; facts about
  which state changes when hold for all roundings.
\<close>

section \<open>StandardDeviation\<close>

record calc_data =
  cd_mean :: real
  cd_sd :: real

record std_dev =
  sd_mean :: real
  sd_sqDiff :: real
  sd_sd :: real
  sd_resultCount :: u64
  sd_maxResults :: u32
  sd_oldDiffs :: "real list"
  sd_times :: "real list"

definition StandardDeviation_init :: "u32 \<Rightarrow> std_dev" where
  "StandardDeviation_init maxResults =
     \<lparr>sd_mean = 0, sd_sqDiff = 0, sd_sd = 0, sd_resultCount = 0, sd_maxResults = maxResults,
      sd_oldDiffs = replicate (unat maxResults) 0, sd_times = []\<rparr>"

text \<open>\<open>for (...) sum += oldDiffs[i] = times[i] - mean;\<close>\<close>

definition diff_loop ::
  "(real \<Rightarrow> real) \<Rightarrow> (real \<Rightarrow> real) \<Rightarrow> real \<Rightarrow> real list \<Rightarrow> real \<times> real list" where
  "diff_loop r32 r64 mean ts =
     fold (\<lambda>t (sum, ds). let d = r32 (r64 (t - mean)) in (r64 (sum + d), ds @ [d])) ts (0, [])"

text \<open>\<open>for (...) sum += (times[i] - mean) * oldDiffs[i];\<close>\<close>

definition sq_loop :: "(real \<Rightarrow> real) \<Rightarrow> real \<Rightarrow> real list \<Rightarrow> real list \<Rightarrow> real" where
  "sq_loop r64 mean ts ds =
     fold (\<lambda>(t, d) sum. r64 (sum + r64 (r64 (t - mean) * d))) (zip ts ds) 0"

text \<open>The body of the \<open>if\<close>: one full batch is absorbed.\<close>

definition absorb_batch :: "(real \<Rightarrow> real) \<Rightarrow> (real \<Rightarrow> real) \<Rightarrow> u32 \<Rightarrow> std_dev \<Rightarrow> std_dev" where
  "absorb_batch r32 r64 nResults s =
     (let resultCount = sd_resultCount s + ucast nResults;
          n = r64 (real (unat resultCount));
          (sum1, ds) = diff_loop r32 r64 (sd_mean s) (sd_times s);
          mean = r64 (sd_mean s + r64 (sum1 / n));
          sum2 = sq_loop r64 mean (sd_times s) ds;
          sqDiff = r64 (sd_sqDiff s + sum2)
      in s\<lparr>sd_resultCount := resultCount, sd_oldDiffs := ds, sd_mean := mean,
           sd_sqDiff := sqDiff, sd_sd := r64 (sqrt (r64 (sqDiff / n))), sd_times := []\<rparr>)"

definition StandardDeviation_Calculate ::
  "(real \<Rightarrow> real) \<Rightarrow> (real \<Rightarrow> real) \<Rightarrow> real \<Rightarrow> std_dev \<Rightarrow> calc_data \<times> std_dev" where
  "StandardDeviation_Calculate r32 r64 result s =
     (let s1 = s\<lparr>sd_times := sd_times s @ [result]\<rparr>;
          nResults = (of_nat (length (sd_times s1)) :: u32);
          s2 = (if nResults = sd_maxResults s1 then absorb_batch r32 r64 nResults s1 else s1)
      in (\<lparr>cd_mean = sd_mean s2, cd_sd = sd_sd s2\<rparr>, s2))"

definition StandardDeviation_GetMaxResults :: "std_dev \<Rightarrow> u32" where
  "StandardDeviation_GetMaxResults s = sd_maxResults s"

section \<open>PerformanceModel\<close>

datatype perf_status = FAST | NORMAL | TOOSLOW

record perf_model =
  pm_sd :: std_dev
  pm_nSDHigh :: u32
  pm_nSDLow :: u32

text \<open>The member \<open>sd\<close> is default-constructed: batches of 1000.  \<open>ClientQueue\<close> uses the
  default arguments 2 and 4.\<close>

definition PerformanceModel_init :: "u32 \<Rightarrow> u32 \<Rightarrow> perf_model" where
  "PerformanceModel_init nSDHigh nSDLow =
     \<lparr>pm_sd = StandardDeviation_init 1000, pm_nSDHigh = nSDHigh, pm_nSDLow = nSDLow\<rparr>"

definition PerformanceModel_EvaluateTime ::
  "(real \<Rightarrow> real) \<Rightarrow> (real \<Rightarrow> real) \<Rightarrow> real \<Rightarrow> perf_model \<Rightarrow> perf_status \<times> perf_model" where
  "PerformanceModel_EvaluateTime r32 r64 time pm =
     (let (data, sd) = StandardDeviation_Calculate r32 r64 time (pm_sd pm);
          pm' = pm\<lparr>pm_sd := sd\<rparr>
      in if cd_mean data = 0 then (NORMAL, pm')
         else if time \<le> r64 (cd_mean data - r64 (cd_sd data * real (unat (pm_nSDHigh pm))))
         then (FAST, pm')
         else if time > r64 (cd_mean data + r64 (cd_sd data * real (unat (pm_nSDLow pm))))
         then (TOOSLOW, pm')
         else (NORMAL, pm'))"

section \<open>Exact arithmetic: the batch update is Welford's\<close>

abbreviation Calculate_exact :: "real \<Rightarrow> std_dev \<Rightarrow> calc_data \<times> std_dev" where
  "Calculate_exact \<equiv> StandardDeviation_Calculate id id"

definition average :: "real list \<Rightarrow> real" where
  "average xs = sum_list xs / real (length xs)"

definition sq_dev :: "real \<Rightarrow> real list \<Rightarrow> real" where
  "sq_dev m xs = (\<Sum>x\<leftarrow>xs. (x - m) * (x - m))"

lemma diff_loop_exact: "diff_loop id id m ts = ((\<Sum>t\<leftarrow>ts. t - m), map (\<lambda>t. t - m) ts)"
proof -
  have "fold (\<lambda>t (sum, ds). let d = t - m in (sum + d, ds @ [d])) ts (a, ds)
      = (a + (\<Sum>t\<leftarrow>ts. t - m), ds @ map (\<lambda>t. t - m) ts)" for a ds
    by (induction ts arbitrary: a ds) (auto simp: Let_def)
  then show ?thesis by (simp add: diff_loop_def)
qed

lemma sq_loop_exact: "sq_loop id m ts (map (\<lambda>t. t - b) ts) = (\<Sum>t\<leftarrow>ts. (t - m) * (t - b))"
proof -
  have "fold (\<lambda>(t, d) sum. sum + (t - m) * d) (zip ts (map (\<lambda>t. t - b) ts)) a
      = a + (\<Sum>t\<leftarrow>ts. (t - m) * (t - b))" for a
    by (induction ts arbitrary: a) auto
  then show ?thesis by (simp add: sq_loop_def)
qed

lemma sum_products:
  "(\<Sum>x\<leftarrow>xs. (x - a) * (x - b)) =
    (\<Sum>x\<leftarrow>xs. x * x) - (a + b) * sum_list xs + real (length xs) * (a * b)"
  by (induction xs) (auto simp: algebra_simps)

lemma sum_diffs: "(\<Sum>x\<leftarrow>xs. x - m) = sum_list xs - real (length xs) * (m :: real)"
  by (induction xs) (auto simp: algebra_simps)

text \<open>Merging a batch into the statistics of the samples \<open>bs\<close> seen so far.\<close>

lemma batch_mean:
  assumes "m * real (length bs) = sum_list bs" and "ts \<noteq> []"
    and "m' = m + (\<Sum>t\<leftarrow>ts. t - m) / real (length (bs @ ts))"
  shows "m' = average (bs @ ts)"
proof -
  have "length (bs @ ts) \<noteq> 0" using assms(2) by simp
  then have "real (length (bs @ ts)) \<noteq> 0" by (simp only: of_nat_eq_0_iff not_False_eq_True)
  then have "m' * real (length (bs @ ts)) = m * real (length (bs @ ts)) + (\<Sum>t\<leftarrow>ts. t - m)"
    using assms(3) by (simp add: field_simps)
  also have "\<dots> = sum_list (bs @ ts)"
    using assms(1) by (simp add: sum_diffs algebra_simps)
  finally show ?thesis
    using \<open>real (length (bs @ ts)) \<noteq> 0\<close> unfolding average_def by (metis nonzero_eq_divide_eq)
qed

lemma batch_sq_dev:
  assumes "m * real (length bs) = sum_list bs"
    and "m' * real (length (bs @ ts)) = sum_list (bs @ ts)"
  shows "sq_dev m bs + (\<Sum>t\<leftarrow>ts. (t - m') * (t - m)) = sq_dev m' (bs @ ts)"
proof -
  let ?n = "real (length bs)" and ?k = "real (length ts)"
  have s: "sum_list bs = m * ?n" and t: "sum_list ts = m' * (?n + ?k) - m * ?n"
    using assms by (simp_all add: algebra_simps)
  show ?thesis
    unfolding sq_dev_def sum_products sum_list_append map_append s t by (simp add: algebra_simps)
qed

text \<open>What the class's fields mean after the samples \<open>xs\<close>.\<close>

definition sd_inv :: "nat \<Rightarrow> real list \<Rightarrow> std_dev \<Rightarrow> bool" where
  "sd_inv n xs s \<longleftrightarrow>
     (let k = length xs div n * n; bs = take k xs
      in sd_maxResults s = of_nat n \<and> sd_times s = drop k xs
         \<and> sd_resultCount s = of_nat k
         \<and> sd_mean s = average bs \<and> sd_sqDiff s = sq_dev (average bs) bs
         \<and> sd_sd s = sqrt (sq_dev (average bs) bs / real k))"

lemma sd_inv_init: "0 < n \<Longrightarrow> n < 2 ^ 32 \<Longrightarrow> sd_inv n [] (StandardDeviation_init (of_nat n))"
  by (simp add: sd_inv_def StandardDeviation_init_def average_def sq_dev_def)

lemma average_mult: "average xs * real (length xs) = sum_list xs"
  by (cases xs) (auto simp: average_def)

lemma div_mult_Suc:
  assumes "0 < (n :: nat)"
  shows "Suc l div n * n = (if Suc (l mod n) = n then l div n * n + n else l div n * n)"
  using assms by (simp add: div_Suc mod_Suc)

lemma absorb_batch_exact:
  assumes "m = sd_mean s" and "m = average bs" and "sd_sqDiff s = sq_dev m bs"
    and "sd_resultCount s = of_nat (length bs)" and "ts = sd_times s" and "ts \<noteq> []"
    and "unat nres = length ts" and "length (bs @ ts) < 2 ^ 64"
  defines "all \<equiv> bs @ ts"
  shows "absorb_batch id id nres s =
    s\<lparr>sd_resultCount := of_nat (length all), sd_oldDiffs := map (\<lambda>t. t - m) ts,
      sd_mean := average all, sd_sqDiff := sq_dev (average all) all,
      sd_sd := sqrt (sq_dev (average all) all / real (length all)), sd_times := []\<rparr>"
proof -
  have "ucast nres = (of_nat (length ts) :: u64)" using assms(7) by (metis of_nat_unat)
  then have cnt: "sd_resultCount s + ucast nres = of_nat (length all)"
    using assms(4) by (simp add: all_def)
  have un: "unat (of_nat (length all) :: u64) = length all"
    using assms(8) unfolding all_def by (intro unat_of_nat_small) simp
  then have un: "(unsigned (of_nat (length all) :: u64) :: real) = real (length all)"
    by (metis of_nat_unat)
  have m: "m * real (length bs) = sum_list bs" using assms(2) by (simp add: average_mult)
  then have mean: "m + (\<Sum>t\<leftarrow>ts. t - m) / real (length all) = average all"
    unfolding all_def using batch_mean [OF _ assms(6)] by blast
  have sq: "sq_dev m bs + (\<Sum>t\<leftarrow>ts. (t - average all) * (t - m)) = sq_dev (average all) all"
    unfolding all_def using batch_sq_dev [OF m] average_mult by blast
  show ?thesis
    using assms(1,3,5) cnt un mean sq
    by (simp add: absorb_batch_def diff_loop_exact sq_loop_exact Let_def)
qed

lemma sd_inv_Calculate:
  assumes "sd_inv n xs s" and "0 < n" and "n < 2 ^ 32" and "Suc (length xs) < 2 ^ 64"
  shows "sd_inv n (xs @ [x]) (snd (Calculate_exact x s))"
proof -
  define k where "k = length xs div n * n"
  define s1 where "s1 = s\<lparr>sd_times := sd_times s @ [x]\<rparr>"
  have inv: "sd_maxResults s = of_nat n" "sd_times s = drop k xs" "sd_resultCount s = of_nat k"
    "sd_mean s = average (take k xs)" "sd_sqDiff s = sq_dev (average (take k xs)) (take k xs)"
    "sd_sd s = sqrt (sq_dev (average (take k xs)) (take k xs) / real k)"
    using assms(1) by (simp_all add: sd_inv_def k_def Let_def)
  have k: "k \<le> length xs" and l: "length xs - k = length xs mod n"
    by (simp_all add: k_def minus_div_mult_eq_mod)
  have "length xs mod n < n" using assms(2) by simp
  then have small: "Suc (length xs mod n) < 2 ^ 32" using assms(3) by linarith
  have "length (sd_times s1) = Suc (length xs mod n)" using inv(2) l by (simp add: s1_def)
  then have eq: "(of_nat (length (sd_times s1)) :: u32) = of_nat n \<longleftrightarrow> Suc (length xs mod n) = n"
    using small assms(3) of_nat_eq_iff_small [where 'a = 32, of "Suc (length xs mod n)" n]
    by (simp only:) simp
  show ?thesis
  proof (cases "Suc (length xs mod n) = n")
    case False
    then show ?thesis
      using eq inv k assms(2)
      by (simp add: StandardDeviation_Calculate_def s1_def sd_inv_def k_def [symmetric]
          div_mult_Suc Let_def)
  next
    case True
    have full: "Suc (length xs) div n * n = Suc (length xs)"
      using True assms(2) l k by (simp add: div_mult_Suc k_def [symmetric])
    let ?ts = "drop k xs @ [x]" and ?all = "xs @ [x]"
    have all: "take k xs @ ?ts = ?all" by simp
    have len: "unat (of_nat n :: u32) = length ?ts"
      using True l k assms(3) unat_of_nat_small [where 'a = 32, of n] by simp
    have cnt: "sd_resultCount s1 = of_nat (length (take k xs))"
      using inv(3) k by (simp add: s1_def min_def)
    have lt: "length (take k xs @ ?ts) < 2 ^ 64" unfolding all using assms(4) by simp
    have m: "sd_mean s = sd_mean s1" and t: "?ts = sd_times s1" and ne: "?ts \<noteq> []"
      and sq: "sd_sqDiff s1 = sq_dev (sd_mean s) (take k xs)"
      using inv(2,4,5) by (simp_all add: s1_def)
    note absorb_batch_exact [OF m inv(4) sq cnt t ne len lt, unfolded all]
    then show ?thesis
      using eq True full inv(1)
      by (simp add: StandardDeviation_Calculate_def s1_def sd_inv_def Let_def)
  qed
qed

text \<open>Feeding samples one after another.\<close>

definition feed :: "real list \<Rightarrow> std_dev \<Rightarrow> std_dev" where
  "feed xs s = fold (\<lambda>x s. snd (Calculate_exact x s)) xs s"

lemma feed_inv:
  assumes "0 < n" and "n < 2 ^ 32" and "length xs < 2 ^ 64"
  shows "sd_inv n xs (feed xs (StandardDeviation_init (of_nat n)))"
  using assms(3)
proof (induction xs rule: rev_induct)
  case Nil
  then show ?case using assms(1,2) by (simp add: feed_def sd_inv_init)
next
  case (snoc x xs)
  then show ?case
    using sd_inv_Calculate [OF _ assms(1,2), of xs] by (simp add: feed_def)
qed

text \<open>C30: in exact arithmetic the batch-wise update computes the true statistics.  With
  batches of \<open>n\<close>, after the samples \<open>ys\<close> the call of \<open>Calculate\<close> for the last of them returns
  the arithmetic mean and the population standard deviation of all samples in complete
  batches (the first \<open>length ys div n * n\<close>); the samples of the unfinished batch are kept
  for later and do not count yet.\<close>

theorem standard_deviation_exact:
  assumes "0 < n" and "n < 2 ^ 32" and "ys = xs @ [x]" and "length ys < 2 ^ 64"
    and "k = length ys div n * n"
    and "(cd, s) = Calculate_exact x (feed xs (StandardDeviation_init (of_nat n)))"
  shows "cd_mean cd = average (take k ys)
    \<and> cd_sd cd = sqrt (sq_dev (average (take k ys)) (take k ys) / real k)
    \<and> sd_times s = drop k ys"
proof -
  have "s = feed ys (StandardDeviation_init (of_nat n))"
    using assms(3,6) by (simp add: feed_def) (metis snd_conv)
  then have "sd_inv n ys s" using feed_inv [OF assms(1,2,4)] by simp
  moreover have "cd = \<lparr>cd_mean = sd_mean s, cd_sd = sd_sd s\<rparr>"
    using assms(6) by (simp add: StandardDeviation_Calculate_def Let_def)
  ultimately show ?thesis by (simp add: sd_inv_def assms(5) Let_def)
qed

theorem standard_deviation_exact_witness:
  "cd_mean (fst (Calculate_exact 150 (feed [100] (StandardDeviation_init 2)))) = 125
    \<and> cd_sd (fst (Calculate_exact 150 (feed [100] (StandardDeviation_init 2)))) = 25"
proof -
  obtain cd s where "(cd, s) = Calculate_exact 150 (feed [100] (StandardDeviation_init (of_nat 2)))"
    by (metis surj_pair)
  note r = this
  have "sqrt 625 = (25 :: real)" by (rule real_sqrt_unique) simp_all
  then show ?thesis
    using standard_deviation_exact [of 2 "[100, 150]" "[100]" 150 2, OF _ _ _ _ _ r] r
    by (simp add: average_def sq_dev_def) (metis fst_conv)
qed

section \<open>How many clients are kicked\<close>

lemma sq_dev_nonneg: "0 \<le> sq_dev m xs"
  unfolding sq_dev_def by (rule sum_list_nonneg) auto

lemma sq_dev_ge_count:
  assumes "0 \<le> e"
  shows "real (length (filter (\<lambda>x. m + e < x) xs)) * e\<^sup>2 \<le> sq_dev m xs"
proof (induction xs)
  case Nil
  then show ?case by (simp add: sq_dev_def)
next
  case (Cons x xs)
  have "e\<^sup>2 \<le> (x - m) * (x - m)" if "m + e < x"
    using power_mono [of e "x - m" 2] assms that by (simp add: power2_eq_square)
  moreover have "0 \<le> (x - m) * (x - m)" by simp
  moreover have "sq_dev m (x # xs) = (x - m) * (x - m) + sq_dev m xs" by (simp add: sq_dev_def)
  ultimately show ?case
    using Cons by (cases "m + e < x") (simp_all add: distrib_right del: zero_le_square)
qed

lemma sq_dev_zero: "sq_dev m xs = 0 \<Longrightarrow> x \<in> set xs \<Longrightarrow> x = m"
proof (induction xs)
  case (Cons y ys)
  have "0 \<le> (y - m) * (y - m)" by simp
  moreover have "(y - m) * (y - m) + sq_dev m ys = 0" using Cons.prems by (simp add: sq_dev_def)
  ultimately have "sq_dev m ys = 0" and "(y - m) * (y - m) = 0"
    using sq_dev_nonneg [of m ys] by linarith+
  with Cons show ?case by auto
qed simp

lemma chebyshev:
  assumes "sd = sqrt (sq_dev m xs / real (length xs))"
  shows "length (filter (\<lambda>x. m + sd * real k < x) xs) * k\<^sup>2 \<le> length xs"
proof (cases "sq_dev m xs = 0")
  case True
  then have "filter (\<lambda>x. m + sd * real k < x) xs = []"
    using assms sq_dev_zero [OF True] by (auto simp: filter_empty_conv)
  then show ?thesis by simp
next
  case False
  let ?c = "length (filter (\<lambda>x. m + sd * real k < x) xs)" and ?s = "sq_dev m xs"
  have pos: "0 < ?s" using False sq_dev_nonneg [of m xs] by simp
  have len: "0 < real (length xs)" using False by (cases xs) (auto simp: sq_dev_def)
  have sd2: "sd\<^sup>2 = ?s / real (length xs)" using assms pos len by simp
  have "0 \<le> sd * real k" using assms pos len by simp
  then have "real ?c * (sd * real k)\<^sup>2 \<le> ?s" by (rule sq_dev_ge_count)
  then have "real ?c * (real k)\<^sup>2 * ?s \<le> ?s * real (length xs)"
    using len by (simp add: power_mult_distrib sd2 field_simps)
  then have "real ?c * (real k)\<^sup>2 \<le> real (length xs)" using pos by (simp add: mult.commute)
  then show ?thesis by (metis of_nat_le_iff of_nat_mult of_nat_power)
qed

lemma EvaluateTime_between_batches:
  assumes "Suc (length (sd_times (pm_sd pm))) < unat (sd_maxResults (pm_sd pm))"
  shows "fst (PerformanceModel_EvaluateTime id id t pm) =
    (let m = sd_mean (pm_sd pm); sd = sd_sd (pm_sd pm) in
     if m = 0 then NORMAL
     else if t \<le> m - sd * real (unat (pm_nSDHigh pm)) then FAST
     else if m + sd * real (unat (pm_nSDLow pm)) < t then TOOSLOW else NORMAL)"
proof -
  let ?n = "Suc (length (sd_times (pm_sd pm)))"
  have "?n < 2 ^ 32" using assms u32_bound [of "sd_maxResults (pm_sd pm)"] by linarith
  then have "(of_nat ?n :: u32) \<noteq> sd_maxResults (pm_sd pm)"
    using assms unat_of_nat_small [where 'a = 32, of ?n] by force
  then show ?thesis
    by (simp add: PerformanceModel_EvaluateTime_def StandardDeviation_Calculate_def Let_def
        del: of_nat_Suc)
qed

text \<open>C37: the threshold for kicking a client is bounded by Chebyshev's inequality.  Once the
  samples \<open>xs\<close> of complete batches have been absorbed (batches of \<open>n > 1\<close>, so that no
  evaluation closes one by itself), in exact arithmetic at most \<open>length xs / nSDLow\<^sup>2\<close> of the
  response times \<open>xs\<close> are evaluated as \<open>TOOSLOW\<close>: at most one in sixteen for the default
  \<open>nSDLow = 4\<close>.\<close>

theorem too_slow_is_rare:
  assumes "1 < n" and "n < 2 ^ 32" and "length xs < 2 ^ 64" and "n dvd length xs"
    and "pm_sd pm = feed xs (StandardDeviation_init (of_nat n))"
  shows "length (filter (\<lambda>t. fst (PerformanceModel_EvaluateTime id id t pm) = TOOSLOW) xs)
           * (unat (pm_nSDLow pm))\<^sup>2 \<le> length xs"
proof -
  let ?s = "pm_sd pm"
  define m where "m = sd_mean ?s"
  define sd where "sd = sd_sd ?s"
  have inv: "sd_inv n xs ?s" using feed_inv [of n xs] assms by simp
  have k: "length xs div n * n = length xs" using assms(4) by simp
  have t: "sd_times ?s = []" and mx: "sd_maxResults ?s = of_nat n" and m': "m = average xs"
    and sd': "sd = sqrt (sq_dev (average xs) xs / real (length xs))"
    using inv by (simp_all add: sd_inv_def Let_def k m_def sd_def)
  have "Suc (length (sd_times ?s)) < unat (sd_maxResults ?s)"
    using t mx assms(1,2) unat_of_nat_small [where 'a = 32, of n] by simp
  then have "fst (PerformanceModel_EvaluateTime id id x pm) = TOOSLOW
      \<Longrightarrow> m + sd * real (unat (pm_nSDLow pm)) < x" for x
    unfolding m_def sd_def
    by (auto simp: EvaluateTime_between_batches Let_def simp del: of_nat_unat split: if_splits)
  then have "length (filter (\<lambda>t. fst (PerformanceModel_EvaluateTime id id t pm) = TOOSLOW) xs)
      \<le> length (filter (\<lambda>x. m + sd * real (unat (pm_nSDLow pm)) < x) xs)"
    by (induction xs) (auto intro: le_SucI)
  then have "length (filter (\<lambda>t. fst (PerformanceModel_EvaluateTime id id t pm) = TOOSLOW) xs)
      * (unat (pm_nSDLow pm))\<^sup>2
    \<le> length (filter (\<lambda>x. m + sd * real (unat (pm_nSDLow pm)) < x) xs) * (unat (pm_nSDLow pm))\<^sup>2"
    by (rule mult_le_mono1)
  also have "\<dots> \<le> length xs"
    using chebyshev [of sd m xs "unat (pm_nSDLow pm)"] sd' m' by simp
  finally show ?thesis .
qed

theorem too_slow_is_rare_witness:
  "length (filter (\<lambda>t. fst (PerformanceModel_EvaluateTime id id t
      \<lparr>pm_sd = feed [1, 2] (StandardDeviation_init 2), pm_nSDHigh = 2, pm_nSDLow = 4\<rparr>) = TOOSLOW)
      [1, 2 :: real]) * 4\<^sup>2 \<le> 2"
  using too_slow_is_rare [of 2 "[1, 2]"
      "\<lparr>pm_sd = feed [1, 2] (StandardDeviation_init 2), pm_nSDHigh = 2, pm_nSDLow = 4\<rparr>"]
  by simp

end
