(* ===== verification/LockfreeQueue.thy ===== *)
theory LockfreeQueue
  imports Base
begin

text \<open>
  \<open>boost::lockfree::queue<T, fixed_sized<true>>\<close>, the Michael-Scott queue the server keeps its
  clients and its returned work in (\<open>Common/boost/lockfree/queue.hpp\<close>), over
  \<open>fixed_size_freelist\<close> with runtime-sized storage (\<open>detail/freelist.hpp\<close>).

  The nodes are an array; a handle is a 16-bit index with a 16-bit tag that is incremented
  when a handle is replaced, and the index \<open>node_count\<close> is null.  The first field of a node,
  \<open>next\<close>, is also the free list's link, so both lists live in the one array \<open>q_next\<close>.

  Modelled is the execution of an operation without interference from other threads: a
  compare-exchange then succeeds (spurious failures of the weak form only repeat the loop).
  The \<open>for (;;)\<close> loops take fuel and end in \<open>NoReturn\<close> when it is spent; the fuel given,
  two more than the number of nodes, is enough in every state that satisfies the invariant,
  as the lemmas below show.  The memory a queue is constructed in is arbitrary.
\<close>

section \<open>Nodes and handles\<close>

record tagged_index =
  tg_index :: u16
  tg_tag :: u16

definition tagged :: "u16 \<Rightarrow> u16 \<Rightarrow> tagged_index" where
  "tagged i t = \<lparr>tg_index = i, tg_tag = t\<rparr>"

definition get_next_tag :: "tagged_index \<Rightarrow> u16" where
  "get_next_tag h = tg_tag h + 1"

lemma tagged_simps [simp]: "tg_index (tagged i t) = i" "tg_tag (tagged i t) = t"
  by (simp_all add: tagged_def)

record 'a lfq =
  q_count :: nat
  q_next :: "u16 \<Rightarrow> tagged_index"
  q_data :: "u16 \<Rightarrow> 'a"
  q_pool :: tagged_index
  q_head :: tagged_index
  q_tail :: tagged_index

definition null_handle :: "'a lfq \<Rightarrow> u16" where
  "null_handle q = of_nat (q_count q)"

definition get_pointer :: "'a lfq \<Rightarrow> u16 \<Rightarrow> u16 option" where
  "get_pointer q i = (if i = null_handle q then None else Some i)"

section \<open>The free list\<close>

definition freelist_deallocate :: "u16 \<Rightarrow> 'a lfq \<Rightarrow> 'a lfq" where
  "freelist_deallocate i q =
     q\<lparr>q_next := (q_next q)(i := tagged (tg_index (q_pool q)) (tg_tag (q_next q i))),
       q_pool := tagged i (tg_tag (q_pool q))\<rparr>"

definition freelist_allocate :: "'a lfq \<Rightarrow> u16 option \<times> 'a lfq" where
  "freelist_allocate q =
     (let i = tg_index (q_pool q)
      in if i = null_handle q then (None, q)
         else (Some i, q\<lparr>q_pool := tagged (tg_index (q_next q i)) (get_next_tag (q_pool q))\<rparr>))"

text \<open>The loop of \<open>initialize\<close>: node \<open>i\<close> gets a null link and is pushed on the free list.\<close>

fun freelist_initialize :: "nat list \<Rightarrow> 'a lfq \<Rightarrow> 'a lfq" where
  "freelist_initialize [] q = q"
| "freelist_initialize (i # is) q =
     freelist_initialize is (freelist_deallocate (of_nat i)
       (q\<lparr>q_next := (q_next q)(of_nat i := tagged (null_handle q) (tg_tag (q_next q (of_nat i))))\<rparr>))"

text \<open>The constructor of the pool; \<open>mem\<close> and \<open>dat\<close> are the contents of the memory the
  nodes are allocated in.  More than 65535 nodes: \<open>std::runtime_error\<close>.\<close>

definition freelist_init :: "(u16 \<Rightarrow> tagged_index) \<Rightarrow> (u16 \<Rightarrow> 'a) \<Rightarrow> nat \<Rightarrow> 'a lfq res" where
  "freelist_init mem dat count =
     (if count > 65535 then Inl Uncaught
      else Inr (freelist_initialize [0..<count]
        \<lparr>q_count = count, q_next = mem, q_data = dat, q_pool = tagged (of_nat count) 0,
         q_head = tagged 0 0, q_tail = tagged 0 0\<rparr>))"

section \<open>Constructor, push, pop, empty\<close>

text \<open>\<open>node(handle_type null_handle)\<close> and \<open>node(T const & v, handle_type null_handle)\<close>.\<close>

definition construct_null :: "u16 \<Rightarrow> 'a lfq \<Rightarrow> 'a lfq" where
  "construct_null i q = q\<lparr>q_next := (q_next q)(i := tagged (null_handle q) 0)\<rparr>"

definition construct_value :: "u16 \<Rightarrow> 'a \<Rightarrow> 'a lfq \<Rightarrow> 'a lfq" where
  "construct_value i v q =
     q\<lparr>q_data := (q_data q)(i := v),
       q_next := (q_next q)(i := tagged (null_handle q) (get_next_tag (q_next q i)))\<rparr>"

definition queue_initialize :: "'a lfq \<Rightarrow> 'a lfq res" where
  "queue_initialize q =
     (case freelist_allocate q of
        (None, _) \<Rightarrow> Inl NullDeref
      | (Some n, q1) \<Rightarrow>
          Inr ((construct_null n q1)\<lparr>q_head := tagged n 0, q_tail := tagged n 0\<rparr>))"

definition queue_init :: "(u16 \<Rightarrow> tagged_index) \<Rightarrow> (u16 \<Rightarrow> 'a) \<Rightarrow> nat \<Rightarrow> 'a lfq res" where
  "queue_init mem dat n = rbind (freelist_init mem dat (n + 1)) queue_initialize"

definition queue_empty :: "'a lfq \<Rightarrow> bool" where
  "queue_empty q \<longleftrightarrow> tg_index (q_head q) = tg_index (q_tail q)"

fun push_loop :: "nat \<Rightarrow> u16 \<Rightarrow> 'a lfq \<Rightarrow> 'a lfq res" where
  "push_loop 0 n q = Inl NoReturn"
| "push_loop (Suc fuel) n q =
     (let tail = q_tail q in
      case get_pointer q (tg_index tail) of
        None \<Rightarrow> Inl NullDeref
      | Some tail_node \<Rightarrow>
          let next = q_next q tail_node in
          case get_pointer q (tg_index next) of
            None \<Rightarrow>
              Inr (q\<lparr>q_next := (q_next q)(tail_node := tagged n (get_next_tag next)),
                     q_tail := tagged n (get_next_tag tail)\<rparr>)
          | Some next_ptr \<Rightarrow>
              push_loop fuel n (q\<lparr>q_tail := tagged next_ptr (get_next_tag tail)\<rparr>))"

definition queue_push :: "'a \<Rightarrow> 'a lfq \<Rightarrow> (bool \<times> 'a lfq) res" where
  "queue_push t q =
     (case freelist_allocate q of
        (None, q1) \<Rightarrow> Inr (False, q1)
      | (Some n, q1) \<Rightarrow>
          rbind (push_loop (q_count q + 2) n (construct_value n t q1)) (\<lambda>q2. Inr (True, q2)))"

text \<open>\<open>pool.destruct<true>(head)\<close> gives the old dummy node back to the free list.\<close>

fun pop_loop :: "nat \<Rightarrow> 'a lfq \<Rightarrow> ('a option \<times> 'a lfq) res" where
  "pop_loop 0 q = Inl NoReturn"
| "pop_loop (Suc fuel) q =
     (let head = q_head q in
      case get_pointer q (tg_index head) of
        None \<Rightarrow> Inl NullDeref
      | Some head_ptr \<Rightarrow>
          let tail = q_tail q; next = q_next q head_ptr in
          if tg_index head = tg_index tail then
            (case get_pointer q (tg_index next) of
               None \<Rightarrow> Inr (None, q)
             | Some _ \<Rightarrow>
                 pop_loop fuel (q\<lparr>q_tail := tagged (tg_index next) (get_next_tag tail)\<rparr>))
          else
            (case get_pointer q (tg_index next) of
               None \<Rightarrow> pop_loop fuel q
             | Some next_ptr \<Rightarrow>
                 Inr (Some (q_data q next_ptr),
                   freelist_deallocate (tg_index head)
                     (q\<lparr>q_head := tagged (tg_index next) (get_next_tag head)\<rparr>))))"

definition queue_pop :: "'a lfq \<Rightarrow> ('a option \<times> 'a lfq) res" where
  "queue_pop q = pop_loop (q_count q + 2) q"

section \<open>The interface: a bounded first-in first-out queue\<close>

locale bounded_fifo =
  fixes push :: "'a \<Rightarrow> 'q \<Rightarrow> (bool \<times> 'q) res"
    and pop :: "'q \<Rightarrow> ('a option \<times> 'q) res"
    and is_empty :: "'q \<Rightarrow> bool"
    and contents :: "'q \<Rightarrow> 'a list"
    and cap :: "'q \<Rightarrow> nat"
    and invar :: "'q \<Rightarrow> bool"
  assumes push_spec: "invar q \<Longrightarrow> \<exists>q'. invar q' \<and> cap q' = cap q \<and>
      (if length (contents q) < cap q
       then push x q = Inr (True, q') \<and> contents q' = contents q @ [x]
       else push x q = Inr (False, q') \<and> contents q' = contents q)"
    and pop_spec: "invar q \<Longrightarrow> \<exists>q'. invar q' \<and> cap q' = cap q \<and>
      (case contents q of
         [] \<Rightarrow> pop q = Inr (None, q') \<and> contents q' = []
       | x # xs \<Rightarrow> pop q = Inr (Some x, q') \<and> contents q' = xs)"
    and is_empty_spec: "invar q \<Longrightarrow> is_empty q \<longleftrightarrow> contents q = []"
    and contents_le_cap: "invar q \<Longrightarrow> length (contents q) \<le> cap q"
begin

lemma pushE:
  assumes "invar q"
  obtains b q' where "push x q = Inr (b, q')" and "b = (length (contents q) < cap q)"
    and "invar q'" and "cap q' = cap q"
    and "contents q' = (if b then contents q @ [x] else contents q)"
  using push_spec [OF assms, of x] by (auto split: if_splits)

lemma popE:
  assumes "invar q"
  obtains r q' where "pop q = Inr (r, q')" and "invar q'" and "cap q' = cap q"
    and "r = (case contents q of [] \<Rightarrow> None | x # _ \<Rightarrow> Some x)" and "contents q' = tl (contents q)"
  using pop_spec [OF assms] by (cases "contents q") auto

lemma push_total: "invar q \<Longrightarrow> push x q \<noteq> Inl e"
  by (erule pushE [of q x]) simp

lemma pop_total: "invar q \<Longrightarrow> pop q \<noteq> Inl e"
  by (erule popE) simp

end

section \<open>Chains of nodes\<close>

abbreviation nx :: "'a lfq \<Rightarrow> u16 \<Rightarrow> u16" where
  "nx q i \<equiv> tg_index (q_next q i)"

text \<open>The nodes from \<open>head_\<close> are the dummy and the queue's elements, those from \<open>pool_\<close> the
  free list; together they are all nodes.\<close>

definition lfq_rep :: "'a lfq \<Rightarrow> u16 list \<Rightarrow> u16 list \<Rightarrow> bool" where
  "lfq_rep q fl ns \<longleftrightarrow>
     q_count q \<le> 65535 \<and> distinct (fl @ ns) \<and> length (fl @ ns) = q_count q
     \<and> (\<forall>i \<in> set (fl @ ns). unat i < q_count q) \<and> ns \<noteq> []
     \<and> linked (nx q) (tg_index (q_pool q)) fl (null_handle q)
     \<and> linked (nx q) (tg_index (q_head q)) ns (null_handle q)
     \<and> tg_index (q_tail q) = last ns"

definition lfq_inv :: "'a lfq \<Rightarrow> bool" where
  "lfq_inv q \<longleftrightarrow> (\<exists>fl ns. lfq_rep q fl ns)"

definition lfq_cap :: "'a lfq \<Rightarrow> nat" where
  "lfq_cap q = q_count q - 1"

definition lfq_contents :: "'a lfq \<Rightarrow> 'a list" where
  "lfq_contents q =
     map (q_data q) (tl (walk (q_count q) (nx q) (tg_index (q_head q)) (null_handle q)))"

lemma unat_null_handle: "q_count q \<le> 65535 \<Longrightarrow> unat (null_handle q) = q_count q"
  by (simp add: null_handle_def unat_of_nat_small)

lemma null_not_node:
  assumes "lfq_rep q fl ns"
  shows "null_handle q \<notin> set fl" and "null_handle q \<notin> set ns"
proof -
  have "unat (null_handle q) = q_count q" and "\<forall>i \<in> set fl \<union> set ns. unat i < q_count q"
    using assms by (auto simp: lfq_rep_def unat_null_handle)
  then show "null_handle q \<notin> set fl" and "null_handle q \<notin> set ns"
    by (metis UnI1 UnI2 less_irrefl)+
qed

lemma get_pointer_node: "lfq_rep q fl ns \<Longrightarrow> i \<in> set (fl @ ns) \<Longrightarrow> get_pointer q i = Some i"
  using null_not_node [of q fl ns] by (auto simp: get_pointer_def)

lemma lfq_contents_rep: "lfq_rep q fl ns \<Longrightarrow> lfq_contents q = map (q_data q) (tl ns)"
  using walk_linked [of "nx q" "tg_index (q_head q)" ns "null_handle q" "q_count q"]
    null_not_node [of q fl ns]
  by (simp add: lfq_contents_def lfq_rep_def)

lemma length_contents_rep: "lfq_rep q fl ns \<Longrightarrow> length (lfq_contents q) = lfq_cap q - length fl"
  using lfq_contents_rep [of q fl ns] by (auto simp: lfq_rep_def lfq_cap_def)

section \<open>The operations on chains\<close>

lemma freelist_allocate_rep:
  assumes "lfq_rep q fl ns"
  shows "freelist_allocate q = (case fl of
      [] \<Rightarrow> (None, q)
    | f # _ \<Rightarrow> (Some f, q\<lparr>q_pool := tagged (nx q f) (get_next_tag (q_pool q))\<rparr>))"
  using assms null_not_node [OF assms]
  by (cases fl) (auto simp: freelist_allocate_def lfq_rep_def)

lemma push_loop_rep:
  assumes "linked (nx q) (tg_index (q_head q)) ns (null_handle q)" and "ns \<noteq> []"
    and "tg_index (q_tail q) = last ns" and "null_handle q \<notin> set ns"
  shows "push_loop (Suc fuel) f q = Inr (q\<lparr>q_next := (q_next q)(last ns := tagged f
      (get_next_tag (q_next q (last ns)))), q_tail := tagged f (get_next_tag (q_tail q))\<rparr>)"
proof -
  obtain ms l where ns: "ns = ms @ [l]" using assms(2) by (cases ns rule: rev_cases) auto
  then have "nx q l = null_handle q" and "l \<noteq> null_handle q"
    using assms(1,4) by (auto simp: linked_snoc)
  then show ?thesis using assms(3) ns by (simp add: get_pointer_def Let_def)
qed

lemma queue_push_rep:
  assumes "lfq_rep q (f # fl) ns"
  obtains q' where "queue_push t q = Inr (True, q')" and "lfq_rep q' fl (ns @ [f])"
    and "q_data q' = (q_data q)(f := t)" and "q_count q' = q_count q"
proof -
  note rep = assms [unfolded lfq_rep_def]
  define q1 where
    "q1 = construct_value f t (q\<lparr>q_pool := tagged (nx q f) (get_next_tag (q_pool q))\<rparr>)"
  have f: "f \<notin> set ns" "f \<notin> set fl" "f \<noteq> null_handle q" and null: "null_handle q \<notin> set ns"
    using rep null_not_node [OF assms] by auto
  have q1: "null_handle q1 = null_handle q" "q_head q1 = q_head q" "q_tail q1 = q_tail q"
    "nx q1 = (nx q)(f := null_handle q)" "tg_index (q_pool q1) = nx q f"
    "q_data q1 = (q_data q)(f := t)" "q_count q1 = q_count q"
    by (auto simp: q1_def construct_value_def null_handle_def)
  obtain ms l where ns: "ns = ms @ [l]" using rep by (cases ns rule: rev_cases) auto
  define q2 where "q2 = q1\<lparr>q_next := (q_next q1)(last ns := tagged f
      (get_next_tag (q_next q1 (last ns)))), q_tail := tagged f (get_next_tag (q_tail q1))\<rparr>"
  have "push_loop (q_count q + 2) f q1 = Inr q2"
    using push_loop_rep [of q1 ns "q_count q + 1" f] rep f q1 null by (simp add: q2_def)
  then have "queue_push t q = Inr (True, q2)"
    using freelist_allocate_rep [OF assms] by (simp add: queue_push_def q1_def)
  moreover have "lfq_rep q2 fl (ns @ [f])"
  proof -
    have nx2: "nx q2 = (nx q)(f := null_handle q, l := f)" 
      using q1(4) ns by (auto simp: q2_def fun_eq_iff)
    have "linked (nx q2) (tg_index (q_head q)) (ns @ [f]) (null_handle q)"
      using rep f ns by (auto simp: nx2 linked_append)
    moreover have "linked (nx q2) (nx q f) fl (null_handle q)"
      using rep f ns by (auto simp: nx2)
    moreover have "null_handle q2 = null_handle q" "tg_index (q_pool q2) = nx q f"
      "q_head q2 = q_head q" "q_count q2 = q_count q"
      using q1 by (simp_all add: q2_def null_handle_def)
    ultimately show ?thesis using rep by (auto simp: lfq_rep_def) (simp add: q2_def)
  qed
  ultimately show thesis using q1 by (intro that [of q2]) (auto simp: q2_def)
qed

lemma pop_loop_empty_rep:
  assumes "lfq_rep q fl [h]"
  shows "queue_pop q = Inr (None, q)"
  using assms null_not_node [OF assms]
  by (auto simp: queue_pop_def lfq_rep_def get_pointer_def Let_def numeral_2_eq_2)

lemma queue_pop_rep:
  assumes "lfq_rep q fl (h # x # ns)"
  obtains q' where "queue_pop q = Inr (Some (q_data q x), q')" and "lfq_rep q' (h # fl) (x # ns)"
    and "q_data q' = q_data q" and "q_count q' = q_count q"
proof -
  note rep = assms [unfolded lfq_rep_def]
  define q1 where "q1 = freelist_deallocate h
      (q\<lparr>q_head := tagged x (get_next_tag (q_head q))\<rparr>)"
  have nodes: "h \<noteq> null_handle q" "x \<noteq> null_handle q"
    using null_not_node [OF assms] by auto
  have "last (x # ns) \<in> set (x # ns)" by (rule last_in_set) simp
  then have "tg_index (q_head q) = h" "nx q h = x" "tg_index (q_tail q) \<noteq> h"
    using rep by auto
  then have "queue_pop q = Inr (Some (q_data q x), q1)"
    using nodes by (simp add: queue_pop_def get_pointer_def Let_def q1_def numeral_2_eq_2)
  moreover have nx1: "nx q1 = (nx q)(h := tg_index (q_pool q))" and "null_handle q1 = null_handle q"
    by (auto simp: q1_def freelist_deallocate_def null_handle_def)
  then have "lfq_rep q1 (h # fl) (x # ns)"
    using rep by (auto simp: lfq_rep_def) (simp_all add: q1_def freelist_deallocate_def)
  ultimately show thesis
    by (intro that [of q1]) (simp_all add: q1_def freelist_deallocate_def)
qed

lemma queue_empty_rep: "lfq_rep q fl (h # ns) \<Longrightarrow> queue_empty q \<longleftrightarrow> ns = []"
  by (auto simp: queue_empty_def lfq_rep_def)

lemma lfq_invE:
  assumes "lfq_inv q"
  obtains fl h ns where "lfq_rep q fl (h # ns)" and "lfq_contents q = map (q_data q) ns"
    and "length ns + length fl = lfq_cap q"
proof -
  obtain fl ns' where rep: "lfq_rep q fl ns'" using assms by (auto simp: lfq_inv_def)
  then obtain h ns where "ns' = h # ns" by (cases ns') (auto simp: lfq_rep_def)
  with rep show thesis
    by (intro that [of fl h ns]) (auto simp: lfq_contents_rep, auto simp: lfq_rep_def lfq_cap_def)
qed

interpretation lf: bounded_fifo queue_push queue_pop queue_empty lfq_contents lfq_cap lfq_inv
proof (unfold_locales, goal_cases)
  case (1 q x)
  then obtain fl h ns where rep: "lfq_rep q fl (h # ns)"
    and c: "lfq_contents q = map (q_data q) ns" "length ns + length fl = lfq_cap q"
    by (rule lfq_invE)
  show ?case
  proof (cases fl)
    case Nil
    then show ?thesis
      using rep c freelist_allocate_rep [OF rep] 1 by (auto simp: queue_push_def)
  next
    case (Cons f fl')
    then obtain q' where q': "queue_push x q = Inr (True, q')" "lfq_rep q' fl' (h # ns @ [f])"
      "q_data q' = (q_data q)(f := x)" "q_count q' = q_count q"
      using queue_push_rep [of q f fl' "h # ns" x] rep by auto
    have "f \<notin> set ns" using rep Cons by (auto simp: lfq_rep_def)
    then have "lfq_contents q' = lfq_contents q @ [x]"
      using lfq_contents_rep [OF q'(2)] q'(3) c(1) by simp
    then show ?thesis
      using q' c Cons by (auto simp: lfq_inv_def lfq_cap_def)
  qed
next
  case (2 q)
  then obtain fl h ns where rep: "lfq_rep q fl (h # ns)"
    and c: "lfq_contents q = map (q_data q) ns" "length ns + length fl = lfq_cap q"
    by (rule lfq_invE)
  show ?case
  proof (cases ns)
    case Nil
    then show ?thesis using rep c pop_loop_empty_rep [of q fl h] 2 by auto
  next
    case (Cons y ys)
    then obtain q' where q': "queue_pop q = Inr (Some (q_data q y), q')" "lfq_rep q' (h # fl) (y # ys)"
      "q_data q' = q_data q" "q_count q' = q_count q"
      using queue_pop_rep [of q fl h y ys] rep by auto
    have "lfq_contents q' = map (q_data q) ys" using lfq_contents_rep [OF q'(2)] q'(3) by simp
    then show ?thesis using q' c Cons by (auto simp: lfq_inv_def lfq_cap_def)
  qed
next
  case (3 q)
  then show ?case by (auto elim!: lfq_invE simp: queue_empty_rep)
next
  case (4 q)
  then show ?case by (auto elim!: lfq_invE)
qed

section \<open>A fresh queue\<close>

lemma freelist_initialize_linked:
  assumes "linked (nx q) (tg_index (q_pool q)) xs (null_handle q)"
    and "distinct (map of_nat is :: u16 list)" and "set (map of_nat is) \<inter> set xs = {}"
  shows "linked (nx (freelist_initialize is q)) (tg_index (q_pool (freelist_initialize is q)))
      (rev (map of_nat is) @ xs) (null_handle q)
    \<and> q_count (freelist_initialize is q) = q_count q"
  using assms
proof (induction "is" arbitrary: q xs)
  case (Cons i "is")
  define q1 where "q1 = freelist_deallocate (of_nat i)
    (q\<lparr>q_next := (q_next q)(of_nat i := tagged (null_handle q) (tg_tag (q_next q (of_nat i))))\<rparr>)"
  have nx1: "nx q1 = (nx q)(of_nat i := tg_index (q_pool q))"
    and "tg_index (q_pool q1) = of_nat i" and q1: "null_handle q1 = null_handle q" "q_count q1 = q_count q"
    by (auto simp: q1_def freelist_deallocate_def null_handle_def fun_eq_iff)
  moreover have "of_nat i \<notin> set xs" using Cons.prems(3) by auto
  ultimately have "linked (nx q1) (tg_index (q_pool q1)) (of_nat i # xs) (null_handle q1)"
    using Cons.prems(1) by simp
  then have "linked (nx (freelist_initialize is q1)) (tg_index (q_pool (freelist_initialize is q1)))
      (rev (map of_nat is) @ of_nat i # xs) (null_handle q1)
    \<and> q_count (freelist_initialize is q1) = q_count q1"
    using Cons.prems(2,3) by (intro Cons.IH) auto
  then show ?case using q1 by (simp add: q1_def [symmetric])
qed simp

lemma distinct_of_nat_upt:
  "n \<le> 65535 \<Longrightarrow> distinct (map of_nat [0..<n] :: u16 list)"
  by (auto simp: distinct_map inj_on_def of_nat_eq_iff_small)

lemma queue_init_rep:
  assumes "n < 65535"
  obtains q where "queue_init mem dat n = Inr q" and "lfq_inv q" and "lfq_contents q = []"
    and "lfq_cap q = n"
proof -
  define q0 where "q0 = freelist_initialize [0..<n + 1]
    \<lparr>q_count = n + 1, q_next = mem, q_data = dat, q_pool = tagged (of_nat (n + 1)) 0,
     q_head = tagged 0 0, q_tail = tagged 0 0\<rparr>"
  let ?fl = "rev (map of_nat [0..<n]) :: u16 list"
  have split: "rev (map of_nat [0..<n + 1]) = (of_nat n :: u16) # ?fl" by simp
  have init: "freelist_init mem dat (n + 1) = Inr q0"
    using assms by (simp add: freelist_init_def q0_def)
  have l: "linked (nx q0) (tg_index (q_pool q0)) (of_nat n # ?fl) (of_nat (n + 1))"
    and count: "q_count q0 = n + 1"
    using freelist_initialize_linked [OF _ distinct_of_nat_upt [of "n + 1"], of
      "\<lparr>q_count = n + 1, q_next = mem, q_data = dat, q_pool = tagged (of_nat (n + 1)) 0,
        q_head = tagged 0 0, q_tail = tagged 0 0\<rparr>" "[]"] assms
    unfolding q0_def split by (simp_all add: null_handle_def del: upt_Suc)
  have dist: "distinct ((of_nat n :: u16) # ?fl)"
    using distinct_of_nat_upt [of "n + 1"] assms unfolding split [symmetric] distinct_rev by simp
  have nn: "(of_nat n :: u16) \<noteq> of_nat (n + 1)"
    using assms by (subst of_nat_eq_iff_small) auto
  have null: "null_handle q0 = of_nat (n + 1)" by (simp add: null_handle_def count)
  define q where "q = (construct_null (of_nat n) (q0\<lparr>q_pool :=
      tagged (nx q0 (of_nat n)) (get_next_tag (q_pool q0))\<rparr>))
    \<lparr>q_head := tagged (of_nat n) 0, q_tail := tagged (of_nat n) 0\<rparr>"
  have i0: "tg_index (q_pool q0) = of_nat n" using l by simp
  then have "freelist_allocate q0 = (Some (of_nat n), q0\<lparr>q_pool :=
      tagged (nx q0 (of_nat n)) (get_next_tag (q_pool q0))\<rparr>)"
    using nn unfolding freelist_allocate_def Let_def null i0 by simp
  then have qi: "queue_init mem dat n = Inr q"
    by (simp add: queue_init_def init [simplified] queue_initialize_def q_def)
  have nxq: "nx q = (nx q0)(of_nat n := of_nat (n + 1))" and nullq: "null_handle q = of_nat (n + 1)"
    using null count by (auto simp: q_def construct_null_def null_handle_def)
  have "of_nat n \<notin> set ?fl" using dist by (metis distinct.simps(2))
  moreover have "unat (of_nat i :: u16) < n + 1" if "i \<le> n" for i
    using that assms by (simp add: unat_of_nat_small)
  ultimately have "lfq_rep q ?fl [of_nat n]"
    unfolding lfq_rep_def nullq using l dist assms nxq
    by (auto simp: q_def construct_null_def count linked_off)
  then show thesis
    using qi count lfq_contents_rep [of q ?fl "[of_nat n]"]
    by (intro that [of q]) (auto simp: lfq_inv_def lfq_cap_def q_def construct_null_def)
qed

section \<open>Runs against the bounded FIFO specification\<close>

datatype 'a fifo_op = Push 'a | Pop
datatype 'a fifo_out = Pushed bool | Popped "'a option"

fun queue_run :: "'a fifo_op list \<Rightarrow> 'a lfq \<Rightarrow> ('a fifo_out list \<times> 'a lfq) res" where
  "queue_run [] q = Inr ([], q)"
| "queue_run (Push x # xs) q =
     rbind (queue_push x q) (\<lambda>(b, q1). rbind (queue_run xs q1) (\<lambda>(rs, q2). Inr (Pushed b # rs, q2)))"
| "queue_run (Pop # xs) q =
     rbind (queue_pop q) (\<lambda>(r, q1). rbind (queue_run xs q1) (\<lambda>(rs, q2). Inr (Popped r # rs, q2)))"

fun fifo_run :: "nat \<Rightarrow> 'a fifo_op list \<Rightarrow> 'a list \<Rightarrow> 'a fifo_out list \<times> 'a list" where
  "fifo_run n [] l = ([], l)"
| "fifo_run n (Push x # xs) l =
     (if length l < n then (let (rs, l') = fifo_run n xs (l @ [x]) in (Pushed True # rs, l'))
      else (let (rs, l') = fifo_run n xs l in (Pushed False # rs, l')))"
| "fifo_run n (Pop # xs) l =
     (let (rs, l') = fifo_run n xs (tl l)
      in (Popped (case l of [] \<Rightarrow> None | x # _ \<Rightarrow> Some x) # rs, l'))"

lemma queue_run_refines:
  "lfq_inv q \<Longrightarrow> \<exists>q'. queue_run xs q = Inr (fst (fifo_run (lfq_cap q) xs (lfq_contents q)), q')
    \<and> lfq_contents q' = snd (fifo_run (lfq_cap q) xs (lfq_contents q)) \<and> lfq_inv q'"
proof (induction xs arbitrary: q)
  case (Cons x xs)
  show ?case
  proof (cases x)
    case (Push a)
    obtain b q1 where "queue_push a q = Inr (b, q1)" "b = (length (lfq_contents q) < lfq_cap q)"
      and "lfq_inv q1" "lfq_cap q1 = lfq_cap q"
      and "lfq_contents q1 = (if b then lfq_contents q @ [a] else lfq_contents q)"
      by (rule lf.pushE [OF Cons.prems])
    with Push Cons.IH [of q1] show ?thesis by (auto simp: case_prod_beta split: if_splits)
  next
    case Pop
    obtain r q1 where "queue_pop q = Inr (r, q1)" "lfq_inv q1" "lfq_cap q1 = lfq_cap q"
      and "r = (case lfq_contents q of [] \<Rightarrow> None | x # _ \<Rightarrow> Some x)"
      and "lfq_contents q1 = tl (lfq_contents q)"
      by (rule lf.popE [OF Cons.prems])
    with Pop Cons.IH [of q1] show ?thesis by (auto simp: case_prod_beta)
  qed
qed simp

text \<open>C18: the lock-free queue constructed for \<open>n\<close> elements (fewer than 65535) is a FIFO queue
  that holds exactly \<open>n\<close>.  Any sequence of \<open>push\<close> and \<open>pop\<close>, executed one after the other,
  terminates without a fault and returns what the same sequence returns on a list: a push
  fails exactly when \<open>n\<close> elements are in the queue, a pop returns the oldest element, or
  fails when there is none; \<open>empty\<close> agrees.  This holds for any contents of the memory the
  nodes are allocated in.\<close>

theorem lockfree_queue_is_bounded_fifo:
  assumes "n < 65535"
  shows "\<exists>q q'. queue_init mem dat n = Inr q
    \<and> queue_run xs q = Inr (fst (fifo_run n xs []), q')
    \<and> lfq_contents q' = snd (fifo_run n xs [])
    \<and> (queue_empty q' \<longleftrightarrow> snd (fifo_run n xs []) = [])"
proof -
  obtain q where "queue_init mem dat n = Inr q" "lfq_inv q" "lfq_contents q = []" "lfq_cap q = n"
    by (rule queue_init_rep [OF assms])
  then show ?thesis using queue_run_refines [of q xs] by (auto simp: lf.is_empty_spec)
qed

theorem lockfree_queue_is_bounded_fifo_witness:
  "\<exists>q q'. queue_init (\<lambda>_. tagged 7 7) (\<lambda>_. 0) 2 = Inr q
    \<and> queue_run [Push 1, Push 2, Push 3, Pop, Pop, Pop] q
      = Inr ([Pushed True, Pushed True, Pushed False, Popped (Some (1 :: nat)), Popped (Some 2),
              Popped None], q')"
  using lockfree_queue_is_bounded_fifo [of 2 "\<lambda>_. tagged 7 7" "\<lambda>_. 0 :: nat"
      "[Push 1, Push 2, Push 3, Pop, Pop, Pop]"]
  by auto

end
