(* ===== verification/MemPool.thy ===== *)
theory MemPool
  imports Base
begin

text \<open>
  The growable memory pool (\<open>Common/CNLIB/MemPool.h\<close>) and the allocator built on it
  (\<open>Common/PoolAlloc.cpp\<close>).  A node is one buffer of \<open>capacity\<close> elements; an element is a
  data block of \<open>elementSizeMax\<close> bytes followed by its \<open>next\<close> pointer, and the elements not
  in use are linked into the list \<open>avail\<close>.

  Addresses and sizes are natural numbers (the pool's arithmetic stays inside the buffers it
  owns); 0 is \<open>nullptr\<close>, and \<open>mp_next\<close> holds the \<open>next\<close> field of the element at each
  address.  The address a new buffer gets is the underlying allocator's choice, so the
  operations that may grow the pool take it as an argument, \<open>base\<close>.  \<open>MemPoolSync\<close> does the
  same under a critical section; each of its operations is one atomic step.
\<close>

section \<open>Nodes\<close>

text \<open>\<open>n_bufferSize = None\<close>: indeterminate.  The copy constructor of \<open>Node\<close> copies the other
  three members only.\<close>

record mp_node =
  n_bufferSize :: "nat option"
  n_data :: nat
  n_begin :: nat
  n_end :: nat

definition Element_OFFSET :: nat where
  "Element_OFFSET = 8"

definition Node_copy :: "mp_node \<Rightarrow> mp_node" where
  "Node_copy node =
     \<lparr>n_bufferSize = None, n_data = n_data node, n_begin = n_begin node, n_end = n_end node\<rparr>"

record mem_pool =
  mp_next :: "nat \<Rightarrow> nat"
  mp_avail :: nat
  mp_nodes :: "mp_node list"
  mp_nodesReserved :: nat
  mp_elementSizeMax :: nat
  mp_capacity :: nat

text \<open>The loop of \<open>Link\<close>: \<open>ptr->next = next\<close> until \<open>ptr\<close> reaches \<open>end\<close>.\<close>

fun link_loop :: "nat \<Rightarrow> nat \<Rightarrow> nat \<Rightarrow> nat \<Rightarrow> (nat \<Rightarrow> nat) \<Rightarrow> (nat \<Rightarrow> nat) res" where
  "link_loop 0 ptr e stride mem = Inl NoReturn"
| "link_loop (Suc fuel) ptr e stride mem =
     (if ptr = e then Inr mem
      else link_loop fuel (ptr + stride) e stride (mem(ptr := ptr + stride)))"

definition Node_Link :: "mp_node \<Rightarrow> nat \<Rightarrow> nat \<Rightarrow> mem_pool \<Rightarrow> mem_pool res" where
  "Node_Link node elementSizeMax capacity p =
     (let stride = elementSizeMax + Element_OFFSET;
          b = n_begin node; e = n_end node
      in rbind
           (if capacity > 1
            then link_loop capacity (b + stride) e stride ((mp_next p)(b := b + stride))
            else Inr (mp_next p))
           (\<lambda>mem. Inr (p\<lparr>mp_next := mem(e := mp_avail p), mp_avail := b\<rparr>)))"

definition Node_make :: "nat \<Rightarrow> nat \<Rightarrow> nat \<Rightarrow> mp_node" where
  "Node_make base elementSizeMax capacity =
     (let bufferSize = (elementSizeMax + Element_OFFSET) * capacity;
          b = base + elementSizeMax
      in \<lparr>n_bufferSize = Some bufferSize, n_data = base, n_begin = b,
          n_end = b + bufferSize - (elementSizeMax + Element_OFFSET)\<rparr>)"

definition ElementInNode :: "mp_node \<Rightarrow> nat \<Rightarrow> bool" where
  "ElementInNode node e \<longleftrightarrow> n_begin node \<le> e \<and> e \<le> n_end node"

section \<open>The pool\<close>

text \<open>\<open>nodes.emplace_back\<close>: when the vector is full, it moves to a larger buffer and the
  existing nodes are copied (MSVC grows the capacity by half).\<close>

definition emplace_node :: "mp_node \<Rightarrow> mem_pool \<Rightarrow> mem_pool" where
  "emplace_node node p =
     (if length (mp_nodes p) < mp_nodesReserved p
      then p\<lparr>mp_nodes := mp_nodes p @ [node]\<rparr>
      else p\<lparr>mp_nodes := map Node_copy (mp_nodes p) @ [node],
             mp_nodesReserved :=
               max (mp_nodesReserved p + mp_nodesReserved p div 2) (Suc (length (mp_nodes p)))\<rparr>)"

definition add_node :: "nat \<Rightarrow> nat \<Rightarrow> mem_pool \<Rightarrow> mem_pool res" where
  "add_node base capacity p =
     (let node = Node_make base (mp_elementSizeMax p) capacity
      in rbind (Node_Link node (mp_elementSizeMax p) capacity p) (\<lambda>p1. Inr (emplace_node node p1)))"

definition round_element_size :: "nat \<Rightarrow> nat \<Rightarrow> nat" where
  "round_element_size elementSize alignment =
     ((elementSize + Element_OFFSET + alignment - 1) div alignment) * alignment - Element_OFFSET"

definition MemPool_init :: "(nat \<Rightarrow> nat) \<Rightarrow> nat \<Rightarrow> nat \<Rightarrow> nat \<Rightarrow> nat \<Rightarrow> mem_pool res" where
  "MemPool_init mem base elementSize initialCapacity alignment =
     add_node base initialCapacity
       \<lparr>mp_next = mem, mp_avail = 0, mp_nodes = [], mp_nodesReserved = 5,
        mp_elementSizeMax = round_element_size elementSize alignment,
        mp_capacity = initialCapacity\<rparr>"

definition MemPool_FitsInPool :: "nat \<Rightarrow> mem_pool \<Rightarrow> bool" where
  "MemPool_FitsInPool elementSize p \<longleftrightarrow> elementSize \<le> mp_elementSizeMax p"

definition MemPool_IsFull :: "mem_pool \<Rightarrow> bool" where
  "MemPool_IsFull p \<longleftrightarrow> mp_avail p = 0"

definition MemPool_IsNotFull :: "mem_pool \<Rightarrow> bool" where
  "MemPool_IsNotFull p \<longleftrightarrow> mp_avail p \<noteq> 0"

definition MemPool_Grow :: "nat \<Rightarrow> nat \<Rightarrow> mem_pool \<Rightarrow> mem_pool res" where
  "MemPool_Grow base capacity p =
     rbind (add_node base capacity p) (\<lambda>p1. Inr (p1\<lparr>mp_capacity := mp_capacity p1 + capacity\<rparr>))"

definition MemPool_Reserve :: "nat \<Rightarrow> nat \<Rightarrow> mem_pool \<Rightarrow> mem_pool res" where
  "MemPool_Reserve = MemPool_Grow"

definition MemPool_PopAvail :: "mem_pool \<Rightarrow> (nat \<times> mem_pool) res" where
  "MemPool_PopAvail p =
     (if mp_avail p = 0 then Inl NullDeref
      else Inr (mp_avail p, p\<lparr>mp_avail := mp_next p (mp_avail p)\<rparr>))"

definition MemPool_PushAvail :: "nat \<Rightarrow> mem_pool \<Rightarrow> mem_pool" where
  "MemPool_PushAvail element p =
     p\<lparr>mp_next := (mp_next p)(element := mp_avail p), mp_avail := element\<rparr>"

definition MemPool_PoolAlloc :: "nat \<Rightarrow> mem_pool \<Rightarrow> (nat \<times> mem_pool) res" where
  "MemPool_PoolAlloc base p =
     rbind (if MemPool_IsFull p then MemPool_Grow base (mp_capacity p) p else Inr p)
       (\<lambda>p1. rbind (MemPool_PopAvail p1)
         (\<lambda>(element, p2). Inr (element - mp_elementSizeMax p2, p2)))"

definition MemPool_PoolDealloc :: "nat \<Rightarrow> mem_pool \<Rightarrow> mem_pool" where
  "MemPool_PoolDealloc element p = MemPool_PushAvail element p"

definition MemPool_alloc :: "nat \<Rightarrow> nat \<Rightarrow> mem_pool \<Rightarrow> (nat \<times> mem_pool) res" where
  "MemPool_alloc base elementSize p =
     (if MemPool_FitsInPool elementSize p then MemPool_PoolAlloc base p else Inr (0, p))"

definition MemPool_dealloc :: "nat \<Rightarrow> mem_pool \<Rightarrow> mem_pool" where
  "MemPool_dealloc ptr p =
     (if ptr \<noteq> 0 then MemPool_PoolDealloc (ptr + mp_elementSizeMax p) p else p)"

text \<open>\<open>construct\<close> places an object at the address \<open>alloc\<close> returned, null included.\<close>

definition MemPool_construct :: "nat \<Rightarrow> nat \<Rightarrow> mem_pool \<Rightarrow> (nat \<times> mem_pool) res" where
  "MemPool_construct base sizeof_T p =
     rbind (MemPool_alloc base sizeof_T p)
       (\<lambda>(ptr, p1). if ptr = 0 then Inl NullDeref else Inr (ptr, p1))"

definition MemPool_destruct :: "nat \<Rightarrow> mem_pool \<Rightarrow> mem_pool" where
  "MemPool_destruct ptr p = (if ptr \<noteq> 0 then MemPool_dealloc ptr p else p)"

definition MemPool_InPool :: "nat \<Rightarrow> mem_pool \<Rightarrow> bool" where
  "MemPool_InPool ptr p \<longleftrightarrow>
     list_ex (\<lambda>node. ElementInNode node (ptr + mp_elementSizeMax p)) (mp_nodes p)"

definition MemPool_NodeCount :: "mem_pool \<Rightarrow> nat" where
  "MemPool_NodeCount p = length (mp_nodes p)"

text \<open>The destructor: what is passed to \<open>allocator.deallocate\<close> for each node.\<close>

definition MemPool_destroy :: "mem_pool \<Rightarrow> (nat \<times> nat option) list" where
  "MemPool_destroy p =
     (if mp_elementSizeMax p \<noteq> 0
      then map (\<lambda>n. (n_data n, n_bufferSize n)) (filter (\<lambda>n. n_data n \<noteq> 0) (mp_nodes p))
      else [])"

section \<open>MemPoolSync and PoolAlloc\<close>

definition MemPoolSync_alloc :: "nat \<Rightarrow> nat \<Rightarrow> mem_pool \<Rightarrow> (nat \<times> mem_pool) res" where
  "MemPoolSync_alloc base elementSize p =
     (if MemPool_FitsInPool elementSize p then MemPool_PoolAlloc base p else Inr (0, p))"

definition MemPoolSync_dealloc :: "nat \<Rightarrow> mem_pool \<Rightarrow> mem_pool" where
  "MemPoolSync_dealloc ptr p =
     (if ptr \<noteq> 0 then MemPool_PoolDealloc (ptr + mp_elementSizeMax p) p else p)"

definition MemPoolSync_construct :: "nat \<Rightarrow> nat \<Rightarrow> mem_pool \<Rightarrow> (nat \<times> mem_pool) res" where
  "MemPoolSync_construct base sizeof_T p =
     rbind (MemPoolSync_alloc base sizeof_T p)
       (\<lambda>(ptr, p1). if ptr = 0 then Inl NullDeref else Inr (ptr, p1))"

definition MemPoolSync_destruct :: "nat \<Rightarrow> mem_pool \<Rightarrow> mem_pool" where
  "MemPoolSync_destruct ptr p = (if ptr \<noteq> 0 then MemPoolSync_dealloc ptr p else p)"

definition PoolAlloc_init :: "(nat \<Rightarrow> nat) \<Rightarrow> nat \<Rightarrow> nat \<Rightarrow> nat \<Rightarrow> mem_pool res" where
  "PoolAlloc_init mem base maxElementSize initialSize =
     MemPool_init mem base maxElementSize initialSize 4"

definition PoolAlloc_alloc :: "nat \<Rightarrow> nat \<Rightarrow> mem_pool \<Rightarrow> (nat \<times> mem_pool) res" where
  "PoolAlloc_alloc base nBytes p = MemPoolSync_alloc base nBytes p"

definition PoolAlloc_dealloc :: "nat \<Rightarrow> nat \<Rightarrow> mem_pool \<Rightarrow> mem_pool" where
  "PoolAlloc_dealloc dat nBytes p = MemPoolSync_dealloc dat p"

lemmas pool_op_defs = MemPool_FitsInPool_def MemPool_IsFull_def MemPool_IsNotFull_def
  MemPool_PopAvail_def MemPool_PushAvail_def MemPool_PoolDealloc_def MemPool_Reserve_def

section \<open>The interface: a pool of blocks\<close>

locale block_pool =
  fixes alloc :: "nat \<Rightarrow> 'p \<Rightarrow> (nat \<times> 'p) res"
    and dealloc :: "nat \<Rightarrow> 'p \<Rightarrow> 'p"
    and live :: "'p \<Rightarrow> nat set"
    and extent :: "'p \<Rightarrow> nat"
    and fresh :: "nat \<Rightarrow> 'p \<Rightarrow> bool"
    and invar :: "'p \<Rightarrow> bool"
  assumes alloc_spec: "invar p \<Longrightarrow> fresh base p \<Longrightarrow> \<exists>a p'. alloc base p = Inr (a, p') \<and> a \<noteq> 0
      \<and> a \<notin> live p \<and> live p' = insert a (live p) \<and> extent p' = extent p \<and> invar p'"
    and dealloc_spec: "invar p \<Longrightarrow> a \<in> live p \<Longrightarrow>
      invar (dealloc a p) \<and> live (dealloc a p) = live p - {a} \<and> extent (dealloc a p) = extent p"
    and live_nonnull: "invar p \<Longrightarrow> 0 \<notin> live p"
    and live_disjoint: "invar p \<Longrightarrow> a \<in> live p \<Longrightarrow> b \<in> live p \<Longrightarrow> a \<noteq> b \<Longrightarrow>
      a + extent p \<le> b \<or> b + extent p \<le> a"
begin

lemma allocE:
  assumes "invar p" and "fresh base p"
  obtains a p' where "alloc base p = Inr (a, p')" and "a \<noteq> 0" and "a \<notin> live p"
    and "live p' = insert a (live p)" and "extent p' = extent p" and "invar p'"
  using alloc_spec [OF assms] by blast

lemma alloc_disjoint:
  assumes "invar p" and "fresh base p" and "alloc base p = Inr (a, p')" and "b \<in> live p"
  shows "a + extent p \<le> b \<or> b + extent p \<le> a"
proof -
  have "a \<in> live p'" "b \<in> live p'" "a \<noteq> b" "invar p'" "extent p' = extent p"
    using alloc_spec [OF assms(1,2)] assms(3,4) by auto
  then show ?thesis using live_disjoint [of p' a b] by metis
qed

end

section \<open>The invariant of the pool\<close>

definition stride :: "mem_pool \<Rightarrow> nat" where
  "stride p = mp_elementSizeMax p + Element_OFFSET"

definition node_elems :: "nat \<Rightarrow> mp_node \<Rightarrow> nat list" where
  "node_elems s n = map (\<lambda>i. n_begin n + i * s) [0..<(n_end n - n_begin n) div s + 1]"

definition elems :: "mem_pool \<Rightarrow> nat list" where
  "elems p = concat (map (node_elems (stride p)) (mp_nodes p))"

definition spaced :: "nat \<Rightarrow> nat set \<Rightarrow> bool" where
  "spaced s E \<longleftrightarrow> (\<forall>a \<in> E. \<forall>b \<in> E. a \<noteq> b \<longrightarrow> a + s \<le> b \<or> b + s \<le> a)"

definition pool_rep :: "mem_pool \<Rightarrow> nat list \<Rightarrow> bool" where
  "pool_rep p fs \<longleftrightarrow>
     distinct (elems p) \<and> spaced (stride p) (set (elems p))
     \<and> (\<forall>e \<in> set (elems p). mp_elementSizeMax p < e)
     \<and> linked (mp_next p) (mp_avail p) fs 0 \<and> distinct fs \<and> set fs \<subseteq> set (elems p)"

definition pool_inv :: "mem_pool \<Rightarrow> bool" where
  "pool_inv p \<longleftrightarrow> (\<exists>fs. pool_rep p fs) \<and> 0 < mp_capacity p \<and> mp_capacity p = length (elems p)"

definition free_elems :: "mem_pool \<Rightarrow> nat list" where
  "free_elems p = walk (length (elems p)) (mp_next p) (mp_avail p) 0"

definition pool_live :: "mem_pool \<Rightarrow> nat set" where
  "pool_live p = (\<lambda>e. e - mp_elementSizeMax p) ` (set (elems p) - set (free_elems p))"

text \<open>A buffer for \<open>c\<close> elements at \<open>base\<close> overlaps no buffer the pool has.\<close>

definition fresh_for :: "nat \<Rightarrow> nat \<Rightarrow> mem_pool \<Rightarrow> bool" where
  "fresh_for base c p \<longleftrightarrow> 0 < base \<and>
     (\<forall>e \<in> set (elems p). e + Element_OFFSET \<le> base \<or> base + stride p * c \<le> e - mp_elementSizeMax p)"

lemma pool_rep_null: "pool_rep p fs \<Longrightarrow> 0 \<notin> set fs"
  by (auto simp: pool_rep_def)

lemma free_elems_rep: "pool_rep p fs \<Longrightarrow> free_elems p = fs"
  unfolding free_elems_def
  by (rule walk_linked)
    (auto simp: pool_rep_def dest: distinct_card card_mono [rotated] intro: pool_rep_null,
     metis List.finite_set card_mono distinct_card)

section \<open>A new node\<close>

lemma link_loop_spec:
  "e = ptr + k * s \<Longrightarrow> 0 < s \<Longrightarrow> k < fuel \<Longrightarrow>
    link_loop fuel ptr e s mem = Inr (\<lambda>a. if \<exists>i < k. a = ptr + i * s then a + s else mem a)"
proof (induction fuel arbitrary: k ptr mem)
  case (Suc fuel)
  show ?case
  proof (cases k)
    case 0
    then show ?thesis using Suc.prems by simp
  next
    case (Suc k')
    have "link_loop fuel (ptr + s) e s (mem(ptr := ptr + s)) =
        Inr (\<lambda>a. if \<exists>i < k'. a = (ptr + s) + i * s then a + s else (mem(ptr := ptr + s)) a)"
      using Suc.prems Suc by (intro Suc.IH) auto
    moreover have "(\<exists>i < k. a = ptr + i * s) \<longleftrightarrow> a = ptr \<or> (\<exists>i < k'. a = (ptr + s) + i * s)" for a
      unfolding Suc by (auto simp: less_Suc_eq_0_disj add.assoc)
    ultimately show ?thesis using Suc.prems Suc by (auto simp: fun_eq_iff)
  qed
qed simp

lemma node_chain:
  assumes "\<And>i. i < k \<Longrightarrow> nx (b + i * s) = b + Suc i * s" and "nx (b + k * s) = z"
  shows "linked nx b (map (\<lambda>i. b + i * s) [0..<Suc k]) z"
  using assms
proof (induction k arbitrary: z)
  case (Suc k)
  then have "linked nx b (map (\<lambda>i. b + i * s) [0..<Suc k]) (b + Suc k * s)"
    by (intro Suc.IH) (auto simp: less_Suc_eq)
  moreover have "map (\<lambda>i. b + i * s) [0..<Suc (Suc k)]
      = map (\<lambda>i. b + i * s) [0..<Suc k] @ [b + Suc k * s]" by simp
  ultimately show ?case using Suc.prems(2) by (simp only: linked_snoc simp_thms)
qed simp

lemma Node_make_elems:
  assumes "0 < c"
  shows "node_elems (esm + Element_OFFSET) (Node_make base esm c)
    = map (\<lambda>i. base + esm + i * (esm + Element_OFFSET)) [0..<c]"
proof -
  let ?s = "esm + Element_OFFSET"
  have "?s * c - ?s = ?s * (c - 1)" by (simp add: diff_mult_distrib2)
  then have count: "(?s * c - ?s) div ?s + 1 = c" using assms by (simp add: Element_OFFSET_def)
  have le: "?s \<le> ?s * c" using assms by simp
  have b: "n_begin (Node_make base esm c) = base + esm"
    and e: "n_end (Node_make base esm c) - (base + esm) = ?s * c - ?s"
    using le by (simp_all add: Node_make_def Let_def)
  show ?thesis unfolding node_elems_def b e count ..
qed

lemma Node_Link_spec:
  assumes "0 < c" and "node = Node_make base (mp_elementSizeMax p) c"
  obtains mem where
    "Node_Link node (mp_elementSizeMax p) c p = Inr (p\<lparr>mp_next := mem, mp_avail := n_begin node\<rparr>)"
    and "linked mem (n_begin node) (node_elems (stride p) node) (mp_avail p)"
    and "\<And>a. a \<notin> set (node_elems (stride p) node) \<Longrightarrow> mem a = mp_next p a"
proof -
  define s where "s = mp_elementSizeMax p + Element_OFFSET"
  define b where "b = n_begin node"
  obtain k where c: "c = Suc k" using assms(1) by (cases c) auto
  have s: "0 < s" by (simp add: s_def Element_OFFSET_def)
  have e: "n_end node = b + k * s" and b: "b = base + mp_elementSizeMax p"
    by (simp_all add: assms(2) b_def Node_make_def Let_def s_def c algebra_simps)
  define mem where "mem = (\<lambda>a. if \<exists>i < k. a = b + i * s then a + s else mp_next p a)
    (b + k * s := mp_avail p)"
  have el: "node_elems (stride p) node = map (\<lambda>i. b + i * s) [0..<Suc k]"
    using Node_make_elems [OF assms(1)] by (simp only: assms(2) stride_def b s_def c)
  have "(if c > 1 then link_loop c (b + s) (n_end node) s ((mp_next p)(b := b + s)) else Inr (mp_next p))
      = Inr (\<lambda>a. if \<exists>i < k. a = b + i * s then a + s else mp_next p a)"
  proof (cases k)
    case (Suc k')
    have "link_loop c (b + s) (n_end node) s ((mp_next p)(b := b + s))
        = Inr (\<lambda>a. if \<exists>i < k'. a = (b + s) + i * s then a + s else ((mp_next p)(b := b + s)) a)"
      using Suc c e s by (intro link_loop_spec) auto
    moreover have "(\<exists>i < k. a = b + i * s) \<longleftrightarrow> a = b \<or> (\<exists>i < k'. a = (b + s) + i * s)" for a
      unfolding Suc by (auto simp: less_Suc_eq_0_disj add.assoc)
    ultimately show ?thesis using Suc c by (auto simp: fun_eq_iff)
  qed (simp add: c)
  then have "Node_Link node (mp_elementSizeMax p) c p = Inr (p\<lparr>mp_next := mem, mp_avail := b\<rparr>)"
    unfolding Node_Link_def Let_def b_def [symmetric] s_def [symmetric] e
    by (simp add: mem_def fun_upd_def)
  moreover have "linked mem b (node_elems (stride p) node) (mp_avail p)"
    unfolding el using s by (intro node_chain) (auto simp: mem_def)
  moreover have "mem a = mp_next p a" if "a \<notin> set (node_elems (stride p) node)" for a
    using that unfolding el mem_def by (auto simp: less_Suc_eq)
  ultimately show thesis using that [of mem] by (simp add: b_def)
qed

lemma node_elems_copy [simp]: "node_elems s (Node_copy n) = node_elems s n"
  by (simp add: node_elems_def Node_copy_def)

lemma elems_emplace: "elems (emplace_node node p) = elems p @ node_elems (stride p) node"
  by (simp add: elems_def emplace_node_def stride_def comp_def)

lemma emplace_simps [simp]:
  "mp_next (emplace_node node p) = mp_next p" "mp_avail (emplace_node node p) = mp_avail p"
  "mp_elementSizeMax (emplace_node node p) = mp_elementSizeMax p"
  "mp_capacity (emplace_node node p) = mp_capacity p"
  by (simp_all add: emplace_node_def)

lemma linked_cong_off: "(\<And>x. x \<in> set xs \<Longrightarrow> f x = g x) \<Longrightarrow> linked f a xs z = linked g a xs z"
  by (induction xs arbitrary: a) auto

text \<open>The elements of a new node keep their distance from each other and from the old ones.\<close>

lemma node_spaced: "spaced (stride p) (set (map (\<lambda>i. base + mp_elementSizeMax p + i * stride p) [0..<c]))"
proof -
  have "i * stride p + stride p \<le> j * stride p" if "i < j" for i j
    using that mult_le_mono1 [of "Suc i" j "stride p"] by simp
  then show ?thesis by (auto simp: spaced_def) (metis add.assoc add_le_cancel_left nat_neq_iff)
qed

lemma fresh_apart:
  assumes rep: "pool_rep p fs" and fresh: "fresh_for base c p" and old: "e \<in> set (elems p)"
    and x: "x = base + mp_elementSizeMax p + i * stride p" and i: "i < c"
  shows "e + stride p \<le> x \<or> x + stride p \<le> e"
proof -
  have "(i + 1) * stride p \<le> stride p * c"
    using i by (simp add: mult.commute [of _ c] mult_le_mono1 del: mult_Suc)
  then have "i * stride p + stride p \<le> stride p * c" by simp
  moreover have "mp_elementSizeMax p < e" using rep old by (auto simp: pool_rep_def)
  moreover have "e + Element_OFFSET \<le> base \<or> base + stride p * c \<le> e - mp_elementSizeMax p"
    using fresh old by (auto simp: fresh_for_def)
  ultimately show ?thesis unfolding x stride_def by linarith
qed

lemma add_node_rep:
  assumes rep: "pool_rep p fs" and c: "0 < c" and fresh: "fresh_for base c p"
  defines "ns \<equiv> map (\<lambda>i. base + mp_elementSizeMax p + i * stride p) [0..<c]"
  obtains p' where "add_node base c p = Inr p'" and "elems p' = elems p @ ns"
    and "pool_rep p' (ns @ fs)" and "mp_elementSizeMax p' = mp_elementSizeMax p"
    and "mp_capacity p' = mp_capacity p"
proof -
  define node where "node = Node_make base (mp_elementSizeMax p) c"
  have s: "0 < stride p" by (simp add: stride_def Element_OFFSET_def)
  have ns: "node_elems (stride p) node = ns"
    unfolding node_def ns_def stride_def by (rule Node_make_elems [OF c])
  obtain mem where link: "Node_Link node (mp_elementSizeMax p) c p
      = Inr (p\<lparr>mp_next := mem, mp_avail := n_begin node\<rparr>)"
    and chain: "linked mem (n_begin node) ns (mp_avail p)"
    and off: "\<And>a. a \<notin> set ns \<Longrightarrow> mem a = mp_next p a"
    by (rule Node_Link_spec [OF c node_def, unfolded ns]; rule that; assumption)
  define p' where "p' = emplace_node node (p\<lparr>mp_next := mem, mp_avail := n_begin node\<rparr>)"
  have el: "elems p' = elems p @ ns"
    using ns by (simp add: p'_def elems_emplace) (simp add: elems_def stride_def)
  have str: "stride p' = stride p" by (simp add: p'_def stride_def)
  have sep: "e + stride p \<le> x \<or> x + stride p \<le> e"
    if old: "e \<in> set (elems p)" and new: "x \<in> set ns" for e x
  proof -
    have "\<exists>i < c. x = base + mp_elementSizeMax p + i * stride p"
      using new by (auto simp: ns_def)
    then obtain i where "x = base + mp_elementSizeMax p + i * stride p" "i < c" by blast
    then show ?thesis by (rule fresh_apart [OF rep fresh old])
  qed
  then have disj: "set (elems p) \<inter> set ns = {}" using s by force
  have "spaced (stride p) (set ns)" unfolding ns_def by (rule node_spaced)
  with sep rep have "spaced (stride p) (set (elems p @ ns))"
    by (auto simp: spaced_def pool_rep_def)
  moreover have "distinct (elems p @ ns)"
    using disj rep s by (auto simp: pool_rep_def ns_def distinct_map inj_on_def)
  moreover have "linked mem (n_begin node) (ns @ fs) 0"
  proof -
    have "linked mem (mp_avail p) fs 0"
    proof -
      have "mem x = mp_next p x" if "x \<in> set fs" for x
        using that rep disj off unfolding pool_rep_def by blast
      then have "linked mem (mp_avail p) fs 0 = linked (mp_next p) (mp_avail p) fs 0"
        by (rule linked_cong_off)
      with rep show ?thesis by (simp add: pool_rep_def)
    qed
    with chain show ?thesis by (auto simp: linked_append)
  qed
  moreover have "0 < base" using fresh by (simp add: fresh_for_def)
  ultimately have "pool_rep p' (ns @ fs)"
    using rep disj unfolding pool_rep_def el str by (auto simp: p'_def ns_def)
  moreover have "add_node base c p = Inr p'"
    using link by (simp add: add_node_def Let_def node_def [symmetric] p'_def)
  moreover have "mp_elementSizeMax p' = mp_elementSizeMax p" "mp_capacity p' = mp_capacity p"
    by (simp_all add: p'_def)
  ultimately show thesis using el by (intro that)
qed

section \<open>The pool implements the interface\<close>

lemma alloc_from_free:
  assumes "pool_rep p (f # fs)"
  shows "MemPool_PopAvail p = Inr (f, p\<lparr>mp_avail := mp_next p f\<rparr>)"
    and "pool_rep (p\<lparr>mp_avail := mp_next p f\<rparr>) fs"
    and "elems (p\<lparr>mp_avail := mp_next p f\<rparr>) = elems p"
  using assms pool_rep_null [OF assms]
  by (auto simp: MemPool_PopAvail_def pool_rep_def elems_def stride_def)

lemma pool_live_rep:
  "pool_rep p fs \<Longrightarrow> pool_live p = (\<lambda>e. e - mp_elementSizeMax p) ` (set (elems p) - set fs)"
  by (simp add: pool_live_def free_elems_rep)

lemma inj_block:
  "pool_rep p fs \<Longrightarrow> inj_on (\<lambda>e. e - mp_elementSizeMax p) (set (elems p))"
  by (rule inj_on_diff_nat) (auto simp: pool_rep_def)

lemma PoolAlloc_free:
  assumes rep: "pool_rep p (f # fs)"
  defines "q \<equiv> p\<lparr>mp_avail := mp_next p f\<rparr>" and "a \<equiv> f - mp_elementSizeMax p"
  shows "a \<noteq> 0 \<and> a \<notin> pool_live p \<and> pool_live q = insert a (pool_live p) \<and> pool_rep q fs
    \<and> elems q = elems p"
proof -
  have q: "pool_rep q fs" "elems q = elems p" "mp_elementSizeMax q = mp_elementSizeMax p"
    using alloc_from_free [OF rep] by (simp_all add: q_def)
  have f: "f \<in> set (elems p)" "mp_elementSizeMax p < f" "f \<notin> set fs" "set fs \<subseteq> set (elems p)"
    using rep by (auto simp: pool_rep_def)
  then have "set (elems p) - set fs = insert f (set (elems p) - set (f # fs))" by auto
  then have "pool_live q = insert a (pool_live p)"
    by (simp add: pool_live_rep [OF rep] pool_live_rep [OF q(1)] q a_def)
  moreover have "a \<notin> pool_live p"
    using f inj_block [OF rep] unfolding pool_live_rep [OF rep] a_def
    by (auto simp: inj_on_def)
  ultimately show ?thesis using f q by (simp add: a_def)
qed

definition pool_fresh :: "nat \<Rightarrow> mem_pool \<Rightarrow> bool" where
  "pool_fresh base p \<longleftrightarrow> fresh_for base (mp_capacity p) p"

text \<open>Allocation of a block that fits, with or without growing the pool.\<close>

lemma PoolAlloc_spec:
  assumes inv: "pool_inv p" and fresh: "pool_fresh base p"
  obtains a p' where "MemPool_PoolAlloc base p = Inr (a, p')" and "a \<noteq> 0" and "a \<notin> pool_live p"
    and "pool_live p' = insert a (pool_live p)" and "pool_inv p'"
    and "mp_elementSizeMax p' = mp_elementSizeMax p"
proof -
  obtain fs where rep: "pool_rep p fs" and cap: "0 < mp_capacity p" "mp_capacity p = length (elems p)"
    using inv by (auto simp: pool_inv_def)
  show thesis
  proof (cases fs)
    case (Cons f fs')
    then have full: "\<not> MemPool_IsFull p" and rep': "pool_rep p (f # fs')"
      using rep pool_rep_null [OF rep] by (auto simp: MemPool_IsFull_def pool_rep_def)
    show thesis
      using full alloc_from_free [OF rep'] PoolAlloc_free [OF rep'] cap
      by (intro that [of "f - mp_elementSizeMax p" "p\<lparr>mp_avail := mp_next p f\<rparr>"])
        (auto simp: MemPool_PoolAlloc_def pool_inv_def)
  next
    case Nil
    then have full: "MemPool_IsFull p" using rep by (auto simp: MemPool_IsFull_def pool_rep_def)
    define ns where "ns = map (\<lambda>i. base + mp_elementSizeMax p + i * stride p) [0..<mp_capacity p]"
    obtain p1 where add: "add_node base (mp_capacity p) p = Inr p1"
      and el: "elems p1 = elems p @ ns" and rep1: "pool_rep p1 (ns @ fs)"
      and eq: "mp_elementSizeMax p1 = mp_elementSizeMax p" "mp_capacity p1 = mp_capacity p"
      by (rule add_node_rep [OF rep cap(1) fresh [unfolded pool_fresh_def], folded ns_def])
    have len: "length ns = mp_capacity p" by (simp add: ns_def)
    define p2 where "p2 = p1\<lparr>mp_capacity := mp_capacity p1 + mp_capacity p\<rparr>"
    obtain f fs' where ns: "ns = f # fs'" using len cap by (cases ns) auto
    have el2: "elems p2 = elems p1" by (simp add: p2_def elems_def stride_def)
    have rep2: "pool_rep p2 (f # fs')"
      using rep1 Nil ns by (simp add: pool_rep_def p2_def elems_def stride_def)
    have "distinct (elems p @ ns)" using rep1 el by (simp add: pool_rep_def)
    then have live: "pool_live p2 = pool_live p"
      using Nil eq unfolding pool_live_rep [OF rep2] pool_live_rep [OF rep] el2 el ns [symmetric]
      by (auto simp: p2_def)
    define p3 where "p3 = p2\<lparr>mp_avail := mp_next p2 f\<rparr>"
    note pop = alloc_from_free [OF rep2, folded p3_def]
    note free = PoolAlloc_free [OF rep2, folded p3_def]
    have eq3: "mp_elementSizeMax p3 = mp_elementSizeMax p" "mp_elementSizeMax p2 = mp_elementSizeMax p"
      "mp_capacity p3 = mp_capacity p + mp_capacity p"
      using eq by (simp_all add: p3_def p2_def)
    have "MemPool_Grow base (mp_capacity p) p = Inr p2" by (simp add: MemPool_Grow_def add p2_def)
    then have "MemPool_PoolAlloc base p = Inr (f - mp_elementSizeMax p2, p3)"
      using full pop(1) eq3 by (simp add: MemPool_PoolAlloc_def)
    moreover have "pool_inv p3"
      using pop(2,3) cap el el2 len eq3 unfolding pool_inv_def by auto
    ultimately show thesis using that free live eq3 by metis
  qed
qed

lemma dealloc_spec':
  assumes inv: "pool_inv p" and a: "a \<in> pool_live p"
  shows "pool_inv (MemPool_dealloc a p) \<and> pool_live (MemPool_dealloc a p) = pool_live p - {a}
    \<and> mp_elementSizeMax (MemPool_dealloc a p) = mp_elementSizeMax p"
proof -
  obtain fs where rep: "pool_rep p fs" and cap: "0 < mp_capacity p" "mp_capacity p = length (elems p)"
    using inv by (auto simp: pool_inv_def)
  obtain e where e: "e \<in> set (elems p)" "e \<notin> set fs" "a = e - mp_elementSizeMax p"
    using a pool_live_rep [OF rep] by auto
  then have lt: "mp_elementSizeMax p < e" using rep by (auto simp: pool_rep_def)
  define q where "q = MemPool_dealloc a p"
  have q: "q = p\<lparr>mp_next := (mp_next p)(e := mp_avail p), mp_avail := e\<rparr>"
    using e lt by (simp add: q_def MemPool_dealloc_def MemPool_PoolDealloc_def MemPool_PushAvail_def)
  have el: "elems q = elems p" by (simp add: q elems_def stride_def)
  have "pool_rep q (e # fs)"
    using rep e unfolding pool_rep_def el by (auto simp: q stride_def)
  then have "pool_live q = (\<lambda>x. x - mp_elementSizeMax p) ` (set (elems p) - set (e # fs))"
    and inv': "pool_inv q"
    using cap el by (auto simp: pool_live_rep q pool_inv_def)
  moreover have "(\<lambda>x. x - mp_elementSizeMax p) ` (set (elems p) - set (e # fs)) = pool_live p - {a}"
    using inj_block [OF rep] e unfolding pool_live_rep [OF rep] by (auto simp: inj_on_def)
  ultimately show ?thesis by (simp add: q_def [symmetric] q)
qed

lemma live_disjoint':
  assumes "pool_inv p" and "a \<in> pool_live p" and "b \<in> pool_live p" and "a \<noteq> b"
  shows "a + stride p \<le> b \<or> b + stride p \<le> a"
proof -
  obtain fs where rep: "pool_rep p fs" using assms(1) by (auto simp: pool_inv_def)
  obtain x y where xy: "x \<in> set (elems p)" "y \<in> set (elems p)" "x \<noteq> y"
    "a = x - mp_elementSizeMax p" "b = y - mp_elementSizeMax p"
    using assms pool_live_rep [OF rep] by auto
  then have "mp_elementSizeMax p < x" "mp_elementSizeMax p < y" "x + stride p \<le> y \<or> y + stride p \<le> x"
    using rep by (auto simp: pool_rep_def spaced_def)
  then show ?thesis using xy by linarith
qed

lemma live_nonnull': "pool_inv p \<Longrightarrow> 0 \<notin> pool_live p"
  by (auto simp: pool_inv_def pool_live_rep) (auto simp: pool_rep_def)

interpretation mp: block_pool MemPool_PoolAlloc MemPool_dealloc pool_live stride pool_fresh pool_inv
proof (unfold_locales, goal_cases)
  case (1 p base)
  then obtain a p' where "MemPool_PoolAlloc base p = Inr (a, p')" "a \<noteq> 0" "a \<notin> pool_live p"
    "pool_live p' = insert a (pool_live p)" "pool_inv p'"
    "mp_elementSizeMax p' = mp_elementSizeMax p"
    by (rule PoolAlloc_spec)
  then show ?case unfolding stride_def by metis
next
  case (2 p a)
  then show ?case by (simp add: dealloc_spec' stride_def)
qed (use live_nonnull' live_disjoint' in blast)+

section \<open>Runs of the pool\<close>

lemma round_element_size_ge:
  assumes "0 < al"
  shows "n \<le> round_element_size n al"
proof -
  have "n + Element_OFFSET + al - 1 = (n + Element_OFFSET + al - 1) div al * al
      + (n + Element_OFFSET + al - 1) mod al"
    by simp
  moreover have "(n + Element_OFFSET + al - 1) mod al < al" using assms by simp
  ultimately have "n + Element_OFFSET \<le> (n + Element_OFFSET + al - 1) div al * al" by linarith
  then show ?thesis by (simp add: round_element_size_def)
qed

lemma MemPool_init_spec:
  assumes "0 < cap" and "0 < base"
  obtains p where "MemPool_init mem base n cap al = Inr p" and "pool_inv p" and "pool_live p = {}"
    and "mp_elementSizeMax p = round_element_size n al"
proof -
  define p0 where "p0 = \<lparr>mp_next = mem, mp_avail = 0, mp_nodes = [], mp_nodesReserved = 5,
      mp_elementSizeMax = round_element_size n al, mp_capacity = cap\<rparr>"
  have "elems p0 = []" by (simp add: elems_def p0_def)
  then have rep: "pool_rep p0 []" and fresh: "fresh_for base cap p0"
    using assms by (simp_all add: pool_rep_def fresh_for_def spaced_def) (simp add: p0_def)
  define ns where "ns = map (\<lambda>i. base + mp_elementSizeMax p0 + i * stride p0) [0..<cap]"
  obtain p where p: "add_node base cap p0 = Inr p" "elems p = elems p0 @ ns"
    "pool_rep p (ns @ [])" "mp_elementSizeMax p = mp_elementSizeMax p0"
    "mp_capacity p = mp_capacity p0"
    by (rule add_node_rep [OF rep assms(1) fresh, folded ns_def])
  have "pool_inv p" using p assms \<open>elems p0 = []\<close> by (auto simp: pool_inv_def ns_def p0_def)
  moreover have "pool_live p = {}" using p \<open>elems p0 = []\<close> by (simp add: pool_live_rep [OF p(3)])
  moreover have "MemPool_init mem base n cap al = Inr p" using p by (simp add: MemPool_init_def p0_def)
  moreover have "mp_elementSizeMax p = round_element_size n al" using p by (simp add: p0_def)
  ultimately show thesis using that by blast
qed

text \<open>A run: requests for blocks, each with the address a new buffer would get, and returns of
  blocks.  The last component lists the blocks handed out and not yet returned.\<close>

datatype pool_op = PAlloc nat nat | PFree nat

fun pool_run :: "pool_op list \<Rightarrow> mem_pool \<Rightarrow> nat list \<Rightarrow> (mem_pool \<times> nat list) res" where
  "pool_run [] p held = Inr (p, held)"
| "pool_run (PAlloc base n # ops) p held =
     rbind (MemPoolSync_alloc base n p)
       (\<lambda>(a, p'). pool_run ops p' (if a = 0 then held else a # held))"
| "pool_run (PFree a # ops) p held = pool_run ops (MemPoolSync_dealloc a p) (remove1 a held)"

text \<open>The run keeps the contract: the underlying allocator returns memory that overlaps nothing
  the pool has, and only blocks that are out are returned.\<close>

fun pool_usage :: "pool_op list \<Rightarrow> mem_pool \<Rightarrow> nat list \<Rightarrow> bool" where
  "pool_usage [] p held \<longleftrightarrow> True"
| "pool_usage (PAlloc base n # ops) p held \<longleftrightarrow> pool_fresh base p \<and>
     (case MemPoolSync_alloc base n p of
        Inl e \<Rightarrow> True
      | Inr (a, p') \<Rightarrow> pool_usage ops p' (if a = 0 then held else a # held))"
| "pool_usage (PFree a # ops) p held \<longleftrightarrow>
     a \<in> set held \<and> pool_usage ops (MemPoolSync_dealloc a p) (remove1 a held)"

lemma Sync_dealloc_eq: "MemPoolSync_dealloc a p = MemPool_dealloc a p"
  by (simp add: MemPoolSync_dealloc_def MemPool_dealloc_def)

lemma dealloc_esm [simp]: "mp_elementSizeMax (MemPool_dealloc a p) = mp_elementSizeMax p"
  by (simp add: MemPool_dealloc_def pool_op_defs)

lemma pool_run_spec:
  assumes "pool_inv p" and "set held = pool_live p" and "distinct held" and "pool_usage ops p held"
  shows "\<exists>p' held'. pool_run ops p held = Inr (p', held') \<and> pool_inv p'
    \<and> set held' = pool_live p' \<and> distinct held' \<and> mp_elementSizeMax p' = mp_elementSizeMax p"
  using assms
proof (induction ops p held rule: pool_run.induct)
  case (2 base n ops p held)
  show ?case
  proof (cases "MemPool_FitsInPool n p")
    case False
    then have eq: "MemPoolSync_alloc base n p = Inr (0, p)" by (simp add: MemPoolSync_alloc_def)
    show ?thesis using "2.IH" [of p 0] "2.prems" by (simp add: eq)
  next
    case True
    have "pool_fresh base p" using "2.prems" by simp
    then obtain a p' where a: "MemPool_PoolAlloc base p = Inr (a, p')" "a \<noteq> 0" "a \<notin> pool_live p"
      "pool_live p' = insert a (pool_live p)" "pool_inv p'"
      "mp_elementSizeMax p' = mp_elementSizeMax p"
      using PoolAlloc_spec "2.prems"(1) by blast
    have eq: "MemPoolSync_alloc base n p = Inr (a, p')"
      using True a by (simp add: MemPoolSync_alloc_def)
    show ?thesis using "2.IH" [of p' a] "2.prems" a by (simp add: eq)
  qed
next
  case (3 a ops p held)
  then have "a \<in> pool_live p" by simp
  note d = mp.dealloc_spec [OF "3.prems"(1) this]
  show ?case using "3.IH" "3.prems" d by (simp add: Sync_dealloc_eq)
qed auto

text \<open>C22: however the pool is used within its contract, a request never faults; the blocks that
  are out are non-null, distinct and at least the element size apart, so no two of them
  overlap, and the element size is at least the one asked for.\<close>

theorem pool_blocks_disjoint:
  assumes "0 < cap" and "0 < base" and "0 < al"
    and init: "MemPool_init mem base n cap al = Inr p0"
    and usage: "pool_usage ops p0 []"
  shows "\<exists>p held. pool_run ops p0 [] = Inr (p, held) \<and> distinct held \<and> 0 \<notin> set held
    \<and> n \<le> mp_elementSizeMax p
    \<and> (\<forall>a \<in> set held. \<forall>b \<in> set held. a \<noteq> b \<longrightarrow>
         a + mp_elementSizeMax p \<le> b \<or> b + mp_elementSizeMax p \<le> a)"
proof -
  have inv: "pool_inv p0" "pool_live p0 = {}" "mp_elementSizeMax p0 = round_element_size n al"
    using MemPool_init_spec [OF assms(1,2), of mem n al] init by auto
  then obtain p held where r: "pool_run ops p0 [] = Inr (p, held)" "pool_inv p"
    "set held = pool_live p" "distinct held" "mp_elementSizeMax p = mp_elementSizeMax p0"
    using pool_run_spec [of p0 "[]" ops] usage by auto
  have "a + mp_elementSizeMax p \<le> b \<or> b + mp_elementSizeMax p \<le> a"
    if "a \<in> set held" "b \<in> set held" "a \<noteq> b" for a b
    using mp.live_disjoint [OF r(2), of a b] that r(3) by (auto simp: stride_def)
  then show ?thesis
    using r inv round_element_size_ge [OF assms(3)] mp.live_nonnull [OF r(2)] by auto
qed

definition example_pool :: mem_pool where
  "example_pool = (case MemPool_init (\<lambda>_. 0) 1000 16 2 4 of Inr p \<Rightarrow> p)"

definition example_pool_ops :: "pool_op list" where
  "example_pool_ops = [PAlloc 2000 16, PAlloc 2000 10, PAlloc 2000 8, PFree 1024, PAlloc 3000 4,
     PAlloc 4000 17]"

lemma pool_blocks_disjoint_witness:
  "\<exists>p held. pool_run example_pool_ops example_pool [] = Inr (p, held) \<and> distinct held
    \<and> 0 \<notin> set held"
proof -
  obtain p where "MemPool_init (\<lambda>_. 0) 1000 16 2 4 = Inr p"
    by (rule MemPool_init_spec [of 2 1000 "\<lambda>_. 0" 16 4]) simp_all
  then have i: "MemPool_init (\<lambda>_. 0) 1000 16 2 4 = Inr example_pool"
    by (simp add: example_pool_def)
  have u: "pool_usage example_pool_ops example_pool []" by code_simp
  show ?thesis using pool_blocks_disjoint [OF _ _ _ i u] by auto
qed

section \<open>What the destructor frees\<close>

fun pool_grow_all :: "(nat \<times> nat) list \<Rightarrow> mem_pool \<Rightarrow> mem_pool res" where
  "pool_grow_all [] p = Inr p"
| "pool_grow_all ((base, c) # gs) p = rbind (MemPool_Reserve base c p) (pool_grow_all gs)"

text \<open>The sizes the nodes had when they were made, and the sizes they carry.\<close>

definition made_sizes :: "nat \<Rightarrow> (nat \<times> nat) list \<Rightarrow> nat list" where
  "made_sizes esm gs = map (\<lambda>(base, c). (esm + Element_OFFSET) * c) gs"

definition node_sizes :: "mem_pool \<Rightarrow> nat option list" where
  "node_sizes p = map n_bufferSize (mp_nodes p)"

lemma add_node_InrE:
  assumes "add_node base c p = Inr q"
  obtains p1 where "q = emplace_node (Node_make base (mp_elementSizeMax p) c) p1"
    and "mp_nodes p1 = mp_nodes p" and "mp_nodesReserved p1 = mp_nodesReserved p"
    and "mp_elementSizeMax p1 = mp_elementSizeMax p"
  using assms by (auto simp: add_node_def Let_def Node_Link_def elim!: rbind_InrE split: if_splits)

lemma Node_copy_fields [simp]:
  "n_bufferSize (Node_copy x) = None" "n_data (Node_copy x) = n_data x"
  by (simp_all add: Node_copy_def)

lemma Node_make_fields [simp]:
  "n_bufferSize (Node_make base e c) = Some ((e + Element_OFFSET) * c)"
  "n_data (Node_make base e c) = base"
  by (simp_all add: Node_make_def Let_def)

definition copied_prefix :: "nat \<Rightarrow> mem_pool \<Rightarrow> bool" where
  "copied_prefix k p \<longleftrightarrow> (\<forall>i < k. i < length (mp_nodes p) \<longrightarrow> n_bufferSize (mp_nodes p ! i) = None)"

lemma add_node_sizes:
  assumes "add_node base c p = Inr q"
  shows "mp_elementSizeMax q = mp_elementSizeMax p"
    and "map n_data (mp_nodes q) = map n_data (mp_nodes p) @ [base]"
    and "length (mp_nodes p) < mp_nodesReserved p \<Longrightarrow> mp_nodesReserved q = mp_nodesReserved p
      \<and> node_sizes q = node_sizes p @ [Some ((mp_elementSizeMax p + Element_OFFSET) * c)]"
    and "\<not> length (mp_nodes p) < mp_nodesReserved p \<Longrightarrow>
      node_sizes q = replicate (length (mp_nodes p)) None @ [Some ((mp_elementSizeMax p + Element_OFFSET) * c)]"
  using assms
  by (auto elim!: add_node_InrE simp: emplace_node_def node_sizes_def o_def map_replicate_const)

lemma pool_grow_all_data:
  "pool_grow_all gs p = Inr q \<Longrightarrow>
    map n_data (mp_nodes q) = map n_data (mp_nodes p) @ map fst gs
    \<and> mp_elementSizeMax q = mp_elementSizeMax p"
proof (induction gs arbitrary: p)
  case (Cons g gs)
  obtain base c where g: "g = (base, c)" by (cases g)
  obtain p1 where "add_node base c p = Inr p1"
    "pool_grow_all gs (p1\<lparr>mp_capacity := mp_capacity p1 + c\<rparr>) = Inr q"
    using Cons.prems by (auto simp: g MemPool_Reserve_def MemPool_Grow_def elim!: rbind_InrE)
  then show ?case using Cons.IH add_node_sizes(1,2) [of base c p p1] by (simp add: g)
qed simp

lemma pool_grow_all_few:
  "pool_grow_all gs p = Inr q \<Longrightarrow> length (mp_nodes p) + length gs \<le> mp_nodesReserved p \<Longrightarrow>
    node_sizes q = node_sizes p @ map Some (made_sizes (mp_elementSizeMax p) gs)
    \<and> mp_nodesReserved q = mp_nodesReserved p"
proof (induction gs arbitrary: p)
  case (Cons g gs)
  obtain base c where g: "g = (base, c)" by (cases g)
  obtain p1 where p1: "add_node base c p = Inr p1"
    and rest: "pool_grow_all gs (p1\<lparr>mp_capacity := mp_capacity p1 + c\<rparr>) = Inr q"
    using Cons.prems by (auto simp: g MemPool_Reserve_def MemPool_Grow_def elim!: rbind_InrE)
  have "length (mp_nodes p1) = length (mp_nodes p) + 1"
    using arg_cong [OF add_node_sizes(2) [OF p1], of length] by simp
  then show ?case
    using Cons.IH [OF rest] Cons.prems(2) add_node_sizes(1,3) [OF p1]
    by (simp add: g made_sizes_def node_sizes_def)
qed (simp add: made_sizes_def)

lemma pool_grow_all_copied:
  "pool_grow_all gs p = Inr q \<Longrightarrow> copied_prefix k p \<Longrightarrow> k \<le> length (mp_nodes p) \<Longrightarrow> copied_prefix k q"
proof (induction gs arbitrary: p)
  case (Cons g gs)
  obtain base c where g: "g = (base, c)" by (cases g)
  obtain p1 where p1: "add_node base c p = Inr p1"
    and rest: "pool_grow_all gs (p1\<lparr>mp_capacity := mp_capacity p1 + c\<rparr>) = Inr q"
    using Cons.prems by (auto simp: g MemPool_Reserve_def MemPool_Grow_def elim!: rbind_InrE)
  have "copied_prefix k p1" "k \<le> length (mp_nodes p1)"
    using p1 Cons.prems(2,3)
    by (auto elim!: add_node_InrE simp: emplace_node_def copied_prefix_def nth_append)
  then show ?case using Cons.IH [OF rest] by (simp add: copied_prefix_def)
qed simp

lemma pool_grow_all_append:
  "pool_grow_all (gs @ hs) p = rbind (pool_grow_all gs p) (pool_grow_all hs)"
proof (induction gs arbitrary: p)
  case (Cons g gs)
  then show ?case by (cases g) (auto simp: rbind_def split: sum.splits)
qed simp

lemma MemPool_init_nodes:
  assumes "MemPool_init mem base n cap al = Inr p0"
  shows "mp_nodesReserved p0 = 5" and "map n_data (mp_nodes p0) = [base]"
    and "mp_elementSizeMax p0 = round_element_size n al"
    and "node_sizes p0 = map Some (made_sizes (round_element_size n al) [(base, cap)])"
  using assms add_node_sizes [of base cap]
  unfolding MemPool_init_def by (fastforce simp: node_sizes_def made_sizes_def)+

lemma destroy_eq:
  "mp_elementSizeMax p \<noteq> 0 \<Longrightarrow> 0 \<notin> set (map n_data (mp_nodes p)) \<Longrightarrow>
    MemPool_destroy p = zip (map n_data (mp_nodes p)) (node_sizes p)"
  by (auto simp: MemPool_destroy_def node_sizes_def zip_map_map zip_same_conv_map o_def
      intro!: arg_cong [where f = "map _"] filter_True)

lemma sixth_copied:
  assumes init: "MemPool_init mem base n cap al = Inr p0"
    and grow: "pool_grow_all gs p0 = Inr p" and ge: "5 \<le> length gs"
  shows "copied_prefix 5 p"
proof -
  note i = MemPool_init_nodes [OF init]
  have one: "length (mp_nodes p0) = 1" using arg_cong [OF i(2), of length] by simp
  define g where "g = gs ! 4"
  have "drop 4 gs = g # drop 5 gs"
    using ge Cons_nth_drop_Suc [of 4 gs] by (simp add: g_def)
  then have gs: "gs = take 4 gs @ [g] @ drop 5 gs" by (metis append_Cons append_Nil append_take_drop_id)
  have grow': "pool_grow_all (take 4 gs @ [g] @ drop 5 gs) p0 = Inr p"
    using grow by (simp only: gs [symmetric])
  obtain p4 p5 where p4: "pool_grow_all (take 4 gs) p0 = Inr p4"
    and p5: "pool_grow_all [g] p4 = Inr p5" and rest: "pool_grow_all (drop 5 gs) p5 = Inr p"
    using grow' unfolding pool_grow_all_append by (elim rbind_InrE) blast
  have four: "length (mp_nodes p4) = 5" "mp_nodesReserved p4 = 5"
    using arg_cong [OF conjunct1 [OF pool_grow_all_data [OF p4]], of length]
      pool_grow_all_few [OF p4] one ge i by simp_all
  obtain p' where p': "add_node (fst g) (snd g) p4 = Inr p'" and "mp_nodes p5 = mp_nodes p'"
    using p5 by (cases g) (auto simp: MemPool_Reserve_def MemPool_Grow_def elim!: rbind_InrE)
  then have ns5: "node_sizes p5 = node_sizes p'" by (simp add: node_sizes_def)
  have six: "node_sizes p5 = replicate 5 None @ [Some ((mp_elementSizeMax p4 + Element_OFFSET) * snd g)]"
    using add_node_sizes(4) [OF p'] four unfolding ns5 by simp
  have l5: "length (mp_nodes p5) = 6"
    using arg_cong [OF six, of length] by (simp add: node_sizes_def)
  have "n_bufferSize (mp_nodes p5 ! i) = None" if "i < 5" for i
    using that l5 arg_cong [OF six, of "\<lambda>xs. xs ! i"] by (simp add: node_sizes_def nth_append)
  then have "copied_prefix 5 p5" and "5 \<le> length (mp_nodes p5)"
    using l5 by (simp_all add: copied_prefix_def)
  then show ?thesis by (rule pool_grow_all_copied [OF rest])
qed

text \<open>C38: the destructor gives every buffer of the pool back, in the order they were taken.
  While the pool has at most five of them each with the size it was allocated with; once a
  sixth buffer has been added, the first five with an indeterminate size.\<close>

theorem pool_destructor_sizes:
  assumes init: "MemPool_init mem base n cap al = Inr p0"
    and grow: "pool_grow_all gs p0 = Inr p"
    and addr: "0 < base" "\<forall>g \<in> set gs. 0 < fst g" and esm: "0 < round_element_size n al"
  shows "map fst (MemPool_destroy p) = base # map fst gs
    \<and> (length gs \<le> 4 \<longrightarrow> map snd (MemPool_destroy p)
      = map Some (made_sizes (round_element_size n al) ((base, cap) # gs)))
    \<and> (5 \<le> length gs \<longrightarrow> take 5 (map snd (MemPool_destroy p)) = replicate 5 None)"
proof (intro conjI)
  note i = MemPool_init_nodes [OF init]
  have dat: "map n_data (mp_nodes p) = base # map fst gs"
    and e: "mp_elementSizeMax p = round_element_size n al"
    using pool_grow_all_data [OF grow] i by simp_all
  have destr: "MemPool_destroy p = zip (base # map fst gs) (node_sizes p)"
    using destroy_eq [of p] addr esm unfolding dat e by fastforce
  have len: "length (node_sizes p) = Suc (length gs)"
    using arg_cong [OF dat, of length] by (simp add: node_sizes_def)
  show "map fst (MemPool_destroy p) = base # map fst gs"
    unfolding destr using len by simp
  have snd: "map snd (MemPool_destroy p) = node_sizes p" unfolding destr using len by simp
  have one: "length (mp_nodes p0) = 1" using arg_cong [OF i(2), of length] by simp
  show "length gs \<le> 4 \<longrightarrow> map snd (MemPool_destroy p)
      = map Some (made_sizes (round_element_size n al) ((base, cap) # gs))"
    using pool_grow_all_few [OF grow] one i unfolding snd by (simp add: made_sizes_def)
  show "5 \<le> length gs \<longrightarrow> take 5 (map snd (MemPool_destroy p)) = replicate 5 None"
  proof
    assume ge: "5 \<le> length gs"
    have "copied_prefix 5 p" by (rule sixth_copied [OF init grow ge])
    then show "take 5 (map snd (MemPool_destroy p)) = replicate 5 None"
      using ge len unfolding snd
      by (intro nth_equalityI) (auto simp: copied_prefix_def node_sizes_def)
  qed
qed

lemma pool_destructor_sizes_witness:
  "\<exists>p. pool_grow_all (map (\<lambda>i. (2000 + 100 * i, 2)) [0..<5]) example_pool = Inr p
    \<and> take 5 (map snd (MemPool_destroy p)) = replicate 5 None"
proof -
  obtain p where "MemPool_init (\<lambda>_. 0) 1000 16 2 4 = Inr p"
    by (rule MemPool_init_spec [of 2 1000 "\<lambda>_. 0" 16 4]) simp_all
  then have i: "MemPool_init (\<lambda>_. 0) 1000 16 2 4 = Inr example_pool"
    by (simp add: example_pool_def)
  have run: "\<exists>p. pool_grow_all (map (\<lambda>i. (2000 + 100 * i, 2)) [0..<5]) example_pool = Inr p"
    (is "\<exists>p. ?run p")
  proof -
    have "case pool_grow_all (map (\<lambda>i. (2000 + 100 * i, 2)) [0..<5]) example_pool of
        Inl _ \<Rightarrow> False | Inr _ \<Rightarrow> True"
      by code_simp
    then show ?thesis by (auto split: sum.splits)
  qed
  have pos: "0 < round_element_size 16 4" by code_simp
  from run obtain p where p: "?run p" by blast
  show ?thesis
    using pool_destructor_sizes [OF i p _ _ pos] p by auto
qed

end
