(* ===== verification/ClientQueue.thy ===== *)
theory ClientQueue
  imports WorkMap Performance LockfreeQueue MemPool
begin

text \<open>
  The queue of clients ready for work (\<open>Server/ClientQueue.cpp\<close>): two lock-free queues of
  client pointers, the performance model that decides which of them a client joins, and the
  pool its time stamps come from.

  \<open>clint->obj\<close> is the address of the client's time stamp, 0 when null; it belongs to the
  client, and \<open>cq_obj\<close> keeps it per client.  \<open>newbuf\<close> is the choice of the allocator under
  the pool: the address of the buffer it hands out when the pool grows, which by its contract
  overlaps nothing the pool holds (\<open>allocator_law\<close>).

  The interface \<open>dispatcher\<close> is what the server relies on: the clients that wait, in the order
  they will be served, and how each operation changes that order.  \<open>RemoveClient\<close> promises
  nothing about it, because it does not take the client out of the queues.
\<close>

section \<open>State and operations\<close>

record client_queue =
  cq_fastClients :: "client lfq"
  cq_otherClients :: "client lfq"
  cq_perfModel :: perf_model
  cq_timePool :: mem_pool
  cq_obj :: "client \<Rightarrow> nat"

definition sizeof_TimePoint :: nat where
  "sizeof_TimePoint = 8"

definition allocator_law :: "(mem_pool \<Rightarrow> nat) \<Rightarrow> bool" where
  "allocator_law newbuf \<longleftrightarrow> (\<forall>p. pool_fresh (newbuf p) p)"

text \<open>The memory the nodes of the queues and of the pool are placed in is arbitrary.\<close>

record queue_memory =
  qm_next :: "u16 \<Rightarrow> tagged_index"
  qm_data :: "u16 \<Rightarrow> client"
  qm_pool :: "nat \<Rightarrow> nat"

definition ClientQueue_init ::
  "queue_memory \<Rightarrow> nat \<Rightarrow> (client \<Rightarrow> nat) \<Rightarrow> nat \<Rightarrow> client_queue res" where
  "ClientQueue_init mem base obj maxClients =
     rbind (queue_init (qm_next mem) (qm_data mem) maxClients) (\<lambda>fast.
     rbind (queue_init (qm_next mem) (qm_data mem) maxClients) (\<lambda>other.
     rbind (MemPool_init (qm_pool mem) base sizeof_TimePoint maxClients 4) (\<lambda>pool.
       Inr \<lparr>cq_fastClients = fast, cq_otherClients = other,
            cq_perfModel = PerformanceModel_init 2 4, cq_timePool = pool, cq_obj = obj\<rparr>)))"

definition ClientQueue_AddClient ::
  "(mem_pool \<Rightarrow> nat) \<Rightarrow> client \<Rightarrow> client_queue \<Rightarrow> client_queue res" where
  "ClientQueue_AddClient newbuf clint q =
     rbind
       (if cq_obj q clint = 0
        then rbind (MemPoolSync_construct (newbuf (cq_timePool q)) sizeof_TimePoint (cq_timePool q))
               (\<lambda>(obj, pool). Inr (q\<lparr>cq_timePool := pool, cq_obj := (cq_obj q)(clint := obj)\<rparr>))
        else Inr q)
       (\<lambda>q1. rbind (queue_push clint (cq_otherClients q1))
         (\<lambda>(pushed, other). Inr (q1\<lparr>cq_otherClients := other\<rparr>)))"

definition ClientQueue_RemoveClient :: "client \<Rightarrow> client_queue \<Rightarrow> client_queue" where
  "ClientQueue_RemoveClient clint q =
     (if cq_obj q clint \<noteq> 0
      then q\<lparr>cq_timePool := MemPoolSync_destruct (cq_obj q clint) (cq_timePool q),
             cq_obj := (cq_obj q)(clint := 0)\<rparr>
      else q)"

definition ClientQueue_EvaluateClient ::
  "(real \<Rightarrow> real) \<Rightarrow> (real \<Rightarrow> real) \<Rightarrow> client \<Rightarrow> real \<Rightarrow> client_queue \<Rightarrow> (bool \<times> client_queue) res" where
  "ClientQueue_EvaluateClient r32 r64 clint time q =
     (let (res, pm) = PerformanceModel_EvaluateTime r32 r64 time (cq_perfModel q);
          q1 = q\<lparr>cq_perfModel := pm\<rparr>
      in if res = TOOSLOW then Inr (False, q1)
         else if res = FAST
         then rbind (queue_push clint (cq_fastClients q1))
                (\<lambda>(pushed, fast). Inr (True, q1\<lparr>cq_fastClients := fast\<rparr>))
         else rbind (queue_push clint (cq_otherClients q1))
                (\<lambda>(pushed, other). Inr (True, q1\<lparr>cq_otherClients := other\<rparr>)))"

definition ClientQueue_FindClientForWork :: "client_queue \<Rightarrow> (client option \<times> client_queue) res" where
  "ClientQueue_FindClientForWork q =
     rbind (queue_pop (cq_fastClients q)) (\<lambda>(r, fast).
       let q1 = q\<lparr>cq_fastClients := fast\<rparr> in
       case r of
         Some clint \<Rightarrow> Inr (Some clint, q1)
       | None \<Rightarrow> rbind (queue_pop (cq_otherClients q1)) (\<lambda>(r', other).
           Inr (r', q1\<lparr>cq_otherClients := other\<rparr>)))"

section \<open>The interface: a dispatcher of clients\<close>

definition push_bounded :: "nat \<Rightarrow> 'a \<Rightarrow> 'a list \<Rightarrow> 'a list" where
  "push_bounded n x xs = (if length xs < n then xs @ [x] else xs)"

lemma set_push_bounded: "set (push_bounded n x xs) \<subseteq> insert x (set xs)"
  by (auto simp: push_bounded_def)

locale dispatcher =
  fixes add :: "client \<Rightarrow> 'q \<Rightarrow> 'q res"
    and remove :: "client \<Rightarrow> 'q \<Rightarrow> 'q"
    and evaluate :: "client \<Rightarrow> real \<Rightarrow> 'q \<Rightarrow> (bool \<times> 'q) res"
    and find :: "'q \<Rightarrow> (client option \<times> 'q) res"
    and fast :: "'q \<Rightarrow> client list"
    and other :: "'q \<Rightarrow> client list"
    and stamped :: "'q \<Rightarrow> client \<Rightarrow> bool"
    and perf :: "'q \<Rightarrow> 'm"
    and judge :: "real \<Rightarrow> 'm \<Rightarrow> perf_status \<times> 'm"
    and cap :: nat
    and invar :: "'q \<Rightarrow> bool"
  assumes add_spec: "invar q \<Longrightarrow> \<exists>q'. add c q = Inr q' \<and> invar q' \<and> fast q' = fast q
      \<and> other q' = push_bounded cap c (other q) \<and> stamped q' = (stamped q)(c := True)
      \<and> perf q' = perf q"
    and remove_spec: "invar q \<Longrightarrow> invar (remove c q) \<and> fast (remove c q) = fast q
      \<and> other (remove c q) = other q \<and> stamped (remove c q) = (stamped q)(c := False)
      \<and> perf (remove c q) = perf q"
    and evaluate_spec: "invar q \<Longrightarrow> judge t (perf q) = (st, m) \<Longrightarrow>
      \<exists>q'. evaluate c t q = Inr (st \<noteq> TOOSLOW, q') \<and> invar q' \<and> stamped q' = stamped q \<and> perf q' = m
        \<and> fast q' = (if st = FAST then push_bounded cap c (fast q) else fast q)
        \<and> other q' = (if st = NORMAL then push_bounded cap c (other q) else other q)"
    and find_spec: "invar q \<Longrightarrow> \<exists>q'. invar q' \<and> stamped q' = stamped q \<and> perf q' = perf q \<and>
      (case (fast q, other q) of
         (c # cs, os) \<Rightarrow> find q = Inr (Some c, q') \<and> fast q' = cs \<and> other q' = os
       | ([], c # cs) \<Rightarrow> find q = Inr (Some c, q') \<and> fast q' = [] \<and> other q' = cs
       | ([], []) \<Rightarrow> find q = Inr (None, q') \<and> fast q' = [] \<and> other q' = [])"
begin

lemma findE:
  assumes "invar q"
  obtains r q' where "find q = Inr (r, q')" and "invar q'" and "stamped q' = stamped q"
    and "r = (case fast q @ other q of [] \<Rightarrow> None | c # _ \<Rightarrow> Some c)"
    and "fast q' @ other q' = tl (fast q @ other q)"
  using find_spec [OF assms] by (cases "fast q"; cases "other q"; auto)

lemma addE:
  assumes "invar q"
  obtains q' where "add c q = Inr q'" and "invar q'" and "stamped q' = (stamped q)(c := True)"
    and "fast q' = fast q" and "other q' = push_bounded cap c (other q)"
  using add_spec [OF assms, of c] by blast

lemma evaluateE:
  assumes "invar q"
  obtains b q' where "evaluate c t q = Inr (b, q')" and "invar q'" and "stamped q' = stamped q"
    and "set (fast q' @ other q') \<subseteq> insert c (set (fast q @ other q))"
proof -
  obtain st m where j: "judge t (perf q) = (st, m)" by fastforce
  obtain q' where "evaluate c t q = Inr (st \<noteq> TOOSLOW, q')" "invar q'" "stamped q' = stamped q"
    and "fast q' = (if st = FAST then push_bounded cap c (fast q) else fast q)"
    and "other q' = (if st = NORMAL then push_bounded cap c (other q) else other q)"
    using evaluate_spec [OF assms j, of c] by blast
  moreover from this have "set (fast q' @ other q') \<subseteq> insert c (set (fast q @ other q))"
    using set_push_bounded [of cap c "fast q"] set_push_bounded [of cap c "other q"]
    by (cases st) auto
  ultimately show thesis by (intro that)
qed

lemma removed_client_still_found:
  assumes "invar q" and "c \<in> set (fast q @ other q)"
  shows "c \<in> set (fast (remove c q) @ other (remove c q)) \<and> \<not> stamped (remove c q) c"
  using assms remove_spec by auto

end

section \<open>The invariant\<close>

definition cq_inv :: "nat \<Rightarrow> client_queue \<Rightarrow> bool" where
  "cq_inv n q \<longleftrightarrow> lfq_inv (cq_fastClients q) \<and> lfq_cap (cq_fastClients q) = n
     \<and> lfq_inv (cq_otherClients q) \<and> lfq_cap (cq_otherClients q) = n
     \<and> pool_inv (cq_timePool q) \<and> sizeof_TimePoint \<le> mp_elementSizeMax (cq_timePool q)
     \<and> (\<forall>c. cq_obj q c \<noteq> 0 \<longrightarrow> cq_obj q c \<in> pool_live (cq_timePool q))
     \<and> (\<forall>c d. cq_obj q c \<noteq> 0 \<longrightarrow> cq_obj q c = cq_obj q d \<longrightarrow> c = d)"

definition cq_fast :: "client_queue \<Rightarrow> client list" where
  "cq_fast q = lfq_contents (cq_fastClients q)"

definition cq_other :: "client_queue \<Rightarrow> client list" where
  "cq_other q = lfq_contents (cq_otherClients q)"

definition cq_stamped :: "client_queue \<Rightarrow> client \<Rightarrow> bool" where
  "cq_stamped q c \<longleftrightarrow> cq_obj q c \<noteq> 0"

lemmas cq_views = cq_fast_def cq_other_def

lemma cq_stamped_update [simp]:
  "cq_stamped (q\<lparr>cq_fastClients := f\<rparr>) = cq_stamped q"
  "cq_stamped (q\<lparr>cq_otherClients := f\<rparr>) = cq_stamped q"
  "cq_stamped (q\<lparr>cq_perfModel := pm\<rparr>) = cq_stamped q"
  by (simp_all add: cq_stamped_def fun_eq_iff)

lemma construct_stamp:
  assumes "allocator_law newbuf" and "cq_inv n q"
  obtains a pool where "MemPoolSync_construct (newbuf (cq_timePool q)) sizeof_TimePoint (cq_timePool q)
      = Inr (a, pool)" and "a \<noteq> 0" and "a \<notin> pool_live (cq_timePool q)"
    and "pool_live pool = insert a (pool_live (cq_timePool q))" and "pool_inv pool"
    and "mp_elementSizeMax pool = mp_elementSizeMax (cq_timePool q)"
proof -
  have inv: "pool_inv (cq_timePool q)" and fits: "sizeof_TimePoint \<le> mp_elementSizeMax (cq_timePool q)"
    and fresh: "pool_fresh (newbuf (cq_timePool q)) (cq_timePool q)"
    using assms by (auto simp: cq_inv_def allocator_law_def)
  obtain a p' where "MemPool_PoolAlloc (newbuf (cq_timePool q)) (cq_timePool q) = Inr (a, p')"
    "a \<noteq> 0" "a \<notin> pool_live (cq_timePool q)" "pool_live p' = insert a (pool_live (cq_timePool q))"
    "pool_inv p'" "mp_elementSizeMax p' = mp_elementSizeMax (cq_timePool q)"
    by (rule PoolAlloc_spec [OF inv fresh])
  then show thesis using fits
    by (intro that [of a p'])
      (simp_all add: MemPoolSync_construct_def MemPoolSync_alloc_def MemPool_FitsInPool_def)
qed

lemma AddClient_spec:
  assumes al: "allocator_law newbuf" and inv: "cq_inv n q"
  shows "\<exists>q'. ClientQueue_AddClient newbuf c q = Inr q' \<and> cq_inv n q' \<and> cq_fast q' = cq_fast q
    \<and> cq_other q' = push_bounded n c (cq_other q) \<and> cq_stamped q' = (cq_stamped q)(c := True)
    \<and> cq_perfModel q' = cq_perfModel q"
proof -
  have "\<exists>q1. (if cq_obj q c = 0
        then rbind (MemPoolSync_construct (newbuf (cq_timePool q)) sizeof_TimePoint (cq_timePool q))
               (\<lambda>(obj, pool). Inr (q\<lparr>cq_timePool := pool, cq_obj := (cq_obj q)(c := obj)\<rparr>))
        else Inr q) = Inr q1 \<and> cq_inv n q1 \<and> cq_fastClients q1 = cq_fastClients q
      \<and> cq_otherClients q1 = cq_otherClients q \<and> cq_stamped q1 = (cq_stamped q)(c := True)
      \<and> cq_perfModel q1 = cq_perfModel q"
  proof (cases "cq_obj q c = 0")
    case False
    then show ?thesis using inv by (auto simp: cq_stamped_def fun_eq_iff)
  next
    case True
    obtain a pool where a: "MemPoolSync_construct (newbuf (cq_timePool q)) sizeof_TimePoint
        (cq_timePool q) = Inr (a, pool)" "a \<noteq> 0" "a \<notin> pool_live (cq_timePool q)"
      "pool_live pool = insert a (pool_live (cq_timePool q))" "pool_inv pool"
      "mp_elementSizeMax pool = mp_elementSizeMax (cq_timePool q)"
      by (rule construct_stamp [OF al inv])
    moreover have "cq_obj q d \<noteq> a" for d using a inv unfolding cq_inv_def by metis
    ultimately show ?thesis using True inv
      by (auto simp: cq_inv_def cq_stamped_def fun_eq_iff)
  qed
  then obtain q1 where q1: "(if cq_obj q c = 0
        then rbind (MemPoolSync_construct (newbuf (cq_timePool q)) sizeof_TimePoint (cq_timePool q))
               (\<lambda>(obj, pool). Inr (q\<lparr>cq_timePool := pool, cq_obj := (cq_obj q)(c := obj)\<rparr>))
        else Inr q) = Inr q1" "cq_inv n q1" "cq_fastClients q1 = cq_fastClients q"
      "cq_otherClients q1 = cq_otherClients q" "cq_stamped q1 = (cq_stamped q)(c := True)"
      "cq_perfModel q1 = cq_perfModel q"
    by blast
  have "lfq_inv (cq_otherClients q1)" using q1 by (simp add: cq_inv_def)
  then obtain b o' where o': "queue_push c (cq_otherClients q1) = Inr (b, o')" "lfq_inv o'"
    "b = (length (lfq_contents (cq_otherClients q1)) < lfq_cap (cq_otherClients q1))"
    "lfq_cap o' = lfq_cap (cq_otherClients q1)"
    "lfq_contents o' = (if b then lfq_contents (cq_otherClients q1) @ [c] else lfq_contents (cq_otherClients q1))"
    by (rule lf.pushE)
  then show ?thesis using q1 unfolding ClientQueue_AddClient_def
    by (auto simp: cq_inv_def cq_views push_bounded_def)
qed

lemma RemoveClient_spec:
  assumes inv: "cq_inv n q"
  shows "cq_inv n (ClientQueue_RemoveClient c q) \<and> cq_fast (ClientQueue_RemoveClient c q) = cq_fast q
    \<and> cq_other (ClientQueue_RemoveClient c q) = cq_other q
    \<and> cq_stamped (ClientQueue_RemoveClient c q) = (cq_stamped q)(c := False)
    \<and> cq_perfModel (ClientQueue_RemoveClient c q) = cq_perfModel q"
proof (cases "cq_obj q c = 0")
  case True
  then show ?thesis using inv by (auto simp: ClientQueue_RemoveClient_def cq_stamped_def fun_eq_iff)
next
  case False
  then have "cq_obj q c \<in> pool_live (cq_timePool q)" and p: "pool_inv (cq_timePool q)"
    using inv by (auto simp: cq_inv_def)
  note d = mp.dealloc_spec [OF p this(1)]
  have "cq_obj q d \<noteq> cq_obj q c" if "d \<noteq> c" for d
    using inv False that unfolding cq_inv_def by metis
  then show ?thesis using inv d False
    by (auto simp: ClientQueue_RemoveClient_def cq_inv_def cq_views cq_stamped_def fun_eq_iff MemPoolSync_destruct_def
        Sync_dealloc_eq)
qed

lemma EvaluateClient_spec:
  assumes inv: "cq_inv n q"
    and e: "PerformanceModel_EvaluateTime r32 r64 t (cq_perfModel q) = (st, pm)"
  shows "\<exists>q'. ClientQueue_EvaluateClient r32 r64 c t q = Inr (st \<noteq> TOOSLOW, q') \<and> cq_inv n q'
      \<and> cq_stamped q' = cq_stamped q \<and> cq_perfModel q' = pm
      \<and> cq_fast q' = (if st = FAST then push_bounded n c (cq_fast q) else cq_fast q)
      \<and> cq_other q' = (if st = NORMAL then push_bounded n c (cq_other q) else cq_other q)"
proof -
  have f: "lfq_inv (cq_fastClients q)" and o: "lfq_inv (cq_otherClients q)"
    using inv by (simp_all add: cq_inv_def)
  show ?thesis
  proof (cases st)
    case FAST
    obtain b f' where p: "queue_push c (cq_fastClients q) = Inr (b, f')" "lfq_inv f'"
      "b = (length (cq_fast q) < n)" "lfq_cap f' = n"
      "lfq_contents f' = (if b then cq_fast q @ [c] else cq_fast q)"
      by (rule lf.pushE [OF f, of c]) (use inv in \<open>auto simp: cq_inv_def cq_views\<close>)
    let ?q = "q\<lparr>cq_perfModel := pm, cq_fastClients := f'\<rparr>"
    have "ClientQueue_EvaluateClient r32 r64 c t q = Inr (True, ?q)"
      using p by (simp add: ClientQueue_EvaluateClient_def e FAST)
    moreover have "cq_inv n ?q" using inv p by (simp add: cq_inv_def)
    moreover have "cq_fast ?q = push_bounded n c (cq_fast q)" "cq_other ?q = cq_other q"
      using p by (simp_all add: cq_fast_def [of ?q] cq_other_def push_bounded_def)
    ultimately show ?thesis using FAST by (intro exI [of _ ?q]) simp
  next
    case NORMAL
    obtain b o' where p: "queue_push c (cq_otherClients q) = Inr (b, o')" "lfq_inv o'"
      "b = (length (cq_other q) < n)" "lfq_cap o' = n"
      "lfq_contents o' = (if b then cq_other q @ [c] else cq_other q)"
      by (rule lf.pushE [OF o, of c]) (use inv in \<open>auto simp: cq_inv_def cq_views\<close>)
    let ?q = "q\<lparr>cq_perfModel := pm, cq_otherClients := o'\<rparr>"
    have "ClientQueue_EvaluateClient r32 r64 c t q = Inr (True, ?q)"
      using p by (simp add: ClientQueue_EvaluateClient_def e NORMAL)
    moreover have "cq_inv n ?q" using inv p by (simp add: cq_inv_def)
    moreover have "cq_other ?q = push_bounded n c (cq_other q)" "cq_fast ?q = cq_fast q"
      using p by (simp_all add: cq_other_def [of ?q] cq_fast_def push_bounded_def)
    ultimately show ?thesis using NORMAL by (intro exI [of _ ?q]) simp
  next
    case TOOSLOW
    then show ?thesis using inv
      by (intro exI [of _ "q\<lparr>cq_perfModel := pm\<rparr>"])
        (simp add: ClientQueue_EvaluateClient_def e cq_inv_def cq_views)
  qed
qed

lemma FindClientForWork_spec:
  assumes inv: "cq_inv n q"
  shows "\<exists>q'. cq_inv n q' \<and> cq_stamped q' = cq_stamped q \<and> cq_perfModel q' = cq_perfModel q \<and>
      (case (cq_fast q, cq_other q) of
         (c # cs, os) \<Rightarrow> ClientQueue_FindClientForWork q = Inr (Some c, q') \<and> cq_fast q' = cs \<and> cq_other q' = os
       | ([], c # cs) \<Rightarrow> ClientQueue_FindClientForWork q = Inr (Some c, q') \<and> cq_fast q' = [] \<and> cq_other q' = cs
       | ([], []) \<Rightarrow> ClientQueue_FindClientForWork q = Inr (None, q') \<and> cq_fast q' = [] \<and> cq_other q' = [])"
proof -
  have f: "lfq_inv (cq_fastClients q)" and o: "lfq_inv (cq_otherClients q)"
    using inv by (simp_all add: cq_inv_def)
  obtain r f' where f': "queue_pop (cq_fastClients q) = Inr (r, f')" "lfq_inv f'"
    "lfq_cap f' = lfq_cap (cq_fastClients q)"
    "r = (case lfq_contents (cq_fastClients q) of [] \<Rightarrow> None | x # _ \<Rightarrow> Some x)"
    "lfq_contents f' = tl (lfq_contents (cq_fastClients q))"
    by (rule lf.popE [OF f])
  obtain s o' where o': "queue_pop (cq_otherClients q) = Inr (s, o')" "lfq_inv o'"
    "lfq_cap o' = lfq_cap (cq_otherClients q)"
    "s = (case lfq_contents (cq_otherClients q) of [] \<Rightarrow> None | x # _ \<Rightarrow> Some x)"
    "lfq_contents o' = tl (lfq_contents (cq_otherClients q))"
    by (rule lf.popE [OF o])
  show ?thesis
    using inv f' o' unfolding ClientQueue_FindClientForWork_def
    by (cases "cq_fast q"; cases "cq_other q") (auto simp: cq_inv_def cq_views)
qed

definition sum_newbuf :: "mem_pool \<Rightarrow> nat" where
  "sum_newbuf p = Suc (sum_list (elems p) + Element_OFFSET)"

lemma sum_newbuf_law: "allocator_law sum_newbuf"
proof -
  have "e \<le> sum_list xs" if "e \<in> set xs" for e :: nat and xs
    using that by (induction xs) auto
  then show ?thesis
    by (force simp: allocator_law_def pool_fresh_def fresh_for_def sum_newbuf_def intro: le_SucI)
qed

lemma ClientQueue_init_spec:
  assumes "0 < n" and "n < 65535" and "0 < base" and "obj = (\<lambda>_. 0)"
  obtains q where "ClientQueue_init mem base obj n = Inr q" and "cq_inv n q"
    and "cq_fast q = []" and "cq_other q = []" and "cq_obj q = obj"
    and "cq_perfModel q = PerformanceModel_init 2 4"
proof -
  obtain f where f: "queue_init (qm_next mem) (qm_data mem) n = Inr f" "lfq_inv f"
    "lfq_contents f = []" "lfq_cap f = n"
    by (rule queue_init_rep [OF assms(2)])
  obtain p where "MemPool_init (qm_pool mem) base sizeof_TimePoint n 4 = Inr p" "pool_inv p"
    "pool_live p = {}" "mp_elementSizeMax p = round_element_size sizeof_TimePoint 4"
    by (rule MemPool_init_spec [OF assms(1,3)])
  then show thesis
    using f assms round_element_size_ge [of 4 sizeof_TimePoint]
    by (intro that) (auto simp: ClientQueue_init_def cq_inv_def cq_views)
qed

interpretation cq: dispatcher "ClientQueue_AddClient sum_newbuf" ClientQueue_RemoveClient
    "ClientQueue_EvaluateClient r32 r64" ClientQueue_FindClientForWork cq_fast cq_other cq_stamped
    cq_perfModel "PerformanceModel_EvaluateTime r32 r64" n "cq_inv n" for r32 r64 :: "real \<Rightarrow> real" and n :: nat
  using AddClient_spec [OF sum_newbuf_law] RemoveClient_spec EvaluateClient_spec FindClientForWork_spec
  by unfold_locales blast+

section \<open>Runs of the queue\<close>

datatype cq_op = Add client | Remove client | Evaluate client real | Find
datatype cq_out = Kept bool | Found "client option"

fun cq_run ::
  "(real \<Rightarrow> real) \<Rightarrow> (real \<Rightarrow> real) \<Rightarrow> cq_op list \<Rightarrow> client_queue \<Rightarrow> (cq_out list \<times> client_queue) res" where
  "cq_run r32 r64 [] q = Inr ([], q)"
| "cq_run r32 r64 (Add c # ops) q =
     rbind (ClientQueue_AddClient sum_newbuf c q) (cq_run r32 r64 ops)"
| "cq_run r32 r64 (Remove c # ops) q = cq_run r32 r64 ops (ClientQueue_RemoveClient c q)"
| "cq_run r32 r64 (Evaluate c t # ops) q =
     rbind (ClientQueue_EvaluateClient r32 r64 c t q) (\<lambda>(b, q1).
     rbind (cq_run r32 r64 ops q1) (\<lambda>(outs, q2). Inr (Kept b # outs, q2)))"
| "cq_run r32 r64 (Find # ops) q =
     rbind (ClientQueue_FindClientForWork q) (\<lambda>(r, q1).
     rbind (cq_run r32 r64 ops q1) (\<lambda>(outs, q2). Inr (Found r # outs, q2)))"

text \<open>The same on two lists and a performance model: the fast clients are served first, each
  list in the order of arrival; a removal changes nothing.\<close>

fun two_lists ::
  "(real \<Rightarrow> perf_model \<Rightarrow> perf_status \<times> perf_model) \<Rightarrow> nat \<Rightarrow> cq_op list \<Rightarrow> client list
     \<Rightarrow> client list \<Rightarrow> perf_model \<Rightarrow> cq_out list" where
  "two_lists judge n [] fs os pm = []"
| "two_lists judge n (Add c # ops) fs os pm = two_lists judge n ops fs (push_bounded n c os) pm"
| "two_lists judge n (Remove c # ops) fs os pm = two_lists judge n ops fs os pm"
| "two_lists judge n (Evaluate c t # ops) fs os pm =
     (let (st, pm') = judge t pm
      in Kept (st \<noteq> TOOSLOW) #
           two_lists judge n ops (if st = FAST then push_bounded n c fs else fs)
             (if st = NORMAL then push_bounded n c os else os) pm')"
| "two_lists judge n (Find # ops) fs os pm =
     (case fs of
        c # cs \<Rightarrow> Found (Some c) # two_lists judge n ops cs os pm
      | [] \<Rightarrow> (case os of
                 c # cs \<Rightarrow> Found (Some c) # two_lists judge n ops [] cs pm
               | [] \<Rightarrow> Found None # two_lists judge n ops [] [] pm))"

lemma cq_run_two_lists:
  "cq_inv n q \<Longrightarrow> \<exists>q'. cq_run r32 r64 ops q = Inr
    (two_lists (PerformanceModel_EvaluateTime r32 r64) n ops (cq_fast q) (cq_other q) (cq_perfModel q), q')"
proof (induction ops arbitrary: q)
  case (Cons op ops)
  show ?case
  proof (cases op)
    case (Add c)
    then show ?thesis using cq.add_spec [OF Cons.prems, of c] Cons.IH by force
  next
    case (Remove c)
    then show ?thesis using cq.remove_spec [OF Cons.prems, of c] Cons.IH
      by (metis cq_run.simps(3) two_lists.simps(3))
  next
    case (Evaluate c t)
    obtain st pm where e: "PerformanceModel_EvaluateTime r32 r64 t (cq_perfModel q) = (st, pm)"
      by fastforce
    then show ?thesis
      using cq.evaluate_spec [OF Cons.prems e, of c] Cons.IH Evaluate by (fastforce simp: e)
  next
    case Find
    then show ?thesis using cq.find_spec [OF Cons.prems] Cons.IH
      by (cases "cq_fast q"; cases "cq_other q") fastforce+
  qed
qed simp

text \<open>C23: a client queue made for \<open>n\<close> clients answers any sequence of operations as two bounded
  lists and the performance model do: no operation faults, the client found is the oldest of
  the fast ones, or else the oldest of the others, an evaluated client joins the list its time
  puts it in or is reported too slow, and \<open>RemoveClient\<close> has no effect on who is found.\<close>

theorem client_queue_refines:
  assumes "0 < n" and "n < 65535" and "0 < base"
  shows "\<exists>q q'. ClientQueue_init mem base (\<lambda>_. 0) n = Inr q
    \<and> cq_run r32 r64 ops q = Inr
        (two_lists (PerformanceModel_EvaluateTime r32 r64) n ops [] [] (PerformanceModel_init 2 4), q')"
proof -
  obtain q where "ClientQueue_init mem base (\<lambda>_. 0) n = Inr q" "cq_inv n q" "cq_fast q = []"
    "cq_other q = []" "cq_perfModel q = PerformanceModel_init 2 4"
    by (rule ClientQueue_init_spec [OF assms refl])
  then show ?thesis using cq_run_two_lists [of n q r32 r64 ops] by auto
qed

lemma client_queue_refines_witness:
  "\<exists>q q'. ClientQueue_init \<lparr>qm_next = \<lambda>_. tagged 3 3, qm_data = \<lambda>_. 0, qm_pool = \<lambda>_. 0\<rparr> 4096 (\<lambda>_. 0) 2 = Inr q
    \<and> cq_run id id [Add 7, Add 8, Add 9, Remove 7, Find, Find, Find] q
      = Inr ([Found (Some 7), Found (Some 8), Found None], q')"
  using client_queue_refines [of 2 4096 "\<lparr>qm_next = \<lambda>_. tagged 3 3, qm_data = \<lambda>_. 0, qm_pool = \<lambda>_. 0\<rparr>"
      id id "[Add 7, Add 8, Add 9, Remove 7, Find, Find, Find]"]
  by (simp add: push_bounded_def)

end
