(* ===== verification/FileMap.thy ===== *)
theory FileMap
  imports Base "HOL-Library.Multiset"
begin

text \<open>
  The memory-mapped result file: \<open>FileMapping\<close>, its chunked reader and writer
  \<open>FileMappingChunkRW\<close>, and \<open>FileMappingIndexed\<close>, which remembers where each chunk was
  written so that the file can be put in order.

  The mapped file is the byte list \<open>fm_bytes\<close>.  A view is the file position it is mapped at;
  the pointers into it (\<open>writeCur\<close>, \<open>writeEnd\<close>) are offsets from its beginning.  A pointer whose
  view was unmapped but not reset is \<open>Dangling\<close>.  Positions and sizes are naturals: the code
  computes them in 64 bits, far from wrapping.

  \<open>MapViewOfFile\<close> is Windows': the parameter \<open>mv tot pos n\<close> tells whether mapping \<open>n\<close> bytes at
  \<open>pos\<close> of a mapping of \<open>tot\<close> bytes succeeds; \<open>view_law\<close> is its documentation: it does when
  \<open>pos\<close> is a multiple of the allocation granularity and the range lies inside the mapping.
  \<open>CreateFile\<close> and \<open>CreateFileMapping\<close> are given by their results.

  \<open>upper_bound(...)->index\<close> may read the index of the past-the-end iterator.  The parameter
  \<open>end_deref\<close> says what that read yields: \<open>None\<close> when it faults, \<open>Some g\<close> when the bytes there
  happen to be \<open>g\<close>.
\<close>

section \<open>Rounding and byte units\<close>

definition RoundToMultiple_unsigned :: "u64 \<Rightarrow> u64 \<Rightarrow> u64" where
  "RoundToMultiple_unsigned t multiple = ((t + multiple - 1) div multiple) * multiple"

text \<open>C++ division of signed integers truncates.\<close>

definition cdiv :: "int \<Rightarrow> int \<Rightarrow> int" where
  "cdiv a b = (if (a < 0) = (b < 0) then \<bar>a\<bar> div \<bar>b\<bar> else - (\<bar>a\<bar> div \<bar>b\<bar>))"

definition RoundToMultiple_signed :: "int \<Rightarrow> int \<Rightarrow> int" where
  "RoundToMultiple_signed t multiple =
     cdiv (t + (if t \<ge> 0 then 1 else 0) * (multiple - 1)) multiple * multiple"

definition InRangeInc :: "'a::linorder \<Rightarrow> 'a \<Rightarrow> 'a \<Rightarrow> bool" where
  "InRangeInc v r1 r2 \<longleftrightarrow> v \<le> r2 \<and> v \<ge> r1"

definition InRangeExc :: "'a::linorder \<Rightarrow> 'a \<Rightarrow> 'a \<Rightarrow> bool" where
  "InRangeExc v r1 r2 \<longleftrightarrow> v < r2 \<and> v > r1"

definition lit_KB :: "u64 \<Rightarrow> u64" where "lit_KB n = n * 1024"
definition lit_MB :: "u64 \<Rightarrow> u64" where "lit_MB n = n * lit_KB 1024"
definition lit_GB :: "u64 \<Rightarrow> u64" where "lit_GB n = n * lit_MB 1024"
definition lit_TB :: "u64 \<Rightarrow> u64" where "lit_TB n = n * lit_GB 1024"
definition lit_PB :: "u64 \<Rightarrow> u64" where "lit_PB n = n * lit_TB 1024"
definition lit_EB :: "u64 \<Rightarrow> u64" where "lit_EB n = n * lit_PB 1024"

text \<open>\<open>ByteConstants.h\<close>: the multiplication by 1024 happens in 32 bits before it is widened.\<close>

definition KB :: "u32 \<Rightarrow> u64" where "KB n = ucast (n * 1024)"
definition MB :: "u32 \<Rightarrow> u64" where "MB n = ucast n * KB 1024"
definition GB :: "u32 \<Rightarrow> u64" where "GB n = ucast n * MB 1024"

section \<open>FileMapping\<close>

record file_mapping =
  fm_hFile :: bool
  fm_hMap :: bool
  fm_closeHFile :: bool
  fm_bytes :: "byte list"

definition FileMapping_default :: file_mapping where
  "FileMapping_default =
     \<lparr>fm_hFile = False, fm_hMap = False, fm_closeHFile = False, fm_bytes = []\<rparr>"

text \<open>\<open>opened\<close>: \<open>CreateFile\<close> gave a handle; \<open>contents\<close>: the bytes of the mapping
  \<open>CreateFileMapping\<close> made, \<open>None\<close> when it failed.\<close>

definition set_map :: "byte list option \<Rightarrow> 'm file_mapping_scheme \<Rightarrow> bool \<times> 'm file_mapping_scheme" where
  "set_map contents m =
     (case contents of
        None \<Rightarrow> (False, m\<lparr>fm_hMap := False\<rparr>)
      | Some bs \<Rightarrow> (True, m\<lparr>fm_hMap := True, fm_bytes := bs\<rparr>))"

definition FileMapping_Create_file ::
  "bool \<Rightarrow> byte list option \<Rightarrow> 'm file_mapping_scheme \<Rightarrow> bool \<times> 'm file_mapping_scheme" where
  "FileMapping_Create_file opened contents m =
     (let m1 = m\<lparr>fm_closeHFile := True\<rparr> in
      if \<not> opened then (False, m1\<lparr>fm_hFile := False\<rparr>)
      else set_map contents (m1\<lparr>fm_hFile := True\<rparr>))"

definition FileMapping_Create_page ::
  "byte list option \<Rightarrow> 'm file_mapping_scheme \<Rightarrow> bool \<times> 'm file_mapping_scheme" where
  "FileMapping_Create_page contents m = set_map contents (m\<lparr>fm_closeHFile := True\<rparr>)"

definition FileMapping_Create_handle ::
  "bool \<Rightarrow> byte list option \<Rightarrow> 'm file_mapping_scheme \<Rightarrow> bool \<times> 'm file_mapping_scheme" where
  "FileMapping_Create_handle hFile contents m =
     set_map contents (m\<lparr>fm_closeHFile := False, fm_hFile := hFile\<rparr>)"

definition FileMapping_init_file :: "bool \<Rightarrow> byte list option \<Rightarrow> file_mapping" where
  "FileMapping_init_file opened contents = snd (FileMapping_Create_file opened contents FileMapping_default)"

definition FileMapping_init_page :: "byte list option \<Rightarrow> file_mapping" where
  "FileMapping_init_page contents = snd (FileMapping_Create_page contents FileMapping_default)"

definition FileMapping_init_handle :: "bool \<Rightarrow> byte list option \<Rightarrow> file_mapping" where
  "FileMapping_init_handle hFile contents =
     snd (FileMapping_Create_handle hFile contents FileMapping_default)"

definition FileMapping_GetHFile :: "'m file_mapping_scheme \<Rightarrow> bool" where
  "FileMapping_GetHFile m = fm_hFile m"

definition FileMapping_Close :: "'m file_mapping_scheme \<Rightarrow> 'm file_mapping_scheme" where
  "FileMapping_Close m =
     (let m1 = (if fm_hMap m then m\<lparr>fm_hMap := False\<rparr> else m) in
      if fm_closeHFile m1 \<and> fm_hFile m1 then m1\<lparr>fm_hFile := False\<rparr> else m1)"

type_synonym map_view = "nat \<Rightarrow> nat \<Rightarrow> nat \<Rightarrow> bool"

definition view_law :: "nat \<Rightarrow> map_view \<Rightarrow> bool" where
  "view_law gran mv \<longleftrightarrow>
     0 < gran \<and> (\<forall>tot pos n. 0 < n \<longrightarrow> gran dvd pos \<longrightarrow> pos + n \<le> tot \<longrightarrow> mv tot pos n)"

definition full_view :: "nat \<Rightarrow> map_view" where
  "full_view gran tot pos n \<longleftrightarrow> 0 < n \<and> pos mod gran = 0 \<and> pos + n \<le> tot"

lemma full_view_law: "0 < gran \<Longrightarrow> view_law gran (full_view gran)"
  by (auto simp: view_law_def full_view_def)

datatype view = Null | At nat | Dangling

definition FileMapping_MapAllocGran :: "map_view \<Rightarrow> nat \<Rightarrow> nat \<Rightarrow> 'm file_mapping_scheme \<Rightarrow> view" where
  "FileMapping_MapAllocGran mv pos n m =
     (if fm_hMap m \<and> mv (length (fm_bytes m)) pos n then At pos else Null)"

definition FileMapping_MapRandomAccess ::
  "map_view \<Rightarrow> nat \<Rightarrow> nat \<Rightarrow> nat \<Rightarrow> 'm file_mapping_scheme \<Rightarrow> view \<times> nat" where
  "FileMapping_MapRandomAccess mv gran pos n m =
     (let offset = pos mod gran
      in (FileMapping_MapAllocGran mv (pos - offset) (n + offset) m, offset))"

definition FileMapping_Unmap :: "view \<Rightarrow> view" where
  "FileMapping_Unmap v = (if v = Null then Null else Dangling)"

text \<open>\<open>memcpy\<close> from and to offset \<open>off\<close> of a view of \<open>len\<close> bytes.\<close>

definition view_read :: "view \<Rightarrow> nat \<Rightarrow> nat \<Rightarrow> nat \<Rightarrow> 'm file_mapping_scheme \<Rightarrow> byte list res" where
  "view_read v len off n m =
     (case v of
        Null \<Rightarrow> Inl NullDeref
      | Dangling \<Rightarrow> Inl OutOfBounds
      | At b \<Rightarrow> if off + n \<le> len then Inr (slice_at (b + off) n (fm_bytes m)) else Inl OutOfBounds)"

definition view_write ::
  "view \<Rightarrow> nat \<Rightarrow> nat \<Rightarrow> byte list \<Rightarrow> 'm file_mapping_scheme \<Rightarrow> 'm file_mapping_scheme res" where
  "view_write v len off bs m =
     (case v of
        Null \<Rightarrow> Inl NullDeref
      | Dangling \<Rightarrow> Inl OutOfBounds
      | At b \<Rightarrow> if off + length bs \<le> len
          then Inr (m\<lparr>fm_bytes := put_at (b + off) bs (fm_bytes m)\<rparr>) else Inl OutOfBounds)"

section \<open>FileMappingChunkRW\<close>

text \<open>\<open>cr_writeLen\<close> is \<open>writeEnd - writeBeg\<close>, \<open>cr_writeCur\<close> is \<open>writeCur - writeBeg\<close>.\<close>

record chunk_rw = file_mapping +
  cr_chunkMapSize :: nat
  cr_writeBeg :: view
  cr_writeLen :: nat
  cr_writeCur :: nat
  cr_readBeg :: view
  cr_readLen :: nat
  cr_readCur :: nat
  cr_writePos :: nat
  cr_readPos :: nat

definition round_chunk :: "nat \<Rightarrow> nat \<Rightarrow> nat" where
  "round_chunk chunkSize gran = unat (RoundToMultiple_unsigned (of_nat chunkSize) (of_nat gran))"

definition FileMappingChunkRW_default :: "nat \<Rightarrow> nat \<Rightarrow> chunk_rw" where
  "FileMappingChunkRW_default gran chunkSize =
     \<lparr>fm_hFile = False, fm_hMap = False, fm_closeHFile = False, fm_bytes = [],
      cr_chunkMapSize = round_chunk chunkSize gran,
      cr_writeBeg = Null, cr_writeLen = 0, cr_writeCur = 0,
      cr_readBeg = Null, cr_readLen = 0, cr_readCur = 0, cr_writePos = 0, cr_readPos = 0\<rparr>"

definition FileMappingChunkRW_make ::
  "nat \<Rightarrow> nat \<Rightarrow> bool \<Rightarrow> byte list option \<Rightarrow> nat \<Rightarrow> chunk_rw" where
  "FileMappingChunkRW_make gran chunkSize opened contents n =
     (snd (FileMapping_Create_file opened contents (FileMappingChunkRW_default gran chunkSize)))
       \<lparr>cr_chunkMapSize := min n (round_chunk chunkSize gran)\<rparr>"

definition FileMappingChunkRW_Create ::
  "bool \<Rightarrow> byte list option \<Rightarrow> nat \<Rightarrow> 'm chunk_rw_scheme \<Rightarrow> bool \<times> 'm chunk_rw_scheme" where
  "FileMappingChunkRW_Create opened contents n m =
     FileMapping_Create_file opened contents (m\<lparr>cr_chunkMapSize := min (cr_chunkMapSize m) n\<rparr>)"

definition FileMappingChunkRW_Create_page ::
  "byte list option \<Rightarrow> nat \<Rightarrow> 'm chunk_rw_scheme \<Rightarrow> bool \<times> 'm chunk_rw_scheme" where
  "FileMappingChunkRW_Create_page contents n m =
     FileMapping_Create_page contents (m\<lparr>cr_chunkMapSize := min (cr_chunkMapSize m) n\<rparr>)"

definition FileMappingChunkRW_Create_handle ::
  "bool \<Rightarrow> byte list option \<Rightarrow> nat \<Rightarrow> 'm chunk_rw_scheme \<Rightarrow> bool \<times> 'm chunk_rw_scheme" where
  "FileMappingChunkRW_Create_handle hFile contents n m =
     FileMapping_Create_handle hFile contents (m\<lparr>cr_chunkMapSize := min (cr_chunkMapSize m) n\<rparr>)"

definition FileMappingChunkRW_Close :: "'m chunk_rw_scheme \<Rightarrow> 'm chunk_rw_scheme" where
  "FileMappingChunkRW_Close m =
     FileMapping_Close (m\<lparr>cr_writeBeg := FileMapping_Unmap (cr_writeBeg m),
                          cr_readBeg := FileMapping_Unmap (cr_readBeg m)\<rparr>)"

definition FileMappingChunkRW_destroy :: "'m chunk_rw_scheme \<Rightarrow> 'm chunk_rw_scheme" where
  "FileMappingChunkRW_destroy m = FileMappingChunkRW_Close m"

definition RemapWrite :: "map_view \<Rightarrow> 'm chunk_rw_scheme \<Rightarrow> 'm chunk_rw_scheme" where
  "RemapWrite mv m =
     (let v = FileMapping_MapAllocGran mv (cr_writePos m) (cr_chunkMapSize m) m;
          m1 = m\<lparr>cr_writeBeg := v, cr_writeCur := 0, cr_writeLen := cr_chunkMapSize m\<rparr>
      in if cr_writeBeg m \<noteq> Null then m1\<lparr>cr_writePos := cr_writePos m + cr_chunkMapSize m\<rparr> else m1)"

definition RemapRead :: "map_view \<Rightarrow> 'm chunk_rw_scheme \<Rightarrow> 'm chunk_rw_scheme" where
  "RemapRead mv m =
     (let v = FileMapping_MapAllocGran mv (cr_readPos m) (cr_chunkMapSize m) m;
          m1 = m\<lparr>cr_readBeg := v, cr_readCur := 0, cr_readLen := cr_chunkMapSize m\<rparr>
      in if cr_readBeg m \<noteq> Null then m1\<lparr>cr_readPos := cr_readPos m + cr_chunkMapSize m\<rparr> else m1)"

definition GetMappedWritePos :: "'m chunk_rw_scheme \<Rightarrow> nat" where
  "GetMappedWritePos m = cr_writePos m"

definition GetMappedReadPos :: "'m chunk_rw_scheme \<Rightarrow> nat" where
  "GetMappedReadPos m = cr_readPos m"

definition GetWritePos :: "'m chunk_rw_scheme \<Rightarrow> nat" where
  "GetWritePos m = cr_writePos m + cr_writeCur m"

definition GetReadPos :: "'m chunk_rw_scheme \<Rightarrow> nat" where
  "GetReadPos m = cr_readPos m + cr_readCur m"

definition copy_in :: "byte list \<Rightarrow> 'm chunk_rw_scheme \<Rightarrow> 'm chunk_rw_scheme res" where
  "copy_in bs m = view_write (cr_writeBeg m) (cr_writeLen m) (cr_writeCur m) bs m"

text \<open>The loop of \<open>Write(T* t, size_t size)\<close>; \<open>t\<close> holds the bytes still to be written.\<close>

function write_loop :: "map_view \<Rightarrow> byte list \<Rightarrow> 'm chunk_rw_scheme \<Rightarrow> 'm chunk_rw_scheme res" where
  "write_loop mv t m =
     (if t = [] then Inr m
      else if cr_writeCur m + length t > cr_writeLen m
      then (let intersection = cr_writeCur m + length t - cr_writeLen m in
            case copy_in (take intersection t) m of
              Inl e \<Rightarrow> Inl e
            | Inr m1 \<Rightarrow> write_loop mv (drop intersection t)
                (RemapWrite mv (m1\<lparr>cr_writeCur := cr_writeCur m1 + intersection\<rparr>)))
      else if cr_writeCur m + length t = cr_writeLen m
      then rbind (copy_in t m) (\<lambda>m1. Inr (RemapWrite mv m1))
      else rbind (copy_in t m) (\<lambda>m1. Inr (m1\<lparr>cr_writeCur := cr_writeCur m1 + length t\<rparr>)))"
  by pat_completeness auto
termination
  by (relation "measure (\<lambda>(mv, t, m). length t)") (auto simp flip: length_greater_0_conv)

declare write_loop.simps [simp del]

definition FileMappingChunkRW_Write ::
  "map_view \<Rightarrow> byte list \<Rightarrow> 'm chunk_rw_scheme \<Rightarrow> 'm chunk_rw_scheme res" where
  "FileMappingChunkRW_Write mv t m =
     write_loop mv t (if cr_writeBeg m = Null then RemapWrite mv m else m)"

text \<open>The loop of \<open>Read(T* t, uint64_t curPos, size_t size)\<close>: \<open>curPos\<close> does not move, and a
  position before the view makes the pointer offset negative.\<close>

definition copy_out :: "nat \<Rightarrow> nat \<Rightarrow> 'm chunk_rw_scheme \<Rightarrow> byte list res" where
  "copy_out curPos n m =
     (if curPos < cr_readPos m then Inl OutOfBounds
      else view_read (cr_readBeg m) (cr_readLen m) (curPos - cr_readPos m) n m)"

function read_loop ::
  "map_view \<Rightarrow> nat \<Rightarrow> nat \<Rightarrow> nat \<Rightarrow> 'm chunk_rw_scheme \<Rightarrow> (byte list \<times> 'm chunk_rw_scheme) res" where
  "read_loop mv gran curPos n m =
     (if n = 0 then Inr ([], m)
      else if cr_readPos m \<ge> curPos
      then (let endReadPos = GetReadPos m + cr_readLen m in
            if curPos + n > endReadPos
            then (let intersection = curPos + n - endReadPos in
                  case copy_out curPos intersection m of
                    Inl e \<Rightarrow> Inl e
                  | Inr bs \<Rightarrow>
                      (case read_loop mv gran curPos (n - intersection) (RemapRead mv m) of
                         Inl e \<Rightarrow> Inl e
                       | Inr (bs', m') \<Rightarrow> Inr (bs @ bs', m')))
            else if curPos + n = endReadPos
            then rbind (copy_out curPos n m) (\<lambda>bs. Inr (bs, RemapRead mv m))
            else rbind (copy_out curPos n m) (\<lambda>bs. Inr (bs, m)))
      else (let (v, offset) = FileMapping_MapRandomAccess mv gran curPos n m
            in rbind (view_read v (n + offset) offset n m) (\<lambda>bs. Inr (bs, m))))"
  by pat_completeness auto
termination
  by (relation "measure (\<lambda>(mv, gran, curPos, n, m). n)") auto

declare read_loop.simps [simp del]

definition FileMappingChunkRW_Read ::
  "map_view \<Rightarrow> nat \<Rightarrow> nat \<Rightarrow> nat \<Rightarrow> 'm chunk_rw_scheme \<Rightarrow> (byte list \<times> 'm chunk_rw_scheme) res" where
  "FileMappingChunkRW_Read mv gran curPos n m =
     read_loop mv gran curPos n (if cr_readBeg m = Null then RemapRead mv m else m)"

text \<open>\<open>Write(FileMappingChunkRW& other, size_t curReadPos, size_t size)\<close>.\<close>

function write_from_loop ::
  "map_view \<Rightarrow> nat \<Rightarrow> 'o chunk_rw_scheme \<Rightarrow> nat \<Rightarrow> nat \<Rightarrow> 'm chunk_rw_scheme
     \<Rightarrow> ('o chunk_rw_scheme \<times> 'm chunk_rw_scheme) res" where
  "write_from_loop mv gran other curReadPos n m =
     (if n = 0 then Inr (other, m)
      else if cr_writeCur m + n > cr_writeLen m
      then (let intersection = cr_writeCur m + n - cr_writeLen m in
            case rbind (FileMappingChunkRW_Read mv gran curReadPos intersection other)
                   (\<lambda>(bs, other1). rbind (copy_in bs m) (\<lambda>m1. Inr (other1, m1))) of
              Inl e \<Rightarrow> Inl e
            | Inr (other1, m1) \<Rightarrow>
                write_from_loop mv gran other1 (curReadPos + intersection) (n - intersection)
                  (RemapWrite mv (m1\<lparr>cr_writeCur := cr_writeCur m1 + intersection\<rparr>)))
      else rbind (FileMappingChunkRW_Read mv gran curReadPos n other) (\<lambda>(bs, other1).
           rbind (copy_in bs m) (\<lambda>m1.
             Inr (other1,
               if cr_writeCur m + n = cr_writeLen m then RemapWrite mv m1
               else m1\<lparr>cr_writeCur := cr_writeCur m1 + n\<rparr>))))"
  by pat_completeness auto
termination
  by (relation "measure (\<lambda>(mv, gran, other, pos, n, m). n)") auto

declare write_from_loop.simps [simp del]

definition FileMappingChunkRW_WriteFrom ::
  "map_view \<Rightarrow> nat \<Rightarrow> 'o chunk_rw_scheme \<Rightarrow> nat \<Rightarrow> nat \<Rightarrow> 'm chunk_rw_scheme
     \<Rightarrow> ('o chunk_rw_scheme \<times> 'm chunk_rw_scheme) res" where
  "FileMappingChunkRW_WriteFrom mv gran other curReadPos n m =
     write_from_loop mv gran other curReadPos n (if cr_writeBeg m = Null then RemapWrite mv m else m)"

section \<open>FileMappingIndexed\<close>

record index_entry =
  ie_index :: u32
  ie_pos :: nat
  ie_size :: nat

text \<open>\<open>std::set\<close> ordered by \<open>Compare\<close>: a sorted list with one entry per index.\<close>

record file_indexed = chunk_rw +
  fi_indices :: "index_entry list"

definition IndexEntry_less :: "index_entry \<Rightarrow> index_entry \<Rightarrow> bool" where
  "IndexEntry_less lhs rhs \<longleftrightarrow> ie_index lhs < ie_index rhs"

fun set_emplace :: "index_entry \<Rightarrow> index_entry list \<Rightarrow> index_entry list" where
  "set_emplace e [] = [e]"
| "set_emplace e (x # xs) =
     (if IndexEntry_less x e then x # set_emplace e xs
      else if IndexEntry_less e x then e # x # xs
      else x # xs)"

fun upper_bound :: "u32 \<Rightarrow> index_entry list \<Rightarrow> index_entry option" where
  "upper_bound index [] = None"
| "upper_bound index (x # xs) = (if index < ie_index x then Some x else upper_bound index xs)"

definition FileMappingIndexed_default :: "nat \<Rightarrow> nat \<Rightarrow> file_indexed" where
  "FileMappingIndexed_default gran chunkSize =
     chunk_rw.extend (FileMappingChunkRW_default gran chunkSize) \<lparr>fi_indices = []\<rparr>"

text \<open>The other constructor passes its chunk size where its base class takes the creation flags,
  so \<open>CreateFile\<close> gets it and the chunk size is the default.\<close>

definition FileMappingIndexed_make ::
  "nat \<Rightarrow> (nat \<Rightarrow> bool) \<Rightarrow> byte list option \<Rightarrow> nat \<Rightarrow> nat \<Rightarrow> file_indexed" where
  "FileMappingIndexed_make gran opened_with contents n chunkSize =
     chunk_rw.extend
       (FileMappingChunkRW_make gran (unat (lit_MB 100)) (opened_with chunkSize) contents n)
       \<lparr>fi_indices = []\<rparr>"

definition FileMappingIndexed_Write ::
  "map_view \<Rightarrow> u32 option \<Rightarrow> u32 \<Rightarrow> byte list \<Rightarrow> file_indexed \<Rightarrow> file_indexed res" where
  "FileMappingIndexed_Write mv end_deref index t m =
     (case (case upper_bound index (fi_indices m) of Some e \<Rightarrow> Some (ie_index e) | None \<Rightarrow> end_deref) of
        None \<Rightarrow> Inl EndDeref
      | Some i \<Rightarrow>
          FileMappingChunkRW_Write mv t
            (m\<lparr>fi_indices := set_emplace
                 \<lparr>ie_index = i, ie_pos = GetWritePos m, ie_size = length t\<rparr> (fi_indices m)\<rparr>))"

text \<open>The files in the directory: what \<open>ReorderFileData\<close> leaves under \<open>NewData.dat\<close>.  The
  temporary file is made by the results \<open>opened\<close> and \<open>contents\<close>; its bytes are what is moved.\<close>

fun reorder_loop ::
  "map_view \<Rightarrow> nat \<Rightarrow> index_entry list \<Rightarrow> file_indexed \<Rightarrow> chunk_rw \<Rightarrow> (file_indexed \<times> chunk_rw) res" where
  "reorder_loop mv gran [] m mp = Inr (m, mp)"
| "reorder_loop mv gran (it # its) m mp =
     rbind (FileMappingChunkRW_WriteFrom mv gran m (ie_pos it) (ie_size it) mp)
       (\<lambda>(m1, mp1). reorder_loop mv gran its m1 mp1)"

definition FileMappingIndexed_ReorderFileData ::
  "map_view \<Rightarrow> nat \<Rightarrow> bool \<Rightarrow> byte list option \<Rightarrow> file_indexed \<Rightarrow> (byte list \<times> file_indexed) res" where
  "FileMappingIndexed_ReorderFileData mv gran opened contents m =
     (let curPos = GetWritePos m;
          mp = FileMappingChunkRW_make gran (unat (lit_MB 100)) opened contents curPos
      in rbind (reorder_loop mv gran (fi_indices m) m mp) (\<lambda>(m1, mp1).
           Inr (fm_bytes (FileMappingChunkRW_Close mp1), FileMappingChunkRW_Close m1)))"

section \<open>The units and the rounding\<close>

lemma round_up_nat:
  fixes t m :: nat
  assumes "0 < m"
  shows "m dvd (t + m - 1) div m * m" and "t \<le> (t + m - 1) div m * m"
    and "(t + m - 1) div m * m < t + m"
proof -
  have "(t + m - 1) div m * m + (t + m - 1) mod m = t + m - 1" by simp
  moreover have "(t + m - 1) mod m < m" using assms by simp
  ultimately show "t \<le> (t + m - 1) div m * m" "(t + m - 1) div m * m < t + m" using assms by linarith+
qed simp

lemma RoundToMultiple_unsigned_nat:
  assumes "0 < unat m" and "unat t + unat m \<le> 2 ^ 64"
  shows "unat (RoundToMultiple_unsigned t m) = (unat t + unat m - 1) div unat m * unat m"
proof -
  have lt: "unat (t + (m - 1)) = unat t + unat m - 1"
  proof -
    have "unat (m - 1) = unat m - 1" using assms by (simp add: unat_minus_one unat_gt_0)
    then show ?thesis using assms by (subst unat_add_small) auto
  qed
  let ?d = "(unat t + unat m - 1) div unat m"
  have d: "unat ((t + (m - 1)) div m) = ?d" by (simp only: unat_div lt)
  have "?d * unat m \<le> unat t + unat m - 1" by (rule div_times_less_eq_dividend)
  then have "?d * unat m < 2 ^ 64" using assms by linarith
  then have "?d * unat m mod 2 ^ 64 = ?d * unat m" by (rule mod_less)
  then show ?thesis
    unfolding RoundToMultiple_unsigned_def add_diff_eq [symmetric]
    by (simp add: unat_word_ariths(2) d del: One_nat_def)
qed

lemma RoundToMultiple_signed_cases:
  assumes "0 < k"
  shows "RoundToMultiple_signed z k = (if 0 \<le> z then (z + k - 1) div k * k else - ((- z) div k) * k)"
  using assms by (auto simp: RoundToMultiple_signed_def cdiv_def algebra_simps)

text \<open>Both overloads of \<open>RoundToMultiple\<close> give the least multiple of \<open>multiple\<close> that is not
  below \<open>t\<close>, as long as the unsigned sum does not wrap.\<close>

theorem RoundToMultiple_least:
  assumes "0 < unat m" and "unat t + unat m \<le> 2 ^ 64" and "0 < k"
  shows "unat m dvd unat (RoundToMultiple_unsigned t m)
    \<and> unat t \<le> unat (RoundToMultiple_unsigned t m)
    \<and> unat (RoundToMultiple_unsigned t m) < unat t + unat m
    \<and> k dvd RoundToMultiple_signed z k
    \<and> z \<le> RoundToMultiple_signed z k \<and> RoundToMultiple_signed z k < z + k"
proof -
  have "k dvd RoundToMultiple_signed z k"
    using assms(3) by (simp add: RoundToMultiple_signed_cases)
  moreover have "z \<le> RoundToMultiple_signed z k \<and> RoundToMultiple_signed z k < z + k"
  proof (cases "0 \<le> z")
    case True
    have "(z + k - 1) div k * k + (z + k - 1) mod k = z + k - 1" by simp
    moreover have "(z + k - 1) mod k < k" "0 \<le> (z + k - 1) mod k" using assms(3) by simp_all
    ultimately show ?thesis using True assms(3) unfolding RoundToMultiple_signed_cases [OF assms(3)]
      by (simp only: if_True) linarith
  next
    case False
    have "(- z) div k * k + (- z) mod k = - z" by simp
    moreover have "(- z) mod k < k" "0 \<le> (- z) mod k" using assms(3) by simp_all
    ultimately show ?thesis using False assms(3) unfolding RoundToMultiple_signed_cases [OF assms(3)]
      by (simp only: if_False mult_minus_left) linarith
  qed
  ultimately show ?thesis
    using round_up_nat [OF assms(1), of "unat t"] RoundToMultiple_unsigned_nat [OF assms(1,2)] by simp
qed

lemma RoundToMultiple_least_witness:
  "unat (5 :: u64) dvd unat (RoundToMultiple_unsigned 12 5) \<and> (-12 :: int) \<le> RoundToMultiple_signed (-12) 5"
  using RoundToMultiple_least [of 5 12 5 "-12"] by simp

lemma lit_KB_1024 [simp]: "lit_KB 1024 = 2 ^ 20"
  by (simp add: lit_KB_def)

text \<open>The literals multiply by their unit modulo \<open>2^64\<close>; the functions of \<open>ByteConstants.h\<close>
  agree with them for \<open>MB\<close> and \<open>GB\<close>, and for \<open>KB\<close> exactly below 4194304, where the 32-bit
  product starts to wrap.\<close>

theorem byte_units:
  "unat (lit_EB (of_nat n)) = (n * 2 ^ 60) mod 2 ^ 64
   \<and> MB w = lit_MB (ucast w) \<and> GB w = lit_GB (ucast w)
   \<and> (KB w = lit_KB (ucast w) \<longleftrightarrow> unat w < 4194304)"
proof -
  have "lit_EB (of_nat n) = of_nat n * 2 ^ 60"
    by (simp add: lit_EB_def lit_PB_def lit_TB_def lit_GB_def lit_MB_def)
  moreover have "\<dots> = (of_nat (n * 2 ^ 60) :: u64)" by simp
  ultimately have eb: "unat (lit_EB (of_nat n)) = (n * 2 ^ 60) mod 2 ^ 64"
    by (simp only: unat_of_nat take_bit_eq_mod) simp
  have k: "KB 1024 = 2 ^ 20" by (simp add: KB_def)
  have m: "MB w = lit_MB (ucast w)" for w by (simp add: MB_def lit_MB_def k)
  have g: "GB w = lit_GB (ucast w)" by (simp add: GB_def lit_GB_def m)
  have lhs: "unat (KB w) = (unat w * 1024) mod 2 ^ 32"
    by (simp add: KB_def unat_word_ariths)
  have "unat w * 1024 < 2 ^ 64" using u32_bound [of w] by simp
  then have rhs: "unat (lit_KB (ucast w)) = unat w * 1024"
    by (simp add: lit_KB_def unat_word_ariths)
  have "KB w = lit_KB (ucast w) \<longleftrightarrow> (unat w * 1024) mod 2 ^ 32 = unat w * 1024"
    unfolding word_unat_eq_iff lhs rhs ..
  also have "\<dots> \<longleftrightarrow> unat w * 1024 < 2 ^ 32"
    by (metis mod_less mod_less_divisor zero_less_numeral zero_less_power)
  also have "\<dots> \<longleftrightarrow> unat w < 4194304" by simp
  finally show ?thesis using eb m g by simp
qed

section \<open>Writing within the first chunk\<close>

text \<open>\<open>written m xs\<close>: \<open>xs\<close> was written to the fresh mapping \<open>m\<close>, which is at least one chunk
  long, and fits the first chunk.\<close>

definition written :: "'m chunk_rw_scheme \<Rightarrow> byte list \<Rightarrow> bool" where
  "written m xs \<longleftrightarrow> fm_hMap m \<and> 0 < cr_chunkMapSize m \<and> cr_chunkMapSize m \<le> length (fm_bytes m)
     \<and> length xs \<le> cr_chunkMapSize m \<and> take (length xs) (fm_bytes m) = xs
     \<and> (if cr_writeBeg m = Null then xs = [] \<and> cr_writePos m = 0 \<and> cr_writeCur m = 0
        else cr_writeBeg m = At 0 \<and> cr_writeLen m = cr_chunkMapSize m
          \<and> cr_writePos m = (if length xs < cr_chunkMapSize m then 0 else cr_chunkMapSize m)
          \<and> cr_writeCur m = (if length xs < cr_chunkMapSize m then length xs else 0))"

lemma written_pos: "written m xs \<Longrightarrow> GetWritePos m = length xs"
  by (auto simp: written_def GetWritePos_def split: if_splits)

text \<open>What a write leaves alone: the size of the file, the chunk size, the reader, the rest of
  the object.\<close>

definition same_reader :: "'m chunk_rw_scheme \<Rightarrow> 'm chunk_rw_scheme \<Rightarrow> bool" where
  "same_reader m m' \<longleftrightarrow> fm_hMap m' = fm_hMap m \<and> fm_hFile m' = fm_hFile m
     \<and> fm_closeHFile m' = fm_closeHFile m \<and> length (fm_bytes m') = length (fm_bytes m)
     \<and> cr_chunkMapSize m' = cr_chunkMapSize m \<and> cr_readBeg m' = cr_readBeg m
     \<and> cr_readLen m' = cr_readLen m \<and> cr_readCur m' = cr_readCur m \<and> cr_readPos m' = cr_readPos m
     \<and> chunk_rw.more m' = chunk_rw.more m"

lemma map_first_chunk:
  assumes "view_law gran mv" and "fm_hMap m" and "0 < cr_chunkMapSize m"
    and "cr_chunkMapSize m \<le> length (fm_bytes m)"
  shows "FileMapping_MapAllocGran mv 0 (cr_chunkMapSize m) m = At 0"
  using assms by (simp add: FileMapping_MapAllocGran_def view_law_def)

lemma first_remap:
  assumes "view_law gran mv" and "written m xs"
  defines "m1 \<equiv> (if cr_writeBeg m = Null then RemapWrite mv m else m)"
  shows "written m1 xs" and "cr_writeBeg m1 = At 0" and "same_reader m m1"
    and "fm_bytes m1 = fm_bytes m"
  using assms map_first_chunk [OF assms(1), of m]
  by (auto simp: written_def RemapWrite_def Let_def same_reader_def FileMapping_MapAllocGran_def split: if_splits)

text \<open>Copying into the view and moving on, at or before the end of the chunk.\<close>

definition advance :: "map_view \<Rightarrow> byte list \<Rightarrow> 'm chunk_rw_scheme \<Rightarrow> 'm chunk_rw_scheme" where
  "advance mv t m1 =
     (if cr_writeCur m1 + length t = cr_writeLen m1 then RemapWrite mv m1
      else m1\<lparr>cr_writeCur := cr_writeCur m1 + length t\<rparr>)"

lemma advance_written:
  assumes law: "view_law gran mv" and w: "written m xs" and nn: "cr_writeBeg m = At 0"
    and t: "t \<noteq> []" and fits: "length xs + length t \<le> cr_chunkMapSize m"
  obtains m1 where "copy_in t m = Inr m1" and "written (advance mv t m1) (xs @ t)"
    and "same_reader m (advance mv t m1)" and "cr_writeBeg (advance mv t m1) = At 0"
    and "\<not> cr_writeCur m + length t > cr_writeLen m"
    and "cr_writeCur m1 = cr_writeCur m" and "cr_writeLen m1 = cr_writeLen m"
    and "fm_bytes (advance mv t m1) = put_at (length xs) t (fm_bytes m)"
proof -
  have lt: "length xs < cr_chunkMapSize m" using fits t by (cases t) auto
  then have st: "fm_hMap m" "0 < cr_chunkMapSize m" "cr_chunkMapSize m \<le> length (fm_bytes m)"
    "take (length xs) (fm_bytes m) = xs" "cr_writeLen m = cr_chunkMapSize m" "cr_writePos m = 0"
    "cr_writeCur m = length xs"
    using w nn by (auto simp: written_def)
  let ?m1 = "m\<lparr>fm_bytes := put_at (length xs) t (fm_bytes m)\<rparr>"
  have ci: "copy_in t m = Inr ?m1"
    using st fits nn by (simp add: copy_in_def view_write_def)
  have len: "length (put_at (length xs) t (fm_bytes m)) = length (fm_bytes m)"
    using st fits by (intro length_put_at) simp
  have pre: "take (length xs + length t) (put_at (length xs) t (fm_bytes m)) = xs @ t"
    using st fits take_put_at_upto [of "length xs" t "fm_bytes m"] by simp
  have fc: "FileMapping_MapAllocGran mv 0 (cr_chunkMapSize m) ?m1 = At 0"
    using map_first_chunk [OF law, of ?m1] st len by simp
  show thesis
  proof (rule that [OF ci])
    show "written (advance mv t ?m1) (xs @ t)" "cr_writeBeg (advance mv t ?m1) = At 0"
      using st fits lt nn len pre fc
      by (auto simp: advance_def written_def RemapWrite_def Let_def)
    show "same_reader m (advance mv t ?m1)" "fm_bytes (advance mv t ?m1) = put_at (length xs) t (fm_bytes m)"
      using len by (auto simp: advance_def same_reader_def RemapWrite_def Let_def)
  qed (use st fits in auto)
qed

lemma write_loop_fits:
  "\<not> cr_writeCur m + length t > cr_writeLen m \<Longrightarrow> t \<noteq> [] \<Longrightarrow> copy_in t m = Inr m1 \<Longrightarrow>
    cr_writeCur m1 = cr_writeCur m \<Longrightarrow> cr_writeLen m1 = cr_writeLen m \<Longrightarrow>
    write_loop mv t m = Inr (advance mv t m1)"
  by (subst write_loop.simps) (simp add: advance_def)

lemma same_reader_trans: "same_reader a b \<Longrightarrow> same_reader b c \<Longrightarrow> same_reader a c"
  by (simp add: same_reader_def)

lemma Write_written:
  assumes law: "view_law gran mv" and w: "written m xs"
    and fits: "length xs + length t \<le> cr_chunkMapSize m"
  obtains m' where "FileMappingChunkRW_Write mv t m = Inr m'" and "written m' (xs @ t)"
    and "same_reader m m'" and "fm_bytes m' = put_at (length xs) t (fm_bytes m)"
proof -
  define m0 where "m0 = (if cr_writeBeg m = Null then RemapWrite mv m else m)"
  note m0 = first_remap [OF law w, folded m0_def]
  show thesis
  proof (cases "t = []")
    case True
    then show thesis using m0 that [of m0]
      by (simp add: FileMappingChunkRW_Write_def m0_def [symmetric] write_loop.simps)
  next
    case False
    have "length xs + length t \<le> cr_chunkMapSize m0" using fits m0(3) by (simp add: same_reader_def)
    then obtain m1 where m1: "copy_in t m0 = Inr m1" "written (advance mv t m1) (xs @ t)"
      "same_reader m0 (advance mv t m1)" "cr_writeBeg (advance mv t m1) = At 0"
      "\<not> cr_writeCur m0 + length t > cr_writeLen m0"
      "cr_writeCur m1 = cr_writeCur m0" "cr_writeLen m1 = cr_writeLen m0"
      "fm_bytes (advance mv t m1) = put_at (length xs) t (fm_bytes m0)"
      by (rule advance_written [OF law m0(1,2) False])
    have "write_loop mv t m0 = Inr (advance mv t m1)"
      using m1 False by (intro write_loop_fits)
    then show thesis
      using m1 m0 by (intro that [of "advance mv t m1"])
        (auto simp: FileMappingChunkRW_Write_def m0_def [symmetric] intro: same_reader_trans)
  qed
qed

section \<open>Reading at a position\<close>

text \<open>The reader has not moved: as the server's file is, which is only read while it is put in
  order.\<close>

definition unread :: "'m chunk_rw_scheme \<Rightarrow> bool" where
  "unread m \<longleftrightarrow> fm_hMap m \<and> 0 < cr_chunkMapSize m \<and> cr_chunkMapSize m \<le> length (fm_bytes m)
     \<and> cr_readPos m = 0 \<and> (cr_readBeg m = Null \<or>
          cr_readBeg m = At 0 \<and> cr_readLen m = cr_chunkMapSize m \<and> cr_readCur m = 0)"

definition same_writer :: "'m chunk_rw_scheme \<Rightarrow> 'm chunk_rw_scheme \<Rightarrow> bool" where
  "same_writer m m' \<longleftrightarrow> fm_hMap m' = fm_hMap m \<and> fm_bytes m' = fm_bytes m
     \<and> cr_chunkMapSize m' = cr_chunkMapSize m \<and> chunk_rw.more m' = chunk_rw.more m"

lemma Read_unread:
  assumes law: "view_law gran mv" and u: "unread m" and n: "0 < n"
    and fits: "curPos + n \<le> cr_chunkMapSize m"
  obtains m' where "FileMappingChunkRW_Read mv gran curPos n m = Inr (slice_at curPos n (fm_bytes m), m')"
    and "same_writer m m'" and "unread m' \<or> n = cr_chunkMapSize m"
proof -
  define m0 where "m0 = (if cr_readBeg m = Null then RemapRead mv m else m)"
  have u0: "unread m0" "cr_readBeg m0 = At 0" "same_writer m m0" "cr_readLen m0 = cr_chunkMapSize m0"
    "cr_readCur m0 = 0" "cr_readPos m0 = 0"
    using u map_first_chunk [OF law, of m]
    by (auto simp: m0_def unread_def RemapRead_def Let_def same_writer_def FileMapping_MapAllocGran_def)
  have fits0: "curPos + n \<le> cr_chunkMapSize m0" and b: "fm_bytes m0 = fm_bytes m"
    using fits u0 by (auto simp: same_writer_def)
  have read: "FileMappingChunkRW_Read mv gran curPos n m = read_loop mv gran curPos n m0"
    by (simp add: FileMappingChunkRW_Read_def m0_def)
  show thesis
  proof (cases "curPos = 0")
    case True
    have "copy_out 0 n m0 = Inr (slice_at 0 n (fm_bytes m0))"
      using u0 fits0 True by (simp add: copy_out_def view_read_def)
    then have "read_loop mv gran curPos n m0 = Inr (slice_at curPos n (fm_bytes m),
        if n = cr_chunkMapSize m0 then RemapRead mv m0 else m0)"
      using n u0 fits0 True b by (subst read_loop.simps) (auto simp: GetReadPos_def)
    moreover have "same_writer m (RemapRead mv m0)"
      using u0 by (simp add: same_writer_def RemapRead_def Let_def)
    ultimately show thesis using read u0 that
      by (cases "n = cr_chunkMapSize m0") (auto simp: same_writer_def)
  next
    case False
    have len: "cr_chunkMapSize m0 \<le> length (fm_bytes m0)" "fm_hMap m0" and g: "0 < gran"
      using u0 law by (simp_all add: unread_def view_law_def)
    have dv: "gran dvd curPos - curPos mod gran" by simp
    have "curPos - curPos mod gran + (n + curPos mod gran) = curPos + n"
      by (simp add: mod_less_eq_dividend)
    then have "FileMapping_MapRandomAccess mv gran curPos n m0
        = (At (curPos - curPos mod gran), curPos mod gran)"
      using law len fits0 n dv
      by (simp add: FileMapping_MapRandomAccess_def FileMapping_MapAllocGran_def view_law_def Let_def)
    moreover have "curPos - curPos mod gran + curPos mod gran = curPos"
      by (simp add: mod_less_eq_dividend)
    ultimately have "read_loop mv gran curPos n m0 = Inr (slice_at curPos n (fm_bytes m), m0)"
      using n u0 False b
      by (subst read_loop.simps) (simp add: view_read_def)
    then show thesis using read u0 that by auto
  qed
qed

section \<open>Putting the file in order\<close>

lemma WriteFrom_written:
  assumes law: "view_law gran mv" and w: "written mp xs" and u: "unread m \<or> n = 0"
    and read_fits: "p + n \<le> cr_chunkMapSize m" and fits: "length xs + n \<le> cr_chunkMapSize mp"
  obtains m' mp' where "FileMappingChunkRW_WriteFrom mv gran m p n mp = Inr (m', mp')"
    and "written mp' (xs @ slice_at p n (fm_bytes m))" and "same_writer m m'"
    and "unread m' \<or> n = cr_chunkMapSize m \<or> n = 0"
    and "cr_chunkMapSize mp' = cr_chunkMapSize mp"
    and "fm_bytes mp' = put_at (length xs) (slice_at p n (fm_bytes m)) (fm_bytes mp)"
proof -
  define mp0 where "mp0 = (if cr_writeBeg mp = Null then RemapWrite mv mp else mp)"
  note mp0 = first_remap [OF law w, folded mp0_def]
  have eq: "FileMappingChunkRW_WriteFrom mv gran m p n mp = write_from_loop mv gran m p n mp0"
    by (simp add: FileMappingChunkRW_WriteFrom_def mp0_def)
  show thesis
  proof (cases "n = 0")
    case True
    then show thesis using eq mp0 that [of m mp0]
      by (simp add: write_from_loop.simps slice_at_def same_writer_def same_reader_def)
  next
    case False
    then have pos: "0 < n" and u: "unread m" using u by auto
    obtain m' where m': "FileMappingChunkRW_Read mv gran p n m = Inr (slice_at p n (fm_bytes m), m')"
      "same_writer m m'" "unread m' \<or> n = cr_chunkMapSize m"
      by (rule Read_unread [OF law u pos read_fits])
    let ?t = "slice_at p n (fm_bytes m)"
    have "cr_chunkMapSize m \<le> length (fm_bytes m)" using u by (simp add: unread_def)
    then have len: "length ?t = n" using read_fits by (intro length_slice_at) simp
    then have ne: "?t \<noteq> []" using pos by auto
    have "length xs + length ?t \<le> cr_chunkMapSize mp0" using fits mp0(3) len by (simp add: same_reader_def)
    then obtain m1 where m1: "copy_in ?t mp0 = Inr m1" "written (advance mv ?t m1) (xs @ ?t)"
      "same_reader mp0 (advance mv ?t m1)" "cr_writeBeg (advance mv ?t m1) = At 0"
      "\<not> cr_writeCur mp0 + length ?t > cr_writeLen mp0"
      "cr_writeCur m1 = cr_writeCur mp0" "cr_writeLen m1 = cr_writeLen mp0"
      "fm_bytes (advance mv ?t m1) = put_at (length xs) ?t (fm_bytes mp0)"
      by (rule advance_written [OF law mp0(1,2) ne])
    have "write_from_loop mv gran m p n mp0 = Inr (m', advance mv ?t m1)"
      using pos m' m1(1,5-7) by (subst write_from_loop.simps) (simp add: len advance_def)
    moreover have "cr_chunkMapSize (advance mv ?t m1) = cr_chunkMapSize mp"
      using m1(3) mp0(3) by (simp add: same_reader_def)
    ultimately show thesis using eq m' m1 mp0(4) by (intro that [of m' "advance mv ?t m1"]) auto
  qed
qed

lemma reorder_loop_written:
  assumes law: "view_law gran mv"
  shows "written mp xs \<Longrightarrow> unread m \<or> sum_list (map ie_size its) = 0 \<Longrightarrow>
    \<forall>e \<in> set its. ie_pos e + ie_size e \<le> cr_chunkMapSize m \<Longrightarrow>
    length xs + sum_list (map ie_size its) \<le> cr_chunkMapSize mp \<Longrightarrow>
    sum_list (map ie_size its) \<le> cr_chunkMapSize m \<Longrightarrow> cr_chunkMapSize m \<le> length (fm_bytes m) \<Longrightarrow>
    \<exists>m' mp'. reorder_loop mv gran its m mp = Inr (m', mp')
      \<and> fm_bytes mp' = put_at (length xs)
          (concat (map (\<lambda>e. slice_at (ie_pos e) (ie_size e) (fm_bytes m)) its)) (fm_bytes mp)
      \<and> fm_bytes m' = fm_bytes m"
proof (induction its arbitrary: xs m mp)
  case (Cons e its)
  let ?t = "slice_at (ie_pos e) (ie_size e) (fm_bytes m)"
  have pre: "ie_pos e + ie_size e \<le> cr_chunkMapSize m" "length xs + ie_size e \<le> cr_chunkMapSize mp"
    "unread m \<or> ie_size e = 0"
    using Cons.prems by auto
  obtain m1 mp1 where s: "FileMappingChunkRW_WriteFrom mv gran m (ie_pos e) (ie_size e) mp = Inr (m1, mp1)"
    "written mp1 (xs @ ?t)" "same_writer m m1"
    "unread m1 \<or> ie_size e = cr_chunkMapSize m \<or> ie_size e = 0"
    "cr_chunkMapSize mp1 = cr_chunkMapSize mp"
    "fm_bytes mp1 = put_at (length xs) ?t (fm_bytes mp)"
    by (rule WriteFrom_written [OF law Cons.prems(1) pre(3,1,2)])
  have len: "length ?t = ie_size e"
    using pre(1) Cons.prems(6) by (intro length_slice_at) simp
  have b: "fm_bytes m1 = fm_bytes m" "cr_chunkMapSize m1 = cr_chunkMapSize m"
    using s(3) by (simp_all add: same_writer_def)
  have u1: "unread m1 \<or> sum_list (map ie_size its) = 0"
  proof (cases "ie_size e = 0")
    case True
    have "m1 = m" using s(1) True by (simp add: FileMappingChunkRW_WriteFrom_def write_from_loop.simps)
    then show ?thesis using Cons.prems(2) True by auto
  next
    case False
    then show ?thesis using s(4) Cons.prems(5) by auto
  qed
  obtain m' mp' where r: "reorder_loop mv gran its m1 mp1 = Inr (m', mp')"
    "fm_bytes mp' = put_at (length (xs @ ?t))
       (concat (map (\<lambda>e. slice_at (ie_pos e) (ie_size e) (fm_bytes m1)) its)) (fm_bytes mp1)"
    "fm_bytes m' = fm_bytes m1"
  proof -
    have "\<forall>e \<in> set its. ie_pos e + ie_size e \<le> cr_chunkMapSize m1" using Cons.prems(3) b by simp
    moreover have "length (xs @ ?t) + sum_list (map ie_size its) \<le> cr_chunkMapSize mp1"
      using Cons.prems(4) len s(5) by simp
    moreover have "sum_list (map ie_size its) \<le> cr_chunkMapSize m1"
      using Cons.prems(5) b by simp
    moreover have "cr_chunkMapSize m1 \<le> length (fm_bytes m1)" using Cons.prems(6) b by simp
    ultimately have "\<exists>m' mp'. reorder_loop mv gran its m1 mp1 = Inr (m', mp')
      \<and> fm_bytes mp' = put_at (length (xs @ ?t))
          (concat (map (\<lambda>e. slice_at (ie_pos e) (ie_size e) (fm_bytes m1)) its)) (fm_bytes mp1)
      \<and> fm_bytes m' = fm_bytes m1"
      by (intro Cons.IH [OF s(2) u1])
    then show thesis using that by blast
  qed
  have "length xs + length ?t \<le> length (fm_bytes mp)"
    using Cons.prems(1) pre(2) len by (simp add: written_def)
  then have "put_at (length (xs @ ?t)) r (put_at (length xs) ?t (fm_bytes mp))
      = put_at (length xs) (?t @ r) (fm_bytes mp)" for r
    by (simp add: put_at_def ac_simps)
  then show ?case using s r b by simp
qed simp

section \<open>The result file of the server\<close>

text \<open>The object as the server has it when its first result arrives: default constructed, then
  \<open>Create\<close> on a file that is mapped with the bytes \<open>bs\<close>.\<close>

definition opened_result :: "nat \<Rightarrow> nat \<Rightarrow> byte list \<Rightarrow> file_indexed" where
  "opened_result gran chunkSize bs =
     snd (FileMappingChunkRW_Create True (Some bs) (length bs) (FileMappingIndexed_default gran chunkSize))"

fun indexed_writes ::
  "map_view \<Rightarrow> u32 option \<Rightarrow> (u32 \<times> byte list) list \<Rightarrow> file_indexed \<Rightarrow> file_indexed res" where
  "indexed_writes mv end_deref [] m = Inr m"
| "indexed_writes mv end_deref ((i, t) # ws) m =
     rbind (FileMappingIndexed_Write mv end_deref i t m) (indexed_writes mv end_deref ws)"

definition bytes_of :: "(u32 \<times> byte list) list \<Rightarrow> byte list" where
  "bytes_of ws = concat (map snd ws)"

lemmas opened_defs = opened_result_def FileMappingChunkRW_Create_def FileMapping_Create_file_def
  set_map_def FileMappingIndexed_default_def FileMappingChunkRW_default_def chunk_rw.defs Let_def

lemma opened_result_fields [simp]:
  "fm_hMap (opened_result gran k bs)" "fm_bytes (opened_result gran k bs) = bs"
  "cr_chunkMapSize (opened_result gran k bs) = min (round_chunk k gran) (length bs)"
  "cr_writeBeg (opened_result gran k bs) = Null" "cr_writePos (opened_result gran k bs) = 0"
  "cr_writeCur (opened_result gran k bs) = 0" "cr_readBeg (opened_result gran k bs) = Null"
  "cr_readPos (opened_result gran k bs) = 0" "fi_indices (opened_result gran k bs) = []"
  by (simp_all add: opened_defs)

lemma round_chunk_ge:
  assumes "0 < gran" and "gran < 2 ^ 32" and "k < 2 ^ 63"
  shows "k \<le> round_chunk k gran"
proof -
  have g: "unat (of_nat gran :: u64) = gran" and k: "unat (of_nat k :: u64) = k"
    using assms by (simp_all add: unat_of_nat_small)
  show ?thesis
    using round_up_nat(2) [of gran k] assms RoundToMultiple_unsigned_nat [of "of_nat gran" "of_nat k"]
    unfolding round_chunk_def g k by simp
qed

lemma opened_written:
  assumes "0 < round_chunk k gran" and "bs \<noteq> []"
  shows "written (opened_result gran k bs) [] \<and> unread (opened_result gran k bs)"
  using assms by (simp add: written_def unread_def)

lemma Indexed_Write_written:
  assumes law: "view_law gran mv" and w: "written m xs"
    and fits: "length xs + length t \<le> cr_chunkMapSize m"
    and inds: "fi_indices m = [] \<or> (\<exists>p n. fi_indices m = [\<lparr>ie_index = g, ie_pos = p, ie_size = n\<rparr>])"
  obtains m' where "FileMappingIndexed_Write mv (Some g) i t m = Inr m'" and "written m' (xs @ t)"
    and "cr_chunkMapSize m' = cr_chunkMapSize m"
    and "fi_indices m' = (if fi_indices m = []
           then [\<lparr>ie_index = g, ie_pos = length xs, ie_size = length t\<rparr>] else fi_indices m)"
    and "unread m \<longrightarrow> unread m'"
    and "fm_bytes m' = put_at (length xs) t (fm_bytes m)"
proof -
  define m1 where "m1 = m\<lparr>fi_indices := set_emplace
    \<lparr>ie_index = g, ie_pos = GetWritePos m, ie_size = length t\<rparr> (fi_indices m)\<rparr>"
  have w1: "written m1 xs" using w by (simp add: m1_def written_def)
  have f1: "length xs + length t \<le> cr_chunkMapSize m1" using fits by (simp add: m1_def)
  obtain m' where m': "FileMappingChunkRW_Write mv t m1 = Inr m'" "written m' (xs @ t)"
    "same_reader m1 m'" "fm_bytes m' = put_at (length xs) t (fm_bytes m1)"
    by (rule Write_written [OF law w1 f1])
  have "FileMappingIndexed_Write mv (Some g) i t m = Inr m'"
    using inds m'(1) unfolding FileMappingIndexed_Write_def m1_def by auto
  moreover have "fi_indices m' = fi_indices m1"
    using m'(3) by (cases m'; cases m1) (simp add: same_reader_def)
  moreover have "fi_indices m1 = (if fi_indices m = []
      then [\<lparr>ie_index = g, ie_pos = length xs, ie_size = length t\<rparr>] else fi_indices m)"
    using inds written_pos [OF w] by (auto simp: m1_def IndexEntry_less_def)
  moreover have "unread m \<longrightarrow> unread m'" and "cr_chunkMapSize m' = cr_chunkMapSize m"
    using m'(3) by (auto simp: unread_def same_reader_def m1_def)
  ultimately show thesis using m' that by (simp add: m1_def)
qed

lemma indexed_writes_written:
  assumes law: "view_law gran mv"
  shows "written m xs \<Longrightarrow> length xs + length (bytes_of ws) \<le> cr_chunkMapSize m \<Longrightarrow>
    fi_indices m = [] \<or> (\<exists>p n. fi_indices m = [\<lparr>ie_index = g, ie_pos = p, ie_size = n\<rparr>]) \<Longrightarrow>
    unread m \<Longrightarrow>
    \<exists>m'. indexed_writes mv (Some g) ws m = Inr m' \<and> written m' (xs @ bytes_of ws) \<and> unread m'
      \<and> cr_chunkMapSize m' = cr_chunkMapSize m
      \<and> fi_indices m' = (if fi_indices m = [] \<and> ws \<noteq> []
          then [\<lparr>ie_index = g, ie_pos = length xs, ie_size = length (snd (hd ws))\<rparr>] else fi_indices m)"
proof (induction ws arbitrary: m xs)
  case Nil
  then show ?case by (simp add: bytes_of_def)
next
  case (Cons w ws)
  obtain i t where wt: "w = (i, t)" by (cases w)
  have fits: "length xs + length t \<le> cr_chunkMapSize m" using Cons.prems(2) by (simp add: wt bytes_of_def)
  obtain m1 where m1: "FileMappingIndexed_Write mv (Some g) i t m = Inr m1" "written m1 (xs @ t)"
    "cr_chunkMapSize m1 = cr_chunkMapSize m"
    "fi_indices m1 = (if fi_indices m = []
        then [\<lparr>ie_index = g, ie_pos = length xs, ie_size = length t\<rparr>] else fi_indices m)"
    "unread m \<longrightarrow> unread m1" "fm_bytes m1 = put_at (length xs) t (fm_bytes m)"
    by (rule Indexed_Write_written [OF law Cons.prems(1) fits Cons.prems(3)])
  have "\<exists>m'. indexed_writes mv (Some g) ws m1 = Inr m' \<and> written m' ((xs @ t) @ bytes_of ws) \<and> unread m'
      \<and> cr_chunkMapSize m' = cr_chunkMapSize m1
      \<and> fi_indices m' = (if fi_indices m1 = [] \<and> ws \<noteq> []
          then [\<lparr>ie_index = g, ie_pos = length (xs @ t), ie_size = length (snd (hd ws))\<rparr>] else fi_indices m1)"
    using m1 Cons.prems by (intro Cons.IH) (auto simp: wt bytes_of_def)
  then show ?case using m1 by (auto simp: wt bytes_of_def)
qed

text \<open>C29: results that arrive within the first chunk are appended in the order of arrival,
  without a fault if reading the past-the-end iterator does not fault: the file starts with
  them and the write position is their total length.  But the index set never holds the
  indices that were passed: it keeps one entry, for the first result, under whatever index
  was read past the end; and if that read faults, the first write does.\<close>

theorem results_append_index_lost:
  assumes law: "view_law gran mv" and "0 < gran" and "gran < 2 ^ 32" and "0 < k" and "k < 2 ^ 63"
    and "length (bytes_of ws) \<le> k" and "length (bytes_of ws) \<le> length bs" and "bs \<noteq> []" and "ws \<noteq> []"
  shows "indexed_writes mv None ws (opened_result gran k bs) = Inl EndDeref
    \<and> (\<exists>m. indexed_writes mv (Some g) ws (opened_result gran k bs) = Inr m
        \<and> take (length (bytes_of ws)) (fm_bytes m) = bytes_of ws
        \<and> GetWritePos m = length (bytes_of ws)
        \<and> fi_indices m = [\<lparr>ie_index = g, ie_pos = 0, ie_size = length (snd (hd ws))\<rparr>])"
proof -
  have ge: "k \<le> round_chunk k gran" by (rule round_chunk_ge [OF assms(2,3,5)])
  then have w: "written (opened_result gran k bs) []" "unread (opened_result gran k bs)"
    using opened_written [of k gran bs] assms by auto
  have "length [] + length (bytes_of ws) \<le> cr_chunkMapSize (opened_result gran k bs)"
    using assms ge by simp
  then obtain m where "indexed_writes mv (Some g) ws (opened_result gran k bs) = Inr m"
    "written m (bytes_of ws)"
    "fi_indices m = [\<lparr>ie_index = g, ie_pos = 0, ie_size = length (snd (hd ws))\<rparr>]"
    using indexed_writes_written [OF law w(1) _ _ w(2), of ws g] assms(9) by auto
  moreover from this have "take (length (bytes_of ws)) (fm_bytes m) = bytes_of ws"
    "GetWritePos m = length (bytes_of ws)"
    using written_pos by (auto simp: written_def)
  moreover have "indexed_writes mv None ws (opened_result gran k bs) = Inl EndDeref"
    using assms(9) by (cases ws) (auto simp: FileMappingIndexed_Write_def)
  ultimately show ?thesis by blast
qed

lemma results_append_index_lost_witness:
  "\<exists>m. indexed_writes (full_view 4) (Some 0) [(1, [7, 8]), (0, [9])] (opened_result 4 8 [0, 0, 0, 0, 0]) = Inr m
    \<and> take (length [7, 8, 9 :: byte]) (fm_bytes m) = [7, 8, 9]
    \<and> fi_indices m = [\<lparr>ie_index = 0, ie_pos = 0, ie_size = 2\<rparr>]"
  using results_append_index_lost [OF full_view_law, of 4 8 "[(1, [7, 8]), (0, [9])]" "[0, 0, 0, 0, 0]" 0]
  by (auto simp: bytes_of_def)

lemma Reorder_spec:
  assumes law: "view_law gran mv" and g: "0 < gran" "gran < 2 ^ 32"
    and w: "written m xs" and u: "unread m" and ne: "xs \<noteq> []" and le: "length xs \<le> 104857600"
    and fit: "\<forall>e \<in> set (fi_indices m). ie_pos e + ie_size e \<le> length xs"
    and sum: "sum_list (map ie_size (fi_indices m)) \<le> length xs"
    and cs: "length cs = length xs"
  shows "\<exists>m'. FileMappingIndexed_ReorderFileData mv gran True (Some cs) m
    = Inr (put_at 0 (concat (map (\<lambda>e. slice_at (ie_pos e) (ie_size e) xs) (fi_indices m))) cs, m')"
proof -
  define mp where "mp = FileMappingChunkRW_make gran (unat (lit_MB 100)) True (Some cs) (length xs)"
  have mb: "unat (lit_MB 100) = 104857600" by (simp add: lit_MB_def)
  have ge: "104857600 \<le> round_chunk (unat (lit_MB 100)) gran"
    using round_chunk_ge [OF g, of 104857600] unfolding mb by simp
  have mp: "cr_chunkMapSize mp = length xs" "fm_bytes mp = cs" "written mp []"
    using ge le ne cs
    by (auto simp: mp_def FileMappingChunkRW_make_def FileMapping_Create_file_def set_map_def Let_def
        FileMappingChunkRW_default_def written_def)
  have C: "length xs \<le> cr_chunkMapSize m" "cr_chunkMapSize m \<le> length (fm_bytes m)"
    "take (length xs) (fm_bytes m) = xs"
    using w by (auto simp: written_def)
  have "\<forall>e \<in> set (fi_indices m). ie_pos e + ie_size e \<le> cr_chunkMapSize m" using fit C(1) by fastforce
  then obtain m' mp' where r: "reorder_loop mv gran (fi_indices m) m mp = Inr (m', mp')"
    "fm_bytes mp' = put_at (length ([] :: byte list))
      (concat (map (\<lambda>e. slice_at (ie_pos e) (ie_size e) (fm_bytes m)) (fi_indices m))) (fm_bytes mp)"
    using reorder_loop_written [OF law mp(3), of m "fi_indices m"] u sum C mp by fastforce
  have "slice_at (ie_pos e) (ie_size e) (fm_bytes m) = slice_at (ie_pos e) (ie_size e) xs"
    if "e \<in> set (fi_indices m)" for e
  proof -
    have "ie_pos e + ie_size e \<le> length xs" using fit that by blast
    then have "slice_at (ie_pos e) (ie_size e) (take (length xs) (fm_bytes m))
        = slice_at (ie_pos e) (ie_size e) (fm_bytes m)"
      by (simp add: slice_at_def drop_take min_absorb1)
    then show ?thesis using C(3) by simp
  qed
  then have maps: "map (\<lambda>e. slice_at (ie_pos e) (ie_size e) (fm_bytes m)) (fi_indices m)
      = map (\<lambda>e. slice_at (ie_pos e) (ie_size e) xs) (fi_indices m)"
    by simp
  have "fm_bytes (FileMappingChunkRW_Close mp') = fm_bytes mp'"
    by (simp add: FileMappingChunkRW_Close_def FileMapping_Close_def Let_def)
  then show ?thesis
    using r(1) r(2) [unfolded maps] mp written_pos [OF w]
    by (simp add: FileMappingIndexed_ReorderFileData_def mp_def [symmetric])
qed

text \<open>What the index set should hold: an entry for each result, with its own index and the place
  it was written at, ordered by index.\<close>

fun entries_from :: "nat \<Rightarrow> (u32 \<times> byte list) list \<Rightarrow> index_entry list" where
  "entries_from pos [] = []"
| "entries_from pos ((i, t) # ws) =
     \<lparr>ie_index = i, ie_pos = pos, ie_size = length t\<rparr> # entries_from (pos + length t) ws"

definition true_index :: "(u32 \<times> byte list) list \<Rightarrow> index_entry list" where
  "true_index ws = sort_key ie_index (entries_from 0 ws)"

lemma insort_key_map: "insort_key f (g x) (map g xs) = map g (insort_key (\<lambda>a. f (g a)) x xs)"
  by (induction xs) auto

lemma sort_key_map: "sort_key f (map g xs) = map g (sort_key (\<lambda>a. f (g a)) xs)"
  by (induction xs) (auto simp: insort_key_map)

lemma entries_from_sum: "sum_list (map ie_size (entries_from pos ws)) = length (bytes_of ws)"
  by (induction pos ws rule: entries_from.induct) (auto simp: bytes_of_def)

lemma entries_from_fit:
  "e \<in> set (entries_from pos ws) \<Longrightarrow> pos \<le> ie_pos e \<and> ie_pos e + ie_size e \<le> pos + length (bytes_of ws)"
  by (induction pos ws rule: entries_from.induct) (force simp: bytes_of_def)+

lemma entries_from_chunks:
  "\<exists>zs. entries_from (length pre) ws = map fst zs \<and> ws = map (\<lambda>(e, t). (ie_index e, t)) zs
    \<and> (\<forall>(e, t) \<in> set zs. slice_at (ie_pos e) (ie_size e) (pre @ bytes_of ws) = t)"
proof (induction ws arbitrary: pre)
  case (Cons w ws)
  obtain i t where w: "w = (i, t)" by (cases w)
  obtain zs where zs: "entries_from (length (pre @ t)) ws = map fst zs"
    "ws = map (\<lambda>(e, t). (ie_index e, t)) zs"
    "\<forall>(e, t') \<in> set zs. slice_at (ie_pos e) (ie_size e) ((pre @ t) @ bytes_of ws) = t'"
    using Cons.IH [of "pre @ t"] by blast
  show ?case
    by (rule exI [of _ "(\<lparr>ie_index = i, ie_pos = length pre, ie_size = length t\<rparr>, t) # zs"])
      (use zs in \<open>auto simp: w bytes_of_def slice_at_def\<close>)
qed simp

lemma true_index_bytes:
  "concat (map (\<lambda>e. slice_at (ie_pos e) (ie_size e) (bytes_of ws)) (true_index ws))
    = bytes_of (sort_key fst ws)"
proof -
  obtain zs where zs: "entries_from 0 ws = map fst zs" "ws = map (\<lambda>(e, t). (ie_index e, t)) zs"
    "\<forall>(e, t) \<in> set zs. slice_at (ie_pos e) (ie_size e) (bytes_of ws) = t"
    using entries_from_chunks [of "[]" ws] by auto
  define ss where "ss = sort_key (\<lambda>(e, t :: byte list). ie_index e) zs"
  have "true_index ws = map fst ss"
    unfolding true_index_def zs(1) sort_key_map ss_def by (simp add: comp_def case_prod_beta')
  then have "map (\<lambda>e. slice_at (ie_pos e) (ie_size e) (bytes_of ws)) (true_index ws) = map snd ss"
    using zs(3) by (auto simp: ss_def)
  then have 1: "concat (map (\<lambda>e. slice_at (ie_pos e) (ie_size e) (bytes_of ws)) (true_index ws))
      = concat (map snd ss)"
    by (rule arg_cong)
  have "sort_key fst ws = map (\<lambda>(e, t). (ie_index e, t)) ss"
    unfolding ss_def by (subst zs(2), subst sort_key_map) (simp add: comp_def case_prod_beta')
  then have "bytes_of (sort_key fst ws) = concat (map snd ss)"
    by (simp add: bytes_of_def comp_def case_prod_beta')
  with 1 show ?thesis by simp
qed

text \<open>C28: \<open>ReorderFileData\<close> does what it is for, given the right index set: if each result were
  recorded under its index, the new file would be the results in the order of their indices,
  up to 100 MB.  With the index set that the writes leave, it is the first result that
  arrived, followed by whatever the temporary file was created with: the rest is lost.\<close>

theorem reorder_file_data:
  assumes law: "view_law gran mv" and g: "0 < gran" "gran < 2 ^ 32"
    and k: "length (bytes_of ws) \<le> k" "k < 2 ^ 63" "length (bytes_of ws) \<le> 104857600"
    and bs: "length (bytes_of ws) \<le> length bs" and ne: "bytes_of ws \<noteq> []"
    and cs: "length cs = length (bytes_of ws)"
    and run: "indexed_writes mv (Some v) ws (opened_result gran k bs) = Inr m"
  shows "(\<exists>m'. FileMappingIndexed_ReorderFileData mv gran True (Some cs) (m\<lparr>fi_indices := true_index ws\<rparr>)
        = Inr (bytes_of (sort_key fst ws), m'))
    \<and> (\<exists>m'. FileMappingIndexed_ReorderFileData mv gran True (Some cs) m
        = Inr (snd (hd ws) @ drop (length (snd (hd ws))) cs, m'))"
proof -
  have wne: "ws \<noteq> []" using ne by (auto simp: bytes_of_def)
  have bsne: "bs \<noteq> []" using ne bs by auto
  have k0: "0 < k" using ne k by (cases "bytes_of ws") auto
  have ge: "k \<le> round_chunk k gran" by (rule round_chunk_ge [OF g k(2)])
  then have w: "written (opened_result gran k bs) []" "unread (opened_result gran k bs)"
    using opened_written [of k gran bs] k0 bsne by auto
  have "length [] + length (bytes_of ws) \<le> cr_chunkMapSize (opened_result gran k bs)"
    using k bs ge by simp
  then obtain m1 where "indexed_writes mv (Some v) ws (opened_result gran k bs) = Inr m1"
    "written m1 (bytes_of ws)" "unread m1"
    "fi_indices m1 = [\<lparr>ie_index = v, ie_pos = 0, ie_size = length (snd (hd ws))\<rparr>]"
    using indexed_writes_written [OF law w(1) _ _ w(2), of ws v] wne by auto
  then have m: "written m (bytes_of ws)" "unread m"
    "fi_indices m = [\<lparr>ie_index = v, ie_pos = 0, ie_size = length (snd (hd ws))\<rparr>]"
    using run by auto
  have hd: "bytes_of ws = snd (hd ws) @ bytes_of (tl ws)"
    using wne by (cases ws) (auto simp: bytes_of_def)
  have 1: "\<exists>m'. FileMappingIndexed_ReorderFileData mv gran True (Some cs) m
      = Inr (put_at 0 (snd (hd ws)) cs, m')"
    using Reorder_spec [OF law g m(1,2) ne k(3) _ _ cs] hd by (simp add: m(3) slice_at_def)
  define m2 where "m2 = m\<lparr>fi_indices := true_index ws\<rparr>"
  have m2: "written m2 (bytes_of ws)" "unread m2" "fi_indices m2 = true_index ws"
    using m by (simp_all add: m2_def written_def unread_def)
  have len: "length (bytes_of (sort_key fst ws)) = length (bytes_of ws)"
    using arg_cong [where f = sum_mset, OF arg_cong [where f = "image_mset (length \<circ> snd)", OF mset_sort [of fst ws]]]
    by (simp add: bytes_of_def length_concat comp_def flip: sum_mset_sum_list)
  have "sum_list (map ie_size (true_index ws)) = length (bytes_of ws)"
    using arg_cong [where f = "sum_mset \<circ> image_mset ie_size", OF mset_sort [of ie_index "entries_from 0 ws"]]
    by (simp add: true_index_def entries_from_sum [of 0, symmetric] flip: sum_mset_sum_list)
  then have "\<exists>m'. FileMappingIndexed_ReorderFileData mv gran True (Some cs) m2
      = Inr (put_at 0 (bytes_of (sort_key fst ws)) cs, m')"
    using Reorder_spec [OF law g m2(1,2) ne k(3) _ _ cs] entries_from_fit [of _ 0 ws]
    unfolding m2(3) true_index_bytes by (fastforce simp: true_index_def)
  then show ?thesis using 1 len cs by (simp add: put_at_def m2_def)
qed

lemma reorder_file_data_witness:
  "\<exists>m m'. indexed_writes (full_view 4) (Some 0) [(1, [7, 8]), (0, [9])] (opened_result 4 8 [0, 0, 0, 0, 0]) = Inr m
    \<and> FileMappingIndexed_ReorderFileData (full_view 4) 4 True (Some [1, 2, 3]) m = Inr ([7, 8, 3], m')"
proof -
  obtain m where m: "indexed_writes (full_view 4) (Some 0) [(1, [7, 8]), (0, [9])]
      (opened_result 4 8 [0, 0, 0, 0, 0]) = Inr m"
  proof -
    have "case indexed_writes (full_view 4) (Some 0) [(1, [7, 8]), (0, [9])]
        (opened_result 4 8 [0, 0, 0, 0, 0]) of Inl _ \<Rightarrow> False | Inr _ \<Rightarrow> True"
      by code_simp
    then show thesis using that by (auto split: sum.splits)
  qed
  have "\<exists>m'. FileMappingIndexed_ReorderFileData (full_view 4) 4 True (Some [1, 2, 3]) m = Inr ([7, 8, 3], m')"
    using reorder_file_data [OF full_view_law _ _ _ _ _ _ _ _ m, of "[1, 2, 3]"]
    by (auto simp: bytes_of_def)
  then show ?thesis using m by blast
qed

text \<open>Past the first chunk the file is written over from its beginning.  After one full
  chunk \<open>xs\<close> the next bytes \<open>ys\<close> replace the first ones of \<open>xs\<close>, while the write position says
  that they follow it.\<close>

theorem second_chunk_overlays_first:
  assumes law: "view_law gran mv" and "0 < round_chunk k gran" and xs: "length xs = round_chunk k gran"
    and ys: "length ys < length xs" and bs: "length xs \<le> length bs"
  shows "\<exists>m. indexed_writes mv (Some g) [(0, xs), (1, ys)] (opened_result gran k bs) = Inr m
    \<and> fm_bytes m = ys @ drop (length ys) xs @ drop (length xs) bs
    \<and> GetWritePos m = length xs + length ys"
proof -
  let ?m = "opened_result gran k bs"
  have bsne: "bs \<noteq> []" using assms(2) xs bs by auto
  have w: "written ?m []" "unread ?m" using opened_written [OF assms(2) bsne] by auto
  have fits: "length [] + length xs \<le> cr_chunkMapSize ?m" using xs bs by simp
  obtain m1 where m1: "FileMappingIndexed_Write mv (Some g) 0 xs ?m = Inr m1" "written m1 ([] @ xs)"
    "cr_chunkMapSize m1 = cr_chunkMapSize ?m"
    "fi_indices m1 = (if fi_indices ?m = []
        then [\<lparr>ie_index = g, ie_pos = length ([] :: byte list), ie_size = length xs\<rparr>] else fi_indices ?m)"
    "unread ?m \<longrightarrow> unread m1" "fm_bytes m1 = put_at (length ([] :: byte list)) xs (fm_bytes ?m)"
    by (rule Indexed_Write_written [OF law w(1) fits]) simp
  have C: "cr_chunkMapSize m1 = length xs" using m1(3) xs bs by simp
  have st: "cr_writeBeg m1 = At 0" "cr_writePos m1 = length xs" "cr_writeCur m1 = 0"
    "cr_writeLen m1 = length xs" "fm_bytes m1 = xs @ drop (length xs) bs"
    using m1(2,6) C assms(2) xs by (auto simp: written_def put_at_def split: if_splits)
  have "\<exists>m. FileMappingIndexed_Write mv (Some g) 1 ys m1 = Inr m
      \<and> fm_bytes m = ys @ drop (length ys) xs @ drop (length xs) bs
      \<and> GetWritePos m = length xs + length ys"
    using st ys m1(4)
    by (auto simp: FileMappingIndexed_Write_def FileMappingChunkRW_Write_def write_loop.simps
        copy_in_def view_write_def put_at_def GetWritePos_def)
  then show ?thesis using m1(1) by auto
qed

lemma second_chunk_overlays_first_witness:
  "\<exists>m. indexed_writes (full_view 4) (Some 0) [(0, [1, 2, 3, 4]), (1, [5, 6])]
      (opened_result 4 4 [0, 0, 0, 0, 0, 0, 0, 0]) = Inr m
    \<and> fm_bytes m = [5, 6, 3, 4, 0, 0, 0, 0]"
proof -
  have "round_chunk 4 4 = 4" by code_simp
  then show ?thesis
    using second_chunk_overlays_first [OF full_view_law, of 4 4 "[1, 2, 3, 4]" "[5, 6]"
        "[0, 0, 0, 0, 0, 0, 0, 0]" 0]
    by auto
qed

end
