(* ===== verification/Algo.thy ===== *)
theory Algo
  imports Complex_Main DataSource
begin

text \<open>
  The computation itself (\<open>Algorithm/Algorithm.cpp\<close>), the check of the finished file
  (\<open>Server::VerifyNewData\<close>) and the generator of the data file (\<open>DataGen/main.cpp\<close>).

  Floating point is real arithmetic with a rounding function \<open>r64\<close> after every operation.
  Buffers are byte lists, a null pointer is \<open>None\<close>; 32-bit integers are little-endian.  Files
  are the parameter \<open>file_ops\<close> with its laws.
\<close>

section \<open>Algorithm.cpp\<close>

definition Algorithm_GetOutSize :: "u32 \<Rightarrow> u32" where
  "Algorithm_GetOutSize inSize = inSize"

text \<open>\<open>log(sqrt(*pin * *pin) + 1.0) + 1.0 / log(16.0)\<close>, converted to \<open>uint32_t\<close>; the product is
  taken in 32 bits.\<close>

definition alg_word :: "(real \<Rightarrow> real) \<Rightarrow> u32 \<Rightarrow> u32" where
  "alg_word r64 w =
     of_int \<lfloor>r64 (r64 (ln (r64 (r64 (sqrt (real (unat (w * w)))) + 1))) + r64 (1 / r64 (ln 16)))\<rfloor>"

text \<open>The inner loop stores the same value \<open>count\<close> times.\<close>

definition alg_inner :: "(u32 \<Rightarrow> u32) \<Rightarrow> nat \<Rightarrow> byte list \<Rightarrow> nat \<Rightarrow> byte list \<Rightarrow> byte list" where
  "alg_inner f count inb p out =
     fold (\<lambda>_ out. put_at p (word_bytes (f (bytes_word (slice_at p 4 inb)))) out) [0..<count] out"

fun alg_loop :: "(u32 \<Rightarrow> u32) \<Rightarrow> nat \<Rightarrow> byte list \<Rightarrow> nat \<Rightarrow> nat \<Rightarrow> byte list \<Rightarrow> byte list res" where
  "alg_loop f count inb 0 p out = Inr out"
| "alg_loop f count inb (Suc k) p out =
     (if p + 4 \<le> length inb \<and> p + 4 \<le> length out
      then alg_loop f count inb k (p + 4) (alg_inner f count inb p out)
      else Inl OutOfBounds)"

definition Algorithm_AlgorithmInOut ::
  "(u32 \<Rightarrow> u32) \<Rightarrow> byte list option \<Rightarrow> u32 \<Rightarrow> byte list option \<Rightarrow> u32 \<Rightarrow> (u32 \<times> byte list option) res" where
  "Algorithm_AlgorithmInOut f inb inSize out outSize =
     (case (inb, out) of
        (Some ib, Some ob) \<Rightarrow>
          if outSize < Algorithm_GetOutSize inSize then Inr (0, out)
          else (let count = unat (inSize div 4)
                in rbind (alg_loop f count ib count 0 ob) (\<lambda>ob'. Inr (inSize, Some ob')))
      | _ \<Rightarrow> Inr (0, out))"

section \<open>VerifyNewData\<close>

definition verify_buffSize :: u32 where
  "verify_buffSize = 4096"

definition load :: "byte list \<Rightarrow> byte list \<Rightarrow> byte list" where
  "load bs buff = put_at 0 bs buff"

fun verify_loop ::
  "(u32 \<Rightarrow> u32) \<Rightarrow> 'f file_ops \<Rightarrow> nat \<Rightarrow> u32 \<Rightarrow> 'f \<Rightarrow> 'f \<Rightarrow> byte list \<Rightarrow> byte list \<Rightarrow> byte list \<Rightarrow> bool res" where
  "verify_loop f ops 0 sz newData oldData newBuff oldBuff tempBuff = Inl NoReturn"
| "verify_loop f ops (Suc fuel) sz newData oldData newBuff oldBuff tempBuff =
     (let (bs, oldData1) = f_Read ops oldData verify_buffSize;
          eof = (bs = []);
          oldBuff1 = load bs oldBuff
      in rbind
           (if eof then Inr (sz, Some tempBuff)
            else Algorithm_AlgorithmInOut f (Some oldBuff1) verify_buffSize (Some tempBuff)
                   (Algorithm_GetOutSize verify_buffSize))
           (\<lambda>(sz1, temp).
              let tempBuff1 = (case temp of Some t \<Rightarrow> t | None \<Rightarrow> []);
                  (ns, newData1) = f_Read ops newData (if sz1 \<noteq> 0 then sz1 else 1);
                  newBuff1 = load ns newBuff
              in if ns = [] then Inr eof
                 else if take (unat sz1) newBuff1 \<noteq> take (unat sz1) tempBuff1 then Inr False
                 else verify_loop f ops fuel sz1 newData1 oldData1 newBuff1 oldBuff1 tempBuff1))"

definition Server_VerifyNewData ::
  "(u32 \<Rightarrow> u32) \<Rightarrow> 'f file_ops \<Rightarrow> nat \<Rightarrow> bool \<Rightarrow> bool \<Rightarrow> 'f \<Rightarrow> 'f \<Rightarrow> bool res" where
  "Server_VerifyNewData f ops fuel newOpen oldOpen newData oldData =
     (if \<not> (newOpen \<and> oldOpen) then Inr False
      else (let n = unat verify_buffSize in
            verify_loop f ops fuel 0 newData oldData (replicate n 0) (replicate n 0)
              (replicate (unat (Algorithm_GetOutSize verify_buffSize)) 0)))"

section \<open>DataGen\<close>

text \<open>\<open>rnd i\<close> is what the \<open>i\<close>-th call of \<open>rand()\<close> returns; the result is what the calls of
  \<open>file.Write\<close> put in the file.\<close>

definition gen_value :: "nat \<Rightarrow> u32" where
  "gen_value r = of_nat (r mod (2 ^ 64 - 1))"

definition GenerateData :: "(nat \<Rightarrow> nat) \<Rightarrow> nat \<Rightarrow> byte list" where
  "GenerateData rnd dataSize =
     fold (\<lambda>i file. file @ word_bytes (gen_value (rnd i))) [0..<dataSize div 4] []"

section \<open>The computation maps words\<close>

fun map_words :: "(u32 \<Rightarrow> u32) \<Rightarrow> byte list \<Rightarrow> byte list" where
  "map_words f (a # b # c # d # bs) = word_bytes (f (bytes_word [a, b, c, d])) @ map_words f bs"
| "map_words f bs = []"

lemma alg_inner_eq:
  assumes "0 < count" and "p + 4 \<le> length out"
  shows "alg_inner f count inb p out = put_at p (word_bytes (f (bytes_word (slice_at p 4 inb)))) out"
proof -
  let ?w = "word_bytes (f (bytes_word (slice_at p 4 inb)))"
  have idem: "put_at p ?w (put_at p ?w out) = put_at p ?w out"
    using assms(2) by (simp add: put_at_def)
  have "fold (\<lambda>_ out. put_at p ?w out) xs (put_at p ?w out) = put_at p ?w out" for xs :: "nat list"
    by (induction xs) (simp_all add: idem)
  moreover have "[0..<count] = 0 # [1..<count]" using assms(1) by (simp add: upt_conv_Cons)
  ultimately show ?thesis by (simp add: alg_inner_def)
qed

lemma length_map_words: "length (map_words f bs) = 4 * (length bs div 4)"
  by (induction f bs rule: map_words.induct) auto

lemma length_map_words_dvd [simp]: "4 dvd length bs \<Longrightarrow> length (map_words f bs) = length bs"
  by (simp add: length_map_words)

lemma map_words_append: "4 dvd length a \<Longrightarrow> map_words f (a @ b) = map_words f a @ map_words f b"
proof (induction f a rule: map_words.induct)
  case (1 f a b c d bs)
  then have "4 dvd length bs" by (simp add: dvd_def) presburger
  then show ?case using 1 by simp
qed (simp_all, presburger+)

lemma four_bytes: "length bs = 4 \<Longrightarrow> map_words f bs = word_bytes (f (bytes_word bs))"
  by (auto simp: length_Suc_conv numeral_eq_Suc)

lemma alg_loop_eq:
  assumes "0 < count"
  shows "p + 4 * k \<le> length inb \<Longrightarrow> p + 4 * k \<le> length out \<Longrightarrow>
    alg_loop f count inb k p out = Inr (put_at p (map_words f (slice_at p (4 * k) inb)) out)"
proof (induction k arbitrary: p out)
  case (Suc k)
  let ?w = "word_bytes (f (bytes_word (slice_at p 4 inb)))"
  let ?r = "map_words f (slice_at (p + 4) (4 * k) inb)"
  have "alg_loop f count inb k (p + 4) (put_at p ?w out) = Inr (put_at (p + 4) ?r (put_at p ?w out))"
    using Suc.prems by (intro Suc.IH) auto
  moreover have "put_at (p + 4) ?r (put_at p ?w out) = put_at p (?w @ ?r) out"
    using Suc.prems by (simp add: put_at_def ac_simps)
  moreover have "slice_at p (4 * Suc k) inb = slice_at p 4 inb @ slice_at (p + 4) (4 * k) inb"
    by (simp add: slice_at_append)
  moreover have "map_words f \<dots> = ?w @ ?r"
    using Suc.prems by (subst map_words_append) (simp_all add: four_bytes)
  ultimately show ?case using Suc.prems by (simp add: alg_inner_eq [OF assms])
qed (simp add: slice_at_def)

lemma unat_div4: "4 * unat (n div 4 :: u32) = 4 * (unat n div 4)"
  by (simp add: unat_div)

lemma AlgorithmInOut_eq:
  assumes "unat n \<le> length ib" and "unat n \<le> length ob" and "n \<le> outSize"
  shows "Algorithm_AlgorithmInOut f (Some ib) n (Some ob) outSize
    = Inr (n, Some (put_at 0 (map_words f (take (4 * (unat n div 4)) ib)) ob))"
proof (cases "unat (n div 4) = 0")
  case True
  have "(outSize < Algorithm_GetOutSize n) = False"
    using assms(3) by (simp add: Algorithm_GetOutSize_def not_less)
  then show ?thesis using True assms unat_div4 [of n]
    by (simp add: Algorithm_AlgorithmInOut_def slice_at_def)
next
  case False
  have "4 * unat (n div 4) \<le> unat n" using unat_div4 [of n] by simp
  then have "alg_loop f (unat (n div 4)) ib (unat (n div 4)) 0 ob
      = Inr (put_at 0 (map_words f (slice_at 0 (4 * unat (n div 4)) ib)) ob)"
    using False assms by (intro alg_loop_eq) auto
  moreover have "(outSize < Algorithm_GetOutSize n) = False"
    using assms(3) by (simp add: Algorithm_GetOutSize_def not_less)
  ultimately show ?thesis using assms unat_div4 [of n]
    by (simp add: Algorithm_AlgorithmInOut_def slice_at_def)
qed

text \<open>What a client does with one chunk: the whole chunk, into a buffer of its size.\<close>

definition process_chunk :: "(u32 \<Rightarrow> u32) \<Rightarrow> byte list \<Rightarrow> byte list \<Rightarrow> (u32 \<times> byte list option) res" where
  "process_chunk f out c =
     Algorithm_AlgorithmInOut f (Some c) (of_nat (length c)) (Some out) (of_nat (length c))"

lemma process_chunk_eq:
  assumes "length c < 2 ^ 32" and "length out = length c"
  shows "process_chunk f out c
    = Inr (of_nat (length c), Some (map_words f (take (4 * (length c div 4)) c) @ drop (4 * (length c div 4)) out))"
proof -
  have u: "unat (of_nat (length c) :: u32) = length c" using assms(1) by (simp add: unat_of_nat_small)
  have l: "length (map_words f (take (4 * (length c div 4)) c)) = 4 * (length c div 4)"
    by (simp add: length_map_words)
  show ?thesis
    using AlgorithmInOut_eq [of "of_nat (length c)" c out "of_nat (length c)" f] assms
    unfolding process_chunk_def u by (simp add: put_at_def l)
qed

text \<open>C14: the data can be processed chunk by chunk: if the chunks are whole numbers of 32-bit
  integers, the results put together are the result of processing the data in one piece,
  whatever the output buffers held before.\<close>

theorem chunks_like_whole:
  assumes "\<forall>c \<in> set cs. 4 dvd length c" and "length (concat cs) < 2 ^ 32"
    and "length os = length cs" and "\<forall>i < length cs. length (os ! i) = length (cs ! i)"
    and "length whole = length (concat cs)"
  shows "\<exists>rs r. length rs = length cs
    \<and> (\<forall>i < length cs. process_chunk f (os ! i) (cs ! i) = Inr (of_nat (length (cs ! i)), Some (rs ! i)))
    \<and> process_chunk f whole (concat cs) = Inr (of_nat (length (concat cs)), Some r)
    \<and> concat rs = r"
proof -
  have len: "length (cs ! i) < 2 ^ 32" if "i < length cs" for i
  proof -
    have "length (cs ! i) \<le> length (concat cs)"
      using that by (simp add: length_concat member_le_sum_list)
    then show ?thesis using assms(2) by linarith
  qed
  have map: "concat (map (map_words f) cs) = map_words f (concat cs) \<and> 4 dvd length (concat cs)"
    using assms(1) by (induction cs) (auto simp: map_words_append)
  have "process_chunk f (os ! i) (cs ! i) = Inr (of_nat (length (cs ! i)), Some (map_words f (cs ! i)))"
    if "i < length cs" for i
    using process_chunk_eq [OF len [OF that]] assms(1,4) that
    by (metis (no_types, lifting) append_Nil2 drop_all dvd_mult_div_cancel nth_mem order_refl take_all)
  moreover have "process_chunk f whole (concat cs)
      = Inr (of_nat (length (concat cs)), Some (map_words f (concat cs)))"
    using process_chunk_eq [OF assms(2,5)] map assms(5) by simp
  ultimately show ?thesis using map
    by (intro exI [of _ "map (map_words f) cs"] exI [of _ "map_words f (concat cs)"]) auto
qed

lemma chunks_like_whole_witness:
  "\<exists>rs. length rs = 2 \<and> process_chunk (\<lambda>w. w + 1) [0, 0, 0, 0] [1, 0, 0, 0] = Inr (4, Some (rs ! 0))
    \<and> concat rs = [2, 0, 0, 0, 0, 1, 0, 0]"
proof -
  have w: "process_chunk (\<lambda>w. w + 1) [9, 9, 9, 9, 9, 9, 9, 9] (concat [[1, 0, 0, 0], [255, 0, 0, 0]])
      = Inr (8, Some [2, 0, 0, 0, 0, 1, 0, 0])"
    by code_simp
  let ?cs = "[[1, 0, 0, 0], [255, 0, 0, 0]] :: byte list list"
  let ?os = "[[0, 0, 0, 0], [0, 0, 0, 0]] :: byte list list"
  have h: "\<forall>c \<in> set ?cs. 4 dvd length c" by code_simp
  have s: "length (concat ?cs) < 2 ^ 32" "length ?os = length ?cs"
    "length [9, 9, 9, 9, 9, 9, 9, 9 :: byte] = length (concat ?cs)"
    by simp_all
  have i: "\<forall>i < length ?cs. length (?os ! i) = length (?cs ! i)" by (simp add: All_less_Suc)
  obtain rs r where "length rs = length ?cs"
    "\<forall>i < length ?cs. process_chunk (\<lambda>w. w + 1) (?os ! i) (?cs ! i)
       = Inr (of_nat (length (?cs ! i)), Some (rs ! i))"
    "process_chunk (\<lambda>w. w + 1) [9, 9, 9, 9, 9, 9, 9, 9] (concat ?cs)
       = Inr (of_nat (length (concat ?cs)), Some r)" "concat rs = r"
    using chunks_like_whole [OF h s(1,2) i s(3), of "\<lambda>w. w + 1"] by blast
  then show ?thesis using w by (intro exI [of _ rs]) (auto simp: All_less_Suc)
qed

section \<open>The range of the computation\<close>

lemma ln_65537_bound: "ln 65537 < (23 :: real) / 2"
proof -
  have "(1 + 1 / 2 + (1 / 2)\<^sup>2 / 2 :: real) \<le> exp (1 / 2)"
    by (rule exp_lower_Taylor_quadratic) simp
  then have "(13 / 8 :: real) \<le> exp (1 / 2)" by (simp add: power2_eq_square)
  then have "(13 / 8 :: real) ^ 23 \<le> exp (1 / 2) ^ 23" by (rule power_mono) simp
  moreover have "(65537 :: real) < (13 / 8) ^ 23" by (simp add: power_divide)
  moreover have "exp (1 / 2 :: real) ^ 23 = exp (23 / 2)"
    by (simp flip: exp_of_nat_mult)
  ultimately have "(65537 :: real) < exp (23 / 2)" by simp
  then have "ln 65537 < ln (exp (23 / 2 :: real))" by (subst ln_less_cancel_iff) simp_all
  then show ?thesis by simp
qed

lemma inverse_ln16_bounds: "0 < 1 / ln (16 :: real)" "1 / ln (16 :: real) < 1 / 2"
proof -
  have e: "exp 1 \<le> (3 :: real)" by (rule exp_le)
  have "exp (2 :: real) = exp 1 * exp 1" by (simp flip: exp_add)
  also have "\<dots> \<le> 3 * 3" using e by (intro mult_mono) auto
  finally have "ln (exp 2) < ln (16 :: real)" by (subst ln_less_cancel_iff) simp_all
  then show "1 / ln (16 :: real) < 1 / 2" "0 < 1 / ln (16 :: real)" by (simp_all add: divide_simps)
qed

text \<open>In exact arithmetic every result of the algorithm is at most 11; 0 gives 0.\<close>

theorem alg_word_range: "unat (alg_word id w) \<le> 11 \<and> alg_word id 0 = 0"
proof -
  define u where "u = unat (w * w)"
  have u: "u < 2 ^ 32" unfolding u_def by (rule u32_bound)
  let ?x = "ln (sqrt (real u) + 1) + 1 / ln 16"
  have aw: "alg_word id w = of_int \<lfloor>?x\<rfloor>" by (simp only: alg_word_def u_def id_apply)
  have "real u < real (2 ^ 32)" using u by (simp only: of_nat_less_iff)
  then have "real u \<le> 65536\<^sup>2" by simp
  from real_sqrt_le_mono [OF this] have "sqrt (real u) \<le> 65536" by simp
  then have "ln (sqrt (real u) + 1) \<le> ln 65537"
    by (subst ln_le_cancel_iff) (simp_all add: add_nonneg_pos del: of_nat_unat)
  then have hi: "?x < 12" using ln_65537_bound inverse_ln16_bounds by linarith
  have lo: "0 \<le> ?x" using inverse_ln16_bounds by (intro add_nonneg_nonneg ln_ge_zero) auto
  have "0 \<le> \<lfloor>?x\<rfloor>" "\<lfloor>?x\<rfloor> \<le> 11" using hi lo by linarith+
  then obtain n where n: "\<lfloor>?x\<rfloor> = int n" "n \<le> 11" by (metis nat_int of_nat_0_le_iff zle_int nonneg_int_cases of_nat_le_iff of_nat_numeral)
  then have "alg_word id w = of_nat n" unfolding aw by simp
  moreover have "unat (of_nat n :: u32) = n" using n by (simp add: unat_of_nat_small)
  moreover have "\<lfloor>1 / ln (16 :: real)\<rfloor> = 0" using inverse_ln16_bounds by linarith
  ultimately show ?thesis using n by (simp add: alg_word_def)
qed

section \<open>Checking the finished file\<close>

text \<open>One round of the loop, in terms of the two contents and the common position.\<close>

definition block_len :: nat where
  "block_len = unat verify_buffSize"

lemma block_len: "0 < block_len" "4 dvd block_len" "4 * (block_len div 4) = block_len"
  by (simp_all add: block_len_def verify_buffSize_def)

definition verify_state ::
  "(u32 \<Rightarrow> u32) \<Rightarrow> ('f \<Rightarrow> byte list) \<Rightarrow> ('f \<Rightarrow> nat) \<Rightarrow> nat \<Rightarrow> 'f \<Rightarrow> 'f \<Rightarrow> byte list \<Rightarrow> byte list \<Rightarrow> byte list \<Rightarrow> bool"
where
  "verify_state f cont pos p newData oldData newBuff oldBuff tempBuff \<longleftrightarrow>
     pos newData = p \<and> pos oldData = p \<and> length oldBuff = block_len \<and> length tempBuff = block_len
     \<and> length newBuff = block_len \<and> newBuff = map_words f oldBuff"


lemma AlgorithmInOut_block:
  assumes "length ob = block_len" and "length tb = block_len"
  shows "Algorithm_AlgorithmInOut f (Some ob) verify_buffSize (Some tb)
      (Algorithm_GetOutSize verify_buffSize) = Inr (verify_buffSize, Some (map_words f ob))"
proof -
  have "length (map_words f ob) = block_len" using assms block_len by (simp add: length_map_words)
  then show ?thesis
    using AlgorithmInOut_eq [of verify_buffSize ob tb "Algorithm_GetOutSize verify_buffSize" f] assms block_len
    by (simp add: put_at_def Algorithm_GetOutSize_def block_len_def [symmetric])
qed

lemma map_words_load:
  assumes "length ob = block_len" and "4 dvd length bs" and "length bs \<le> block_len"
  shows "map_words f (load bs ob) = load (map_words f bs) (map_words f ob)"
proof -
  have "map_words f ob = map_words f (take (length bs) ob) @ map_words f (drop (length bs) ob)"
    using assms by (subst map_words_append [symmetric]) (simp_all add: min_absorb2)
  moreover have "length (map_words f (take (length bs) ob)) = length bs"
    using assms by (simp add: length_map_words min_absorb2)
  ultimately show ?thesis
    using assms by (simp add: load_def put_at_def map_words_append)
qed

lemma drop_slice_at: "drop p xs = slice_at p n xs @ drop (p + n) xs"
  by (simp add: slice_at_def add.commute) (metis add.commute append_take_drop_id drop_drop)

lemma verify_buff_nonzero: "verify_buffSize \<noteq> 0"
  by (simp add: verify_buffSize_def)

lemma verify_loop_block:
  assumes law: "file_laws ops cont pos" and st: "verify_state f cont pos p nd od nb ob tb"
    and dv: "4 dvd length (cont od)" "4 dvd p" and lt: "p < length (cont od)"
    and len: "length (cont od) \<le> length (cont nd)"
    and full: "length (cont od) = length (cont nd) \<or> p + block_len \<le> length (cont od)"
  defines "bs \<equiv> slice_at p block_len (cont od)" and "ns \<equiv> slice_at p block_len (cont nd)"
  shows "if ns = map_words f bs
    then \<exists>nd' od'. verify_loop f ops (Suc fuel) sz nd od nb ob tb
        = verify_loop f ops fuel verify_buffSize nd' od' (load ns nb) (load bs ob) (map_words f (load bs ob))
      \<and> verify_state f cont pos (p + length bs) nd' od' (load ns nb) (load bs ob) (map_words f (load bs ob))
      \<and> cont nd' = cont nd \<and> cont od' = cont od
    else verify_loop f ops (Suc fuel) sz nd od nb ob tb = Inr False"
proof -
  have p: "pos nd = p" "pos od = p" and l: "length ob = block_len" "length tb = block_len" "length nb = block_len"
    and nb: "nb = map_words f ob"
    using st unfolding verify_state_def by blast+
  have "fst (f_Read ops od verify_buffSize) = bs" "fst (f_Read ops nd verify_buffSize) = ns"
    using law p by (simp_all add: file_laws_def bs_def ns_def block_len_def)
  then obtain od' nd' where od': "f_Read ops od verify_buffSize = (bs, od')"
    and nd': "f_Read ops nd verify_buffSize = (ns, nd')"
    by (metis prod.collapse)
  have o: "pos od' = p + length bs" "cont od' = cont od"
    and n: "pos nd' = p + length ns" "cont nd' = cont nd"
    using file_laws_read [OF law od'] file_laws_read [OF law nd'] p by simp_all
  have lb: "length bs = min block_len (length (cont od) - p)" and ln: "length ns = min block_len (length (cont nd) - p)"
    by (simp_all add: bs_def ns_def slice_at_def min.commute)
  have eql: "length ns = length bs" using full len lb ln by auto
  have pos: "0 < length bs" "length bs \<le> block_len" using lb lt block_len by auto
  have d4: "4 dvd length bs" using dv lb block_len by (auto simp: min_def)
  have lo: "length (load bs ob) = block_len" "length (load ns nb) = block_len"
    using l pos eql by (simp_all add: load_def)
  have tb': "map_words f (load bs ob) = load (map_words f bs) nb"
    using map_words_load [OF l(1) d4 pos(2)] nb by simp
  have lm: "length (map_words f bs) = length ns" using d4 eql by simp
  have cmp: "take block_len (load ns nb) = take block_len (map_words f (load bs ob)) \<longleftrightarrow> ns = map_words f bs"
  proof -
    have "take block_len (load ns nb) = load ns nb" "take block_len (load (map_words f bs) nb) = load (map_words f bs) nb"
      using l lm eql pos by (simp_all add: load_def put_at_def)
    then show ?thesis unfolding tb' using lm by (auto simp: load_def put_at_def)
  qed
  have nonempty: "bs \<noteq> []" "ns \<noteq> []" using pos eql by auto
  have step: "verify_loop f ops (Suc fuel) sz nd od nb ob tb
      = (if ns = map_words f bs
         then verify_loop f ops fuel verify_buffSize nd' od' (load ns nb) (load bs ob) (map_words f (load bs ob))
         else Inr False)"
    using nonempty cmp by (simp add: od' nd' AlgorithmInOut_block [OF lo(1) l(2)] verify_buff_nonzero Let_def block_len_def [symmetric])
  have "verify_state f cont pos (p + length bs) nd' od' (load ns nb) (load bs ob) (map_words f (load bs ob))"
    if "ns = map_words f bs"
    using that o n eql lo block_len tb' unfolding verify_state_def
    by (metis length_map_words)
  then show ?thesis using step o n by auto
qed

lemma verify_loop_eof:
  assumes law: "file_laws ops cont pos" and "pos od = length (cont od)" and "pos nd = length (cont nd)"
  shows "verify_loop f ops (Suc fuel) sz nd od nb ob tb = Inr True"
proof -
  obtain od' where od': "f_Read ops od verify_buffSize = ([], od')"
    using file_laws_read(1) [OF law] assms(2) by (metis drop_all order_refl slice_at_def surj_pair take_Nil)
  obtain nd' where nd': "f_Read ops nd (if sz \<noteq> 0 then sz else 1) = ([], nd')"
    using file_laws_read(1) [OF law] assms(3) by (metis drop_all order_refl slice_at_def surj_pair take_Nil)
  show ?thesis using nd' by (simp add: od' Let_def split: if_splits)
qed

lemma verify_loop_iff:
  assumes law: "file_laws ops cont pos"
  shows "verify_state f cont pos p nd od nb ob tb \<Longrightarrow> 4 dvd length (cont od) \<Longrightarrow> 4 dvd p \<Longrightarrow>
    length (cont nd) = length (cont od) \<Longrightarrow> p \<le> length (cont od) \<Longrightarrow> length (cont od) - p < fuel \<Longrightarrow>
    verify_loop f ops fuel sz nd od nb ob tb = Inr (drop p (cont nd) = map_words f (drop p (cont od)))"
proof (induction fuel arbitrary: p nd od nb ob tb sz)
  case (Suc fuel)
  show ?case
  proof (cases "p < length (cont od)")
    case False
    then show ?thesis
      using Suc.prems verify_loop_eof [OF law, of od nd f fuel sz nb ob tb]
      by (simp add: verify_state_def)
  next
    case True
    define bs where "bs = slice_at p block_len (cont od)"
    define ns where "ns = slice_at p block_len (cont nd)"
    have lb: "length bs = min block_len (length (cont od) - p)" and ln: "length ns = length bs"
      using Suc.prems(4) by (simp_all add: bs_def ns_def slice_at_def min.commute)
    have d4: "4 dvd length bs" "4 dvd p + length bs" using Suc.prems(2,3) lb block_len by (auto simp: min_def)
    have split: "drop p (cont od) = bs @ drop (p + length bs) (cont od)"
      "drop p (cont nd) = ns @ drop (p + length bs) (cont nd)"
      using drop_slice_at [of p "cont od" block_len] drop_slice_at [of p "cont nd" block_len] lb Suc.prems(4)
      by (auto simp: bs_def [symmetric] ns_def [symmetric] min_def split: if_splits)
    have iff: "drop p (cont nd) = map_words f (drop p (cont od)) \<longleftrightarrow>
        ns = map_words f bs \<and> drop (p + length bs) (cont nd) = map_words f (drop (p + length bs) (cont od))"
      unfolding split map_words_append [OF d4(1)] using ln d4(1) by (subst append_eq_append_conv) auto
    note step = verify_loop_block [OF law Suc.prems(1,2,3) True, folded bs_def ns_def, of fuel sz]
    show ?thesis
    proof (cases "ns = map_words f bs")
      case False
      then show ?thesis using step iff Suc.prems(4) by simp
    next
      case eq: True
      obtain nd' od' where s: "verify_loop f ops (Suc fuel) sz nd od nb ob tb
          = verify_loop f ops fuel verify_buffSize nd' od' (load ns nb) (load bs ob) (map_words f (load bs ob))"
        "verify_state f cont pos (p + length bs) nd' od' (load ns nb) (load bs ob) (map_words f (load bs ob))"
        "cont nd' = cont nd" "cont od' = cont od"
        using step eq Suc.prems(4) by auto
      have "p + length bs \<le> length (cont od)" "length (cont od) - (p + length bs) < fuel"
        using lb True Suc.prems(6) block_len by auto
      then show ?thesis
        using Suc.IH [OF s(2)] s Suc.prems d4 iff eq by simp
    qed
  qed
qed simp

lemma map_words_zeros:
  assumes "f 0 = 0"
  shows "map_words f (replicate block_len 0) = replicate block_len 0"
proof -
  have "replicate (4 * n) 0 = map_words f (replicate (4 * n) (0 :: byte))" for n
  proof (induction n)
    case (Suc n)
    have r: "replicate (4 * Suc n) x = [x, x, x, x] @ replicate (4 * n) x" for x :: byte
    proof -
      have "4 * Suc n = Suc (Suc (Suc (Suc (4 * n))))" by simp
      then show ?thesis by (simp only: replicate_Suc append_Cons append_Nil)
    qed
    have "word_bytes 0 = [0, 0, 0, 0]" "bytes_word [0, 0, 0, 0] = 0"
      by code_simp+
    then show ?case using Suc assms unfolding r by simp
  qed simp
  from this [of "block_len div 4"] show ?thesis using block_len by simp
qed

lemma VerifyNewData_eq:
  assumes law: "file_laws ops cont pos" and "pos nd = 0" and "pos od = 0" and "f 0 = 0"
    and "4 dvd length (cont od)" and "length (cont nd) = length (cont od)" and "length (cont od) < fuel"
  shows "Server_VerifyNewData f ops fuel True True nd od = Inr (cont nd = map_words f (cont od))"
proof -
  have "verify_state f cont pos 0 nd od (replicate block_len 0) (replicate block_len 0) (replicate block_len 0)"
    using assms block_len map_words_zeros [of f, OF assms(4)] by (simp add: verify_state_def)
  from verify_loop_iff [OF law this, of fuel 0] show ?thesis
    using assms by (simp add: Server_VerifyNewData_def Algorithm_GetOutSize_def Let_def block_len_def)
qed

text \<open>C15: the check of the finished file is right for files of equal length, a whole number of
  32-bit integers long: it returns, and answers whether the new file is the result of the
  algorithm on the old one, for any algorithm that maps 0 to 0.\<close>

theorem VerifyNewData_iff:
  assumes "file_laws ops cont pos" and "pos nd = 0" and "pos od = 0" and "f 0 = 0"
    and "4 dvd length (cont od)" and "length (cont nd) = length (cont od)" and "length (cont od) < fuel"
  shows "Server_VerifyNewData f ops fuel True True nd od = Inr (cont nd = map_words f (cont od))"
  by (rule VerifyNewData_eq [of ops cont pos nd od f fuel]) (fact assms)+

theorem VerifyNewData_iff_witness:
  "Server_VerifyNewData (\<lambda>w. w + w) (mem_file_ops []) 9 True True
     ([2, 0, 0, 0, 0, 2, 0, 0], 0) ([1, 0, 0, 0, 0, 1, 0, 0], 0) = Inr True"
proof -
  have m: "map_words (\<lambda>w. w + w) [1, 0, 0, 0, 0, 1, 0, 0] = [2, 0, 0, 0, 0, 2, 0, 0]" by code_simp
  have d: "4 dvd length [1, 0, 0, 0, 0, 1, 0, 0 :: byte]" by code_simp
  show ?thesis
    using VerifyNewData_iff [OF mem_file_laws, of "([2, 0, 0, 0, 0, 2, 0, 0], 0)"
        "([1, 0, 0, 0, 0, 1, 0, 0], 0)" "\<lambda>w. w + w" 9 "[]"] m d
    by simp
qed

text \<open>When the old file is at its end, the buffers still hold its last block.\<close>

definition last_block :: "byte list \<Rightarrow> byte list" where
  "last_block xs = drop (length xs - block_len) xs"

lemma verify_loop_again:
  assumes law: "file_laws ops cont pos" and st: "verify_state f cont pos (length (cont od)) nd od nb ob tb"
    and tb: "tb = map_words f ob" and W: "cont nd = pre @ map_words f ob" "length pre = length (cont od)"
  shows "verify_loop f ops (Suc (Suc fuel)) verify_buffSize nd od nb ob tb = Inr True"
proof -
  have p: "pos nd = length (cont od)" "pos od = length (cont od)"
    and l: "length ob = block_len" "length tb = block_len" "length nb = block_len"
    using st unfolding verify_state_def by blast+
  have lm: "length (map_words f ob) = block_len" using l(2) tb by simp
  have "fst (f_Read ops od verify_buffSize) = []"
    using law p by (simp add: file_laws_def slice_at_def)
  then obtain od' where od': "f_Read ops od verify_buffSize = ([], od')" by (metis prod.collapse)
  have "fst (f_Read ops nd verify_buffSize) = map_words f ob"
    using law p W lm by (simp add: file_laws_def slice_at_def block_len_def)
  then obtain nd' where nd': "f_Read ops nd verify_buffSize = (map_words f ob, nd')"
    by (metis prod.collapse)
  have o: "pos od' = length (cont od')" using file_laws_read [OF law od'] p by simp
  have n: "pos nd' = length (cont nd')"
    using file_laws_read [OF law nd'] p W lm by simp
  have ne: "map_words f ob \<noteq> []" using lm block_len(1) by auto
  have nb1: "load (map_words f ob) nb = map_words f ob" "load [] ob = ob"
    using l lm by (simp_all add: load_def put_at_def)
  have "verify_loop f ops (Suc (Suc fuel)) verify_buffSize nd od nb ob tb
      = verify_loop f ops (Suc fuel) verify_buffSize nd' od' (map_words f ob) ob tb"
    using ne tb by (subst verify_loop.simps) (simp add: od' nd' nb1 verify_buff_nonzero Let_def)
  also have "\<dots> = Inr True" by (rule verify_loop_eof [OF law o n])
  finally show ?thesis .
qed

lemma map_words_block:
  assumes dv: "4 dvd p" "4 dvd length ys" and full: "p + n \<le> length ys" and n: "4 dvd n"
  shows "slice_at p n (map_words f ys @ zs) = map_words f (slice_at p n ys)"
proof -
  let ?bs = "slice_at p n ys"
  have lb: "length ?bs = n" using full by simp
  have "ys = take p ys @ ?bs @ drop (p + n) ys"
    using drop_slice_at [of p ys n] by (metis append_take_drop_id)
  then have "map_words f ys = map_words f (take p ys) @ map_words f ?bs @ map_words f (drop (p + n) ys)"
    using dv lb n full by (metis map_words_append length_take min.absorb2 add_leD1)
  then show ?thesis using dv lb n full by (simp add: slice_at_def min.absorb2)
qed

lemma verify_loop_repeat:
  assumes law: "file_laws ops cont pos"
  shows "verify_state f cont pos p nd od nb ob tb \<Longrightarrow> block_len dvd length (cont od) \<Longrightarrow>
    block_len dvd p \<Longrightarrow> p \<le> length (cont od) \<Longrightarrow> cont od \<noteq> [] \<Longrightarrow>
    cont nd = map_words f (cont od) @ map_words f (last_block (cont od)) \<Longrightarrow>
    (0 < p \<longrightarrow> ob = slice_at (p - block_len) block_len (cont od) \<and> tb = map_words f ob \<and> sz = verify_buffSize) \<Longrightarrow>
    length (cont od) - p + 1 < fuel \<Longrightarrow>
    verify_loop f ops fuel sz nd od nb ob tb = Inr True"
proof (induction fuel arbitrary: p nd od nb ob tb sz)
  case (Suc fuel)
  let ?O = "cont od"
  have dvO: "4 dvd length ?O" "4 dvd p" using Suc.prems(2,3) block_len(2) dvd_trans by blast+
  have lW: "length (map_words f ?O) = length ?O" using dvO by simp
  show ?case
  proof (cases "p = length ?O")
    case True
    have "0 < p" using True Suc.prems(5) by simp
    then have "ob = last_block ?O" and t: "tb = map_words f ob" "sz = verify_buffSize"
      using Suc.prems(7) True Suc.prems(2) dvd_imp_le [of block_len p]
      by (auto simp: last_block_def slice_at_def)
    moreover obtain fuel' where "fuel = Suc fuel'" using Suc.prems(8) by (cases fuel) auto
    ultimately show ?thesis
      using verify_loop_again [OF law _ t(1) _ lW, of nd nb fuel'] Suc.prems(1,6) True by simp
  next
    case False
    then have lt: "p < length ?O" using Suc.prems(4) by simp
    have full: "p + block_len \<le> length ?O"
    proof -
      have "block_len dvd length ?O - p" using Suc.prems(2,3) by simp
      then have "block_len \<le> length ?O - p" using lt by (intro dvd_imp_le) auto
      then show ?thesis using lt by simp
    qed
    have le: "length ?O \<le> length (cont nd)" using Suc.prems(6) lW by simp
    define bs where "bs = slice_at p block_len ?O"
    have lb: "length bs = block_len" using full by (simp add: bs_def)
    have "slice_at p block_len (cont nd) = map_words f bs"
      unfolding bs_def Suc.prems(6) by (rule map_words_block [OF dvO(2,1) full block_len(2)])
    then obtain nd' od' where s: "verify_loop f ops (Suc fuel) sz nd od nb ob tb
        = verify_loop f ops fuel verify_buffSize nd' od' (load (map_words f bs) nb) (load bs ob)
            (map_words f (load bs ob))"
      "verify_state f cont pos (p + length bs) nd' od' (load (map_words f bs) nb) (load bs ob)
         (map_words f (load bs ob))"
      "cont nd' = cont nd" "cont od' = cont od"
      using verify_loop_block [OF law Suc.prems(1) dvO lt le disjI2 [OF full], of fuel sz]
      by (auto simp: bs_def)
    have ob: "load bs ob = bs"
      using Suc.prems(1) lb by (simp add: load_def put_at_def verify_state_def)
    have "verify_loop f ops fuel verify_buffSize nd' od' (load (map_words f bs) nb) (load bs ob)
            (map_words f (load bs ob)) = Inr True"
      using Suc.prems full s(3,4) lb block_len(1)
      by (intro Suc.IH [OF s(2)]) (simp_all add: ob, simp_all add: bs_def)
    then show ?thesis using s(1) by simp
  qed
qed simp

text \<open>The check accepts a file that is too long: if the old file is a positive whole number
  of 4096-byte blocks, the right result with the result of the last block repeated after it
  passes.\<close>

lemma VerifyNewData_accepts_repeated_block:
  assumes law: "file_laws ops cont pos" and "pos nd = 0" and "pos od = 0" and "f 0 = 0"
    and "block_len dvd length (cont od)" and "cont od \<noteq> []"
    and "cont nd = map_words f (cont od) @ map_words f (last_block (cont od))"
    and "length (cont od) + 1 < fuel"
  shows "Server_VerifyNewData f ops fuel True True nd od = Inr True
    \<and> cont nd \<noteq> map_words f (cont od)"
proof -
  have "verify_state f cont pos 0 nd od (replicate block_len 0) (replicate block_len 0) (replicate block_len 0)"
    using assms map_words_zeros [of f, OF assms(4)] block_len by (simp add: verify_state_def)
  from verify_loop_repeat [OF law this, of 0 fuel]
  have "Server_VerifyNewData f ops fuel True True nd od = Inr True"
    using assms by (simp add: Server_VerifyNewData_def Algorithm_GetOutSize_def Let_def block_len_def)
  moreover have "map_words f (last_block (cont od)) \<noteq> []"
  proof -
    have "block_len \<le> length (cont od)" using assms(5,6) by (intro dvd_imp_le) auto
    then have "length (last_block (cont od)) = block_len" by (simp add: last_block_def)
    then have "length (map_words f (last_block (cont od))) = block_len"
      using block_len by (simp add: length_map_words)
    then show ?thesis using block_len(1) by auto
  qed
  ultimately show ?thesis using assms(7) by simp
qed

lemma VerifyNewData_accepts_repeated_block_witness:
  "Server_VerifyNewData (\<lambda>w. w) (mem_file_ops []) 9000 True True
     (map_words (\<lambda>w. w) (replicate block_len 1) @ map_words (\<lambda>w. w) (replicate block_len 1), 0)
     (replicate block_len 1, 0) = Inr True"
proof -
  have l: "last_block (replicate block_len 1) = replicate block_len 1" by (simp add: last_block_def)
  have n: "replicate block_len (1 :: byte) \<noteq> []" using block_len(1) by simp
  have f: "block_len + 1 < 9000" by (simp add: block_len_def verify_buffSize_def)
  show ?thesis
    using VerifyNewData_accepts_repeated_block [OF mem_file_laws, of "(map_words (\<lambda>w. w) (replicate block_len 1)
        @ map_words (\<lambda>w. w) (replicate block_len 1), 0)" "(replicate block_len 1, 0)" "\<lambda>w. w" 9000 "[]"]
      l n f by simp
qed

end
