(* ===== verification/Codec.thy ===== *)
theory Codec
  imports Base
begin

text \<open>
  Message streams: \<open>MsgStream\<close>, the writer and the reader (\<open>Common/CNLIB/MsgStream.h\<close>), their
  helpers for strings, pairs and containers (\<open>StreamExt.h\<close>) and for \<open>FileData\<close>
  (\<open>Common/StreamExt2.h\<close>).

  A stream is its buffer, the position of the pointer \<open>data\<close> in it, and the capacity; integers
  are stored little-endian, \<open>size_t\<close> has 8 bytes.  A write or read past the buffer is
  \<open>OutOfBounds\<close>; where only the pointer moves past it, the \<open>assert\<close> after it fails.

  The interface \<open>codec\<close> is what every helper promises: \<open>Write\<close> stores the encoding of a value,
  \<open>SizeType\<close> is its length, and \<open>Read\<close> gives the value back wherever that encoding stands.
  \<open>container\<close> builds the codecs of the containers on the codec of their elements.
\<close>

section \<open>MsgStream\<close>

record stream =
  st_mem :: "byte list"
  st_pos :: nat
  st_capacity :: nat

definition MSG_OFFSET :: nat where
  "MSG_OFFSET = 4"

definition MsgStream_init :: "byte list \<Rightarrow> nat \<Rightarrow> stream" where
  "MsgStream_init buffer capacity =
     \<lparr>st_mem = take (capacity + MSG_OFFSET) buffer, st_pos = MSG_OFFSET, st_capacity = capacity\<rparr>"

text \<open>The move constructor takes the three pointers over; \<open>capacity\<close> stays indeterminate,
  whatever \<open>junk\<close> is there.  The moved-from stream is zeroed.\<close>

definition MsgStream_move :: "nat \<Rightarrow> stream \<Rightarrow> stream \<times> stream" where
  "MsgStream_move junk s =
     (\<lparr>st_mem = st_mem s, st_pos = st_pos s, st_capacity = junk\<rparr>,
      \<lparr>st_mem = [], st_pos = 0, st_capacity = 0\<rparr>)"

definition u16_at :: "nat \<Rightarrow> byte list \<Rightarrow> u16 res" where
  "u16_at p bs = (if p + 2 \<le> length bs then Inr (of_nat (of_le (slice_at p 2 bs))) else Inl OutOfBounds)"

definition MsgStream_GetType :: "stream \<Rightarrow> u16 res" where
  "MsgStream_GetType s = u16_at 0 (st_mem s)"

definition MsgStream_GetMsg :: "stream \<Rightarrow> u16 res" where
  "MsgStream_GetMsg s = u16_at 2 (st_mem s)"

definition MsgStream_GetSize :: "stream \<Rightarrow> nat" where
  "MsgStream_GetSize s = length (st_mem s)"

definition MsgStream_GetDataSize :: "stream \<Rightarrow> nat" where
  "MsgStream_GetDataSize s = length (st_mem s) - MSG_OFFSET"

definition MsgStream_index :: "nat \<Rightarrow> stream \<Rightarrow> byte res" where
  "MsgStream_index i s =
     (if \<not> i \<le> st_capacity s - MSG_OFFSET then Inl AssertFail
      else if i + MSG_OFFSET < length (st_mem s) then Inr (st_mem s ! (i + MSG_OFFSET))
      else Inl OutOfBounds)"

definition MsgStream_End :: "stream \<Rightarrow> bool" where
  "MsgStream_End s \<longleftrightarrow> st_pos s = length (st_mem s)"

section \<open>Writer and reader\<close>

definition stream_put :: "byte list \<Rightarrow> stream \<Rightarrow> stream res" where
  "stream_put bs s =
     (if st_pos s + length bs \<le> length (st_mem s)
      then Inr (s\<lparr>st_mem := put_at (st_pos s) bs (st_mem s), st_pos := st_pos s + length bs\<rparr>)
      else Inl OutOfBounds)"

definition stream_get :: "nat \<Rightarrow> stream \<Rightarrow> (byte list \<times> stream) res" where
  "stream_get n s =
     (if st_pos s + n \<le> length (st_mem s)
      then Inr (slice_at (st_pos s) n (st_mem s), s\<lparr>st_pos := st_pos s + n\<rparr>)
      else Inl OutOfBounds)"

definition MsgStreamWriter_init :: "byte list \<Rightarrow> nat \<Rightarrow> u16 \<Rightarrow> u16 \<Rightarrow> stream" where
  "MsgStreamWriter_init buffer capacity type msg =
     (let s = MsgStream_init buffer capacity
      in s\<lparr>st_mem := put_at 0 (le_bytes 2 (unat type) @ le_bytes 2 (unat msg)) (st_mem s)\<rparr>)"

definition MsgStreamWriter_GetSize :: "stream \<Rightarrow> nat" where
  "MsgStreamWriter_GetSize s = st_pos s"

definition MsgStreamWriter_GetDataSize :: "stream \<Rightarrow> nat" where
  "MsgStreamWriter_GetDataSize s = st_pos s - MSG_OFFSET"

definition MsgStreamReader_init :: "byte list \<Rightarrow> nat \<Rightarrow> stream" where
  "MsgStreamReader_init buffer capacity = MsgStream_init buffer capacity"

definition MsgStreamReader_GetData :: "stream \<Rightarrow> byte list" where
  "MsgStreamReader_GetData s = drop MSG_OFFSET (st_mem s)"

text \<open>Arithmetic values: \<open>Write(const T& t)\<close>, \<open>Read()\<close> and \<open>SizeType\<close>.\<close>

definition sizeof_word :: "'a::len word \<Rightarrow> nat" where
  "sizeof_word w = LENGTH('a) div 8"

definition enc_word :: "'a::len word \<Rightarrow> byte list" where
  "enc_word w = le_bytes (sizeof_word w) (unat w)"

definition write_word :: "'a::len word \<Rightarrow> stream \<Rightarrow> stream res" where
  "write_word w s = stream_put (enc_word w) s"

definition read_word :: "stream \<Rightarrow> ('a::len word \<times> stream) res" where
  "read_word s = rbind (stream_get (sizeof_word (0 :: 'a word)) s) (\<lambda>(bs, s1). Inr (of_nat (of_le bs), s1))"

text \<open>Arrays: the byte count \<open>count * sizeof(T)\<close> is computed in 32 bits.\<close>

definition array_bytes :: "u32 \<Rightarrow> nat \<Rightarrow> nat" where
  "array_bytes count n = unat (count * of_nat n)"

definition write_array :: "'a::len word list \<Rightarrow> u32 \<Rightarrow> stream \<Rightarrow> stream res" where
  "write_array t count s =
     stream_put (take (array_bytes count (sizeof_word (0 :: 'a word))) (concat (map enc_word t))) s"

definition write_end :: "byte list \<Rightarrow> stream \<Rightarrow> stream res" where
  "write_end t s = stream_put (take (length (st_mem s) - st_pos s) t) s"

text \<open>\<open>Read(count)\<close> gives the pointer to the array, here its position, and moves on.\<close>

definition read_array :: "nat \<Rightarrow> u32 \<Rightarrow> stream \<Rightarrow> (nat \<times> stream) res" where
  "read_array sizeof_T count s =
     (let nBytes = array_bytes count sizeof_T
      in if st_pos s + nBytes \<le> length (st_mem s)
         then Inr (st_pos s, s\<lparr>st_pos := st_pos s + nBytes\<rparr>) else Inl AssertFail)"

definition read_end :: "stream \<Rightarrow> nat \<times> stream" where
  "read_end s = (st_pos s, s\<lparr>st_pos := length (st_mem s)\<rparr>)"

definition size_types :: "nat list \<Rightarrow> nat" where
  "size_types sizes = fold (\<lambda>a size. size + a) sizes 0"

section \<open>Strings\<close>

definition size_t :: "nat \<Rightarrow> u64" where
  "size_t n = of_nat n"

definition write_string :: "'a::len word list \<Rightarrow> stream \<Rightarrow> stream res" where
  "write_string t s =
     rbind (write_word (size_t (length t)) s) (write_array t (ucast (size_t (length t))))"

definition SizeType_string :: "'a::len word list \<Rightarrow> nat" where
  "SizeType_string t = 8 + length t * sizeof_word (0 :: 'a word)"

definition words_at :: "nat \<Rightarrow> nat \<Rightarrow> byte list \<Rightarrow> 'a::len word list" where
  "words_at p n bs =
     map (\<lambda>i. of_nat (of_le (slice_at (p + i * sizeof_word (0 :: 'a word)) (sizeof_word (0 :: 'a word)) bs))) [0..<n]"

text \<open>The pointer moves by the 32-bit count, the string is made of \<open>size\<close> elements.\<close>

definition read_string :: "stream \<Rightarrow> ('a::len word list \<times> stream) res" where
  "read_string s =
     rbind (read_word s) (\<lambda>(size :: u64, s1).
     rbind (read_array (sizeof_word (0 :: 'a word)) (ucast size) s1) (\<lambda>(p, s2).
       if p + unat size * sizeof_word (0 :: 'a word) \<le> length (st_mem s2)
       then Inr (words_at p (unat size) (st_mem s2), s2) else Inl OutOfBounds))"

section \<open>Pairs and containers\<close>

text \<open>The helpers are templates: they take the helpers of the component types as arguments.\<close>

definition write_pair ::
  "('a \<Rightarrow> stream \<Rightarrow> stream res) \<Rightarrow> ('b \<Rightarrow> stream \<Rightarrow> stream res) \<Rightarrow> 'a \<times> 'b \<Rightarrow> stream \<Rightarrow> stream res" where
  "write_pair wa wb t s = rbind (wb (snd t) s) (wa (fst t))"

definition SizeType_pair :: "('a \<Rightarrow> nat) \<Rightarrow> ('b \<Rightarrow> nat) \<Rightarrow> 'a \<times> 'b \<Rightarrow> nat" where
  "SizeType_pair za zb t = za (fst t) + zb (snd t)"

text \<open>\<open>make_pair(Read<T1>(), Read<T2>())\<close>: the order of evaluation of the arguments is up to the
  compiler; \<open>rtl\<close> tells whether it is right to left.\<close>

definition read_pair ::
  "bool \<Rightarrow> (stream \<Rightarrow> ('a \<times> stream) res) \<Rightarrow> (stream \<Rightarrow> ('b \<times> stream) res) \<Rightarrow> stream \<Rightarrow> (('a \<times> 'b) \<times> stream) res" where
  "read_pair rtl ra rb s =
     (if rtl then rbind (rb s) (\<lambda>(b, s1). rbind (ra s1) (\<lambda>(a, s2). Inr ((a, b), s2)))
      else rbind (ra s) (\<lambda>(a, s1). rbind (rb s1) (\<lambda>(b, s2). Inr ((a, b), s2))))"

fun write_elems :: "('a \<Rightarrow> stream \<Rightarrow> stream res) \<Rightarrow> 'a list \<Rightarrow> stream \<Rightarrow> stream res" where
  "write_elems w [] s = Inr s"
| "write_elems w (a # as) s = rbind (w a s) (write_elems w as)"

fun read_elems :: "(stream \<Rightarrow> ('a \<times> stream) res) \<Rightarrow> ('a \<Rightarrow> 'c \<Rightarrow> 'c) \<Rightarrow> nat \<Rightarrow> 'c \<Rightarrow> stream \<Rightarrow> ('c \<times> stream) res" where
  "read_elems r add 0 temp s = Inr (temp, s)"
| "read_elems r add (Suc n) temp s = rbind (r s) (\<lambda>(a, s1). read_elems r add n (add a temp) s1)"

definition size_elems :: "('a \<Rightarrow> nat) \<Rightarrow> 'a list \<Rightarrow> nat" where
  "size_elems z t = fold (\<lambda>a size. size + z a) t 8"

definition write_vector :: "('a \<Rightarrow> stream \<Rightarrow> stream res) \<Rightarrow> 'a list \<Rightarrow> stream \<Rightarrow> stream res" where
  "write_vector w t s = rbind (write_word (size_t (length t)) s) (write_elems w t)"

definition SizeType_vector :: "('a \<Rightarrow> nat) \<Rightarrow> 'a list \<Rightarrow> nat" where
  "SizeType_vector z t = size_elems z t"

definition read_vector :: "(stream \<Rightarrow> ('a \<times> stream) res) \<Rightarrow> stream \<Rightarrow> ('a list \<times> stream) res" where
  "read_vector r s =
     rbind (read_word s) (\<lambda>(size :: u64, s1). read_elems r (\<lambda>a temp. temp @ [a]) (unat size) [] s1)"

definition write_list :: "('a \<Rightarrow> stream \<Rightarrow> stream res) \<Rightarrow> 'a list \<Rightarrow> stream \<Rightarrow> stream res" where
  "write_list w t s = rbind (write_word (size_t (length t)) s) (write_elems w t)"

definition SizeType_list :: "('a \<Rightarrow> nat) \<Rightarrow> 'a list \<Rightarrow> nat" where
  "SizeType_list z t = size_elems z t"

definition read_list :: "(stream \<Rightarrow> ('a \<times> stream) res) \<Rightarrow> stream \<Rightarrow> ('a list \<times> stream) res" where
  "read_list r s =
     rbind (read_word s) (\<lambda>(size :: u64, s1). read_elems r (\<lambda>a temp. temp @ [a]) (unat size) [] s1)"

definition write_forward_list :: "('a \<Rightarrow> stream \<Rightarrow> stream res) \<Rightarrow> 'a list \<Rightarrow> stream \<Rightarrow> stream res" where
  "write_forward_list w t s = rbind (write_word (size_t (length t)) s) (write_elems w t)"

definition SizeType_forward_list :: "('a \<Rightarrow> nat) \<Rightarrow> 'a list \<Rightarrow> nat" where
  "SizeType_forward_list z t = size_elems z t"

definition read_forward_list :: "(stream \<Rightarrow> ('a \<times> stream) res) \<Rightarrow> stream \<Rightarrow> ('a list \<times> stream) res" where
  "read_forward_list r s =
     rbind (read_word s) (\<lambda>(size :: u64, s1). read_elems r (\<lambda>a temp. a # temp) (unat size) [] s1)"

text \<open>\<open>std::map\<close>: entries in the order of their keys; \<open>insert\<close> keeps an existing entry.\<close>

fun map_insert :: "'k::linorder \<times> 'v \<Rightarrow> ('k \<times> 'v) list \<Rightarrow> ('k \<times> 'v) list" where
  "map_insert e [] = [e]"
| "map_insert e (x # xs) =
     (if fst x < fst e then x # map_insert e xs else if fst e < fst x then e # x # xs else x # xs)"

definition write_map ::
  "('k \<times> 'v \<Rightarrow> stream \<Rightarrow> stream res) \<Rightarrow> ('k \<times> 'v) list \<Rightarrow> stream \<Rightarrow> stream res" where
  "write_map w t s = rbind (write_word (size_t (length t)) s) (write_elems w t)"

definition SizeType_map :: "('k \<times> 'v \<Rightarrow> nat) \<Rightarrow> ('k \<times> 'v) list \<Rightarrow> nat" where
  "SizeType_map z t = size_elems z t"

definition read_map ::
  "(stream \<Rightarrow> (('k::linorder \<times> 'v) \<times> stream) res) \<Rightarrow> stream \<Rightarrow> (('k \<times> 'v) list \<times> stream) res" where
  "read_map r s =
     rbind (read_word s) (\<lambda>(size :: u64, s1). read_elems r map_insert (unat size) [] s1)"

text \<open>\<open>std::unordered_map\<close>: entries in some order, one per key.\<close>

definition umap_insert :: "'k \<times> 'v \<Rightarrow> ('k \<times> 'v) list \<Rightarrow> ('k \<times> 'v) list" where
  "umap_insert e m = (if fst e \<in> set (map fst m) then m else m @ [e])"

definition write_unordered_map ::
  "('k \<times> 'v \<Rightarrow> stream \<Rightarrow> stream res) \<Rightarrow> ('k \<times> 'v) list \<Rightarrow> stream \<Rightarrow> stream res" where
  "write_unordered_map w t s = rbind (write_word (size_t (length t)) s) (write_elems w t)"

definition SizeType_unordered_map :: "('k \<times> 'v \<Rightarrow> nat) \<Rightarrow> ('k \<times> 'v) list \<Rightarrow> nat" where
  "SizeType_unordered_map z t = size_elems z t"

definition read_unordered_map ::
  "(stream \<Rightarrow> (('k \<times> 'v) \<times> stream) res) \<Rightarrow> stream \<Rightarrow> (('k \<times> 'v) list \<times> stream) res" where
  "read_unordered_map r s =
     rbind (read_word s) (\<lambda>(size :: u64, s1). read_elems r umap_insert (unat size) [] s1)"

section \<open>FileData\<close>

text \<open>\<open>SYSTEMTIME\<close> is eight 16-bit words, written as one block.\<close>

type_synonym systemtime = "128 word"
type_synonym wstring = "u16 list"

record file_data =
  fd_fileName :: wstring
  fd_dateModified :: systemtime
  fd_size :: u64

definition write_FileData :: "file_data \<Rightarrow> stream \<Rightarrow> stream res" where
  "write_FileData t s =
     rbind (write_string (fd_fileName t) s) (\<lambda>s1.
     rbind (write_word (fd_dateModified t) s1) (write_word (fd_size t)))"

definition SizeType_FileData :: "file_data \<Rightarrow> nat" where
  "SizeType_FileData t = SizeType_string (fd_fileName t) + 16 + 8"

definition read_FileData :: "stream \<Rightarrow> (file_data \<times> stream) res" where
  "read_FileData s =
     rbind (read_string s) (\<lambda>(name, s1).
     rbind (read_word s1) (\<lambda>(date, s2).
     rbind (read_word s2) (\<lambda>(size, s3).
       Inr (\<lparr>fd_fileName = name, fd_dateModified = date, fd_size = size\<rparr>, s3))))"

section \<open>The interface: a codec\<close>

text \<open>The bytes \<open>bs\<close> stand in the stream at the position of its pointer.\<close>

definition stands :: "byte list \<Rightarrow> stream \<Rightarrow> bool" where
  "stands bs s \<longleftrightarrow> st_pos s + length bs \<le> length (st_mem s) \<and> slice_at (st_pos s) (length bs) (st_mem s) = bs"

definition skip :: "nat \<Rightarrow> stream \<Rightarrow> stream" where
  "skip n s = s\<lparr>st_pos := st_pos s + n\<rparr>"

lemma skip_simps [simp]: "st_mem (skip n s) = st_mem s" "st_pos (skip n s) = st_pos s + n" "skip 0 s = s"
  by (simp_all add: skip_def)

lemma skip_skip [simp]: "skip m (skip n s) = skip (n + m) s"
  by (simp add: skip_def add.assoc)

lemma stands_append: "stands (xs @ ys) s \<longleftrightarrow> stands xs s \<and> stands ys (skip (length xs) s)"
proof -
  have "slice_at p (m + n) bs = xs @ ys \<longleftrightarrow> slice_at p m bs = xs \<and> slice_at (p + m) n bs = ys"
    if "m = length xs" "n = length ys" "p + m + n \<le> length bs" for p m n and bs :: "byte list"
    unfolding slice_at_append [symmetric] using that by (intro append_eq_append_conv) simp
  then show ?thesis by (auto simp: stands_def add.assoc)
qed

lemma stream_put_append: "stream_put (xs @ ys) s = rbind (stream_put xs s) (stream_put ys)"
  by (auto simp: stream_put_def put_at_def ac_simps min_def not_le)

lemma stream_put_nil [simp]: "stream_put [] s = (if st_pos s \<le> length (st_mem s) then Inr s else Inl OutOfBounds)"
  by (simp add: stream_put_def)

locale codec =
  fixes wr :: "'a \<Rightarrow> stream \<Rightarrow> stream res"
    and rd :: "stream \<Rightarrow> ('a \<times> stream) res"
    and sz :: "'a \<Rightarrow> nat"
    and enc :: "'a \<Rightarrow> byte list"
    and ok :: "'a \<Rightarrow> bool"
  assumes wr_spec: "ok a \<Longrightarrow> wr a s = stream_put (enc a) s"
    and rd_spec: "ok a \<Longrightarrow> stands (enc a) s \<Longrightarrow> rd s = Inr (a, skip (length (enc a)) s)"
    and sz_spec: "ok a \<Longrightarrow> sz a = length (enc a)"
begin

lemma wr_elems: "(\<And>a. a \<in> set as \<Longrightarrow> ok a) \<Longrightarrow> st_pos s \<le> length (st_mem s) \<Longrightarrow>
  write_elems wr as s = stream_put (concat (map enc as)) s"
proof (induction as arbitrary: s)
  case (Cons a as)
  have "rbind (stream_put (enc a) s) (write_elems wr as)
      = rbind (stream_put (enc a) s) (stream_put (concat (map enc as)))"
  proof (cases "stream_put (enc a) s")
    case (Inr s1)
    then have "st_pos s1 \<le> length (st_mem s1)"
      by (auto simp: stream_put_def split: if_splits)
    then show ?thesis using Inr Cons by simp
  qed simp
  then show ?case using Cons.prems by (simp add: wr_spec stream_put_append)
qed simp

lemma rd_elems: "(\<And>a. a \<in> set as \<Longrightarrow> ok a) \<Longrightarrow> stands (concat (map enc as)) s \<Longrightarrow>
  read_elems rd add (length as) temp s = Inr (fold add as temp, skip (length (concat (map enc as))) s)"
proof (induction as arbitrary: temp s)
  case (Cons a as)
  have st: "stands (enc a) s" "stands (concat (map enc as)) (skip (length (enc a)) s)"
    using Cons.prems(2) by (simp_all add: stands_append)
  show ?case using Cons.IH [OF _ st(2)] Cons.prems(1) rd_spec [OF _ st(1)] by simp
qed simp

lemma sz_elems:
  assumes "\<And>a. a \<in> set as \<Longrightarrow> ok a"
  shows "size_elems sz as = 8 + length (concat (map enc as))"
proof -
  have "(\<And>a. a \<in> set as \<Longrightarrow> ok a) \<Longrightarrow>
      fold (\<lambda>a size. size + sz a) as n = n + length (concat (map enc as))" for n
    by (induction as arbitrary: n) (simp_all add: sz_spec)
  then show ?thesis using assms by (simp add: size_elems_def)
qed

lemma round_trip:
  assumes "ok a" and "stream_put (enc a) s = Inr s'"
  shows "wr a s = Inr s'" and "rd (s'\<lparr>st_pos := st_pos s\<rparr>) = Inr (a, s')" and "st_pos s' = st_pos s + sz a"
proof -
  have le: "st_pos s + length (enc a) \<le> length (st_mem s)"
    and s': "s' = s\<lparr>st_mem := put_at (st_pos s) (enc a) (st_mem s), st_pos := st_pos s + length (enc a)\<rparr>"
    using assms(2) by (auto simp: stream_put_def split: if_splits)
  show "wr a s = Inr s'" using assms by (simp add: wr_spec)
  show "st_pos s' = st_pos s + sz a" using assms s' by (simp add: sz_spec)
  have "stands (enc a) (s'\<lparr>st_pos := st_pos s\<rparr>)"
    using le by (simp add: stands_def s' slice_at_put_at_same)
  from rd_spec [OF assms(1) this] show "rd (s'\<lparr>st_pos := st_pos s\<rparr>) = Inr (a, s')"
    by (simp add: s' skip_def)
qed

end

section \<open>Codecs of words and strings\<close>

lemma stream_put_bytes_pos: "stream_put bs s = Inr s1 \<Longrightarrow> st_pos s1 \<le> length (st_mem s1)"
  by (auto simp: stream_put_def split: if_splits)

lemma rbind_put_cong:
  assumes "\<And>s1. st_pos s1 \<le> length (st_mem s1) \<Longrightarrow> f s1 = g s1"
  shows "rbind (stream_put bs s) f = rbind (stream_put bs s) g"
  using assms stream_put_bytes_pos [of bs s] by (cases "stream_put bs s") auto

lemma stream_get_stands:
  "stands bs s \<Longrightarrow> n = length bs \<Longrightarrow> stream_get n s = Inr (bs, skip n s)"
  by (simp add: stream_get_def stands_def skip_def)

lemma sizeof_word_const: "sizeof_word (w :: 'a::len word) = sizeof_word (0 :: 'a word)"
  by (simp add: sizeof_word_def)

lemma length_enc_word [simp]: "length (enc_word (w :: 'a::len word)) = sizeof_word (0 :: 'a word)"
  by (simp add: enc_word_def sizeof_word_const [of w])

lemma of_le_enc_word:
  fixes w :: "'a::len word"
  assumes "8 dvd LENGTH('a)"
  shows "(of_nat (of_le (enc_word w)) :: 'a word) = w"
proof -
  have "(256 :: nat) ^ (LENGTH('a) div 8) = 2 ^ LENGTH('a)"
  proof -
    have "(256 :: nat) ^ (LENGTH('a) div 8) = (2 ^ 8) ^ (LENGTH('a) div 8)" by simp
    also have "\<dots> = 2 ^ (8 * (LENGTH('a) div 8))" by (simp only: power_mult)
    finally show ?thesis using assms by simp
  qed
  moreover have "unat w < 2 ^ LENGTH('a)" by (rule unsigned_less)
  ultimately show ?thesis by (simp add: enc_word_def of_le_bytes sizeof_word_def of_nat_unat)
qed

lemma word_codec:
  assumes "8 dvd LENGTH('a::len)"
  shows "codec (write_word :: 'a word \<Rightarrow> _) read_word sizeof_word enc_word (\<lambda>_. True)"
proof (unfold_locales, goal_cases)
  case (2 a s)
  then show ?case
    using stream_get_stands [OF 2(2)] of_le_enc_word [OF assms, of a]
    by (simp add: read_word_def)
qed (simp_all add: write_word_def sizeof_word_def)

lemma write_word_eq: "write_word w = stream_put (enc_word w)"
  by (rule ext) (simp add: write_word_def)

interpretation c16: codec "write_word :: u16 \<Rightarrow> _" read_word sizeof_word enc_word "\<lambda>_. True"
  by (rule word_codec) simp

interpretation c32: codec "write_word :: u32 \<Rightarrow> _" read_word sizeof_word enc_word "\<lambda>_. True"
  by (rule word_codec) simp

interpretation c64: codec "write_word :: u64 \<Rightarrow> _" read_word sizeof_word enc_word "\<lambda>_. True"
  by (rule word_codec) simp

interpretation cdate: codec "write_word :: systemtime \<Rightarrow> _" read_word sizeof_word enc_word "\<lambda>_. True"
  by (rule word_codec) simp

definition enc_string :: "'a::len word list \<Rightarrow> byte list" where
  "enc_string t = enc_word (size_t (length t)) @ concat (map enc_word t)"

text \<open>A string whose bytes can be counted in 32 bits.\<close>

definition ok_string :: "'a::len word list \<Rightarrow> bool" where
  "ok_string t \<longleftrightarrow> length t * sizeof_word (0 :: 'a word) < 2 ^ 32"

lemma length_concat_enc [simp]:
  "length (concat (map enc_word (t :: 'a::len word list))) = length t * sizeof_word (0 :: 'a word)"
  by (induction t) auto

lemma string_counts:
  fixes t :: "'a::len word list"
  assumes "ok_string t" and "8 \<le> LENGTH('a)"
  shows "unat (size_t (length t)) = length t"
    and "array_bytes (ucast (size_t (length t))) (sizeof_word (0 :: 'a word))
      = length t * sizeof_word (0 :: 'a word)"
proof -
  have pos: "1 \<le> sizeof_word (0 :: 'a word)" using assms(2) by (simp add: sizeof_word_def)
  have l: "length t < 2 ^ 32"
  proof -
    have "length t * 1 \<le> length t * sizeof_word (0 :: 'a word)" using pos by (rule mult_le_mono2)
    then show ?thesis using assms(1) unfolding ok_string_def by linarith
  qed
  then show u: "unat (size_t (length t)) = length t" by (simp add: size_t_def unat_of_nat_small)
  from u have "(ucast (size_t (length t)) :: u32) = of_nat (length t)"
    by (metis of_nat_unat)
  then show "array_bytes (ucast (size_t (length t))) (sizeof_word (0 :: 'a word))
      = length t * sizeof_word (0 :: 'a word)"
    using assms(1) unat_of_nat_small [of "length t * sizeof_word (0 :: 'a word)", where 'a = 32]
    by (simp add: array_bytes_def ok_string_def)
qed

lemma words_at_stands:
  fixes t :: "'a::len word list"
  assumes "8 dvd LENGTH('a)" and "stands (concat (map enc_word t)) s"
  shows "words_at (st_pos s) (length t) (st_mem s) = t"
proof (rule nth_equalityI)
  fix i assume i: "i < length (words_at (st_pos s) (length t) (st_mem s) :: 'a word list)"
  then have i: "i < length t" by (simp add: words_at_def)
  let ?n = "sizeof_word (0 :: 'a word)"
  have "t = take i t @ t ! i # drop (Suc i) t" using i by (simp add: id_take_nth_drop)
  then have "concat (map enc_word t)
      = concat (map enc_word (take i t)) @ enc_word (t ! i) @ concat (map enc_word (drop (Suc i) t))"
    by (metis concat.simps(2) concat_append list.simps(9) map_append)
  then have "stands (enc_word (t ! i)) (skip (i * ?n) s)"
    using assms(2) i by (simp add: stands_append min_absorb2)
  then have "slice_at (st_pos s + i * ?n) ?n (st_mem s) = enc_word (t ! i)" by (simp add: stands_def)
  then show "words_at (st_pos s) (length t) (st_mem s) ! i = t ! i"
    using i of_le_enc_word [OF assms(1)] by (simp add: words_at_def)
qed (simp add: words_at_def)

lemma string_codec:
  assumes d: "8 dvd LENGTH('a::len)"
  shows "codec (write_string :: 'a word list \<Rightarrow> _) read_string SizeType_string enc_string ok_string"
proof (unfold_locales, goal_cases)
  case (1 t s)
  have ge: "8 \<le> LENGTH('a)" using d by (simp add: dvd_imp_le)
  have "write_array t (ucast (size_t (length t))) = stream_put (concat (map enc_word t))"
    using string_counts(2) [OF 1 ge] by (intro ext) (simp add: write_array_def)
  then show ?case by (simp add: write_string_def enc_string_def stream_put_append write_word_eq)
next
  case (2 t s)
  have ge: "8 \<le> LENGTH('a)" using d by (simp add: dvd_imp_le)
  have st: "stands (enc_word (size_t (length t))) s" "stands (concat (map enc_word t)) (skip 8 s)"
    using 2(2) by (simp_all add: enc_string_def stands_append sizeof_word_def)
  have rd: "read_word s = Inr (size_t (length t), skip 8 s)"
    using c64.rd_spec [OF _ st(1)] by (simp add: sizeof_word_def)
  have le: "st_pos (skip 8 s) + length t * sizeof_word (0 :: 'a word) \<le> length (st_mem s)"
    using st(2) by (simp add: stands_def)
  then show ?case
    using string_counts [OF 2(1) ge] words_at_stands [OF d st(2)] rd
    by (simp add: read_string_def read_array_def enc_string_def skip_def sizeof_word_def Let_def)
qed (simp add: SizeType_string_def enc_string_def sizeof_word_def)

interpretation cstr: codec "write_string :: wstring \<Rightarrow> _" read_string SizeType_string enc_string ok_string
  by (rule string_codec) simp

section \<open>Codecs of containers\<close>

locale container = elem: codec wr rd sz enc ok
  for wr :: "'a \<Rightarrow> stream \<Rightarrow> stream res" and rd sz enc ok
begin

definition enc_seq :: "'a list \<Rightarrow> byte list" where
  "enc_seq t = enc_word (size_t (length t)) @ concat (map enc t)"

definition ok_seq :: "'a list \<Rightarrow> bool" where
  "ok_seq t \<longleftrightarrow> length t < 2 ^ 64 \<and> (\<forall>a \<in> set t. ok a)"

lemma write_seq:
  assumes "ok_seq t"
  shows "rbind (write_word (size_t (length t)) s) (write_elems wr t) = stream_put (enc_seq t) s"
  using assms unfolding enc_seq_def stream_put_append write_word_def ok_seq_def
  by (intro rbind_put_cong elem.wr_elems) auto

lemma read_seq:
  assumes "ok_seq t" and "stands (enc_seq t) s"
  shows "rbind (read_word s) (\<lambda>(size :: u64, s1). read_elems rd add (unat size) temp s1)
    = Inr (fold add t temp, skip (length (enc_seq t)) s)"
proof -
  have st: "stands (enc_word (size_t (length t))) s" "stands (concat (map enc t)) (skip 8 s)"
    using assms(2) by (simp_all add: enc_seq_def stands_append sizeof_word_def)
  have "unat (size_t (length t)) = length t"
    using assms(1) by (simp add: ok_seq_def size_t_def unat_of_nat_small)
  then show ?thesis
    using c64.rd_spec [OF _ st(1)] elem.rd_elems [OF _ st(2)] assms(1)
    by (simp add: ok_seq_def enc_seq_def sizeof_word_def)
qed

lemma size_seq: "ok_seq t \<Longrightarrow> size_elems sz t = length (enc_seq t)"
  by (simp add: elem.sz_elems ok_seq_def enc_seq_def sizeof_word_def)

lemma fold_append: "fold (\<lambda>a temp. temp @ [a]) t temp = temp @ t"
  by (induction t arbitrary: temp) auto

end

sublocale container \<subseteq> vec: codec "write_vector wr" "read_vector rd" "SizeType_vector sz" enc_seq ok_seq
  by unfold_locales
    (simp_all add: write_vector_def write_seq read_vector_def read_seq fold_append SizeType_vector_def size_seq)

sublocale container \<subseteq> lst: codec "write_list wr" "read_list rd" "SizeType_list sz" enc_seq ok_seq
  by unfold_locales
    (simp_all add: write_list_def write_seq read_list_def read_seq fold_append SizeType_list_def size_seq)

locale codec_pair = fst: codec wa ra za enca oka + snd: codec wb rb zb encb okb
  for wa :: "'a \<Rightarrow> stream \<Rightarrow> stream res" and ra za enca oka
    and wb :: "'b \<Rightarrow> stream \<Rightarrow> stream res" and rb zb encb okb
begin

definition enc_pair :: "'a \<times> 'b \<Rightarrow> byte list" where
  "enc_pair t = encb (snd t) @ enca (fst t)"

definition ok_pair :: "'a \<times> 'b \<Rightarrow> bool" where
  "ok_pair t \<longleftrightarrow> oka (fst t) \<and> okb (snd t)"

end

sublocale codec_pair \<subseteq> pair: codec "write_pair wa wb" "read_pair True ra rb" "SizeType_pair za zb" enc_pair ok_pair
proof (unfold_locales, goal_cases)
  case (1 t s)
  then have "wa (fst t) = stream_put (enca (fst t))" by (auto simp: ok_pair_def fst.wr_spec)
  then show ?case using 1 by (simp add: write_pair_def enc_pair_def ok_pair_def snd.wr_spec stream_put_append)
next
  case (2 t s)
  then have "stands (encb (snd t)) s" "stands (enca (fst t)) (skip (length (encb (snd t))) s)"
    and "oka (fst t)" "okb (snd t)"
    by (simp_all add: enc_pair_def stands_append ok_pair_def)
  then show ?case by (simp add: read_pair_def enc_pair_def fst.rd_spec snd.rd_spec)
qed (simp add: SizeType_pair_def enc_pair_def ok_pair_def fst.sz_spec snd.sz_spec)

section \<open>The codec of FileData\<close>

definition enc_FileData :: "file_data \<Rightarrow> byte list" where
  "enc_FileData t = enc_string (fd_fileName t) @ enc_word (fd_dateModified t) @ enc_word (fd_size t)"

definition ok_FileData :: "file_data \<Rightarrow> bool" where
  "ok_FileData t \<longleftrightarrow> ok_string (fd_fileName t)"

interpretation cfd: codec write_FileData read_FileData SizeType_FileData enc_FileData ok_FileData
proof (unfold_locales, goal_cases)
  case (1 t s)
  then show ?case
    by (simp add: write_FileData_def enc_FileData_def ok_FileData_def cstr.wr_spec write_word_eq
        stream_put_append) (intro rbind_put_cong, simp add: stream_put_append)
next
  case (2 t s)
  then have st: "stands (enc_string (fd_fileName t)) s"
    "stands (enc_word (fd_dateModified t)) (skip (length (enc_string (fd_fileName t))) s)"
    "stands (enc_word (fd_size t)) (skip (length (enc_string (fd_fileName t)) + 16) s)"
    and n: "ok_string (fd_fileName t)"
    by (simp_all add: enc_FileData_def stands_append ok_FileData_def sizeof_word_def)
  show ?case
    using cstr.rd_spec [OF n st(1)] cdate.rd_spec [OF _ st(2)] c64.rd_spec [OF _ st(3)]
    by (simp add: read_FileData_def enc_FileData_def sizeof_word_def add.assoc)
next
  case (3 t)
  then show ?case
    by (simp add: SizeType_FileData_def enc_FileData_def ok_FileData_def cstr.sz_spec sizeof_word_def)
qed

interpretation cfds: container write_FileData read_FileData SizeType_FileData enc_FileData ok_FileData ..

interpretation c3232: codec_pair "write_word :: u32 \<Rightarrow> _" read_word sizeof_word enc_word "\<lambda>_. True"
    "write_word :: u32 \<Rightarrow> _" read_word sizeof_word enc_word "\<lambda>_. True" ..

interpretation c32s: container "write_word :: u32 \<Rightarrow> _" read_word sizeof_word enc_word "\<lambda>_. True" ..

section \<open>Round trips\<close>

lemma init_fields [simp]:
  "st_pos (MsgStreamWriter_init buffer n type msg) = MSG_OFFSET"
  "st_pos (MsgStreamReader_init buffer n) = MSG_OFFSET"
  by (simp_all add: MsgStreamWriter_init_def MsgStreamReader_init_def MsgStream_init_def Let_def)

lemma reader_mem: "length buffer = n + MSG_OFFSET \<Longrightarrow> st_mem (MsgStreamReader_init buffer n) = buffer"
  by (simp add: MsgStreamReader_init_def MsgStream_init_def)

lemma writer_length: "length buffer = n + MSG_OFFSET \<Longrightarrow>
    length (st_mem (MsgStreamWriter_init buffer n type msg)) = n + MSG_OFFSET"
  by (simp add: MsgStreamWriter_init_def MsgStream_init_def Let_def MSG_OFFSET_def)

text \<open>A message whose data is exactly \<open>bs\<close>: written into a buffer made for it and read back.\<close>

lemma full_message:
  assumes buf: "length buffer = n + MSG_OFFSET" and n: "n = length bs"
  obtains s where "stream_put bs (MsgStreamWriter_init buffer n type msg) = Inr s"
    and "MsgStreamWriter_GetSize s = n + MSG_OFFSET" and "length (st_mem s) = n + MSG_OFFSET"
    and "stands bs (MsgStreamReader_init (st_mem s) n)"
    and "MsgStream_GetType s = Inr type" and "MsgStream_GetMsg s = Inr msg"
proof -
  define s0 where "s0 = MsgStreamWriter_init buffer n type msg"
  define hd where "hd = le_bytes 2 (unat type) @ le_bytes 2 (unat msg)"
  have hl: "length hd = MSG_OFFSET" by (simp add: hd_def MSG_OFFSET_def)
  have s0: "st_pos s0 = MSG_OFFSET" "length (st_mem s0) = n + MSG_OFFSET"
    "take MSG_OFFSET (st_mem s0) = hd"
    using writer_length [OF buf] buf hl
    by (simp_all add: s0_def) (simp add: MsgStreamWriter_init_def MsgStream_init_def Let_def hd_def put_at_def)
  define s where "s = s0\<lparr>st_mem := put_at MSG_OFFSET bs (st_mem s0), st_pos := MSG_OFFSET + n\<rparr>"
  have put: "stream_put bs s0 = Inr s" using s0 n by (simp add: stream_put_def s_def)
  have len: "length (st_mem s) = n + MSG_OFFSET" using s0 n by (simp add: s_def)
  have mem: "st_mem s = hd @ bs" using s0 n hl by (simp add: s_def put_at_def)
  have u: "unat w < 65536" for w :: u16
  proof -
    have "unat w < 2 ^ LENGTH(16)" by (rule unsigned_less)
    then show ?thesis by simp
  qed
  have "MsgStream_GetType s = Inr type" "MsgStream_GetMsg s = Inr msg"
    using mem hl u [of type] u [of msg]
    by (simp_all add: MsgStream_GetType_def MsgStream_GetMsg_def u16_at_def hd_def slice_at_def
        of_le_bytes of_nat_unat)
  moreover have "stands bs (MsgStreamReader_init (st_mem s) n)"
    using mem hl n reader_mem [OF len] by (simp add: stands_def slice_at_def)
  moreover have "MsgStreamWriter_GetSize s = n + MSG_OFFSET"
    by (simp add: MsgStreamWriter_GetSize_def s_def add.commute)
  ultimately show thesis using that [OF put [unfolded s0_def]] len by blast
qed

text \<open>C25: the list of files and the directory survive the message they are sent in.  In a buffer
  of exactly the size \<open>SizeType\<close> computes, writing them does not fault and fills it; the
  message carries its type and number; reading it gives the same list and directory and ends
  at the end.  File names and the directory need less than \<open>2^32\<close> bytes each.\<close>

theorem file_list_round_trip:
  fixes fileList :: "file_data list" and dir :: wstring
  assumes "\<forall>f \<in> set fileList. ok_string (fd_fileName f)" and "length fileList < 2 ^ 64"
    and "ok_string dir"
    and n: "n = size_types [SizeType_vector SizeType_FileData fileList, SizeType_string dir]"
    and "length buffer = n + 4"
  shows "\<exists>s1 s2 r1 r2. write_vector write_FileData fileList (MsgStreamWriter_init buffer n type msg) = Inr s1
    \<and> write_string dir s1 = Inr s2 \<and> MsgStreamWriter_GetSize s2 = n + 4
    \<and> MsgStream_GetType s2 = Inr type \<and> MsgStream_GetMsg s2 = Inr msg
    \<and> read_vector read_FileData (MsgStreamReader_init (st_mem s2) n) = Inr (fileList, r1)
    \<and> read_string r1 = Inr (dir, r2) \<and> MsgStream_End r2"
proof -
  define fs where "fs = cfds.enc_seq fileList"
  define ds where "ds = enc_string dir"
  have ok: "cfds.ok_seq fileList" using assms(1,2) by (simp add: cfds.ok_seq_def ok_FileData_def)
  have len: "n = length (fs @ ds)"
    using cfds.vec.sz_spec [OF ok] cstr.sz_spec [OF assms(3)]
    by (simp add: n size_types_def fs_def ds_def)
  have buf: "length buffer = n + MSG_OFFSET" using assms(5) by (simp add: MSG_OFFSET_def)
  obtain s where s: "stream_put (fs @ ds) (MsgStreamWriter_init buffer n type msg) = Inr s"
    "MsgStreamWriter_GetSize s = n + MSG_OFFSET" "length (st_mem s) = n + MSG_OFFSET"
    "stands (fs @ ds) (MsgStreamReader_init (st_mem s) n)"
    "MsgStream_GetType s = Inr type" "MsgStream_GetMsg s = Inr msg"
    by (rule full_message [OF buf len])
  obtain s1 where s1: "stream_put fs (MsgStreamWriter_init buffer n type msg) = Inr s1"
    "stream_put ds s1 = Inr s"
    using s(1) unfolding stream_put_append by (rule rbind_InrE)
  have w: "write_vector write_FileData fileList (MsgStreamWriter_init buffer n type msg) = Inr s1"
    "write_string dir s1 = Inr s"
    using s1 cfds.vec.wr_spec [OF ok] cstr.wr_spec [OF assms(3)] by (simp_all add: fs_def ds_def)
  have st: "stands fs (MsgStreamReader_init (st_mem s) n)"
    "stands ds (skip (length fs) (MsgStreamReader_init (st_mem s) n))"
    using s(4) by (simp_all add: stands_append)
  have "MsgStream_End (skip (length ds) (skip (length fs) (MsgStreamReader_init (st_mem s) n)))"
    using reader_mem [OF s(3)] s(3) len by (simp add: MsgStream_End_def)
  then show ?thesis
    using w s cfds.vec.rd_spec [OF ok] cstr.rd_spec [OF assms(3)] st
    by (metis MSG_OFFSET_def ds_def fs_def)
qed

lemma file_list_round_trip_witness:
  "\<exists>s1 s2 r1 r2. write_vector write_FileData [\<lparr>fd_fileName = [65, 66], fd_dateModified = 7, fd_size = 9\<rparr>]
      (MsgStreamWriter_init (replicate 60 1) 56 0 0) = Inr s1
    \<and> write_string ([68, 58] :: wstring) s1 = Inr s2
    \<and> read_vector read_FileData (MsgStreamReader_init (st_mem s2) 56)
      = Inr ([\<lparr>fd_fileName = [65, 66], fd_dateModified = 7, fd_size = 9\<rparr>], r1)
    \<and> read_string r1 = Inr ([68, 58] :: wstring, r2) \<and> MsgStream_End r2"
proof -
  let ?fl = "[\<lparr>fd_fileName = [65, 66], fd_dateModified = 7, fd_size = 9\<rparr>]" and ?d = "[68, 58] :: wstring"
  have n: "56 = size_types [SizeType_vector SizeType_FileData ?fl, SizeType_string ?d]" by code_simp
  have ok: "\<forall>f \<in> set ?fl. ok_string (fd_fileName f)" "length ?fl < 2 ^ 64" "ok_string ?d"
    by (simp_all add: ok_string_def sizeof_word_def)
  have "length (replicate 60 (1 :: byte)) = 56 + 4" by simp
  from file_list_round_trip [OF ok n this, of 0 0] show ?thesis by blast
qed

text \<open>Pairs of 32-bit integers come back as they were written only if the compiler evaluates
  the two arguments of \<open>make_pair\<close> from right to left; from left to right the components are
  exchanged.\<close>

theorem pair_round_trip_order:
  fixes t :: "u32 \<times> u32"
  assumes "length buffer = 12"
  shows "\<exists>s. write_pair write_word write_word t (MsgStreamWriter_init buffer 8 type msg) = Inr s
    \<and> (\<exists>r. read_pair True read_word read_word (MsgStreamReader_init (st_mem s) 8) = Inr (t, r))
    \<and> (\<exists>r. read_pair False read_word read_word (MsgStreamReader_init (st_mem s) 8) = Inr ((snd t, fst t), r))"
proof -
  have ok: "c3232.ok_pair t" by (simp add: c3232.ok_pair_def)
  have n: "8 = length (c3232.enc_pair t)" by (simp add: c3232.enc_pair_def sizeof_word_def)
  have buf: "length buffer = 8 + MSG_OFFSET" using assms by (simp add: MSG_OFFSET_def)
  obtain s where s: "stream_put (c3232.enc_pair t) (MsgStreamWriter_init buffer 8 type msg) = Inr s"
    "stands (c3232.enc_pair t) (MsgStreamReader_init (st_mem s) 8)"
    by (rule full_message [OF buf n])
  have w: "write_pair write_word write_word t (MsgStreamWriter_init buffer 8 type msg) = Inr s"
    using s(1) c3232.pair.wr_spec [OF ok] by simp
  have st: "stands (enc_word (snd t)) (MsgStreamReader_init (st_mem s) 8)"
    "stands (enc_word (fst t)) (skip 4 (MsgStreamReader_init (st_mem s) 8))"
    using s(2) by (simp_all add: c3232.enc_pair_def stands_append sizeof_word_def)
  then show ?thesis
    using w c3232.pair.rd_spec [OF ok s(2)] c32.rd_spec [OF _ st(1)] c32.rd_spec [OF _ st(2)]
    by (simp add: read_pair_def sizeof_word_def)
qed

lemma pair_round_trip_order_witness:
  "\<exists>s r. write_pair write_word write_word (1 :: u32, 2 :: u32) (MsgStreamWriter_init (replicate 12 0) 8 2 1) = Inr s
    \<and> read_pair False read_word read_word (MsgStreamReader_init (st_mem s) 8) = Inr ((2 :: u32, 1 :: u32), r)"
  using pair_round_trip_order [of "replicate 12 0" "(1, 2)" 2 1] by auto

lemma fold_map_insert_sorted:
  "sorted_wrt (<) (map fst (m @ t)) \<Longrightarrow> fold map_insert t m = m @ t"
proof (induction t arbitrary: m)
  case (Cons e t)
  have "map_insert e m' = m' @ [e]" if "\<forall>x \<in> set m'. fst x < fst e" for m'
    using that by (induction m') auto
  then have "map_insert e m = m @ [e]" using Cons.prems by (auto simp: sorted_wrt_append)
  then show ?case using Cons.IH [of "m @ [e]"] Cons.prems by simp
qed simp

lemma fold_umap_insert_distinct:
  "distinct (map fst (m @ t)) \<Longrightarrow> fold umap_insert t m = m @ t"
proof (induction t arbitrary: m)
  case (Cons e t)
  then have "umap_insert e m = m @ [e]" by (auto simp: umap_insert_def)
  then show ?case using Cons.IH [of "m @ [e]"] Cons.prems by simp
qed simp

interpretation c3232s: container "write_pair (write_word :: u32 \<Rightarrow> _) (write_word :: u32 \<Rightarrow> _)"
    "read_pair True read_word read_word" "SizeType_pair sizeof_word sizeof_word" c3232.enc_pair c3232.ok_pair ..

text \<open>C33: what the container helpers give back, for 32-bit keys and values in a buffer of the
  computed size.  Vectors, lists, maps and unordered maps come back equal; a \<open>forward_list\<close>
  comes back reversed.\<close>

theorem container_round_trips:
  fixes xs :: "u32 list" and m :: "(u32 \<times> u32) list" and type msg :: u16
  assumes "length xs < 2 ^ 64" and "length m < 2 ^ 64" and "sorted_wrt (<) (map fst m)"
    and "length b1 = SizeType_forward_list sizeof_word xs + 4"
    and "length b2 = SizeType_map (SizeType_pair sizeof_word sizeof_word) m + 4"
  defines "W \<equiv> MsgStreamWriter_init b1 (SizeType_forward_list sizeof_word xs) type msg"
    and "R \<equiv> \<lambda>s. MsgStreamReader_init (st_mem s) (SizeType_forward_list sizeof_word xs)"
    and "W2 \<equiv> MsgStreamWriter_init b2 (SizeType_map (SizeType_pair sizeof_word sizeof_word) m) type msg"
    and "R2 \<equiv> \<lambda>s. MsgStreamReader_init (st_mem s) (SizeType_map (SizeType_pair sizeof_word sizeof_word) m)"
    and "wp \<equiv> write_pair write_word write_word" and "rp \<equiv> read_pair True read_word read_word"
  shows "(\<exists>s r. write_vector write_word xs W = Inr s \<and> read_vector read_word (R s) = Inr (xs, r))
    \<and> (\<exists>s r. write_list write_word xs W = Inr s \<and> read_list read_word (R s) = Inr (xs, r))
    \<and> (\<exists>s r. write_forward_list write_word xs W = Inr s \<and> read_forward_list read_word (R s) = Inr (rev xs, r))
    \<and> (\<exists>s r. write_map wp m W2 = Inr s \<and> read_map rp (R2 s) = Inr (m, r))
    \<and> (\<exists>s r. write_unordered_map wp m W2 = Inr s \<and> read_unordered_map rp (R2 s) = Inr (m, r))"
proof -
  have ok: "c32s.ok_seq xs" using assms(1) by (simp add: c32s.ok_seq_def)
  have okm: "c3232s.ok_seq m" using assms(2) by (simp add: c3232s.ok_seq_def c3232.ok_pair_def)
  have n: "SizeType_forward_list sizeof_word xs = length (c32s.enc_seq xs)"
    using c32s.size_seq [OF ok] by (simp add: SizeType_forward_list_def)
  have n2: "SizeType_map (SizeType_pair sizeof_word sizeof_word) m = length (c3232s.enc_seq m)"
    using c3232s.size_seq [OF okm] by (simp add: SizeType_map_def)
  have b: "length b1 = SizeType_forward_list sizeof_word xs + MSG_OFFSET"
    "length b2 = SizeType_map (SizeType_pair sizeof_word sizeof_word) m + MSG_OFFSET"
    using assms(4,5) by (simp_all add: MSG_OFFSET_def)
  obtain s where s: "stream_put (c32s.enc_seq xs) W = Inr s" "stands (c32s.enc_seq xs) (R s)"
    unfolding W_def R_def by (rule full_message [OF b(1) n])
  obtain s2 where s2: "stream_put (c3232s.enc_seq m) W2 = Inr s2" "stands (c3232s.enc_seq m) (R2 s2)"
    unfolding W2_def R2_def by (rule full_message [OF b(2) n2])
  have 1: "write_vector write_word xs W = Inr s \<and> read_vector read_word (R s) = Inr (xs, skip (length (c32s.enc_seq xs)) (R s))"
    using c32s.vec.wr_spec [OF ok] c32s.vec.rd_spec [OF ok s(2)] s(1) by simp
  have 2: "write_list write_word xs W = Inr s \<and> read_list read_word (R s) = Inr (xs, skip (length (c32s.enc_seq xs)) (R s))"
    using c32s.lst.wr_spec [OF ok] c32s.lst.rd_spec [OF ok s(2)] s(1) by simp
  have 3: "write_forward_list write_word xs W = Inr s
      \<and> read_forward_list read_word (R s) = Inr (rev xs, skip (length (c32s.enc_seq xs)) (R s))"
    using c32s.write_seq [OF ok] c32s.read_seq [OF ok s(2), of "(#)" "[]"] s(1)
    by (simp add: write_forward_list_def read_forward_list_def fold_Cons_rev)
  have 4: "write_map wp m W2 = Inr s2 \<and> read_map rp (R2 s2) = Inr (m, skip (length (c3232s.enc_seq m)) (R2 s2))"
    using c3232s.write_seq [OF okm] c3232s.read_seq [OF okm s2(2), of map_insert "[]"] s2(1)
      fold_map_insert_sorted [of "[]" m] assms(3)
    by (simp add: write_map_def read_map_def wp_def rp_def)
  have d: "distinct (map fst m)" using assms(3) strict_sorted_iff by blast
  have 5: "write_unordered_map wp m W2 = Inr s2
      \<and> read_unordered_map rp (R2 s2) = Inr (m, skip (length (c3232s.enc_seq m)) (R2 s2))"
    using c3232s.write_seq [OF okm] c3232s.read_seq [OF okm s2(2), of umap_insert "[]"] s2(1)
      fold_umap_insert_distinct [of "[]" m] d
    by (simp add: write_unordered_map_def read_unordered_map_def wp_def rp_def)
  from 1 2 3 4 5 show ?thesis by blast
qed

lemma container_round_trips_witness:
  "\<exists>s r. write_forward_list write_word [1 :: u32, 2] (MsgStreamWriter_init (replicate 20 0) 16 0 0) = Inr s
    \<and> read_forward_list read_word (MsgStreamReader_init (st_mem s) 16) = Inr ([2 :: u32, 1], r)"
proof -
  have z: "SizeType_forward_list sizeof_word [1 :: u32, 2] = 16"
    "SizeType_map (SizeType_pair sizeof_word sizeof_word) [(1 :: u32, 2 :: u32)] = 16"
    by code_simp+
  then show ?thesis
    using container_round_trips [of "[1, 2]" "[(1, 2)]" "replicate 20 0" "replicate 20 0" 0 0]
    by simp
qed

end
