(* ===== verification/FileTransfer.thy ===== *)
theory FileTransfer
  imports Codec DataSource LockfreeQueue WorkMap
begin

text \<open>
  The transfer of the algorithm files: the sender (\<open>Server/FileSend.cpp\<close>) and the receiver
  (\<open>Client/FileReceive.cpp\<close>).

  \<^item> The sender reads through \<open>file_ops\<close>; \<open>opn\<close> is the handle \<open>File::Open\<close> gives for a path.
    What it sends is the list of the data parts of its messages.  \<open>running i\<close> is what the
    \<open>i\<close>-th load of \<open>threadState\<close> finds (true: \<open>RUNNING\<close>).
  \<^item> The receiver writes through \<open>disk_ops\<close>, with the laws \<open>disk_laws\<close>: \<open>Open\<close> puts the cursor
    at the beginning and keeps what the file holds, \<open>Write\<close> overwrites from the cursor on.
    The directory operations of \<open>FileMisc\<close> are given by their results.
  \<^item> Paths and names are lists of 16-bit characters; an iterator is an index into the list.
\<close>

section \<open>The files of the receiver\<close>

record 'd disk_ops =
  k_Open :: "wstring \<Rightarrow> 'd \<Rightarrow> 'd"
  k_Write :: "byte list \<Rightarrow> 'd \<Rightarrow> 'd"
  k_Close :: "'d \<Rightarrow> 'd"
  k_ChangeDate :: "systemtime \<Rightarrow> 'd \<Rightarrow> 'd"

definition disk_laws ::
  "'d disk_ops \<Rightarrow> ('d \<Rightarrow> wstring \<Rightarrow> byte list) \<Rightarrow> ('d \<Rightarrow> (wstring \<times> nat) option) \<Rightarrow> bool" where
  "disk_laws k content cur \<longleftrightarrow>
     (\<forall>n d. content (k_Open k n d) = content d \<and> cur (k_Open k n d) = Some (n, 0))
   \<and> (\<forall>bs d n c. cur d = Some (n, c) \<longrightarrow> c \<le> length (content d n) \<longrightarrow>
        content (k_Write k bs d) = (content d)(n := put_at c bs (content d n))
        \<and> cur (k_Write k bs d) = Some (n, c + length bs))
   \<and> (\<forall>d. content (k_Close k d) = content d)
   \<and> (\<forall>t d. content (k_ChangeDate k t d) = content d \<and> cur (k_ChangeDate k t d) = cur d)"

type_synonym mem_disk = "(wstring \<Rightarrow> byte list) \<times> (wstring \<times> nat) option"

definition mem_disk_ops :: "mem_disk disk_ops" where
  "mem_disk_ops =
     \<lparr>k_Open = (\<lambda>n (c, f). (c, Some (n, 0))),
      k_Write = (\<lambda>bs (c, f). case f of None \<Rightarrow> (c, f)
        | Some (n, p) \<Rightarrow> (c(n := put_at p bs (c n)), Some (n, p + length bs))),
      k_Close = (\<lambda>(c, f). (c, None)),
      k_ChangeDate = (\<lambda>t d. d)\<rparr>"

lemma mem_disk_laws: "disk_laws mem_disk_ops fst snd"
  by (auto simp: disk_laws_def mem_disk_ops_def split: prod.splits)

section \<open>FileSend\<close>

datatype thread_state = RUNNING | EXITING

record file_send =
  fs_dir :: wstring
  fs_fileList :: "file_data list"
  fs_fileListSize :: u32
  fs_thread :: bool
  fs_threadState :: thread_state
  fs_clientQueue :: "client lfq"

definition FileSend_init :: "(u16 \<Rightarrow> tagged_index) \<Rightarrow> (u16 \<Rightarrow> client) \<Rightarrow> nat \<Rightarrow> file_send res" where
  "FileSend_init mem dat maxClients =
     rbind (queue_init mem dat maxClients) (\<lambda>q.
       Inr \<lparr>fs_dir = [], fs_fileList = [], fs_fileListSize = 0, fs_thread = False,
            fs_threadState = RUNNING, fs_clientQueue = q\<rparr>)"

definition FileSend_Initialize :: "wstring \<Rightarrow> file_data list \<Rightarrow> file_send \<Rightarrow> file_send" where
  "FileSend_Initialize dir fileList fs =
     fs\<lparr>fs_dir := dir, fs_fileList := fileList,
        fs_fileListSize := of_nat (size_types [SizeType_vector SizeType_FileData fileList, SizeType_string dir]),
        fs_thread := True\<rparr>"

definition FileSend_QueueSend :: "client \<Rightarrow> file_send \<Rightarrow> file_send res" where
  "FileSend_QueueSend clint fs =
     rbind (queue_push clint (fs_clientQueue fs)) (\<lambda>(pushed, q). Inr (fs\<lparr>fs_clientQueue := q\<rparr>))"

text \<open>\<open>StopSend\<close>: a joinable thread is joined, so that it is not joinable any more.\<close>

definition FileSend_StopSend :: "file_send \<Rightarrow> file_send" where
  "FileSend_StopSend fs =
     (let fs1 = fs\<lparr>fs_threadState := EXITING\<rparr>
      in if fs_thread fs1 then fs1\<lparr>fs_thread := False\<rparr> else fs1)"

text \<open>The message of \<open>SendFileList\<close>, in a buffer with the bytes \<open>buffer\<close>.\<close>

definition FileSend_SendFileList :: "byte list \<Rightarrow> file_send \<Rightarrow> stream res" where
  "FileSend_SendFileList buffer fs =
     rbind (write_vector write_FileData (fs_fileList fs)
             (MsgStreamWriter_init buffer (unat (fs_fileListSize fs)) 0 0))
       (write_string (fs_dir fs))"

definition backslash :: wstring where
  "backslash = [92]"

definition source_path :: "wstring \<Rightarrow> file_data \<Rightarrow> wstring" where
  "source_path dir it = (if dir = [] then fd_fileName it else dir @ backslash @ fd_fileName it)"

text \<open>The inner loop: \<open>size\<close> counts down by what is read.  \<open>i\<close> counts the loads of the state.\<close>

fun send_file_loop ::
  "'f file_ops \<Rightarrow> (nat \<Rightarrow> bool) \<Rightarrow> u32 \<Rightarrow> nat \<Rightarrow> nat \<Rightarrow> u64 \<Rightarrow> 'f \<Rightarrow> byte list list
     \<Rightarrow> (nat \<times> byte list list) res" where
  "send_file_loop ops running maxBuffSize 0 i sz file sent = Inl NoReturn"
| "send_file_loop ops running maxBuffSize (Suc fuel) i sz file sent =
     (if running i \<and> sz \<noteq> 0
      then (let (bs, file1) = f_Read ops file (maxBuffSize - of_nat MSG_OFFSET)
            in send_file_loop ops running maxBuffSize fuel (Suc i)
                 (sz - of_nat (length bs)) file1 (sent @ [bs]))
      else Inr (Suc i, sent))"

fun send_files_loop ::
  "'f file_ops \<Rightarrow> (wstring \<Rightarrow> 'f) \<Rightarrow> (nat \<Rightarrow> bool) \<Rightarrow> u32 \<Rightarrow> nat \<Rightarrow> wstring \<Rightarrow> nat \<Rightarrow> file_data list
     \<Rightarrow> byte list list \<Rightarrow> (bool \<times> byte list list) res" where
  "send_files_loop ops opn running maxBuffSize fuel dir i [] sent = Inr (True, sent)"
| "send_files_loop ops opn running maxBuffSize fuel dir i (it # its) sent =
     rbind (send_file_loop ops running maxBuffSize fuel i (fd_size it) (opn (source_path dir it)) sent)
       (\<lambda>(i1, sent1). if \<not> running i1 then Inr (False, sent1)
          else send_files_loop ops opn running maxBuffSize fuel dir (Suc i1) its sent1)"

definition FileSend_SendFiles ::
  "'f file_ops \<Rightarrow> (wstring \<Rightarrow> 'f) \<Rightarrow> (nat \<Rightarrow> bool) \<Rightarrow> u32 \<Rightarrow> nat \<Rightarrow> file_send \<Rightarrow> (bool \<times> byte list list) res" where
  "FileSend_SendFiles ops opn running maxBuffSize fuel fs =
     send_files_loop ops opn running maxBuffSize fuel (fs_dir fs) 0 (fs_fileList fs) []"

text \<open>One wake-up of \<open>SendThread\<close>: the clients in the queue are served one after the other; a
  transfer that was aborted is reported.  The result is what each client was sent.\<close>

datatype send_event = Files client "byte list list" | Aborted client

fun serve_queue ::
  "'f file_ops \<Rightarrow> (wstring \<Rightarrow> 'f) \<Rightarrow> (nat \<Rightarrow> bool) \<Rightarrow> u32 \<Rightarrow> nat \<Rightarrow> nat \<Rightarrow> file_send \<Rightarrow> send_event list
     \<Rightarrow> (send_event list \<times> file_send) res" where
  "serve_queue ops opn running maxBuffSize fuel 0 fs ev = Inl NoReturn"
| "serve_queue ops opn running maxBuffSize fuel (Suc n) fs ev =
     rbind (queue_pop (fs_clientQueue fs)) (\<lambda>(r, q).
       let fs1 = fs\<lparr>fs_clientQueue := q\<rparr> in
       case r of
         None \<Rightarrow> Inr (ev, fs1)
       | Some clint \<Rightarrow>
           rbind (FileSend_SendFiles ops opn running maxBuffSize fuel fs1) (\<lambda>(ok, sent).
             serve_queue ops opn running maxBuffSize fuel n fs1
               (ev @ [Files clint sent] @ (if ok then [] else [Aborted clint]))))"

definition FileSend_SendThread_wake ::
  "'f file_ops \<Rightarrow> (wstring \<Rightarrow> 'f) \<Rightarrow> (nat \<Rightarrow> bool) \<Rightarrow> u32 \<Rightarrow> nat \<Rightarrow> nat \<Rightarrow> file_send
     \<Rightarrow> (bool \<times> send_event list \<times> file_send) res" where
  "FileSend_SendThread_wake ops opn running maxBuffSize fuel n fs =
     (if fs_threadState fs = RUNNING
      then rbind (serve_queue ops opn running maxBuffSize fuel n fs []) (\<lambda>(ev, fs1). Inr (True, ev, fs1))
      else Inr (False, [], fs))"

section \<open>FileReceive\<close>

record 'd file_receive =
  fr_fileList :: "file_data list"
  fr_dir :: wstring
  fr_cur :: nat
  fr_file :: 'd

definition FileReceive_init :: "'d \<Rightarrow> 'd file_receive" where
  "FileReceive_init d = \<lparr>fr_fileList = [], fr_dir = [], fr_cur = 0, fr_file = d\<rparr>"

definition FileReceive_OnCompletion :: "'d disk_ops \<Rightarrow> 'd file_receive \<Rightarrow> 'd file_receive" where
  "FileReceive_OnCompletion k fr = fr\<lparr>fr_fileList := [], fr_file := k_Close k (fr_file fr)\<rparr>"

definition target_path :: "wstring \<Rightarrow> file_data \<Rightarrow> wstring" where
  "target_path dir f = (if dir = [] then fd_fileName f else dir @ fd_fileName f)"

text \<open>\<open>AdvanceFile\<close>: the loop ends because the iterator only moves forward.\<close>

function FileReceive_AdvanceFile :: "'d disk_ops \<Rightarrow> 'd file_receive \<Rightarrow> (bool \<times> 'd file_receive) res" where
  "FileReceive_AdvanceFile k fr =
     (if length (fr_fileList fr) \<le> fr_cur fr then Inl EndDeref
      else let f = fr_fileList fr ! fr_cur fr in
        if fd_size f \<noteq> 0 then Inr (False, fr)
        else let fr1 = fr\<lparr>fr_file := k_ChangeDate k (fd_dateModified f) (fr_file fr)\<rparr> in
          if fr_cur fr \<noteq> length (fr_fileList fr) - 1
          then FileReceive_AdvanceFile k
                 (fr1\<lparr>fr_cur := Suc (fr_cur fr),
                      fr_file := k_Open k (target_path (fr_dir fr) (fr_fileList fr ! Suc (fr_cur fr)))
                                   (k_Close k (fr_file fr1))\<rparr>)
          else Inr (True, FileReceive_OnCompletion k fr1))"
  by pat_completeness auto
termination
  by (relation "measure (\<lambda>(k, fr). length (fr_fileList fr) - fr_cur fr)") auto

declare FileReceive_AdvanceFile.simps [simp del]

definition FileReceive_InitFirstFile :: "'d disk_ops \<Rightarrow> 'd file_receive \<Rightarrow> (bool \<times> 'd file_receive) res" where
  "FileReceive_InitFirstFile k fr =
     (let fr1 = fr\<lparr>fr_dir := fr_dir fr @ backslash, fr_cur := 0\<rparr>
      in if fr_fileList fr1 = [] then Inl EndDeref
         else FileReceive_AdvanceFile k
           (fr1\<lparr>fr_file := k_Open k (target_path (fr_dir fr1) (fr_fileList fr1 ! 0)) (fr_file fr1)\<rparr>))"

text \<open>\<open>exists_dir\<close> and \<open>localList\<close> are the results of \<open>FileMisc::Exists\<close> and \<open>GetFileNameList\<close>.\<close>

definition have_file :: "file_data list \<Rightarrow> file_data \<Rightarrow> bool" where
  "have_file localList f \<longleftrightarrow>
     list_ex (\<lambda>fl. fd_fileName f = fd_fileName fl \<and> fd_dateModified f = fd_dateModified fl) localList"

definition FileReceive_HaveFileList ::
  "'d disk_ops \<Rightarrow> (wstring \<Rightarrow> bool) \<Rightarrow> (wstring \<Rightarrow> file_data list) \<Rightarrow> stream \<Rightarrow> 'd file_receive
     \<Rightarrow> (bool \<times> 'd file_receive) res" where
  "FileReceive_HaveFileList k exists_dir localList s fr =
     rbind (read_vector read_FileData s) (\<lambda>(fileList, s1).
     rbind (read_string s1) (\<lambda>(dir, s2).
       let fr1 = fr\<lparr>fr_fileList := fileList, fr_dir := dir\<rparr> in
       if \<not> exists_dir dir then FileReceive_InitFirstFile k fr1
       else if list_all (have_file (localList dir)) fileList then Inr (True, fr1)
       else FileReceive_InitFirstFile k fr1))"

text \<open>\<open>ReadFiles\<close>: \<open>size\<close> is a \<open>UINT\<close>.\<close>

definition FileReceive_ReadFiles ::
  "'d disk_ops \<Rightarrow> byte list \<Rightarrow> 'd file_receive \<Rightarrow> (bool \<times> 'd file_receive) res" where
  "FileReceive_ReadFiles k data fr =
     (let size = (of_nat (length data) :: u32);
          fr1 = fr\<lparr>fr_file := k_Write k (take (unat size) data) (fr_file fr)\<rparr>
      in if length (fr_fileList fr1) \<le> fr_cur fr1 then Inl EndDeref
         else let f = fr_fileList fr1 ! fr_cur fr1 in
           FileReceive_AdvanceFile k
             (fr1\<lparr>fr_fileList := (fr_fileList fr1)[fr_cur fr1 := f\<lparr>fd_size := fd_size f - ucast size\<rparr>]\<rparr>))"

text \<open>The messages of a transfer, handled one after the other.\<close>

fun receive_all :: "'d disk_ops \<Rightarrow> byte list list \<Rightarrow> 'd file_receive \<Rightarrow> (bool list \<times> 'd file_receive) res" where
  "receive_all k [] fr = Inr ([], fr)"
| "receive_all k (m # ms) fr =
     rbind (FileReceive_ReadFiles k m fr) (\<lambda>(b, fr1).
     rbind (receive_all k ms fr1) (\<lambda>(bs, fr2). Inr (b # bs, fr2)))"

section \<open>Sending and receiving a list of files\<close>

function chunks_of :: "nat \<Rightarrow> 'a list \<Rightarrow> 'a list list" where
  "chunks_of n xs = (if n = 0 \<or> xs = [] then [] else take n xs # chunks_of n (drop n xs))"
  by pat_completeness auto
termination
  by (relation "measure (\<lambda>(n, xs). length xs)") auto

declare chunks_of.simps [simp del]

lemma chunks_of_nil [simp]: "chunks_of n [] = []"
  by (simp add: chunks_of.simps)

lemma concat_chunks_of: "0 < n \<Longrightarrow> concat (chunks_of n xs) = xs"
  by (induction n xs rule: chunks_of.induct) (subst chunks_of.simps, simp)

lemma chunks_of_step:
  "0 < n \<Longrightarrow> p < length xs \<Longrightarrow>
    chunks_of n (drop p xs) = slice_at p n xs # chunks_of n (drop (p + length (slice_at p n xs)) xs)"
  by (subst chunks_of.simps) (auto simp: slice_at_def min_def add.commute)

lemma send_file_loop_spec:
  assumes law: "file_laws ops cont pos" and n: "0 < unat (mx - of_nat MSG_OFFSET)"
  shows "length (cont h) < 2 ^ 64 \<Longrightarrow> pos h \<le> length (cont h) \<Longrightarrow>
    length (cont h) - pos h < fuel \<Longrightarrow>
    \<exists>i'. send_file_loop ops (\<lambda>_. True) mx fuel i (of_nat (length (cont h) - pos h)) h sent
      = Inr (i', sent @ chunks_of (unat (mx - of_nat MSG_OFFSET)) (drop (pos h) (cont h)))"
proof (induction fuel arbitrary: i h sent)
  case (Suc fuel)
  let ?n = "unat (mx - of_nat MSG_OFFSET)" and ?r = "length (cont h) - pos h"
  have z: "(of_nat ?r :: u64) = 0 \<longleftrightarrow> ?r = 0" using Suc.prems by (intro of_nat_eq_0_iff_small) simp
  show ?case
  proof (cases "?r = 0")
    case True
    then show ?thesis by simp
  next
    case False
    then have lt: "pos h < length (cont h)" by simp
    obtain bs f' where rd: "f_Read ops h (mx - of_nat MSG_OFFSET) = (bs, f')" by fastforce
    have b: "bs = slice_at (pos h) ?n (cont h)" and p: "pos f' = pos h + length bs"
      and c: "cont f' = cont h"
      using file_laws_read [OF law rd] by simp_all
    have lb: "0 < length bs" "length bs \<le> ?r" using b lt n by (auto simp: slice_at_def)
    then have "of_nat ?r - of_nat (length bs) = (of_nat (length (cont f') - pos f') :: u64)"
      using c p by (simp flip: of_nat_diff)
    moreover have "\<exists>i'. send_file_loop ops (\<lambda>_. True) mx fuel (Suc i) (of_nat (length (cont f') - pos f')) f' (sent @ [bs])
        = Inr (i', (sent @ [bs]) @ chunks_of ?n (drop (pos f') (cont f')))"
    proof (rule Suc.IH)
      show "length (cont f') < 2 ^ 64" "pos f' \<le> length (cont f')"
        using Suc.prems c p lb by auto
      show "length (cont f') - pos f' < fuel" unfolding c p using Suc.prems(3) lb by linarith
    qed
    moreover have "chunks_of ?n (drop (pos h) (cont h)) = bs # chunks_of ?n (drop (pos f') (cont f'))"
      using chunks_of_step [OF n lt] b c p by simp
    moreover have "\<not> ?r = 0" using False .
    ultimately show ?thesis using z rd by simp
  qed
qed simp

lemma send_files_loop_spec:
  assumes law: "file_laws ops cont pos" and n: "0 < unat (mx - of_nat MSG_OFFSET)" and opn: "\<forall>n. pos (opn n) = 0 \<and> cont (opn n) = disk n"
    and fuel: "\<forall>f \<in> set its. length (disk (source_path dir f)) < fuel \<and> length (disk (source_path dir f)) < 2 ^ 64
      \<and> fd_size f = of_nat (length (disk (source_path dir f)))"
  shows "send_files_loop ops opn (\<lambda>_. True) mx fuel dir i its sent = Inr (True,
    sent @ concat (map (\<lambda>f. chunks_of (unat (mx - of_nat MSG_OFFSET)) (disk (source_path dir f))) its))"
  using fuel
proof (induction its arbitrary: i sent)
  case (Cons it its)
  let ?h = "opn (source_path dir it)"
  have "length (cont ?h) < 2 ^ 64" "pos ?h \<le> length (cont ?h)"
    "length (cont ?h) - pos ?h < fuel"
    using opn Cons.prems by simp_all
  then obtain i' where "send_file_loop ops (\<lambda>_. True) mx fuel i (fd_size it) ?h sent
      = Inr (i', sent @ chunks_of (unat (mx - of_nat MSG_OFFSET)) (disk (source_path dir it)))"
    using send_file_loop_spec [OF law n, of ?h fuel i sent] opn Cons.prems by auto
  then show ?case using Cons by simp
qed simp

text \<open>The receiver has \<open>p\<close> bytes of the \<open>i\<close>-th file, and all the files before it.\<close>

definition recv_at ::
  "('d \<Rightarrow> wstring \<Rightarrow> byte list) \<Rightarrow> ('d \<Rightarrow> (wstring \<times> nat) option) \<Rightarrow> file_data list \<Rightarrow>
     (file_data \<Rightarrow> byte list) \<Rightarrow> wstring \<Rightarrow> nat \<Rightarrow> nat \<Rightarrow> 'd file_receive \<Rightarrow> bool" where
  "recv_at content cur orig src dir i p fr \<longleftrightarrow>
     i < length orig \<and> p \<le> length (src (orig ! i)) \<and> fr_dir fr = dir \<and> fr_cur fr = i
     \<and> length (fr_fileList fr) = length orig
     \<and> fr_fileList fr ! i = (orig ! i)\<lparr>fd_size := of_nat (length (src (orig ! i)) - p)\<rparr>
     \<and> (\<forall>j. i < j \<longrightarrow> j < length orig \<longrightarrow> fr_fileList fr ! j = orig ! j)
     \<and> cur (fr_file fr) = Some (target_path dir (orig ! i), p)
     \<and> (\<forall>j < i. content (fr_file fr) (target_path dir (orig ! j)) = src (orig ! j))
     \<and> content (fr_file fr) (target_path dir (orig ! i)) = take p (src (orig ! i))
     \<and> (\<forall>j. i < j \<longrightarrow> j < length orig \<longrightarrow> content (fr_file fr) (target_path dir (orig ! j)) = [])"

definition recv_done ::
  "('d \<Rightarrow> wstring \<Rightarrow> byte list) \<Rightarrow> file_data list \<Rightarrow> (file_data \<Rightarrow> byte list) \<Rightarrow> wstring \<Rightarrow> 'd file_receive \<Rightarrow> bool" where
  "recv_done content orig src dir fr \<longleftrightarrow>
     (\<forall>f \<in> set orig. content (fr_file fr) (target_path dir f) = src f)"

definition to_come :: "nat \<Rightarrow> file_data list \<Rightarrow> (file_data \<Rightarrow> byte list) \<Rightarrow> nat \<Rightarrow> nat \<Rightarrow> byte list list" where
  "to_come n orig src i p =
     chunks_of n (drop p (src (orig ! i))) @ concat (map (\<lambda>f. chunks_of n (src f)) (drop (Suc i) orig))"

definition good_sizes :: "file_data list \<Rightarrow> (file_data \<Rightarrow> byte list) \<Rightarrow> bool" where
  "good_sizes orig src \<longleftrightarrow>
     (\<forall>f \<in> set orig. fd_size f = of_nat (length (src f)) \<and> length (src f) < 2 ^ 64)"

lemma AdvanceFile_spec:
  assumes law: "disk_laws k content cur" and good: "good_sizes orig src" and dist: "distinct (map fd_fileName orig)"
  shows "recv_at content cur orig src dir i p fr \<Longrightarrow>
    (\<exists>fr' i' p'. FileReceive_AdvanceFile k fr = Inr (False, fr')
        \<and> recv_at content cur orig src dir i' p' fr' \<and> p' < length (src (orig ! i'))
        \<and> to_come n orig src i' p' = to_come n orig src i p)
    \<or> (\<exists>fr'. FileReceive_AdvanceFile k fr = Inr (True, fr') \<and> recv_done content orig src dir fr'
        \<and> to_come n orig src i p = [])"
proof (induction "length orig - i" arbitrary: i p fr rule: less_induct)
  case less
  have at: "i < length orig" "p \<le> length (src (orig ! i))" "fr_dir fr = dir" "fr_cur fr = i"
    "length (fr_fileList fr) = length orig"
    "fr_fileList fr ! i = (orig ! i)\<lparr>fd_size := of_nat (length (src (orig ! i)) - p)\<rparr>"
    "\<forall>j. i < j \<longrightarrow> j < length orig \<longrightarrow> fr_fileList fr ! j = orig ! j"
    "cur (fr_file fr) = Some (target_path dir (orig ! i), p)"
    "\<forall>j < i. content (fr_file fr) (target_path dir (orig ! j)) = src (orig ! j)"
    "content (fr_file fr) (target_path dir (orig ! i)) = take p (src (orig ! i))"
    "\<forall>j. i < j \<longrightarrow> j < length orig \<longrightarrow> content (fr_file fr) (target_path dir (orig ! j)) = []"
    using less.prems unfolding recv_at_def by blast+
  let ?len = "length (src (orig ! i))"
  have "?len < 2 ^ 64" using good at(1) by (simp add: good_sizes_def)
  then have z: "(of_nat (?len - p) :: u64) = 0 \<longleftrightarrow> ?len - p = 0" by (intro of_nat_eq_0_iff_small) simp
  define fr1 where "fr1 = fr\<lparr>fr_file := k_ChangeDate k (fd_dateModified (orig ! i)) (fr_file fr)\<rparr>"
  have c1: "content (fr_file fr1) = content (fr_file fr)"
    using law by (simp add: fr1_def disk_laws_def)
  show ?case
  proof (cases "p < ?len")
    case True
    then have "FileReceive_AdvanceFile k fr = Inr (False, fr)"
      using at z by (subst FileReceive_AdvanceFile.simps) simp
    then show ?thesis using less.prems True by blast
  next
    case False
    then have full: "p = ?len" using at(2) by simp
    show ?thesis
    proof (cases "i = length orig - 1")
      case True
      have "FileReceive_AdvanceFile k fr = Inr (True, FileReceive_OnCompletion k fr1)"
        using at z full True by (subst FileReceive_AdvanceFile.simps) (simp add: fr1_def Let_def)
      moreover have "content (fr_file (FileReceive_OnCompletion k fr1)) = content (fr_file fr)"
        using law c1 by (simp add: FileReceive_OnCompletion_def disk_laws_def)
      moreover have "\<forall>j < length orig. content (fr_file fr) (target_path dir (orig ! j)) = src (orig ! j)"
        using at full True by (metis One_nat_def Suc_pred less_Suc_eq not_less_zero take_all_iff order_refl gr_zeroI)
      ultimately show ?thesis
        using full True by (auto simp: recv_done_def in_set_conv_nth to_come_def)
    next
      case notlast: False
      then have nxt: "Suc i < length orig" using at(1) by simp
      define fr2 where "fr2 = fr1\<lparr>fr_cur := Suc i,
        fr_file := k_Open k (target_path dir (orig ! Suc i)) (k_Close k (fr_file fr1))\<rparr>"
      have c2: "content (fr_file fr2) = content (fr_file fr)"
        and k2: "cur (fr_file fr2) = Some (target_path dir (orig ! Suc i), 0)"
        using law c1 by (simp_all add: fr2_def disk_laws_def)
      have "recv_at content cur orig src dir (Suc i) 0 fr2"
        unfolding recv_at_def c2
        using at full nxt k2 good
        by (auto simp: fr2_def fr1_def less_Suc_eq good_sizes_def)
      moreover have "to_come n orig src (Suc i) 0 = to_come n orig src i p"
        using full nxt Cons_nth_drop_Suc [OF nxt, symmetric] by (simp add: to_come_def)
      moreover have "FileReceive_AdvanceFile k fr = FileReceive_AdvanceFile k fr2"
        using at z full notlast nxt
        by (subst FileReceive_AdvanceFile.simps) (simp add: fr1_def fr2_def Let_def)
      ultimately show ?thesis using less.hyps [of "Suc i" 0 fr2] nxt by auto
    qed
  qed
qed

lemma ReadFiles_step:
  assumes law: "disk_laws k content cur" and at: "recv_at content cur orig src dir i p fr"
    and good: "good_sizes orig src" and dist: "distinct (map fd_fileName orig)"
    and lt: "p < length (src (orig ! i))" and n: "0 < n" "n < 2 ^ 32"
  defines "bs \<equiv> slice_at p n (src (orig ! i))"
  obtains fr1 where "FileReceive_ReadFiles k bs fr = FileReceive_AdvanceFile k fr1"
    and "recv_at content cur orig src dir i (p + length bs) fr1"
proof -
  let ?f = "orig ! i"
  have at': "i < length orig" "fr_dir fr = dir" "fr_cur fr = i" "length (fr_fileList fr) = length orig"
    "fr_fileList fr ! i = ?f\<lparr>fd_size := of_nat (length (src ?f) - p)\<rparr>"
    "\<forall>j. i < j \<longrightarrow> j < length orig \<longrightarrow> fr_fileList fr ! j = orig ! j"
    "cur (fr_file fr) = Some (target_path dir ?f, p)"
    "\<forall>j < i. content (fr_file fr) (target_path dir (orig ! j)) = src (orig ! j)"
    "content (fr_file fr) (target_path dir ?f) = take p (src ?f)"
    "\<forall>j. i < j \<longrightarrow> j < length orig \<longrightarrow> content (fr_file fr) (target_path dir (orig ! j)) = []"
    using at unfolding recv_at_def by blast+
  have lb: "length bs \<le> n" "p + length bs \<le> length (src ?f)"
    using lt by (auto simp: bs_def slice_at_def)
  have u: "unat (of_nat (length bs) :: u32) = length bs" using lb n by (simp add: unat_of_nat_small)
  define d1 where "d1 = k_Write k bs (fr_file fr)"
  have d1: "content d1 = (content (fr_file fr))(target_path dir ?f := take (p + length bs) (src ?f))"
    "cur d1 = Some (target_path dir ?f, p + length bs)"
  proof -
    have "put_at p bs (take p (src ?f)) = take (p + length bs) (src ?f)"
      using lt lb by (simp add: put_at_def bs_def slice_at_def take_add min_def)
    moreover have "p \<le> length (content (fr_file fr) (target_path dir ?f))" using at'(9) lt by simp
    ultimately show "content d1 = (content (fr_file fr))(target_path dir ?f := take (p + length bs) (src ?f))"
      "cur d1 = Some (target_path dir ?f, p + length bs)"
      using law at'(7,9) unfolding disk_laws_def d1_def by auto
  qed
  define fr1 where "fr1 = fr\<lparr>fr_file := d1, fr_fileList := (fr_fileList fr)[i :=
    (fr_fileList fr ! i)\<lparr>fd_size := fd_size (fr_fileList fr ! i) - ucast (of_nat (length bs) :: u32)\<rparr>]\<rparr>"
  have "FileReceive_ReadFiles k bs fr = FileReceive_AdvanceFile k fr1"
    using at' u by (simp add: FileReceive_ReadFiles_def fr1_def d1_def Let_def)
  moreover have "recv_at content cur orig src dir i (p + length bs) fr1"
  proof -
    have "(ucast (of_nat (length bs) :: u32) :: u64) = of_nat (length bs)"
      using u by (metis of_nat_unat)
    then have sz: "of_nat (length (src ?f) - p) - ucast (of_nat (length bs) :: u32)
        = (of_nat (length (src ?f) - (p + length bs)) :: u64)"
      using lb by (simp flip: of_nat_diff)
    have ne: "target_path dir (orig ! j) \<noteq> target_path dir ?f" if "j < length orig" "j \<noteq> i" for j
      using dist that at'(1) by (auto simp: target_path_def distinct_conv_nth)
    show ?thesis
      unfolding recv_at_def using at' lb d1 sz ne lt
      by (auto simp: fr1_def)
  qed
  ultimately show thesis using that by blast
qed

lemma receive_all_spec:
  assumes law: "disk_laws k content cur" and good: "good_sizes orig src"
    and dist: "distinct (map fd_fileName orig)" and n: "0 < n" "n < 2 ^ 32"
  shows "recv_at content cur orig src dir i p fr \<Longrightarrow> p < length (src (orig ! i)) \<Longrightarrow>
    \<exists>flags fr'. receive_all k (to_come n orig src i p) fr = Inr (flags, fr')
      \<and> False # flags = replicate (length (to_come n orig src i p)) False @ [True]
      \<and> recv_done content orig src dir fr'"
proof (induction "length (to_come n orig src i p)" arbitrary: i p fr rule: less_induct)
  case less
  define bs where "bs = slice_at p n (src (orig ! i))"
  obtain fr1 where fr1: "FileReceive_ReadFiles k bs fr = FileReceive_AdvanceFile k fr1"
    "recv_at content cur orig src dir i (p + length bs) fr1"
    using ReadFiles_step [OF law less.prems(1) good dist less.prems(2) n] unfolding bs_def by blast
  have tc: "to_come n orig src i p = bs # to_come n orig src i (p + length bs)"
    using chunks_of_step [OF n(1) less.prems(2)] by (simp add: to_come_def bs_def)
  from AdvanceFile_spec [OF law good dist fr1(2), of n] show ?case
  proof (elim disjE exE conjE)
    fix fr' i' p'
    assume s: "FileReceive_AdvanceFile k fr1 = Inr (False, fr')"
      "recv_at content cur orig src dir i' p' fr'" "p' < length (src (orig ! i'))"
      "to_come n orig src i' p' = to_come n orig src i (p + length bs)"
    then have "length (to_come n orig src i' p') < length (to_come n orig src i p)" using tc by simp
    from less.hyps [OF this s(2,3)] show ?thesis using fr1 s tc by auto
  next
    fix fr'
    assume "FileReceive_AdvanceFile k fr1 = Inr (True, fr')" "recv_done content orig src dir fr'"
      "to_come n orig src i (p + length bs) = []"
    then show ?thesis using fr1 tc by auto
  qed
qed

section \<open>The transfer\<close>

text \<open>What the message of the file list makes the receiver read.\<close>

definition list_message :: "file_data list \<Rightarrow> wstring \<Rightarrow> stream \<Rightarrow> bool" where
  "list_message fileList dir s \<longleftrightarrow>
     (\<exists>s1 s2. read_vector read_FileData s = Inr (fileList, s1) \<and> read_string s1 = Inr (dir, s2))"

lemma list_messageI:
  assumes "case read_vector read_FileData s of Inl _ \<Rightarrow> False
    | Inr (l, s1) \<Rightarrow> l = fl \<and> (case read_string s1 of Inl _ \<Rightarrow> False | Inr (d, _) \<Rightarrow> d = dir)"
  shows "list_message fl dir s"
proof -
  obtain l s1 where v: "read_vector read_FileData s = Inr (l, s1)"
    using assms by (auto split: sum.splits)
  moreover have "\<exists>s2. read_string s1 = Inr (dir, s2)"
    using assms unfolding v by (cases "read_string s1 :: (wstring \<times> stream) res") auto
  moreover have "l = fl" using assms unfolding v by auto
  ultimately show ?thesis unfolding list_message_def by blast
qed

lemma HaveFileList_new:
  assumes "list_message fileList dir s" and "\<not> exists_dir dir"
  shows "FileReceive_HaveFileList k exists_dir localList s fr
    = FileReceive_InitFirstFile k (fr\<lparr>fr_fileList := fileList, fr_dir := dir\<rparr>)"
  using assms by (auto simp: list_message_def FileReceive_HaveFileList_def)

text \<open>C17: the algorithm files arrive.  The server's files have the sizes its list says, the
  client has none of them yet.  Then \<open>SendFiles\<close> ends and reports success, the client that
  got the list asks for the files unless they are all empty, it finds the transfer complete
  at the last message and not before, and afterwards every file on the client holds what the
  file on the server holds.\<close>

theorem file_transfer_round_trip:
  assumes files: "file_laws ops cont pos" and opn: "\<forall>n. pos (opn n) = 0 \<and> cont (opn n) = disk n"
    and disks: "disk_laws k content cur"
    and mx: "0 < unat (mx - of_nat MSG_OFFSET)"
    and list: "fs_fileList fs = fl" "fs_dir fs = dir" "fl \<noteq> []" "distinct (map fd_fileName fl)"
    and sizes: "\<forall>f \<in> set fl. length (disk (source_path dir f)) < fuel
      \<and> length (disk (source_path dir f)) < 2 ^ 64
      \<and> fd_size f = of_nat (length (disk (source_path dir f)))"
    and msg: "list_message fl dir s" "\<not> exists_dir dir"
    and fresh: "\<forall>f \<in> set fl. content (fr_file fr) (target_path (dir @ backslash) f) = []"
  shows "\<exists>msgs b fr0 flags fr1.
      FileSend_SendFiles ops opn (\<lambda>_. True) mx fuel fs = Inr (True, msgs)
    \<and> FileReceive_HaveFileList k exists_dir localList s fr = Inr (b, fr0)
    \<and> receive_all k msgs fr0 = Inr (flags, fr1)
    \<and> b # flags = replicate (length msgs) False @ [True]
    \<and> (\<forall>f \<in> set fl. content (fr_file fr1) (target_path (dir @ backslash) f) = disk (source_path dir f))"
proof -
  let ?n = "unat (mx - of_nat MSG_OFFSET)" and ?src = "\<lambda>f. disk (source_path dir f)"
  let ?dir = "dir @ backslash"
  define fr0 where "fr0 = fr\<lparr>fr_fileList := fl, fr_dir := ?dir, fr_cur := 0,
    fr_file := k_Open k (target_path ?dir (fl ! 0)) (fr_file fr)\<rparr>"
  have init: "FileReceive_HaveFileList k exists_dir localList s fr = FileReceive_AdvanceFile k fr0"
    using HaveFileList_new [where exists_dir = exists_dir, OF msg] list
    by (simp add: FileReceive_InitFirstFile_def fr0_def Let_def)
  have good: "good_sizes fl ?src" using sizes by (simp add: good_sizes_def)
  have n32: "?n < 2 ^ 32" by (rule u32_bound)
  have "content (fr_file fr0) = content (fr_file fr)" "cur (fr_file fr0) = Some (target_path ?dir (fl ! 0), 0)"
    using disks by (simp_all add: fr0_def disk_laws_def)
  then have at0: "recv_at content cur fl ?src ?dir 0 0 fr0"
    using list(3) fresh sizes by (auto simp: recv_at_def fr0_def)
  have msgs: "FileSend_SendFiles ops opn (\<lambda>_. True) mx fuel fs = Inr (True, to_come ?n fl ?src 0 0)"
  proof -
    have "concat (map (\<lambda>f. chunks_of ?n (?src f)) fl) = to_come ?n fl ?src 0 0"
      using list(3) by (cases fl) (simp_all add: to_come_def)
    then show ?thesis
      using send_files_loop_spec [OF files mx opn sizes, of 0 "[]"] list
      by (simp add: FileSend_SendFiles_def)
  qed
  from AdvanceFile_spec [OF disks good list(4) at0, of ?n] show ?thesis
  proof (elim disjE exE conjE)
    fix fr' i' p'
    assume a: "FileReceive_AdvanceFile k fr0 = Inr (False, fr')" "recv_at content cur fl ?src ?dir i' p' fr'"
      "p' < length (?src (fl ! i'))" "to_come ?n fl ?src i' p' = to_come ?n fl ?src 0 0"
    obtain flags fr1 where "receive_all k (to_come ?n fl ?src i' p') fr' = Inr (flags, fr1)"
      "False # flags = replicate (length (to_come ?n fl ?src i' p')) False @ [True]"
      "recv_done content fl ?src ?dir fr1"
      using receive_all_spec [OF disks good list(4) mx n32 a(2,3)] by blast
    then show ?thesis using msgs init a unfolding recv_done_def by auto
  next
    fix fr'
    assume "FileReceive_AdvanceFile k fr0 = Inr (True, fr')" "recv_done content fl ?src ?dir fr'"
      "to_come ?n fl ?src 0 0 = []"
    then show ?thesis using msgs init unfolding recv_done_def by auto
  qed
qed

definition example_files :: "file_data list" where
  "example_files =
     [\<lparr>fd_fileName = [97], fd_dateModified = 1, fd_size = 3\<rparr>, \<lparr>fd_fileName = [98], fd_dateModified = 2, fd_size = 0\<rparr>]"

definition example_disk :: "wstring \<Rightarrow> byte list" where
  "example_disk n = (if n = [65, 92, 97] then [1, 2, 3] else [])"

definition example_message :: stream where
  "example_message = MsgStreamReader_init
     (enc_word (0 :: u32) @ enc_word (size_t 2) @ concat (map enc_FileData example_files)
        @ enc_string ([65] :: wstring)) 86"

lemma file_transfer_round_trip_witness:
  "\<forall>q. \<exists>msgs b fr0 flags fr1.
      FileSend_SendFiles (mem_file_ops []) (\<lambda>n. (example_disk n, 0)) (\<lambda>_. True) 6 10
        \<lparr>fs_dir = [65], fs_fileList = example_files, fs_fileListSize = 0, fs_thread = True,
         fs_threadState = RUNNING, fs_clientQueue = q\<rparr> = Inr (True, msgs)
    \<and> FileReceive_HaveFileList mem_disk_ops (\<lambda>_. False) (\<lambda>_. []) example_message
        (FileReceive_init (\<lambda>_. [], None)) = Inr (b, fr0)
    \<and> receive_all mem_disk_ops msgs fr0 = Inr (flags, fr1)
    \<and> (\<forall>f \<in> set example_files. fst (fr_file fr1) (target_path ([65] @ backslash) f)
         = example_disk (source_path [65] f))"
proof
  fix q :: "client lfq"
  have m: "list_message example_files [65] example_message"
  by (rule list_messageI) code_simp
  have o: "\<forall>n. snd (example_disk n, 0 :: nat) = 0 \<and> fst (example_disk n, 0 :: nat) = example_disk n"
    by simp
  have x: "0 < unat (6 - of_nat MSG_OFFSET :: u32)" "example_files \<noteq> []"
    "distinct (map fd_fileName example_files)" by code_simp+
  have z: "\<forall>f \<in> set example_files. length (example_disk (source_path [65] f)) < 10
      \<and> length (example_disk (source_path [65] f)) < 2 ^ 64
      \<and> fd_size f = of_nat (length (example_disk (source_path [65] f)))"
    by (simp add: example_files_def example_disk_def source_path_def backslash_def)
  have e: "\<forall>f \<in> set example_files.
      fst (fr_file (FileReceive_init (\<lambda>_. [], None) :: mem_disk file_receive)) (target_path ([65] @ backslash) f) = []"
    by (simp add: FileReceive_init_def)
  have d: "\<not> (\<lambda>_ :: wstring. False) [65]" by simp
  show "\<exists>msgs b fr0 flags fr1.
      FileSend_SendFiles (mem_file_ops []) (\<lambda>n. (example_disk n, 0)) (\<lambda>_. True) 6 10
        \<lparr>fs_dir = [65], fs_fileList = example_files, fs_fileListSize = 0, fs_thread = True,
         fs_threadState = RUNNING, fs_clientQueue = q\<rparr> = Inr (True, msgs)
    \<and> FileReceive_HaveFileList mem_disk_ops (\<lambda>_. False) (\<lambda>_. []) example_message
        (FileReceive_init (\<lambda>_. [], None)) = Inr (b, fr0)
    \<and> receive_all mem_disk_ops msgs fr0 = Inr (flags, fr1)
    \<and> (\<forall>f \<in> set example_files. fst (fr_file fr1) (target_path ([65] @ backslash) f)
         = example_disk (source_path [65] f))"
    using file_transfer_round_trip [where exists_dir = "\<lambda>_. False" and localList = "\<lambda>_. []",
        OF mem_file_laws o mem_disk_laws x(1) _ _ x(2,3) z m d e,
        of "\<lparr>fs_dir = [65], fs_fileList = example_files, fs_fileListSize = 0, fs_thread = True,
         fs_threadState = RUNNING, fs_clientQueue = q\<rparr>" "[]"]
    by (simp, blast)
qed

text \<open>C34: \<open>SendFiles\<close> never returns when a file is shorter than its entry in the list: after the
  last byte it goes on sending empty messages.\<close>

theorem send_short_file_never_ends:
  assumes law: "file_laws ops cont pos" and opn: "\<forall>n. pos (opn n) = 0 \<and> cont (opn n) = disk n"
    and list: "fs_fileList fs = it # its"
    and short: "length (disk (source_path (fs_dir fs) it)) < unat (fd_size it)"
  shows "FileSend_SendFiles ops opn (\<lambda>_. True) mx fuel fs = Inl NoReturn"
proof -
  have "send_file_loop ops (\<lambda>_. True) mx fuel i sz h sent = Inl NoReturn"
    if "length (cont h) - pos h < unat sz" for i sz h sent
    using that
  proof (induction fuel arbitrary: i sz h sent)
    case (Suc fuel)
    obtain bs h' where rd: "f_Read ops h (mx - of_nat MSG_OFFSET) = (bs, h')" by fastforce
    have b: "length bs \<le> length (cont h) - pos h" "pos h' = pos h + length bs" "cont h' = cont h"
      using file_laws_read [OF law rd] by (auto simp: slice_at_def)
    have nz: "sz \<noteq> 0" using Suc.prems by auto
    have lt: "length bs < unat sz" using b(1) Suc.prems by simp
    then have "length bs < 2 ^ 64" using u64_bound [of sz] by linarith
    then have "unat (of_nat (length bs) :: u64) = length bs" by (simp add: unat_of_nat_small)
    then have "unat (sz - of_nat (length bs)) = unat sz - length bs"
      using lt by (simp add: unat_sub_if_size)
    then have "length (cont h') - pos h' < unat (sz - of_nat (length bs))"
      using b Suc.prems lt by simp
    then show ?case using Suc.IH nz rd by simp
  qed simp
  from this [of "opn (source_path (fs_dir fs) it)" "fd_size it" 0 "[]"] show ?thesis
    using opn short by (simp add: FileSend_SendFiles_def list)
qed

lemma send_short_file_never_ends_witness:
  "\<forall>q. FileSend_SendFiles (mem_file_ops []) (\<lambda>n. ([], 0)) (\<lambda>_. True) 6 100
     \<lparr>fs_dir = [], fs_fileList = [\<lparr>fd_fileName = [97], fd_dateModified = 1, fd_size = 3\<rparr>],
      fs_fileListSize = 0, fs_thread = True, fs_threadState = RUNNING, fs_clientQueue = q\<rparr> = Inl NoReturn"
  using send_short_file_never_ends [OF mem_file_laws, of "\<lambda>n. ([], 0)" "\<lambda>n. []"] by simp

text \<open>C39: updating a file does not truncate it.  If the client already has a file of that name
  that is longer, the transfer writes the new contents over its beginning and leaves the rest
  of the old file behind them.\<close>

theorem update_keeps_old_tail:
  assumes disks: "disk_laws k content cur" and n: "0 < length new" "length new < 2 ^ 32"
    and f: "fd_size f = of_nat (length new)"
    and msg: "list_message [f] dir s" and ex: "exists_dir dir"
    and old: "\<not> have_file (localList dir) f"
  defines "path \<equiv> target_path (dir @ backslash) f"
  shows "\<exists>fr0 fr1. FileReceive_HaveFileList k exists_dir localList s fr = Inr (False, fr0)
    \<and> FileReceive_ReadFiles k new fr0 = Inr (True, fr1)
    \<and> content (fr_file fr1) path = new @ drop (length new) (content (fr_file fr) path)"
proof -
  have u: "unat (of_nat (length new) :: u32) = length new" using n by (simp add: unat_of_nat_small)
  have nz: "(of_nat (length new) :: u64) \<noteq> 0" using n by (subst of_nat_eq_0_iff_small) auto
  define fr0 where "fr0 = fr\<lparr>fr_fileList := [f], fr_dir := dir @ backslash, fr_cur := 0,
    fr_file := k_Open k path (fr_file fr)\<rparr>"
  have "FileReceive_HaveFileList k exists_dir localList s fr
      = FileReceive_InitFirstFile k (fr\<lparr>fr_fileList := [f], fr_dir := dir\<rparr>)"
    using msg ex old by (auto simp: list_message_def FileReceive_HaveFileList_def)
  also have "\<dots> = Inr (False, fr0)"
    using nz f by (simp add: FileReceive_InitFirstFile_def fr0_def path_def FileReceive_AdvanceFile.simps)
  finally have have': "FileReceive_HaveFileList k exists_dir localList s fr = Inr (False, fr0)" .
  define d1 where "d1 = k_Write k new (k_Open k path (fr_file fr))"
  have d1: "content d1 path = new @ drop (length new) (content (fr_file fr) path)"
    using disks by (simp add: d1_def disk_laws_def put_at_def)
  have uc: "(ucast (of_nat (length new) :: u32) :: u64) = of_nat (length new)"
    using u by (metis of_nat_unat)
  define fr1 where "fr1 = FileReceive_OnCompletion k (fr0\<lparr>fr_fileList := [f\<lparr>fd_size := 0\<rparr>],
    fr_file := k_ChangeDate k (fd_dateModified f) d1\<rparr>)"
  have "FileReceive_ReadFiles k new fr0 = Inr (True, fr1)"
    using u uc f by (simp add: FileReceive_ReadFiles_def fr0_def d1_def fr1_def Let_def
        FileReceive_AdvanceFile.simps)
  moreover have "content (fr_file fr1) path = content d1 path"
    using disks by (simp add: fr1_def FileReceive_OnCompletion_def disk_laws_def)
  ultimately show ?thesis using have' d1 by metis
qed

lemma update_keeps_old_tail_witness:
  "\<exists>fr0 fr1. FileReceive_HaveFileList mem_disk_ops (\<lambda>_. True) (\<lambda>_. [])
        (MsgStreamReader_init (enc_word (0 :: u32) @ enc_word (size_t 1)
           @ enc_FileData \<lparr>fd_fileName = [97], fd_dateModified = 1, fd_size = 2\<rparr>
           @ enc_string ([65] :: wstring)) 52)
        (FileReceive_init (\<lambda>_. [9, 9, 9], None)) = Inr (False, fr0)
    \<and> FileReceive_ReadFiles mem_disk_ops [1, 2] fr0 = Inr (True, fr1)
    \<and> fst (fr_file fr1) [65, 92, 97] = [1, 2, 9]"
proof -
  let ?f = "\<lparr>fd_fileName = [97], fd_dateModified = 1, fd_size = 2\<rparr>"
  let ?s = "MsgStreamReader_init (enc_word (0 :: u32) @ enc_word (size_t 1) @ enc_FileData ?f
    @ enc_string ([65] :: wstring)) 52"
  have m: "list_message [?f] [65] ?s"
  by (rule list_messageI) code_simp
  show ?thesis
    using update_keeps_old_tail [where exists_dir = "\<lambda>_. True" and localList = "\<lambda>_. []" and
        new = "[1, 2]" and fr = "FileReceive_init (\<lambda>_. [9, 9, 9], None)", OF mem_disk_laws _ _ _ m]
    by (simp add: have_file_def target_path_def backslash_def FileReceive_init_def)
qed

end
