(* ===== verification/Server.thy ===== *)
theory Server
  imports ClientQueue FileMap Algo FileTransfer
begin

text \<open>
  The server (\<open>Server/Server.cpp\<close>, \<open>Common/ThreadPool.h\<close>): its state is the record \<open>server\<close>,
  whose fields are the members of the class; the handlers and the body of the worker thread
  are functions on it, built from the operations of the components.

  What the environment decides is in the record \<open>server_env\<close>: the files, the allocator, the
  rounding of floating point, the mapping of views, what reading a past-the-end iterator
  yields, the contents of the temporary file.  The time of an event, in nanoseconds, and the
  result of \<open>SendClientData\<close> are arguments.  Calls that leave the program (messages,
  disconnects) are appended to the trace \<open>sv_trace\<close>, and so are the writes to the result
  file, with the work they answer.
\<close>

section \<open>ThreadPool\<close>

text \<open>\<open>NoThread\<close>: a default-constructed or joined \<open>std::thread\<close>.\<close>

datatype thread = NoThread | Running

definition ThreadPool_init :: "nat \<Rightarrow> thread list" where
  "ThreadPool_init threadCount = replicate threadCount NoThread"

definition ThreadPool_InitializeTheadIndex :: "nat \<Rightarrow> thread list \<Rightarrow> thread list" where
  "ThreadPool_InitializeTheadIndex index threads = threads[index := Running]"

definition ThreadPool_Initialize :: "thread list \<Rightarrow> thread list" where
  "ThreadPool_Initialize threads =
     fold ThreadPool_InitializeTheadIndex [0..<length threads] threads"

text \<open>\<open>Wait\<close> joins every thread: \<open>join\<close> throws for a \<open>NoThread\<close>, and does not return if the
  thread does not; \<open>ends i\<close> tells whether thread \<open>i\<close> does.\<close>

fun join_loop :: "(nat \<Rightarrow> bool) \<Rightarrow> nat \<Rightarrow> thread list \<Rightarrow> thread list res" where
  "join_loop ends i [] = Inr []"
| "join_loop ends i (t # ts) =
     (if t = NoThread then Inl Uncaught
      else if \<not> ends i then Inl NoReturn
      else rbind (join_loop ends (Suc i) ts) (\<lambda>ts'. Inr (NoThread # ts')))"

definition ThreadPool_Wait :: "(nat \<Rightarrow> bool) \<Rightarrow> thread list \<Rightarrow> thread list res" where
  "ThreadPool_Wait ends threads = join_loop ends 0 threads"

definition ThreadPool_ThreadCount :: "thread list \<Rightarrow> nat" where
  "ThreadPool_ThreadCount threads = length threads"

text \<open>The move constructor takes the threads over and zeroes the moved-from pool, which then has
  none: waiting for it returns at once.\<close>

definition ThreadPool_move :: "thread list \<Rightarrow> thread list \<times> thread list" where
  "ThreadPool_move threadPool = (threadPool, [])"

lemma ThreadPool_moved_from: "ThreadPool_Wait ends (snd (ThreadPool_move threads)) = Inr []"
  by (simp add: ThreadPool_move_def ThreadPool_Wait_def)

section \<open>Messages\<close>

definition TYPE_FILETRANSFER :: u16 where "TYPE_FILETRANSFER = 0"
definition MSG_FILETRANSFER_LIST :: u16 where "MSG_FILETRANSFER_LIST = 0"
definition MSG_FILETRANSFER_SEND :: u16 where "MSG_FILETRANSFER_SEND = 1"
definition MSG_FILETRANSFER_ABORTED :: u16 where "MSG_FILETRANSFER_ABORTED = 2"
definition TYPE_KICK :: u16 where "TYPE_KICK = 1"
definition MSG_KICK_TOOSLOW :: u16 where "MSG_KICK_TOOSLOW = 0"
definition TYPE_WORK :: u16 where "TYPE_WORK = 2"
definition MSG_WORK_NEW :: u16 where "MSG_WORK_NEW = 0"
definition MSG_WORK_COMPLETE :: u16 where "MSG_WORK_COMPLETE = 1"
definition TYPE_READY :: u16 where "TYPE_READY = 3"
definition MSG_READY_INIT :: u16 where "MSG_READY_INIT = 0"
definition MSG_READY_PROCESS :: u16 where "MSG_READY_PROCESS = 1"

lemmas message_defs = TYPE_FILETRANSFER_def MSG_FILETRANSFER_LIST_def MSG_FILETRANSFER_SEND_def
  MSG_FILETRANSFER_ABORTED_def TYPE_KICK_def MSG_KICK_TOOSLOW_def TYPE_WORK_def MSG_WORK_NEW_def
  MSG_WORK_COMPLETE_def TYPE_READY_def MSG_READY_INIT_def MSG_READY_PROCESS_def

section \<open>State and environment\<close>

datatype trace_event =
    SentNew client work_info u16 u16 "byte list" bool
  | SentOld client work_info u16 u16 "byte list" bool
  | FreedBuffer
  | Wrote work_info "byte list"
  | SentMsg client u16 u16
  | DisconnectedClient client
  | SentList client stream
  | Completed "byte list" bool
  | DestroyedServer

record 'f server_env =
  ev_ops :: "'f file_ops"
  ev_newbuf :: "mem_pool \<Rightarrow> nat"
  ev_r32 :: "real \<Rightarrow> real"
  ev_r64 :: "real \<Rightarrow> real"
  ev_mv :: map_view
  ev_gran :: nat
  ev_end_deref :: "u32 option"
  ev_temp :: "byte list option"
  ev_handle :: "byte list \<Rightarrow> 'f"
  ev_data :: "byte list"
  ev_alg :: "u32 \<Rightarrow> u32"
  ev_fuel :: nat
  ev_listbuf :: "byte list"

record 'f server =
  sv_clntQueue :: client_queue
  sv_workMap :: work_map
  sv_fileSend :: file_send
  sv_tempFileMap :: file_indexed
  sv_threadPool :: "thread list"
  sv_reorderCounter :: u32
  sv_oldWork :: "work_info lfq"
  sv_startTime :: int
  sv_nReady :: u32
  sv_threadInitialized :: bool
  sv_exitThread :: bool
  sv_data :: "'f data_state"
  sv_stamps :: "nat \<Rightarrow> int"
  sv_trace :: "trace_event list"

definition MAXCLIENTS :: nat where
  "MAXCLIENTS = 1000"

definition log_event :: "trace_event \<Rightarrow> 'f server \<Rightarrow> 'f server" where
  "log_event e s = s\<lparr>sv_trace := sv_trace s @ [e]\<rparr>"

text \<open>The constructor: \<open>maxDataSize\<close> is what \<open>GetMaxDataSize\<close> returns, \<open>dir\<close> and \<open>fileList\<close>
  are \<open>ALGORITHMPATH\<close> and its listing, \<open>opened\<close> and \<open>contents\<close> the results of creating the
  result file.  \<open>GetOutSize\<close> takes the file size in 32 bits.\<close>

definition Server_init ::
  "'f server_env \<Rightarrow> queue_memory \<Rightarrow> (u16 \<Rightarrow> work_info) \<Rightarrow> nat \<Rightarrow> u32 \<Rightarrow> nat \<Rightarrow> 'f \<Rightarrow> wstring \<Rightarrow> file_data list
     \<Rightarrow> bool \<Rightarrow> byte list option \<Rightarrow> 'f server res" where
  "Server_init env mem wmem base maxDataSize nThreads f dir fileList opened contents =
     rbind (ClientQueue_init mem base (\<lambda>_. 0) MAXCLIENTS) (\<lambda>cq.
     rbind (FileSend_init (qm_next mem) (qm_data mem) MAXCLIENTS) (\<lambda>fs.
     rbind (queue_init (qm_next mem) wmem MAXCLIENTS) (\<lambda>old.
       let d = DataInterp_LoadData (ev_ops env) 1 (maxDataSize - of_nat MSG_OFFSET) (Data_init f);
           outSize = Algorithm_GetOutSize (ucast (DataInterp_GetFileSize d));
           fm = snd (FileMappingChunkRW_Create opened contents (unat outSize)
                       (FileMappingIndexed_default (ev_gran env) (unat (lit_MB 100))))
       in Inr \<lparr>sv_clntQueue = cq, sv_workMap = ClientWorkMap_init,
               sv_fileSend = FileSend_Initialize dir fileList fs, sv_tempFileMap = fm,
               sv_threadPool = ThreadPool_init nThreads, sv_reorderCounter = 0, sv_oldWork = old,
               sv_startTime = 0, sv_nReady = 0, sv_threadInitialized = False, sv_exitThread = False,
               sv_data = d, sv_stamps = (\<lambda>_. 0), sv_trace = []\<rparr>)))"

definition Server_Shutdown :: "(nat \<Rightarrow> bool) \<Rightarrow> 'f server \<Rightarrow> 'f server res" where
  "Server_Shutdown ends s =
     (if \<not> sv_exitThread s
      then rbind (ThreadPool_Wait ends (sv_threadPool s)) (\<lambda>threads.
             Inr (log_event DestroyedServer (s\<lparr>sv_exitThread := True, sv_threadPool := threads\<rparr>)))
      else Inr s)"

definition Server_destroy :: "(nat \<Rightarrow> bool) \<Rightarrow> 'f server \<Rightarrow> 'f server res" where
  "Server_destroy = Server_Shutdown"

section \<open>Giving work\<close>

text \<open>\<open>*static_cast<TimePoint*>(clint->obj) = Clock::now()\<close>.\<close>

definition stamp_client :: "client \<Rightarrow> int \<Rightarrow> 'f server \<Rightarrow> 'f server res" where
  "stamp_client clint now s =
     (let obj = cq_obj (sv_clntQueue s) clint
      in if obj = 0 then Inl NullDeref else Inr (s\<lparr>sv_stamps := (sv_stamps s)(obj := now)\<rparr>))"

definition Server_OnCompletion :: "'f server_env \<Rightarrow> int \<Rightarrow> 'f server \<Rightarrow> 'f server res" where
  "Server_OnCompletion env now s =
     rbind (FileMappingIndexed_ReorderFileData (ev_mv env) (ev_gran env) True (ev_temp env) (sv_tempFileMap s))
       (\<lambda>(newData, fm).
     rbind (Server_VerifyNewData (ev_alg env) (ev_ops env) (ev_fuel env) True True
              (ev_handle env newData) (ev_handle env (ev_data env)))
       (\<lambda>verified. Inr (log_event (Completed newData verified)
                         (s\<lparr>sv_tempFileMap := fm, sv_startTime := now\<rparr>))))"

text \<open>\<open>GiveNewWork\<close> up to the wait: whether there was work to give.\<close>

definition give_new_send ::
  "'f server_env \<Rightarrow> int \<Rightarrow> bool \<Rightarrow> client \<Rightarrow> 'f server \<Rightarrow> (bool \<times> 'f server) res" where
  "give_new_send env now sent clint s =
     (let chunkSize = DataInterp_GetChunkSize (sv_data s);
          (wi, bs, d) = DataInterp_GetClientWork (ev_ops env) chunkSize (sv_data s);
          s1 = s\<lparr>sv_data := d\<rparr>
      in if wi_size wi \<noteq> 0
         then rbind (stamp_client clint now (s1\<lparr>sv_workMap := ClientWorkMap_Change clint wi (sv_workMap s1)\<rparr>))
                (\<lambda>s2. let s3 = log_event (SentNew clint wi TYPE_WORK MSG_WORK_NEW (take (unat (wi_size wi)) bs) sent) s2
                  in Inr (True, if \<not> sent
                    then s3\<lparr>sv_workMap := snd (ClientWorkMap_Remove clint (sv_workMap s3))\<rparr> else s3))
         else Inr (False, log_event FreedBuffer s1))"

text \<open>The condition of the wait loop is false.\<close>

definition may_finish :: "'f server \<Rightarrow> bool" where
  "may_finish s \<longleftrightarrow>
     \<not> (DataInterp_ORDERED \<and> \<not> (ClientWorkMap_Empty (sv_workMap s) \<and> queue_empty (sv_oldWork s)))"

definition give_new_finish :: "'f server_env \<Rightarrow> int \<Rightarrow> 'f server \<Rightarrow> 'f server res" where
  "give_new_finish env now s =
     (let s1 = s\<lparr>sv_reorderCounter := sv_reorderCounter s + 1\<rparr>
      in if sv_reorderCounter s1 = 1 then Server_OnCompletion env now s1 else Inr s1)"

text \<open>The whole function, when nothing else runs: if the wait loop is entered its condition
  does not change, so it does not return.\<close>

definition Server_GiveNewWork ::
  "'f server_env \<Rightarrow> int \<Rightarrow> bool \<Rightarrow> client \<Rightarrow> 'f server \<Rightarrow> (bool \<times> 'f server) res" where
  "Server_GiveNewWork env now sent clint s =
     rbind (give_new_send env now sent clint s) (\<lambda>(given, s1).
       if given then Inr (True, s1)
       else if \<not> may_finish s1 then Inl NoReturn
       else rbind (give_new_finish env now s1) (\<lambda>s2. Inr (False, s2)))"

definition Server_GiveOldWork ::
  "'f server_env \<Rightarrow> int \<Rightarrow> bool \<Rightarrow> client \<Rightarrow> work_info \<Rightarrow> 'f server \<Rightarrow> 'f server res" where
  "Server_GiveOldWork env now sent clint wi s =
     (let (wi', bs, d) = DataInterp_GetClientWorkPrev (ev_ops env) (wi_size wi) wi (sv_data s);
          s1 = s\<lparr>sv_data := d, sv_workMap := ClientWorkMap_Change clint wi (sv_workMap s)\<rparr>
      in rbind (stamp_client clint now s1) (\<lambda>s2.
           let s3 = log_event (SentOld clint wi TYPE_WORK MSG_WORK_NEW bs sent) s2
           in Inr (if sent then s3\<lparr>sv_workMap := snd (ClientWorkMap_Remove clint (sv_workMap s3))\<rparr> else s3)))"

section \<open>The worker thread\<close>

datatype work_result = NoClient | GaveWork | WorkDone

text \<open>One turn of the inner loop: a client is found and gets old work, or else new work.\<close>

definition work_turn ::
  "'f server_env \<Rightarrow> int \<Rightarrow> bool \<Rightarrow> 'f server \<Rightarrow> (work_result \<times> 'f server) res" where
  "work_turn env now sent s =
     rbind (ClientQueue_FindClientForWork (sv_clntQueue s)) (\<lambda>(r, q).
       let s1 = s\<lparr>sv_clntQueue := q\<rparr> in
       case r of
         None \<Rightarrow> Inr (NoClient, s1)
       | Some clint \<Rightarrow>
           rbind (queue_pop (sv_oldWork s1)) (\<lambda>(w, old).
             let s2 = s1\<lparr>sv_oldWork := old\<rparr> in
             case w of
               Some wi \<Rightarrow> rbind (Server_GiveOldWork env now sent clint wi s2) (\<lambda>s3. Inr (GaveWork, s3))
             | None \<Rightarrow> rbind (Server_GiveNewWork env now sent clint s2)
                         (\<lambda>(more, s3). Inr (if more then GaveWork else WorkDone, s3))))"

text \<open>One wake-up of \<open>WorkThread\<close>: the times and send results of its turns are the list; the
  result tells whether the thread goes back to its timer.\<close>

fun work_loop :: "'f server_env \<Rightarrow> (int \<times> bool) list \<Rightarrow> 'f server \<Rightarrow> (bool \<times> 'f server) res" where
  "work_loop env [] s = Inl NoReturn"
| "work_loop env ((now, sent) # turns) s =
     rbind (work_turn env now sent s) (\<lambda>(r, s1).
       case r of
         NoClient \<Rightarrow> Inr (True, s1)
       | WorkDone \<Rightarrow> Inr (False, s1)
       | GaveWork \<Rightarrow> if sv_exitThread s1 then Inr (False, s1) else work_loop env turns s1)"

definition Server_WorkThread_wake ::
  "'f server_env \<Rightarrow> (int \<times> bool) list \<Rightarrow> 'f server \<Rightarrow> (bool \<times> 'f server) res" where
  "Server_WorkThread_wake env turns s =
     (if sv_exitThread s then Inr (False, s) else work_loop env turns s)"

section \<open>The handlers\<close>

definition elapsed :: "int \<Rightarrow> int \<Rightarrow> real" where
  "elapsed now start = real_of_int (cdiv (now - start) 1000000)"

text \<open>\<open>MSG_WORK_COMPLETE\<close>: the work of the client is taken from the map first, the result is
  written afterwards.\<close>

definition complete_take :: "client \<Rightarrow> 'f server \<Rightarrow> work_info option \<times> 'f server" where
  "complete_take clint s =
     (let (w, m) = ClientWorkMap_GetClientWork clint (sv_workMap s) in (w, s\<lparr>sv_workMap := m\<rparr>))"

definition complete_write ::
  "'f server_env \<Rightarrow> real \<Rightarrow> client \<Rightarrow> work_info \<Rightarrow> byte list \<Rightarrow> 'f server \<Rightarrow> 'f server res" where
  "complete_write env time clint wi data s =
     rbind (FileMappingIndexed_Write (ev_mv env) (ev_end_deref env) (wi_curIndex wi) data (sv_tempFileMap s)) (\<lambda>fm.
     let s1 = log_event (Wrote wi data) (s\<lparr>sv_tempFileMap := fm\<rparr>) in
     rbind (ClientQueue_EvaluateClient (ev_r32 env) (ev_r64 env) clint time (sv_clntQueue s1)) (\<lambda>(keep, q).
     let s2 = s1\<lparr>sv_clntQueue := q\<rparr> in
     Inr (if \<not> keep then log_event (DisconnectedClient clint) (log_event (SentMsg clint TYPE_KICK MSG_KICK_TOOSLOW) s2)
          else s2)))"

definition on_work_complete ::
  "'f server_env \<Rightarrow> int \<Rightarrow> client \<Rightarrow> byte list \<Rightarrow> 'f server \<Rightarrow> 'f server res" where
  "on_work_complete env now clint data s =
     (let obj = cq_obj (sv_clntQueue s) clint
      in if obj = 0 then Inl NullDeref
         else let time = ev_r32 env (elapsed now (sv_stamps s obj));
                  (w, s1) = complete_take clint s
              in case w of
                   Some wi \<Rightarrow> complete_write env time clint wi data s1
                 | None \<Rightarrow> Inr (log_event (DisconnectedClient clint) s1))"

definition add_ready :: "'f server_env \<Rightarrow> client \<Rightarrow> 'f server \<Rightarrow> 'f server res" where
  "add_ready env clint s =
     rbind (ClientQueue_AddClient (ev_newbuf env) clint (sv_clntQueue s)) (\<lambda>q. Inr (s\<lparr>sv_clntQueue := q\<rparr>))"

definition Server_MsgHandler ::
  "'f server_env \<Rightarrow> int \<Rightarrow> client \<Rightarrow> u16 \<Rightarrow> u16 \<Rightarrow> byte list \<Rightarrow> 'f server \<Rightarrow> 'f server res" where
  "Server_MsgHandler env now clint type msg data s =
     (if type = TYPE_WORK then
        (if msg = MSG_WORK_COMPLETE then on_work_complete env now clint data s else Inr s)
      else if type = TYPE_READY then
        (if msg = MSG_READY_INIT then
           rbind (add_ready env clint s) (\<lambda>s1.
             if \<not> sv_threadInitialized s1
             then Inr (s1\<lparr>sv_threadInitialized := True,
                          sv_threadPool := ThreadPool_Initialize (sv_threadPool s1), sv_startTime := now\<rparr>)
             else Inr s1)
         else if msg = MSG_READY_PROCESS then add_ready env clint s
         else Inr s)
      else if type = TYPE_FILETRANSFER then
        (if msg = MSG_FILETRANSFER_LIST then
           rbind (FileSend_SendFileList (ev_listbuf env) (sv_fileSend s)) (\<lambda>strm.
             Inr (log_event (SentList clint strm) s))
         else if msg = MSG_FILETRANSFER_SEND then
           rbind (FileSend_QueueSend clint (sv_fileSend s)) (\<lambda>fs. Inr (s\<lparr>sv_fileSend := fs\<rparr>))
         else Inr s)
      else Inr s)"

definition Server_DisconnectHandler :: "client \<Rightarrow> 'f server \<Rightarrow> 'f server res" where
  "Server_DisconnectHandler clint s =
     (let s1 = s\<lparr>sv_clntQueue := ClientQueue_RemoveClient clint (sv_clntQueue s)\<rparr>;
          (w, s2) = complete_take clint s1
      in rbind (case w of
                  Some wi \<Rightarrow> rbind (queue_push wi (sv_oldWork s2)) (\<lambda>(pushed, old). Inr (s2\<lparr>sv_oldWork := old\<rparr>))
                | None \<Rightarrow> Inr s2)
           (\<lambda>s3. Inr (s3\<lparr>sv_nReady := sv_nReady s3 - 1\<rparr>)))"

definition Server_ConnectHandler :: "client \<Rightarrow> 'f server \<Rightarrow> 'f server" where
  "Server_ConnectHandler clint s = s"

section \<open>Runs\<close>

text \<open>An event of a run: a message arrives, a client disconnects, a worker takes a turn.  Each
  is one atomic step here; interleavings inside the handlers are the subject of
  \<open>ServerSteps\<close>.\<close>

datatype server_event = Message client u16 u16 "byte list" | Disconnected client | Turn bool

fun server_step :: "'f server_env \<Rightarrow> int \<times> server_event \<Rightarrow> 'f server \<Rightarrow> 'f server res" where
  "server_step env (now, Message clint type msg data) s = Server_MsgHandler env now clint type msg data s"
| "server_step env (now, Disconnected clint) s = Server_DisconnectHandler clint s"
| "server_step env (now, Turn sent) s = rbind (work_turn env now sent s) (\<lambda>(r, s1). Inr s1)"

fun server_run :: "'f server_env \<Rightarrow> (int \<times> server_event) list \<Rightarrow> 'f server \<Rightarrow> 'f server res" where
  "server_run env [] s = Inr s"
| "server_run env (e # es) s = rbind (server_step env e s) (server_run env es)"

end
