(* ===== verification/ServerRun.thy ===== *)
theory ServerRun
  imports Server "HOL-Library.Multiset"
begin

text \<open>
  The server as a whole: the invariant of its data structures, the accounting of the work it
  hands out over any run of events, when its handlers return, and the ways work is lost.
\<close>

section \<open>The invariant of the data structures\<close>

definition sv_inv :: "'f server \<Rightarrow> bool" where
  "sv_inv s \<longleftrightarrow> cq_inv MAXCLIENTS (sv_clntQueue s) \<and> ClientWorkMap_inv (sv_workMap s)
     \<and> lfq_inv (sv_oldWork s) \<and> lfq_cap (sv_oldWork s) = MAXCLIENTS
     \<and> lfq_inv (fs_clientQueue (sv_fileSend s))"

definition sv_waiting :: "'f server \<Rightarrow> client list" where
  "sv_waiting s = cq_fast (sv_clntQueue s) @ cq_other (sv_clntQueue s)"

definition sv_old :: "'f server \<Rightarrow> work_info list" where
  "sv_old s = lfq_contents (sv_oldWork s)"

section \<open>Work handed out, written, lost\<close>

fun handed_of :: "trace_event \<Rightarrow> work_info list" where
  "handed_of (SentNew c wi t m bs sent) = [wi]"
| "handed_of _ = []"

fun written_of :: "trace_event \<Rightarrow> work_info list" where
  "written_of (Wrote wi bs) = [wi]"
| "written_of _ = []"

definition handed :: "'f server \<Rightarrow> work_info list" where
  "handed s = concat (map handed_of (sv_trace s))"

definition written_work :: "'f server \<Rightarrow> work_info list" where
  "written_work s = concat (map written_of (sv_trace s))"

definition mapped :: "work_map \<Rightarrow> work_info multiset" where
  "mapped m = mset (map snd m)"

definition outstanding :: "'f server \<Rightarrow> work_info multiset" where
  "outstanding s = mapped (sv_workMap s) + mset (sv_old s)"

text \<open>The entry of a client in the work map, if any.\<close>

definition entry_of :: "client \<Rightarrow> work_map \<Rightarrow> work_info list" where
  "entry_of c m = (case map_of m c of Some wi \<Rightarrow> [wi] | None \<Rightarrow> [])"

text \<open>The work an event loses: an entry overwritten because its client was given other work,
  new work whose send failed, old work whose send succeeded, the work of a disconnected
  client when the queue of old work is full.\<close>

fun losses :: "'f server_env \<Rightarrow> int \<times> server_event \<Rightarrow> 'f server \<Rightarrow> work_info list" where
  "losses env (now, Message c t m bs) s = []"
| "losses env (now, Disconnected c) s =
     (if length (sv_old s) < MAXCLIENTS then [] else entry_of c (sv_workMap s))"
| "losses env (now, Turn sent) s =
     (case sv_waiting s of
        [] \<Rightarrow> []
      | c # _ \<Rightarrow>
          (case sv_old s of
             wi # _ \<Rightarrow> entry_of c (sv_workMap s) @ (if sent then [wi] else [])
           | [] \<Rightarrow>
               (let wi = fst (DataInterp_GetClientWork (ev_ops env) (DataInterp_GetChunkSize (sv_data s)) (sv_data s))
                in if wi_size wi \<noteq> 0
                   then entry_of c (sv_workMap s) @ (if sent then [] else [wi]) else [])))"

fun losses_run :: "'f server_env \<Rightarrow> (int \<times> server_event) list \<Rightarrow> 'f server \<Rightarrow> work_info list" where
  "losses_run env [] s = []"
| "losses_run env (e # es) s =
     losses env e s @ (case server_step env e s of Inl _ \<Rightarrow> [] | Inr s' \<Rightarrow> losses_run env es s')"

lemma mapped_erase:
  "ClientWorkMap_inv m \<Longrightarrow> mapped (erase_entry c m) + mset (entry_of c m) = mapped m"
proof (induction m)
  case (Cons x m)
  then show ?case
    using erase_entry_absent [of m c]
    by (cases "fst x = c")
      (auto simp: mapped_def entry_of_def erase_entry_def ClientWorkMap_inv_def map_of_eq_None_iff
        split: option.splits prod.splits)
qed (simp add: mapped_def entry_of_def erase_entry_def)

lemma mapped_assign:
  "map_of m c = Some old \<Longrightarrow> add_mset old (mapped (assign_entry c wi m)) = add_mset wi (mapped m)"
  by (induction c wi m rule: assign_entry.induct) (auto simp: mapped_def add_mset_commute)

lemma mapped_Change:
  "mapped (ClientWorkMap_Change c wi m) + mset (entry_of c m) = add_mset wi (mapped m)"
  using mapped_assign [of m c _ wi]
  by (auto simp: ClientWorkMap_Change_def entry_of_def mapped_def split: option.splits)

lemma erase_Change: "ClientWorkMap_inv m \<Longrightarrow> erase_entry c (ClientWorkMap_Change c wi m) = erase_entry c m"
proof -
  have "erase_entry c (assign_entry c wi m) = erase_entry c m"
    by (induction c wi m rule: assign_entry.induct) (auto simp: erase_entry_def)
  then show ?thesis
    by (auto simp: ClientWorkMap_Change_def erase_entry_def split: option.splits)
qed

lemma log_event_simps [simp]:
  "sv_inv (log_event e s) = sv_inv s" "outstanding (log_event e s) = outstanding s"
  "handed (log_event e s) = handed s @ handed_of e"
  "written_work (log_event e s) = written_work s @ written_of e"
  "sv_workMap (log_event e s) = sv_workMap s" "sv_clntQueue (log_event e s) = sv_clntQueue s"
  "sv_oldWork (log_event e s) = sv_oldWork s" "sv_data (log_event e s) = sv_data s"
  by (simp_all add: log_event_def sv_inv_def outstanding_def sv_old_def handed_def written_work_def)

text \<open>\<open>moves s s' new lost\<close>: between the two states \<open>new\<close> was handed out, \<open>lost\<close> was lost, and
  everything else is accounted for.\<close>

definition moves :: "'f server \<Rightarrow> 'f server \<Rightarrow> work_info list \<Rightarrow> bool" where
  "moves s s' lost \<longleftrightarrow> sv_inv s' \<and>
     mset (handed s') + (outstanding s + mset (written_work s))
       = mset (handed s) + (outstanding s' + mset (written_work s')) + mset lost"

lemma stamp_client_Inr:
  "stamp_client c now s = Inr s' \<Longrightarrow> \<exists>st. s' = s\<lparr>sv_stamps := st\<rparr>"
  by (auto simp: stamp_client_def Let_def split: if_splits)

lemma stamps_simps [simp]:
  "sv_inv (s\<lparr>sv_stamps := st\<rparr>) = sv_inv s" "outstanding (s\<lparr>sv_stamps := st\<rparr>) = outstanding s"
  "handed (s\<lparr>sv_stamps := st\<rparr>) = handed s" "written_work (s\<lparr>sv_stamps := st\<rparr>) = written_work s"
  by (simp_all add: sv_inv_def outstanding_def sv_old_def handed_def written_work_def)

lemma give_new_moves:
  assumes inv: "sv_inv s" and run: "give_new_send env now sent c s = Inr (given, s')"
  defines "wi \<equiv> fst (DataInterp_GetClientWork (ev_ops env) (DataInterp_GetChunkSize (sv_data s)) (sv_data s))"
  shows "moves s s' (if wi_size wi \<noteq> 0 then entry_of c (sv_workMap s) @ (if sent then [] else [wi]) else [])"
    and "given \<longleftrightarrow> wi_size wi \<noteq> 0"
proof -
  obtain bs d where w: "DataInterp_GetClientWork (ev_ops env) (DataInterp_GetChunkSize (sv_data s)) (sv_data s)
      = (wi, bs, d)"
    unfolding wi_def by (metis prod.collapse)
  have wm: "ClientWorkMap_inv (sv_workMap s)" using inv by (simp add: sv_inv_def)
  let ?m = "ClientWorkMap_Change c wi (sv_workMap s)"
  have ch: "ClientWorkMap_inv ?m" using wm by (rule wm.invar_change)
  have "moves s s' (if wi_size wi \<noteq> 0 then entry_of c (sv_workMap s) @ (if sent then [] else [wi]) else [])
    \<and> (given \<longleftrightarrow> wi_size wi \<noteq> 0)"
  proof (cases "wi_size wi = 0")
    case True
    then show ?thesis using run inv
      by (auto simp: give_new_send_def w Let_def moves_def sv_inv_def outstanding_def sv_old_def handed_def
          written_work_def log_event_def)
  next
    case False
    then obtain st where s': "given" "s' = (let s3 = log_event (SentNew c wi TYPE_WORK MSG_WORK_NEW
          (take (unat (wi_size wi)) bs) sent) (s\<lparr>sv_data := d, sv_workMap := ?m, sv_stamps := st\<rparr>)
        in if \<not> sent then s3\<lparr>sv_workMap := snd (ClientWorkMap_Remove c (sv_workMap s3))\<rparr> else s3)"
      using run by (auto simp: give_new_send_def w Let_def elim!: rbind_InrE dest!: stamp_client_Inr)
    show ?thesis
    proof (cases sent)
      case True
      then show ?thesis using s' inv ch mapped_Change [of c wi "sv_workMap s"] False
        by (simp add: moves_def sv_inv_def outstanding_def sv_old_def handed_def written_work_def log_event_def)
    next
      case unsent: False
      have "snd (ClientWorkMap_Remove c ?m) = erase_entry c (sv_workMap s)"
        by (simp add: ClientWorkMap_Remove_def erase_Change [OF wm])
      moreover have "ClientWorkMap_inv (erase_entry c (sv_workMap s))"
        using wm by (simp add: ClientWorkMap_inv_def distinct_erase_entry)
      ultimately show ?thesis using s' inv unsent mapped_erase [OF wm, of c] False
        by (simp add: moves_def sv_inv_def outstanding_def sv_old_def handed_def written_work_def log_event_def)
    qed
  qed
  then show "moves s s' (if wi_size wi \<noteq> 0 then entry_of c (sv_workMap s) @ (if sent then [] else [wi]) else [])"
    and "given \<longleftrightarrow> wi_size wi \<noteq> 0" by auto
qed

lemma give_new_finish_moves:
  assumes "sv_inv s" and "give_new_finish env now s = Inr s'"
  shows "moves s s' [] \<and> sv_workMap s' = sv_workMap s \<and> sv_old s' = sv_old s"
  using assms
  by (auto simp: give_new_finish_def Server_OnCompletion_def moves_def sv_inv_def outstanding_def sv_old_def
      handed_def written_work_def log_event_def Let_def elim!: rbind_InrE split: if_splits)

lemma moves_trans:
  assumes "moves s s1 l1" and "moves s1 s2 l2"
  shows "moves s s2 (l1 @ l2)"
proof -
  have "mset (handed s1) + (mset (handed s2) + (outstanding s + mset (written_work s)))
      = mset (handed s1) + (mset (handed s) + (outstanding s2 + mset (written_work s2)) + mset (l1 @ l2))"
    if "mset (handed s1) + (outstanding s + mset (written_work s))
        = mset (handed s) + (outstanding s1 + mset (written_work s1)) + mset l1"
      "mset (handed s2) + (outstanding s1 + mset (written_work s1))
        = mset (handed s1) + (outstanding s2 + mset (written_work s2)) + mset l2"
  proof -
    have "(mset (handed s1) + (outstanding s + mset (written_work s)))
          + (mset (handed s2) + (outstanding s1 + mset (written_work s1)))
        = (mset (handed s) + (outstanding s1 + mset (written_work s1)) + mset l1)
          + (mset (handed s1) + (outstanding s2 + mset (written_work s2)) + mset l2)"
      using that by simp
    then show ?thesis by (simp add: ac_simps)
  qed
  then show ?thesis using assms by (simp add: moves_def)
qed

lemma give_old_moves:
  assumes inv: "sv_inv s" and run: "Server_GiveOldWork env now sent c wi s = Inr s'"
  shows "sv_inv s'" and "sv_oldWork s' = sv_oldWork s" and "handed s' = handed s"
    and "written_work s' = written_work s"
    and "mapped (sv_workMap s') + mset (entry_of c (sv_workMap s)) + (if sent then {#wi#} else {#})
      = add_mset wi (mapped (sv_workMap s))"
proof -
  obtain wi' bs d where w: "DataInterp_GetClientWorkPrev (ev_ops env) (wi_size wi) wi (sv_data s) = (wi', bs, d)"
    by (metis prod.collapse)
  have wm: "ClientWorkMap_inv (sv_workMap s)" using inv by (simp add: sv_inv_def)
  let ?m = "ClientWorkMap_Change c wi (sv_workMap s)"
  have ch: "ClientWorkMap_inv ?m" using wm by (rule wm.invar_change)
  have er: "ClientWorkMap_inv (erase_entry c (sv_workMap s))"
    using wm by (simp add: ClientWorkMap_inv_def distinct_erase_entry)
  have rm: "snd (ClientWorkMap_Remove c ?m) = erase_entry c (sv_workMap s)"
    by (simp add: ClientWorkMap_Remove_def erase_Change [OF wm])
  obtain st where s': "s' = (let s3 = log_event (SentOld c wi TYPE_WORK MSG_WORK_NEW bs sent)
      (s\<lparr>sv_data := d, sv_workMap := ?m, sv_stamps := st\<rparr>)
      in if sent then s3\<lparr>sv_workMap := snd (ClientWorkMap_Remove c (sv_workMap s3))\<rparr> else s3)"
    using run by (auto simp: Server_GiveOldWork_def w Let_def elim!: rbind_InrE dest!: stamp_client_Inr)
  show "sv_inv s'" "sv_oldWork s' = sv_oldWork s" "handed s' = handed s" "written_work s' = written_work s"
    using inv ch er unfolding s'
    by (auto simp: sv_inv_def handed_def written_work_def log_event_def Let_def rm)
  show "mapped (sv_workMap s') + mset (entry_of c (sv_workMap s)) + (if sent then {#wi#} else {#})
      = add_mset wi (mapped (sv_workMap s))"
    using mapped_erase [OF wm, of c] mapped_Change [of c wi "sv_workMap s"] unfolding s'
    by (auto simp: log_event_def Let_def rm)
qed

lemma find_waiting:
  assumes "sv_inv s"
  obtains q where "ClientQueue_FindClientForWork (sv_clntQueue s)
      = Inr (case sv_waiting s of [] \<Rightarrow> None | c # _ \<Rightarrow> Some c, q)"
    and "cq_inv MAXCLIENTS q" and "cq_stamped q = cq_stamped (sv_clntQueue s)"
    and "cq_fast q @ cq_other q = tl (sv_waiting s)"
proof -
  have "cq_inv MAXCLIENTS (sv_clntQueue s)" using assms by (simp add: sv_inv_def)
  then obtain r q where "ClientQueue_FindClientForWork (sv_clntQueue s) = Inr (r, q)" "cq_inv MAXCLIENTS q"
    "cq_stamped q = cq_stamped (sv_clntQueue s)"
    "r = (case cq_fast (sv_clntQueue s) @ cq_other (sv_clntQueue s) of [] \<Rightarrow> None | c # _ \<Rightarrow> Some c)"
    "cq_fast q @ cq_other q = tl (cq_fast (sv_clntQueue s) @ cq_other (sv_clntQueue s))"
    by (rule cq.findE)
  then show thesis using that by (simp add: sv_waiting_def)
qed

lemma pop_old:
  assumes "sv_inv s"
  obtains old where "queue_pop (sv_oldWork s) = Inr (case sv_old s of [] \<Rightarrow> None | w # _ \<Rightarrow> Some w, old)"
    and "lfq_inv old" and "lfq_cap old = MAXCLIENTS" and "lfq_contents old = tl (sv_old s)"
proof -
  have "lfq_inv (sv_oldWork s)" using assms by (simp add: sv_inv_def)
  then obtain r old where "queue_pop (sv_oldWork s) = Inr (r, old)" "lfq_inv old"
    "lfq_cap old = lfq_cap (sv_oldWork s)"
    "r = (case lfq_contents (sv_oldWork s) of [] \<Rightarrow> None | x # _ \<Rightarrow> Some x)"
    "lfq_contents old = tl (lfq_contents (sv_oldWork s))"
    by (rule lf.popE)
  then show thesis using that assms by (simp add: sv_old_def sv_inv_def)
qed

lemma work_turn_moves:
  assumes inv: "sv_inv s" and run: "work_turn env now sent s = Inr (r, s')"
  shows "moves s s' (losses env (now, Turn sent) s)"
proof -
  obtain q where q: "ClientQueue_FindClientForWork (sv_clntQueue s)
      = Inr (case sv_waiting s of [] \<Rightarrow> None | c # _ \<Rightarrow> Some c, q)" "cq_inv MAXCLIENTS q"
    by (rule find_waiting [OF inv])
  define s1 where "s1 = s\<lparr>sv_clntQueue := q\<rparr>"
  have s1: "sv_inv s1" "outstanding s1 = outstanding s" "handed s1 = handed s"
    "written_work s1 = written_work s" "sv_old s1 = sv_old s" "sv_workMap s1 = sv_workMap s"
    "sv_data s1 = sv_data s"
    using inv q by (simp_all add: s1_def sv_inv_def outstanding_def sv_old_def handed_def written_work_def)
  show ?thesis
  proof (cases "sv_waiting s")
    case Nil
    then have "s' = s1" using run q by (simp add: work_turn_def s1_def Let_def)
    then show ?thesis using s1 Nil by (simp add: moves_def)
  next
    case (Cons c cs)
    obtain old where old: "queue_pop (sv_oldWork s1) = Inr (case sv_old s1 of [] \<Rightarrow> None | w # _ \<Rightarrow> Some w, old)"
      "lfq_inv old" "lfq_cap old = MAXCLIENTS" "lfq_contents old = tl (sv_old s1)"
      by (rule pop_old [OF s1(1)])
    define s2 where "s2 = s1\<lparr>sv_oldWork := old\<rparr>"
    have s2: "sv_inv s2" "handed s2 = handed s" "written_work s2 = written_work s"
      "sv_old s2 = tl (sv_old s)" "sv_workMap s2 = sv_workMap s" "sv_data s2 = sv_data s"
      using s1 old by (simp_all add: s2_def sv_inv_def sv_old_def handed_def written_work_def)
    show ?thesis
    proof (cases "sv_old s")
      case old_cons: (Cons wi ws)
      then have g: "Server_GiveOldWork env now sent c wi s2 = Inr s'"
        using run q Cons old s1 by (auto simp: work_turn_def s1_def s2_def Let_def elim!: rbind_InrE)
      note m = give_old_moves [OF s2(1) g]
      have "sv_old s' = ws" using m(2) s2(4) old_cons by (simp add: sv_old_def)
      then show ?thesis using m s2 Cons old_cons
        by (cases sent) (simp_all add: moves_def outstanding_def ac_simps)
    next
      case old_nil: Nil
      define wi where "wi = fst (DataInterp_GetClientWork (ev_ops env) (DataInterp_GetChunkSize (sv_data s)) (sv_data s))"
      have "outstanding s2 = outstanding s" using s2 old_nil by (simp add: outstanding_def)
      then have out: "moves s s2 []" using s2 by (simp add: moves_def)
      obtain more where "Server_GiveNewWork env now sent c s2 = Inr (more, s')"
        using run q Cons old s1 old_nil by (auto simp: work_turn_def s1_def s2_def Let_def elim!: rbind_InrE)
      then obtain given s3 where s3: "give_new_send env now sent c s2 = Inr (given, s3)"
        and fin: "given \<and> s' = s3 \<or> \<not> given \<and> give_new_finish env now s3 = Inr s'"
        by (auto simp: Server_GiveNewWork_def elim!: rbind_InrE split: if_splits)
      let ?l = "if wi_size wi \<noteq> 0 then entry_of c (sv_workMap s) @ (if sent then [] else [wi]) else []"
      have m3: "moves s2 s3 ?l"
        using give_new_moves(1) [OF s2(1) s3] unfolding s2(5,6) wi_def .
      have "moves s3 s' []"
        using fin m3 give_new_finish_moves [of s3 env now s'] by (auto simp: moves_def)
      then have "moves s s' ([] @ ?l @ [])"
        by (intro moves_trans [OF out] moves_trans [OF m3])
      moreover have "losses env (now, Turn sent) s = ?l"
        using Cons old_nil by (simp add: wi_def Let_def)
      ultimately show ?thesis by simp
    qed
  qed
qed

lemma complete_take_moves:
  assumes "sv_inv s" and "complete_take c s = (w, s1)"
  shows "sv_inv s1" and "w = map_of (sv_workMap s) c" and "sv_clntQueue s1 = sv_clntQueue s"
    and "handed s1 = handed s" and "written_work s1 = written_work s" and "sv_oldWork s1 = sv_oldWork s"
    and "mapped (sv_workMap s1) + mset (entry_of c (sv_workMap s)) = mapped (sv_workMap s)"
    and "sv_tempFileMap s1 = sv_tempFileMap s" and "sv_fileSend s1 = sv_fileSend s"
proof -
  have wm: "ClientWorkMap_inv (sv_workMap s)" using assms(1) by (simp add: sv_inv_def)
  obtain m where m: "ClientWorkMap_GetClientWork c (sv_workMap s) = (w, m)" and s1: "s1 = s\<lparr>sv_workMap := m\<rparr>"
    using assms(2) by (auto simp: complete_take_def split: prod.splits)
  show "w = map_of (sv_workMap s) c" using wm.get_result [OF wm, of c] m by simp
  have "ClientWorkMap_inv m" using wm.invar_get [OF wm, of c] m by simp
  then show "sv_inv s1" using assms(1) s1 by (simp add: sv_inv_def)
  have "m = erase_entry c (sv_workMap s)"
    using m erase_entry_absent [of "sv_workMap s" c]
    by (auto simp: ClientWorkMap_GetClientWork_def split: option.splits)
  then show "mapped (sv_workMap s1) + mset (entry_of c (sv_workMap s)) = mapped (sv_workMap s)"
    using mapped_erase [OF wm, of c] s1 by simp
qed (use assms(2) in \<open>auto simp: complete_take_def handed_def written_work_def split: prod.splits\<close>)

lemma on_work_complete_moves:
  assumes inv: "sv_inv s" and run: "on_work_complete env now c data s = Inr s'"
  shows "moves s s' []"
proof -
  obtain w s1 where t: "complete_take c s = (w, s1)" by fastforce
  note ct = complete_take_moves [OF inv t]
  show ?thesis
  proof (cases w)
    case None
    then have "s' = log_event (DisconnectedClient c) s1"
      using run t by (auto simp: on_work_complete_def Let_def split: if_splits)
    then show ?thesis using ct None
      by (simp add: moves_def outstanding_def entry_of_def sv_old_def)
  next
    case (Some wi)
    define time where "time = ev_r32 env (elapsed now (sv_stamps s (cq_obj (sv_clntQueue s) c)))"
    have "complete_write env time c wi data s1 = Inr s'"
      using run t Some by (auto simp: on_work_complete_def Let_def time_def split: if_splits)
    then obtain fm keep q where
      e: "ClientQueue_EvaluateClient (ev_r32 env) (ev_r64 env) c time (sv_clntQueue s1) = Inr (keep, q)"
      and s': "s' = (let s2 = (log_event (Wrote wi data) (s1\<lparr>sv_tempFileMap := fm\<rparr>))\<lparr>sv_clntQueue := q\<rparr> in
        if \<not> keep then log_event (DisconnectedClient c) (log_event (SentMsg c TYPE_KICK MSG_KICK_TOOSLOW) s2) else s2)"
      by (auto simp: complete_write_def Let_def log_event_def elim!: rbind_InrE)
    have "cq_inv MAXCLIENTS (sv_clntQueue s1)" using ct(1) by (simp add: sv_inv_def)
    then obtain b q' where "ClientQueue_EvaluateClient (ev_r32 env) (ev_r64 env) c time (sv_clntQueue s1) = Inr (b, q')"
      "cq_inv MAXCLIENTS q'"
      by (rule cq.evaluateE)
    then have "cq_inv MAXCLIENTS q" using e by simp
    moreover have "entry_of c (sv_workMap s) = [wi]" using ct(2) [symmetric] Some by (simp add: entry_of_def)
    ultimately show ?thesis using ct s'
      by (cases keep)
        (auto simp: moves_def sv_inv_def outstanding_def sv_old_def handed_def written_work_def log_event_def Let_def)
  qed
qed

lemma add_ready_moves:
  assumes inv: "sv_inv s" and nb: "allocator_law (ev_newbuf env)" and run: "add_ready env c s = Inr s'"
  shows "moves s s' []"
proof -
  obtain q where q: "ClientQueue_AddClient (ev_newbuf env) c (sv_clntQueue s) = Inr q"
    and s': "s' = s\<lparr>sv_clntQueue := q\<rparr>"
    using run by (auto simp: add_ready_def elim!: rbind_InrE)
  have "cq_inv MAXCLIENTS q"
    using AddClient_spec [OF nb, of MAXCLIENTS "sv_clntQueue s" c] inv q by (auto simp: sv_inv_def)
  then show ?thesis using inv
    by (simp add: s' moves_def sv_inv_def outstanding_def sv_old_def handed_def written_work_def)
qed

lemma MsgHandler_moves:
  assumes inv: "sv_inv s" and nb: "allocator_law (ev_newbuf env)"
    and run: "Server_MsgHandler env now c t m data s = Inr s'"
  shows "moves s s' []"
proof -
  have same: "moves s s []" using inv by (simp add: moves_def)
  show ?thesis
  proof (cases "t = TYPE_WORK")
    case True
    then show ?thesis using run same on_work_complete_moves [OF inv]
      by (auto simp: Server_MsgHandler_def split: if_splits)
  next
    case notwork: False
    show ?thesis
    proof (cases "t = TYPE_READY")
      case True
      show ?thesis
      proof (cases "m = MSG_READY_INIT")
        case True
        then obtain s1 where s1: "add_ready env c s = Inr s1"
          and s': "s' = s1 \<or> s' = s1\<lparr>sv_threadInitialized := True,
            sv_threadPool := ThreadPool_Initialize (sv_threadPool s1), sv_startTime := now\<rparr>"
          using run notwork \<open>t = TYPE_READY\<close>
          by (auto simp: Server_MsgHandler_def elim!: rbind_InrE split: if_splits)
        show ?thesis using add_ready_moves [OF inv nb s1] s'
          by (auto simp: moves_def sv_inv_def outstanding_def sv_old_def handed_def written_work_def)
      next
        case False
        then show ?thesis using run notwork True same add_ready_moves [OF inv nb]
          by (auto simp: Server_MsgHandler_def split: if_splits)
      qed
    next
      case False
      have "moves s (log_event (SentList c strm) s) []" for strm
        using inv by (simp add: moves_def)
      moreover have "moves s (s\<lparr>sv_fileSend := fs\<rparr>) []"
        if push: "FileSend_QueueSend c (sv_fileSend s) = Inr fs" for fs
      proof -
        have "lfq_inv (fs_clientQueue (sv_fileSend s))" using inv by (simp add: sv_inv_def)
        then obtain b q where "queue_push c (fs_clientQueue (sv_fileSend s)) = Inr (b, q)" "lfq_inv q"
          by (rule lf.pushE)
        then have "lfq_inv (fs_clientQueue fs)" using push by (auto simp: FileSend_QueueSend_def)
        then show ?thesis using inv
          by (simp add: moves_def sv_inv_def outstanding_def sv_old_def handed_def written_work_def)
      qed
      ultimately show ?thesis using run notwork False same
        by (auto simp: Server_MsgHandler_def elim!: rbind_InrE split: if_splits)
    qed
  qed
qed

lemma DisconnectHandler_moves:
  assumes inv: "sv_inv s" and run: "Server_DisconnectHandler c s = Inr s'"
  shows "moves s s' (losses env (now, Disconnected c) s)"
proof -
  define s0 where "s0 = s\<lparr>sv_clntQueue := ClientQueue_RemoveClient c (sv_clntQueue s)\<rparr>"
  have i0: "sv_inv s0" using inv cq.remove_spec by (auto simp: s0_def sv_inv_def)
  have e0: "outstanding s0 = outstanding s" "handed s0 = handed s" "written_work s0 = written_work s"
    "sv_workMap s0 = sv_workMap s" "sv_oldWork s0 = sv_oldWork s"
    by (simp_all add: s0_def outstanding_def sv_old_def handed_def written_work_def)
  obtain w s2 where t: "complete_take c s0 = (w, s2)" by fastforce
  note ct = complete_take_moves [OF i0 t]
  show ?thesis
  proof (cases w)
    case None
    then have "s' = s2\<lparr>sv_nReady := sv_nReady s2 - 1\<rparr>"
      using run t by (simp add: Server_DisconnectHandler_def s0_def [symmetric] Let_def)
    then show ?thesis using ct None e0
      by (auto simp: moves_def sv_inv_def outstanding_def entry_of_def sv_old_def handed_def written_work_def)
  next
    case (Some wi)
    have "lfq_inv (sv_oldWork s2)" using ct(1) by (simp add: sv_inv_def)
    then obtain b old where p: "queue_push wi (sv_oldWork s2) = Inr (b, old)"
      "b = (length (lfq_contents (sv_oldWork s2)) < lfq_cap (sv_oldWork s2))" "lfq_inv old"
      "lfq_cap old = lfq_cap (sv_oldWork s2)"
      "lfq_contents old = (if b then lfq_contents (sv_oldWork s2) @ [wi] else lfq_contents (sv_oldWork s2))"
      by (rule lf.pushE)
    then have s': "s' = s2\<lparr>sv_oldWork := old, sv_nReady := sv_nReady s2 - 1\<rparr>"
      using run t Some by (simp add: Server_DisconnectHandler_def s0_def [symmetric] Let_def)
    have en: "entry_of c (sv_workMap s) = [wi]" using ct(2) [symmetric] Some e0(4) by (simp add: entry_of_def)
    have cap: "lfq_cap (sv_oldWork s2) = MAXCLIENTS" "lfq_contents (sv_oldWork s2) = sv_old s"
      using ct(1,6) e0 by (simp_all add: sv_inv_def sv_old_def)
    show ?thesis
      using ct p s' e0 en cap
      by (cases b) (auto simp: moves_def sv_inv_def outstanding_def sv_old_def handed_def written_work_def)
  qed
qed

lemma server_step_moves:
  assumes "sv_inv s" and "allocator_law (ev_newbuf env)" and "server_step env e s = Inr s'"
  shows "moves s s' (losses env e s)"
proof -
  obtain now ev where e: "e = (now, ev)" by (cases e)
  show ?thesis
  proof (cases ev)
    case (Message c t m data)
    then show ?thesis using assms MsgHandler_moves by (auto simp: e)
  next
    case (Disconnected c)
    then show ?thesis using assms DisconnectHandler_moves [OF assms(1), of c s' env now] by (simp add: e)
  next
    case (Turn sent)
    then show ?thesis using assms work_turn_moves by (auto simp: e elim!: rbind_InrE)
  qed
qed

lemma server_run_moves:
  "sv_inv s \<Longrightarrow> allocator_law (ev_newbuf env) \<Longrightarrow> server_run env es s = Inr s' \<Longrightarrow>
    moves s s' (losses_run env es s)"
proof (induction es arbitrary: s)
  case (Cons e es)
  obtain s1 where s1: "server_step env e s = Inr s1" "server_run env es s1 = Inr s'"
    using Cons.prems(3) by (auto elim!: rbind_InrE)
  have m1: "moves s s1 (losses env e s)" by (rule server_step_moves [OF Cons.prems(1,2) s1(1)])
  then have "moves s1 s' (losses_run env es s1)"
    using Cons.IH [OF _ Cons.prems(2) s1(2)] by (simp add: moves_def)
  then show ?case using moves_trans [OF m1] s1(1) by simp
qed (simp add: moves_def)

section \<open>The server after construction\<close>

lemma Server_init_spec:
  assumes "0 < base"
  obtains s where "Server_init env mem wmem base mx n f dir fileList opened contents = Inr s"
    and "sv_inv s" and "handed s = []" and "written_work s = []" and "outstanding s = {#}"
    and "sv_waiting s = []" and "sv_old s = []" and "sv_threadPool s = replicate n NoThread"
    and "\<not> sv_exitThread s" and "\<not> sv_threadInitialized s"
    and "sv_data s = DataInterp_LoadData (ev_ops env) 1 (mx - of_nat MSG_OFFSET) (Data_init f)"
    and "sv_workMap s = []" and "sv_reorderCounter s = 0" and "sv_trace s = []"
    and "sv_tempFileMap s = snd (FileMappingChunkRW_Create opened contents
      (unat (Algorithm_GetOutSize (ucast (DataInterp_GetFileSize (sv_data s)))))
      (FileMappingIndexed_default (ev_gran env) (unat (lit_MB 100))))"
    and "cq_perfModel (sv_clntQueue s) = PerformanceModel_init 2 4"
proof -
  have m: "0 < MAXCLIENTS" "MAXCLIENTS < 65535" by (simp_all add: MAXCLIENTS_def)
  obtain q1 where q1: "queue_init (qm_next mem) (qm_data mem) MAXCLIENTS = Inr q1" "lfq_inv q1"
    "lfq_contents q1 = []" "lfq_cap q1 = MAXCLIENTS"
    by (rule queue_init_rep [OF m(2)])
  obtain cq where cq: "ClientQueue_init mem base (\<lambda>_. 0) MAXCLIENTS = Inr cq" "cq_inv MAXCLIENTS cq"
    "cq_fast cq = []" "cq_other cq = []" and pm: "cq_perfModel cq = PerformanceModel_init 2 4"
    by (rule ClientQueue_init_spec [OF m assms refl])
  obtain old where old: "queue_init (qm_next mem) wmem MAXCLIENTS = Inr old" "lfq_inv old"
    "lfq_contents old = []" "lfq_cap old = MAXCLIENTS"
    by (rule queue_init_rep [OF m(2)])
  show thesis
    by (rule that) (use q1 cq old pm in \<open>auto simp: Server_init_def FileSend_init_def Let_def sv_inv_def
      ClientWorkMap_inv_def FileSend_Initialize_def handed_def written_work_def outstanding_def mapped_def
      ClientWorkMap_init_def sv_old_def sv_waiting_def ThreadPool_init_def\<close>)
qed

text \<open>C11: no work disappears silently.  Whatever happens to a server after its construction
  (messages, disconnects, turns of its workers, sends that fail), the work it has handed out
  is, as a multiset, exactly the work in the client work map and in the queue of old work,
  the work whose result was written, and the work that was lost in one of the four ways
  \<open>losses\<close> names; so a run without those loses nothing.\<close>

theorem work_conserved:
  assumes "0 < base" and "allocator_law (ev_newbuf env)"
    and "Server_init env mem wmem base mx n f dir fileList opened contents = Inr s0"
    and "server_run env es s0 = Inr s"
  shows "mset (handed s) = outstanding s + mset (written_work s) + mset (losses_run env es s0)
    \<and> sv_inv s"
proof -
  have "sv_inv s0" "handed s0 = []" "written_work s0 = []" "outstanding s0 = {#}"
    by (rule Server_init_spec [OF assms(1), of env mem wmem mx n f dir fileList opened contents];
        use assms(3) in simp)+
  then show ?thesis
    using server_run_moves [OF _ assms(2,4)] by (simp add: moves_def)
qed

section \<open>When the handlers return\<close>

definition data_left :: "'f server_env \<Rightarrow> 'f server \<Rightarrow> bool" where
  "data_left env s \<longleftrightarrow>
     wi_size (fst (DataInterp_GetClientWork (ev_ops env) (DataInterp_GetChunkSize (sv_data s)) (sv_data s))) \<noteq> 0"

definition stamped :: "client \<Rightarrow> 'f server \<Rightarrow> bool" where
  "stamped c s \<longleftrightarrow> cq_stamped (sv_clntQueue s) c"

lemma stamp_client_stamped:
  "stamped c s \<Longrightarrow> \<exists>st. stamp_client c now s = Inr (s\<lparr>sv_stamps := st\<rparr>)"
  by (auto simp: stamped_def cq_stamped_def stamp_client_def Let_def)

lemma stamp_client_not: "\<not> stamped c s \<Longrightarrow> stamp_client c now s = Inl NullDeref"
  by (simp add: stamped_def cq_stamped_def stamp_client_def)

lemma stamped_cong [simp]:
  "stamped c (s\<lparr>sv_data := d\<rparr>) = stamped c s" "stamped c (s\<lparr>sv_workMap := m\<rparr>) = stamped c s"
  "stamped c (s\<lparr>sv_oldWork := old\<rparr>) = stamped c s" "stamped c (s\<lparr>sv_stamps := st\<rparr>) = stamped c s"
  "stamped c (log_event e s) = stamped c s" "stamped c (s\<lparr>sv_nReady := k\<rparr>) = stamped c s"
  by (simp_all add: stamped_def log_event_def)

lemma data_left_cong:
  "sv_data s' = sv_data s \<Longrightarrow> data_left env s' = data_left env s"
  by (simp add: data_left_def)

lemma give_new_send_cases:
  assumes "data_left env s"
  shows "stamped c s \<Longrightarrow> \<exists>s'. give_new_send env now sent c s = Inr (True, s')"
    and "\<not> stamped c s \<Longrightarrow> give_new_send env now sent c s = Inl NullDeref"
proof -
  obtain wi bs d where w: "DataInterp_GetClientWork (ev_ops env) (DataInterp_GetChunkSize (sv_data s)) (sv_data s)
      = (wi, bs, d)"
    by (metis prod.collapse)
  have nz: "wi_size wi \<noteq> 0" using assms by (simp add: data_left_def w)
  show "\<exists>s'. give_new_send env now sent c s = Inr (True, s')" if "stamped c s"
  proof -
    have "stamped c (s\<lparr>sv_data := d, sv_workMap := ClientWorkMap_Change c wi (sv_workMap s)\<rparr>)"
      using that by (simp add: stamped_def)
    from stamp_client_stamped [OF this, of now] show ?thesis
      using nz by (auto simp: give_new_send_def w Let_def)
  qed
  show "give_new_send env now sent c s = Inl NullDeref" if "\<not> stamped c s"
  proof -
    have "\<not> stamped c (s\<lparr>sv_data := d, sv_workMap := ClientWorkMap_Change c wi (sv_workMap s)\<rparr>)"
      using that by (simp add: stamped_def)
    from stamp_client_not [OF this, of now] show ?thesis using nz by (simp add: give_new_send_def w Let_def)
  qed
qed

lemma give_old_cases:
  shows "stamped c s \<Longrightarrow> \<exists>s'. Server_GiveOldWork env now sent c wi s = Inr s'"
    and "\<not> stamped c s \<Longrightarrow> Server_GiveOldWork env now sent c wi s = Inl NullDeref"
proof -
  obtain wi' bs d where w: "DataInterp_GetClientWorkPrev (ev_ops env) (wi_size wi) wi (sv_data s) = (wi', bs, d)"
    by (metis prod.collapse)
  show "\<exists>s'. Server_GiveOldWork env now sent c wi s = Inr s'" if "stamped c s"
  proof -
    have "stamped c (s\<lparr>sv_data := d, sv_workMap := ClientWorkMap_Change c wi (sv_workMap s)\<rparr>)"
      using that by (simp add: stamped_def)
    from stamp_client_stamped [OF this, of now] show ?thesis
      by (auto simp: Server_GiveOldWork_def w Let_def)
  qed
  show "Server_GiveOldWork env now sent c wi s = Inl NullDeref" if "\<not> stamped c s"
  proof -
    have "\<not> stamped c (s\<lparr>sv_data := d, sv_workMap := ClientWorkMap_Change c wi (sv_workMap s)\<rparr>)"
      using that by (simp add: stamped_def)
    from stamp_client_not [OF this, of now] show ?thesis by (simp add: Server_GiveOldWork_def w Let_def)
  qed
qed

lemma FindClientForWork_keeps:
  "ClientQueue_FindClientForWork q = Inr (r, q') \<Longrightarrow> cq_obj q' = cq_obj q \<and> cq_perfModel q' = cq_perfModel q"
  by (auto simp: ClientQueue_FindClientForWork_def Let_def elim!: rbind_InrE split: option.splits)

text \<open>A turn when client \<open>c\<close> is the first one waiting.\<close>

lemma work_turn_first:
  assumes inv: "sv_inv s" and first: "sv_waiting s = c # cs"
  obtains s2 where "sv_inv s2" and "stamped c s2 = stamped c s" and "data_left env s2 = data_left env s"
    and "sv_waiting s2 = cs" and "sv_old s2 = tl (sv_old s)" and "sv_workMap s2 = sv_workMap s"
    and "handed s2 = handed s" and "written_work s2 = written_work s" and "sv_trace s2 = sv_trace s"
    and "\<exists>q old. s2 = s\<lparr>sv_clntQueue := q, sv_oldWork := old\<rparr> \<and> cq_stamped q = cq_stamped (sv_clntQueue s)
      \<and> cq_perfModel q = cq_perfModel (sv_clntQueue s) \<and> cq_obj q = cq_obj (sv_clntQueue s)"
    and "\<And>wi ws. sv_old s = wi # ws \<Longrightarrow> work_turn env now sent s
      = rbind (Server_GiveOldWork env now sent c wi s2) (\<lambda>s3. Inr (GaveWork, s3))"
    and "sv_old s = [] \<Longrightarrow> work_turn env now sent s
      = rbind (Server_GiveNewWork env now sent c s2) (\<lambda>(more, s3). Inr (if more then GaveWork else WorkDone, s3))"
proof -
  obtain q where q: "ClientQueue_FindClientForWork (sv_clntQueue s)
      = Inr (case sv_waiting s of [] \<Rightarrow> None | c # _ \<Rightarrow> Some c, q)" "cq_inv MAXCLIENTS q"
    "cq_stamped q = cq_stamped (sv_clntQueue s)" "cq_fast q @ cq_other q = tl (sv_waiting s)"
    by (rule find_waiting [OF inv])
  define s1 where "s1 = s\<lparr>sv_clntQueue := q\<rparr>"
  have i1: "sv_inv s1" "sv_old s1 = sv_old s" using inv q by (simp_all add: s1_def sv_inv_def sv_old_def)
  obtain old where old: "queue_pop (sv_oldWork s1) = Inr (case sv_old s1 of [] \<Rightarrow> None | w # _ \<Rightarrow> Some w, old)"
    "lfq_inv old" "lfq_cap old = MAXCLIENTS" "lfq_contents old = tl (sv_old s1)"
    by (rule pop_old [OF i1(1)])
  define s2 where "s2 = s1\<lparr>sv_oldWork := old\<rparr>"
  show thesis
  proof (rule that [of s2])
    show "sv_inv s2" using i1 old by (simp add: s2_def sv_inv_def)
    show "stamped c s2 = stamped c s" using q by (simp add: s2_def s1_def stamped_def)
    show "data_left env s2 = data_left env s" by (rule data_left_cong) (simp add: s2_def s1_def)
    show "\<exists>q old. s2 = s\<lparr>sv_clntQueue := q, sv_oldWork := old\<rparr> \<and> cq_stamped q = cq_stamped (sv_clntQueue s)
      \<and> cq_perfModel q = cq_perfModel (sv_clntQueue s) \<and> cq_obj q = cq_obj (sv_clntQueue s)"
      using q(3) FindClientForWork_keeps [OF q(1)] by (auto simp: s2_def s1_def)
  qed (use q old i1 first in \<open>auto simp: s2_def s1_def sv_waiting_def sv_old_def handed_def written_work_def
        work_turn_def Let_def\<close>)
qed

lemma work_turn_returns:
  assumes inv: "sv_inv s" and st: "\<forall>c. sv_waiting s \<noteq> [] \<longrightarrow> c = hd (sv_waiting s) \<longrightarrow> stamped c s"
    and w: "sv_waiting s \<noteq> [] \<longrightarrow> sv_old s \<noteq> [] \<or> data_left env s"
  shows "\<exists>r s'. work_turn env now sent s = Inr (r, s')"
proof (cases "sv_waiting s")
  case Nil
  then show ?thesis
    by (rule_tac find_waiting [OF inv]) (simp add: work_turn_def Let_def)
next
  case first: (Cons c cs)
  obtain s2 where s2: "stamped c s2 = stamped c s" "data_left env s2 = data_left env s"
    "\<And>wi ws. sv_old s = wi # ws \<Longrightarrow> work_turn env now sent s
      = rbind (Server_GiveOldWork env now sent c wi s2) (\<lambda>s3. Inr (GaveWork, s3))"
    "sv_old s = [] \<Longrightarrow> work_turn env now sent s
      = rbind (Server_GiveNewWork env now sent c s2) (\<lambda>(more, s3). Inr (if more then GaveWork else WorkDone, s3))"
    using work_turn_first [OF inv first, of env now sent] by metis
  have c: "stamped c s2" using s2(1) st first by simp
  show ?thesis
  proof (cases "sv_old s")
    case (Cons wi ws)
    then show ?thesis using s2(3) give_old_cases(1) [OF c, of env now sent wi] by auto
  next
    case Nil
    then have "data_left env s2" using w first s2(2) by simp
    then obtain s' where "give_new_send env now sent c s2 = Inr (True, s')"
      using give_new_send_cases(1) [OF _ c, of env now sent] by blast
    then show ?thesis using s2(4) [OF Nil] by (simp add: Server_GiveNewWork_def)
  qed
qed

lemma disconnect_returns:
  assumes inv: "sv_inv s"
  shows "\<exists>s'. Server_DisconnectHandler c s = Inr s'"
proof -
  define s0 where "s0 = s\<lparr>sv_clntQueue := ClientQueue_RemoveClient c (sv_clntQueue s)\<rparr>"
  have i0: "sv_inv s0" using inv cq.remove_spec by (auto simp: s0_def sv_inv_def)
  obtain w s2 where t: "complete_take c s0 = (w, s2)" by fastforce
  have "lfq_inv (sv_oldWork s2)" using complete_take_moves(1) [OF i0 t] by (simp add: sv_inv_def)
  then have "\<exists>b old. queue_push wi (sv_oldWork s2) = Inr (b, old)" for wi by (metis lf.pushE)
  then obtain b old where "queue_push wi (sv_oldWork s2) = Inr (b wi, old wi)" for wi by metis
  then show ?thesis
    using t by (cases w) (simp_all add: Server_DisconnectHandler_def s0_def [symmetric] Let_def)
qed

lemma complete_returns:
  assumes inv: "sv_inv s" and st: "stamped c s"
    and wr: "\<forall>wi. map_of (sv_workMap s) c = Some wi \<longrightarrow>
      (\<exists>fm. FileMappingIndexed_Write (ev_mv env) (ev_end_deref env) (wi_curIndex wi) data (sv_tempFileMap s) = Inr fm)"
  shows "\<exists>s'. on_work_complete env now c data s = Inr s'"
proof -
  obtain w s1 where t: "complete_take c s = (w, s1)" by fastforce
  note ct = complete_take_moves [OF inv t]
  have "cq_inv MAXCLIENTS (sv_clntQueue s1)" using ct(1) by (simp add: sv_inv_def)
  then have ev: "\<exists>b q. ClientQueue_EvaluateClient (ev_r32 env) (ev_r64 env) c time (sv_clntQueue s1) = Inr (b, q)" for time
    by (metis cq.evaluateE)
  show ?thesis
  proof (cases w)
    case None
    then show ?thesis using st t by (simp add: on_work_complete_def stamped_def cq_stamped_def Let_def)
  next
    case (Some wi)
    then obtain fm where fm: "FileMappingIndexed_Write (ev_mv env) (ev_end_deref env) (wi_curIndex wi) data
        (sv_tempFileMap s1) = Inr fm"
      using wr ct(2,8) by auto
    define time where "time = ev_r32 env (elapsed now (sv_stamps s (cq_obj (sv_clntQueue s) c)))"
    obtain b q' where e: "ClientQueue_EvaluateClient (ev_r32 env) (ev_r64 env) c time (sv_clntQueue s1) = Inr (b, q')"
      using ev by blast
    have "on_work_complete env now c data s = complete_write env time c wi data s1"
      using st t Some by (simp add: on_work_complete_def stamped_def cq_stamped_def Let_def time_def)
    then show ?thesis using fm e by (simp add: complete_write_def log_event_def Let_def)
  qed
qed


end
