(* ===== verification/ServerFaults.thy ===== *)
theory ServerFaults
  imports ServerRun
begin

text \<open>
  What single events do to the server, and what follows for short runs: a client that leaves
  before it is served, work that is given out a second time, the start and the end of the
  worker threads.  \<open>sample_env\<close> is the environment of the witnesses: files held in memory,
  a bump allocator, exact arithmetic.
\<close>

section \<open>Single events\<close>

lemma add_ready_spec:
  assumes inv: "sv_inv s" and nb: "allocator_law (ev_newbuf env)"
  obtains q where "add_ready env c s = Inr (s\<lparr>sv_clntQueue := q\<rparr>)" and "sv_inv (s\<lparr>sv_clntQueue := q\<rparr>)"
    and "cq_fast q @ cq_other q = cq_fast (sv_clntQueue s) @ push_bounded MAXCLIENTS c (cq_other (sv_clntQueue s))"
    and "cq_stamped q = (cq_stamped (sv_clntQueue s))(c := True)"
    and "cq_perfModel q = cq_perfModel (sv_clntQueue s)"
proof -
  have "cq_inv MAXCLIENTS (sv_clntQueue s)" using inv by (simp add: sv_inv_def)
  then obtain q where q: "ClientQueue_AddClient (ev_newbuf env) c (sv_clntQueue s) = Inr q"
    "cq_inv MAXCLIENTS q" "cq_fast q = cq_fast (sv_clntQueue s)"
    "cq_other q = push_bounded MAXCLIENTS c (cq_other (sv_clntQueue s))"
    "cq_stamped q = (cq_stamped (sv_clntQueue s))(c := True)"
    using AddClient_spec [OF nb] by blast
  have "cq_perfModel q = cq_perfModel (sv_clntQueue s)"
    using q(1) by (auto simp: ClientQueue_AddClient_def Let_def elim!: rbind_InrE split: prod.splits if_splits)
  then show thesis
    by (intro that [of q]) (use q inv in \<open>simp_all add: add_ready_def sv_inv_def\<close>)
qed

lemma ready_spec:
  assumes inv: "sv_inv s" and nb: "allocator_law (ev_newbuf env)"
  obtains s' where "Server_MsgHandler env now c TYPE_READY MSG_READY_INIT data s = Inr s'" and "sv_inv s'"
    and "sv_waiting s' = cq_fast (sv_clntQueue s) @ push_bounded MAXCLIENTS c (cq_other (sv_clntQueue s))"
    and "\<And>x. stamped x s' = (x = c \<or> stamped x s)" and "sv_old s' = sv_old s" and "sv_workMap s' = sv_workMap s"
    and "sv_data s' = sv_data s" and "sv_trace s' = sv_trace s" and "sv_threadInitialized s'"
    and "sv_threadPool s' = (if sv_threadInitialized s then sv_threadPool s
      else ThreadPool_Initialize (sv_threadPool s))" and "sv_exitThread s' = sv_exitThread s"
    and "sv_tempFileMap s' = sv_tempFileMap s" and "sv_reorderCounter s' = sv_reorderCounter s"
    and "cq_perfModel (sv_clntQueue s') = cq_perfModel (sv_clntQueue s)"
proof -
  obtain q where q: "add_ready env c s = Inr (s\<lparr>sv_clntQueue := q\<rparr>)" "sv_inv (s\<lparr>sv_clntQueue := q\<rparr>)"
    "cq_fast q @ cq_other q = cq_fast (sv_clntQueue s) @ push_bounded MAXCLIENTS c (cq_other (sv_clntQueue s))"
    "cq_stamped q = (cq_stamped (sv_clntQueue s))(c := True)" "cq_perfModel q = cq_perfModel (sv_clntQueue s)"
    by (rule add_ready_spec [OF inv nb])
  define s' where "s' = (if \<not> sv_threadInitialized s
    then s\<lparr>sv_clntQueue := q, sv_threadInitialized := True,
           sv_threadPool := ThreadPool_Initialize (sv_threadPool s), sv_startTime := now\<rparr>
    else s\<lparr>sv_clntQueue := q\<rparr>)"
  show thesis
  proof (rule that [of s'])
    show "Server_MsgHandler env now c TYPE_READY MSG_READY_INIT data s = Inr s'"
      using q(1) by (simp add: Server_MsgHandler_def message_defs s'_def)
  qed (use q in \<open>auto simp: s'_def sv_inv_def sv_waiting_def stamped_def sv_old_def\<close>)
qed

lemma disconnect_spec:
  assumes inv: "sv_inv s"
  obtains s' where "Server_DisconnectHandler c s = Inr s'" and "sv_inv s'"
    and "sv_waiting s' = sv_waiting s" and "\<And>x. stamped x s' = (x \<noteq> c \<and> stamped x s)"
    and "sv_old s' = (if length (sv_old s) < MAXCLIENTS then sv_old s @ entry_of c (sv_workMap s) else sv_old s)"
    and "sv_data s' = sv_data s" and "sv_trace s' = sv_trace s"
proof -
  define s0 where "s0 = s\<lparr>sv_clntQueue := ClientQueue_RemoveClient c (sv_clntQueue s)\<rparr>"
  have rm: "cq_inv MAXCLIENTS (sv_clntQueue s0)" "cq_fast (sv_clntQueue s0) = cq_fast (sv_clntQueue s)"
    "cq_other (sv_clntQueue s0) = cq_other (sv_clntQueue s)"
    "cq_stamped (sv_clntQueue s0) = (cq_stamped (sv_clntQueue s))(c := False)"
    using inv cq.remove_spec by (auto simp: s0_def sv_inv_def)
  have i0: "sv_inv s0" using inv rm by (simp add: s0_def sv_inv_def)
  obtain w m where g: "ClientWorkMap_GetClientWork c (sv_workMap s0) = (w, m)" by fastforce
  define s2 where "s2 = s0\<lparr>sv_workMap := m\<rparr>"
  have t: "complete_take c s0 = (w, s2)" by (simp add: complete_take_def g s2_def)
  note ct = complete_take_moves [OF i0 t]
  have w: "(case w of None \<Rightarrow> [] | Some wi \<Rightarrow> [wi]) = entry_of c (sv_workMap s)"
    using ct(2) by (simp add: entry_of_def s0_def)
  have old: "lfq_inv (sv_oldWork s2)" "lfq_cap (sv_oldWork s2) = MAXCLIENTS" "lfq_contents (sv_oldWork s2) = sv_old s"
    using ct(1) by (simp_all add: sv_inv_def s2_def s0_def sv_old_def)
  show thesis
  proof (cases w)
    case None
    show thesis
      by (rule that [of "s2\<lparr>sv_nReady := sv_nReady s2 - 1\<rparr>"])
        (use None t w rm ct(1) old in \<open>auto simp: Server_DisconnectHandler_def s0_def [symmetric] Let_def sv_inv_def
          s2_def sv_waiting_def stamped_def sv_old_def\<close>, simp_all add: s0_def)
  next
    case (Some wi)
    obtain b q where p: "queue_push wi (sv_oldWork s2) = Inr (b, q)" "b = (length (sv_old s) < MAXCLIENTS)"
      "lfq_inv q" "lfq_cap q = MAXCLIENTS"
      "lfq_contents q = (if b then sv_old s @ [wi] else sv_old s)"
      by (rule lf.pushE [OF old(1), of wi]) (use old in auto)
    show thesis
      by (rule that [of "s2\<lparr>sv_oldWork := q, sv_nReady := sv_nReady s2 - 1\<rparr>"])
        (use Some t w rm ct(1) p in \<open>auto simp: Server_DisconnectHandler_def s0_def [symmetric] Let_def sv_inv_def
          s2_def sv_waiting_def stamped_def sv_old_def\<close>, simp_all add: s0_def)
  qed
qed

lemma turn_unstamped:
  assumes "sv_inv s" and "sv_waiting s = c # cs" and "\<not> stamped c s" and "sv_old s \<noteq> [] \<or> data_left env s"
  shows "work_turn env now sent s = Inl NullDeref"
proof -
  obtain s2 where s2: "stamped c s2 = stamped c s" "data_left env s2 = data_left env s"
    "\<And>wi ws. sv_old s = wi # ws \<Longrightarrow> work_turn env now sent s
      = rbind (Server_GiveOldWork env now sent c wi s2) (\<lambda>s3. Inr (GaveWork, s3))"
    "sv_old s = [] \<Longrightarrow> work_turn env now sent s
      = rbind (Server_GiveNewWork env now sent c s2) (\<lambda>(more, s3). Inr (if more then GaveWork else WorkDone, s3))"
    using work_turn_first [OF assms(1,2), of env now sent] by metis
  have c: "\<not> stamped c s2" using s2(1) assms(3) by simp
  show ?thesis
  proof (cases "sv_old s")
    case (Cons wi ws)
    then show ?thesis using s2(3) give_old_cases(2) [OF c, of env now sent wi] by simp
  next
    case Nil
    then have "data_left env s2" using assms(4) s2(2) by simp
    then show ?thesis using s2(4) [OF Nil] give_new_send_cases(2) [OF _ c, of env now sent]
      by (simp add: Server_GiveNewWork_def)
  qed
qed


text \<open>A turn that gives old work whose send succeeds, then the result of that work.\<close>

lemma turn_old_sent:
  assumes inv: "sv_inv s" and first: "sv_waiting s = c # cs" and old: "sv_old s = wi # ws" and st: "stamped c s"
  obtains s' bs where "work_turn env now True s = Inr (GaveWork, s')" and "sv_inv s'" and "stamped c s'"
    and "sv_trace s' = sv_trace s @ [SentOld c wi TYPE_WORK MSG_WORK_NEW bs True]"
    and "map_of (sv_workMap s') c = None" and "sv_old s' = ws" and "sv_waiting s' = cs"
proof -
  obtain s2 where s2: "sv_inv s2" "stamped c s2 = stamped c s" "sv_waiting s2 = cs" "sv_old s2 = tl (sv_old s)"
    "sv_workMap s2 = sv_workMap s" "sv_trace s2 = sv_trace s"
    "work_turn env now True s = rbind (Server_GiveOldWork env now True c wi s2) (\<lambda>s3. Inr (GaveWork, s3))"
    using work_turn_first [OF inv first, of env now True] old by metis
  obtain wi' bs d where w: "DataInterp_GetClientWorkPrev (ev_ops env) (wi_size wi) wi (sv_data s2) = (wi', bs, d)"
    by (metis prod.collapse)
  have wm: "ClientWorkMap_inv (sv_workMap s2)" using s2(1) by (simp add: sv_inv_def)
  let ?m = "ClientWorkMap_Change c wi (sv_workMap s2)"
  have "stamped c (s2\<lparr>sv_data := d, sv_workMap := ?m\<rparr>)" using s2(2) st by (simp add: stamped_def)
  then obtain stp where "stamp_client c now (s2\<lparr>sv_data := d, sv_workMap := ?m\<rparr>)
      = Inr (s2\<lparr>sv_data := d, sv_workMap := ?m, sv_stamps := stp\<rparr>)"
    using stamp_client_stamped [of c _ now] by fastforce
  let ?s = "(log_event (SentOld c wi TYPE_WORK MSG_WORK_NEW bs True)
    (s2\<lparr>sv_data := d, sv_workMap := ?m, sv_stamps := stp\<rparr>))\<lparr>sv_workMap := erase_entry c (sv_workMap s2)\<rparr>"
  have g: "Server_GiveOldWork env now True c wi s2 = Inr ?s"
    using \<open>stamp_client c now _ = _\<close>
    by (simp add: Server_GiveOldWork_def w Let_def log_event_def ClientWorkMap_Remove_def erase_Change [OF wm])
  have gone: "map_of (erase_entry c m) c = None" for m :: work_map
    by (auto simp: erase_entry_def map_of_eq_None_iff)
  have i: "ClientWorkMap_inv (erase_entry c (sv_workMap s2))"
    using wm by (simp add: ClientWorkMap_inv_def distinct_erase_entry)
  show thesis
    by (rule that [of ?s]) (use s2 g gone i st old in \<open>auto simp: log_event_def sv_inv_def stamped_def sv_old_def sv_waiting_def\<close>)
qed

lemma complete_without_entry:
  assumes inv: "sv_inv s" and st: "stamped c s" and none: "map_of (sv_workMap s) c = None"
  obtains s' where "Server_MsgHandler env now c TYPE_WORK MSG_WORK_COMPLETE data s = Inr s'"
    and "sv_trace s' = sv_trace s @ [DisconnectedClient c]" and "sv_old s' = sv_old s"
    and "map_of (sv_workMap s') c = None"
proof -
  obtain w m where g: "ClientWorkMap_GetClientWork c (sv_workMap s) = (w, m)" by fastforce
  have wm: "ClientWorkMap_inv (sv_workMap s)" using inv by (simp add: sv_inv_def)
  have w: "w = None" using wm.get_result [OF wm, of c] g none by simp
  have m: "m = sv_workMap s" using g none by (auto simp: ClientWorkMap_GetClientWork_def)
  show thesis
    by (rule that [of "log_event (DisconnectedClient c) (s\<lparr>sv_workMap := m\<rparr>)"])
      (use st g w m none in \<open>auto simp: Server_MsgHandler_def on_work_complete_def complete_take_def Let_def
        stamped_def cq_stamped_def message_defs log_event_def sv_old_def\<close>)
qed

text \<open>A turn that gives new work whose send succeeds.\<close>

lemma turn_new_sent:
  assumes inv: "sv_inv s" and first: "sv_waiting s = c # cs" and old: "sv_old s = []" and st: "stamped c s"
    and w: "DataInterp_GetClientWork (ev_ops env) (DataInterp_GetChunkSize (sv_data s)) (sv_data s) = (wi, bs, d)"
    and nz: "wi_size wi \<noteq> 0"
  obtains s' where "work_turn env now True s = Inr (GaveWork, s')" and "sv_inv s'"
    and "\<And>x. stamped x s' = stamped x s" and "sv_waiting s' = cs" and "sv_old s' = []" and "sv_data s' = d"
    and "sv_workMap s' = ClientWorkMap_Change c wi (sv_workMap s)"
    and "sv_trace s' = sv_trace s @ [SentNew c wi TYPE_WORK MSG_WORK_NEW (take (unat (wi_size wi)) bs) True]"
    and "sv_tempFileMap s' = sv_tempFileMap s" and "sv_reorderCounter s' = sv_reorderCounter s"
    and "cq_perfModel (sv_clntQueue s') = cq_perfModel (sv_clntQueue s)"
proof -
  obtain s2 where s2: "sv_inv s2" "stamped c s2 = stamped c s" "sv_waiting s2 = cs" "sv_old s2 = tl (sv_old s)"
    "\<exists>q old. s2 = s\<lparr>sv_clntQueue := q, sv_oldWork := old\<rparr> \<and> cq_stamped q = cq_stamped (sv_clntQueue s)
      \<and> cq_perfModel q = cq_perfModel (sv_clntQueue s) \<and> cq_obj q = cq_obj (sv_clntQueue s)"
    "work_turn env now True s
      = rbind (Server_GiveNewWork env now True c s2) (\<lambda>(more, s3). Inr (if more then GaveWork else WorkDone, s3))"
    using work_turn_first [OF inv first, of env now True] old by metis
  have wm: "ClientWorkMap_inv (sv_workMap s2)" using s2(1) by (simp add: sv_inv_def)
  let ?m = "ClientWorkMap_Change c wi (sv_workMap s2)"
  have ch: "ClientWorkMap_inv ?m" using wm by (rule wm.invar_change)
  have "stamped c (s2\<lparr>sv_data := d, sv_workMap := ?m\<rparr>)" using s2(2) st by (simp add: stamped_def)
  then obtain stp where sc: "stamp_client c now (s2\<lparr>sv_data := d, sv_workMap := ?m\<rparr>)
      = Inr (s2\<lparr>sv_data := d, sv_workMap := ?m, sv_stamps := stp\<rparr>)"
    using stamp_client_stamped [of c _ now] by fastforce
  let ?s = "log_event (SentNew c wi TYPE_WORK MSG_WORK_NEW (take (unat (wi_size wi)) bs) True)
    (s2\<lparr>sv_data := d, sv_workMap := ?m, sv_stamps := stp\<rparr>)"
  have "DataInterp_GetClientWork (ev_ops env) (DataInterp_GetChunkSize (sv_data s2)) (sv_data s2) = (wi, bs, d)"
    using w s2(5) by auto
  then have "Server_GiveNewWork env now True c s2 = Inr (True, ?s)"
    using sc nz by (simp add: Server_GiveNewWork_def give_new_send_def Let_def)
  then show thesis
    by (intro that [of ?s]) (use s2 ch old in \<open>auto simp: log_event_def sv_inv_def stamped_def sv_old_def sv_waiting_def\<close>)
qed

section \<open>Clients that leave, work that comes back\<close>

text \<open>C26: a client that says it is ready and leaves before a worker takes it brings the server down:
  it stays in the queue without its time stamp, and the first worker that has something to
  give dereferences the null pointer.\<close>

theorem ready_then_disconnect_faults:
  assumes "sv_inv s" and "allocator_law (ev_newbuf env)" and "sv_waiting s = []"
    and "sv_old s \<noteq> [] \<or> data_left env s"
  shows "server_run env [(t1, Message c TYPE_READY MSG_READY_INIT data), (t2, Disconnected c), (t3, Turn sent)] s
    = Inl NullDeref"
proof -
  obtain s1 where s1: "Server_MsgHandler env t1 c TYPE_READY MSG_READY_INIT data s = Inr s1" "sv_inv s1"
    "sv_waiting s1 = cq_fast (sv_clntQueue s) @ push_bounded MAXCLIENTS c (cq_other (sv_clntQueue s))"
    "sv_old s1 = sv_old s" "sv_data s1 = sv_data s"
    using ready_spec [OF assms(1,2), of t1 c data] by metis
  obtain s2 where s2: "Server_DisconnectHandler c s1 = Inr s2" "sv_inv s2" "sv_waiting s2 = sv_waiting s1"
    "\<And>x. stamped x s2 = (x \<noteq> c \<and> stamped x s1)"
    "sv_old s2 = (if length (sv_old s1) < MAXCLIENTS then sv_old s1 @ entry_of c (sv_workMap s1) else sv_old s1)"
    "sv_data s2 = sv_data s1"
    using disconnect_spec [OF s1(2), of c] by metis
  have "sv_waiting s2 = [c]"
    using assms(3) s1(3) s2(3) by (simp add: sv_waiting_def push_bounded_def MAXCLIENTS_def)
  moreover have "sv_old s2 \<noteq> [] \<or> data_left env s2"
    using assms(4) s1(4,5) s2(5,6) data_left_cong [of s2 s] by auto
  ultimately show ?thesis
    using turn_unstamped [OF s2(2), of c "[]"] s2(4) s1(1) s2(1) by simp
qed

text \<open>C27: work that is given out again is lost.  When the old work is sent, its entry in the map is
  removed at once, so the result that comes back is not written: the client is disconnected,
  and the work is neither in the map nor in the queue of old work.\<close>

theorem redone_work_rejected:
  assumes "sv_inv s" and "sv_waiting s = c # cs" and "sv_old s = wi # ws" and "stamped c s"
  shows "\<exists>s' bs. server_run env [(t1, Turn True), (t2, Message c TYPE_WORK MSG_WORK_COMPLETE data)] s = Inr s'
    \<and> sv_trace s' = sv_trace s @ [SentOld c wi TYPE_WORK MSG_WORK_NEW bs True, DisconnectedClient c]
    \<and> written_work s' = written_work s \<and> sv_old s' = ws \<and> map_of (sv_workMap s') c = None"
proof -
  obtain s1 bs where s1: "work_turn env t1 True s = Inr (GaveWork, s1)" "sv_inv s1" "stamped c s1"
    "sv_trace s1 = sv_trace s @ [SentOld c wi TYPE_WORK MSG_WORK_NEW bs True]"
    "map_of (sv_workMap s1) c = None" "sv_old s1 = ws"
    by (rule turn_old_sent [OF assms])
  obtain s2 where s2: "Server_MsgHandler env t2 c TYPE_WORK MSG_WORK_COMPLETE data s1 = Inr s2"
    "sv_trace s2 = sv_trace s1 @ [DisconnectedClient c]" "sv_old s2 = sv_old s1"
    "map_of (sv_workMap s2) c = None"
    by (rule complete_without_entry [OF s1(2,3,5)])
  have "sv_trace s2 = sv_trace s @ [SentOld c wi TYPE_WORK MSG_WORK_NEW bs True, DisconnectedClient c]"
    using s1(4) s2(2) by simp
  then have "written_work s2 = written_work s" by (simp add: written_work_def)
  then show ?thesis using s1 s2 by auto
qed

section \<open>The worker threads\<close>

lemma start_all: "fold ThreadPool_InitializeTheadIndex [0..<n] threads = replicate (min n (length threads)) Running @ drop n threads"
proof (induction n)
  case (Suc n)
  show ?case
  proof (cases "n < length threads")
    case True
    then have "(replicate n Running @ drop n threads)[n := Running] = replicate (Suc n) Running @ drop (Suc n) threads"
      by (simp add: list_update_append Cons_nth_drop_Suc [symmetric] replicate_append_same)
    then show ?thesis using Suc True by (simp add: ThreadPool_InitializeTheadIndex_def)
  next
    case False
    then show ?thesis using Suc by (simp add: ThreadPool_InitializeTheadIndex_def min_def list_update_beyond)
  qed
qed simp

lemma Initialize_all: "ThreadPool_Initialize threads = replicate (length threads) Running"
  by (simp add: ThreadPool_Initialize_def start_all)

lemma join_running:
  "join_loop ends i (replicate n Running)
    = (if \<forall>j<n. ends (i + j) then Inr (replicate n NoThread) else Inl NoReturn)"
proof (induction n arbitrary: i)
  case (Suc n)
  have "(\<forall>j<Suc n. ends (i + j)) \<longleftrightarrow> ends i \<and> (\<forall>j<n. ends (Suc i + j))"
    by (auto simp: less_Suc_eq_0_disj)
  then show ?case using Suc by auto
qed simp

text \<open>C35: starting and stopping.  The threads are started by the first client that is ready; a
  server that is shut down before that terminates the program with an uncaught exception,
  because threads that were never started are joined.  Afterwards \<open>Shutdown\<close> returns exactly
  when every thread ends, and a second call (the destructor's) does nothing.\<close>

theorem shutdown_needs_a_ready_client:
  assumes "0 < base" and "allocator_law (ev_newbuf env)" and "0 < n"
    and "Server_init env mem wmem base mx n f dir fileList opened contents = Inr s0"
  shows "Server_Shutdown ends s0 = Inl Uncaught
    \<and> (\<exists>s1. Server_MsgHandler env now c TYPE_READY MSG_READY_INIT data s0 = Inr s1
        \<and> sv_threadPool s1 = replicate n Running
        \<and> (if \<forall>i<n. ends i
           then \<exists>s2. Server_Shutdown ends s1 = Inr s2 \<and> sv_exitThread s2 \<and> sv_trace s2 = sv_trace s1 @ [DestroyedServer]
             \<and> Server_Shutdown never s2 = Inr s2
           else Server_Shutdown ends s1 = Inl NoReturn))"
proof -
  have s0: "sv_inv s0" "sv_threadPool s0 = replicate n NoThread" "\<not> sv_exitThread s0" "\<not> sv_threadInitialized s0"
    by (rule Server_init_spec [OF assms(1), of env mem wmem mx n f dir fileList opened contents];
        use assms(4) in simp)+
  obtain s1 where s1: "Server_MsgHandler env now c TYPE_READY MSG_READY_INIT data s0 = Inr s1"
    "sv_threadPool s1 = replicate n Running" "\<not> sv_exitThread s1"
    using ready_spec [OF s0(1) assms(2), of now c data] s0 by (metis Initialize_all length_replicate)
  have "Server_Shutdown ends s0 = Inl Uncaught"
    using s0 assms(3) by (cases n) (simp_all add: Server_Shutdown_def ThreadPool_Wait_def)
  moreover have "if \<forall>i<n. ends i
      then \<exists>s2. Server_Shutdown ends s1 = Inr s2 \<and> sv_exitThread s2 \<and> sv_trace s2 = sv_trace s1 @ [DestroyedServer]
        \<and> Server_Shutdown never s2 = Inr s2
      else Server_Shutdown ends s1 = Inl NoReturn"
    using s1 by (simp add: Server_Shutdown_def ThreadPool_Wait_def join_running log_event_def)
  ultimately show ?thesis using s1 by blast
qed


section \<open>Witnesses\<close>

definition sample_env :: "(byte list \<times> nat) server_env" where
  "sample_env = \<lparr>ev_ops = mem_file_ops [1,0,0,0,2,0,0,0], ev_newbuf = sum_newbuf, ev_r32 = (\<lambda>x. x),
     ev_r64 = (\<lambda>x. x), ev_mv = full_view 65536, ev_gran = 65536, ev_end_deref = Some 0,
     ev_temp = Some (replicate 8 0), ev_handle = (\<lambda>bs. (bs, 0)), ev_data = [1,0,0,0,2,0,0,0],
     ev_alg = (\<lambda>w. w), ev_fuel = 9, ev_listbuf = []\<rparr>"

lemma sample_law: "allocator_law (ev_newbuf sample_env)"
  by (simp add: sample_env_def sum_newbuf_law)

definition sample_memory :: queue_memory where
  "sample_memory = \<lparr>qm_next = (\<lambda>_. tagged 0 0), qm_data = (\<lambda>_. 0), qm_pool = (\<lambda>_. 0)\<rparr>"

definition sample_init :: "(byte list \<times> nat) server res" where
  "sample_init = Server_init sample_env sample_memory (\<lambda>_. WorkInfo_default) 1 (4 + of_nat MSG_OFFSET) 2 ([], 0) [] []
     True (Some (replicate 8 0))"

definition sample_data :: "nat \<Rightarrow> (byte list \<times> nat) data_state" where
  "sample_data i = \<lparr>d_file = ([1,0,0,0,2,0,0,0], 4 * i), d_fileSize = 8, d_cursorPos = of_nat (4 * i),
     d_chunkSize = 4, d_curIndex = of_nat i\<rparr>"

lemma sample_work:
  "DataInterp_GetClientWork (ev_ops sample_env) (DataInterp_GetChunkSize (sample_data 0)) (sample_data 0)
    = (WorkInfo 4 4 0, [1,0,0,0], sample_data 1)"
  by (simp add: sample_env_def mem_file_ops_def DataInterp_defs Data_GetChunkSize_def
      Data_GetClientWork_def sample_data_def slice_at_def WorkInfo_def)

lemma sample_initE:
  obtains s where "sample_init = Inr s" and "sv_inv s" and "sv_waiting s = []" and "sv_old s = []"
    and "sv_workMap s = []" and "sv_threadPool s = replicate 2 NoThread" and "sv_data s = sample_data 0"
    and "data_left sample_env s"
proof -
  obtain s where s: "sample_init = Inr s" "sv_inv s" "sv_waiting s = []" "sv_old s = []"
    "sv_workMap s = []" "sv_threadPool s = replicate 2 NoThread"
    "sv_data s = DataInterp_LoadData (ev_ops sample_env) 1 (4 + of_nat MSG_OFFSET - of_nat MSG_OFFSET) (Data_init ([], 0))"
    unfolding sample_init_def
    by (rule Server_init_spec [of 1 sample_env sample_memory "\<lambda>_. WorkInfo_default" "4 + of_nat MSG_OFFSET" 2
      "([], 0)" "[]" "[]" True "Some (replicate 8 0)"]) auto
  have d: "sv_data s = sample_data 0"
    by (simp add: s(7) sample_env_def mem_file_ops_def DataInterp_defs Data_LoadData_def Data_init_def sample_data_def)
  have "data_left sample_env s" by (simp add: data_left_def d sample_work WorkInfo_def)
  then show thesis using that s d by blast
qed

text \<open>Client 7 is ready, gets work, leaves; client 8 is ready.\<close>

definition sample_events :: "(int \<times> server_event) list" where
  "sample_events = [(1, Message 7 TYPE_READY MSG_READY_INIT []), (2, Turn True), (3, Disconnected 7),
     (4, Message 8 TYPE_READY MSG_READY_INIT [])]"

lemma sample_eventsE:
  assumes "sample_init = Inr s0"
  obtains s where "server_run sample_env sample_events s0 = Inr s" and "sv_inv s" and "sv_waiting s = [8]"
    and "sv_old s = [WorkInfo 4 4 0]" and "stamped 8 s"
proof -
  obtain s' where s': "sample_init = Inr s'" "sv_inv s'" "sv_waiting s' = []" "sv_old s' = []" "sv_workMap s' = []"
    "sv_data s' = sample_data 0"
    by (rule sample_initE)
  have eq: "s' = s0" using trans [OF s'(1) [symmetric] assms] by (rule Inr_inject)
  note s0 = s'(2-6) [unfolded eq]
  obtain s1 where s1: "Server_MsgHandler sample_env 1 7 TYPE_READY MSG_READY_INIT [] s0 = Inr s1" "sv_inv s1"
    "sv_waiting s1 = cq_fast (sv_clntQueue s0) @ push_bounded MAXCLIENTS 7 (cq_other (sv_clntQueue s0))"
    "\<And>x. stamped x s1 = (x = 7 \<or> stamped x s0)" "sv_old s1 = sv_old s0" "sv_workMap s1 = sv_workMap s0" "sv_data s1 = sv_data s0"
    using ready_spec [OF s0(1) sample_law, of 1 7 "[]"] by metis
  have w1: "sv_waiting s1 = [7]" using s0(2) s1(3) by (simp add: sv_waiting_def push_bounded_def MAXCLIENTS_def)
  have o1: "sv_old s1 = []" "stamped 7 s1" using s0 s1 by simp_all
  have d1: "DataInterp_GetClientWork (ev_ops sample_env) (DataInterp_GetChunkSize (sv_data s1)) (sv_data s1)
      = (WorkInfo 4 4 0, [1,0,0,0], sample_data 1)"
    using s0 s1 sample_work by simp
  have "wi_size (WorkInfo 4 4 0) \<noteq> 0" by (simp add: WorkInfo_def)
  then obtain s2 where s2: "work_turn sample_env 2 True s1 = Inr (GaveWork, s2)" "sv_inv s2" "sv_waiting s2 = []"
    "sv_old s2 = []" "sv_workMap s2 = ClientWorkMap_Change 7 (WorkInfo 4 4 0) (sv_workMap s1)"
    using turn_new_sent [OF s1(2) w1 o1 d1, of 2] by metis
  have e2: "entry_of 7 (sv_workMap s2) = [WorkInfo 4 4 0]"
    using s0 s1 s2 by (simp add: entry_of_def ClientWorkMap_Change_def ClientWorkMap_Add_def)
  obtain s3 where s3: "Server_DisconnectHandler 7 s2 = Inr s3" "sv_inv s3" "sv_waiting s3 = sv_waiting s2"
    "sv_old s3 = (if length (sv_old s2) < MAXCLIENTS then sv_old s2 @ entry_of 7 (sv_workMap s2) else sv_old s2)"
    using disconnect_spec [OF s2(2), of 7] by metis
  obtain s4 where s4: "Server_MsgHandler sample_env 4 8 TYPE_READY MSG_READY_INIT [] s3 = Inr s4" "sv_inv s4"
    "sv_waiting s4 = cq_fast (sv_clntQueue s3) @ push_bounded MAXCLIENTS 8 (cq_other (sv_clntQueue s3))"
    "\<And>x. stamped x s4 = (x = 8 \<or> stamped x s3)" "sv_old s4 = sv_old s3"
    using ready_spec [OF s3(2) sample_law, of 4 8 "[]"] by metis
  have w3: "sv_waiting s3 = []" using s2 s3 by simp
  show thesis
  proof (rule that [of s4])
    show "server_run sample_env sample_events s0 = Inr s4"
      using s1(1) s2(1) s3(1) s4(1) by (simp add: sample_events_def)
    show "sv_waiting s4 = [8]" using w3 s4(3) by (simp add: sv_waiting_def push_bounded_def MAXCLIENTS_def)
    show "sv_old s4 = [WorkInfo 4 4 0]" using s2 s3 s4 e2 by (simp add: MAXCLIENTS_def)
  qed (use s4 in auto)
qed

theorem work_conserved_witness:
  "\<exists>s0 s. sample_init = Inr s0 \<and> server_run sample_env sample_events s0 = Inr s
    \<and> mset (handed s) = outstanding s + mset (written_work s) + mset (losses_run sample_env sample_events s0)
    \<and> sv_old s = [WorkInfo 4 4 0]"
proof -
  obtain s0 where s0: "sample_init = Inr s0" by (rule sample_initE)
  obtain s where s: "server_run sample_env sample_events s0 = Inr s" "sv_old s = [WorkInfo 4 4 0]"
    by (rule sample_eventsE [OF s0])
  have "0 < (1 :: nat)" by simp
  from work_conserved [OF this sample_law s0 [unfolded sample_init_def] s(1)] show ?thesis
    using s0 s by blast
qed


theorem ready_then_disconnect_faults_witness:
  "\<exists>s. sample_init = Inr s \<and> server_run sample_env
     [(1, Message 7 TYPE_READY MSG_READY_INIT []), (2, Disconnected 7), (3, Turn True)] s = Inl NullDeref"
proof -
  obtain s where s: "sample_init = Inr s" "sv_inv s" "sv_waiting s = []" "data_left sample_env s"
    by (rule sample_initE)
  show ?thesis
    using ready_then_disconnect_faults [OF s(2) sample_law s(3)] s(1,4) by blast
qed

theorem redone_work_rejected_witness:
  "\<exists>s0 s s'. sample_init = Inr s0 \<and> server_run sample_env sample_events s0 = Inr s
    \<and> server_run sample_env [(5, Turn True), (6, Message 8 TYPE_WORK MSG_WORK_COMPLETE [1,0,0,0])] s = Inr s'
    \<and> sv_old s = [WorkInfo 4 4 0] \<and> sv_old s' = [] \<and> written_work s' = written_work s"
proof -
  obtain s0 where s0: "sample_init = Inr s0" by (rule sample_initE)
  obtain s where s: "server_run sample_env sample_events s0 = Inr s" "sv_inv s" "sv_waiting s = [8]"
    "sv_old s = [WorkInfo 4 4 0]" "stamped 8 s"
    by (rule sample_eventsE [OF s0])
  from redone_work_rejected [OF s(2-5), of sample_env 5 6 "[1,0,0,0]"] show ?thesis
    using s0 s by blast
qed

theorem shutdown_needs_a_ready_client_witness:
  "\<exists>s. sample_init = Inr s \<and> Server_Shutdown (\<lambda>_. True) s = Inl Uncaught"
proof -
  obtain s where s: "sample_init = Inr s" by (rule sample_initE)
  have "0 < (1 :: nat)" and "0 < (2 :: nat)" by simp_all
  from shutdown_needs_a_ready_client [OF this(1) sample_law this(2) s [unfolded sample_init_def],
    of "\<lambda>_. True" 0 7 "[]" "\<lambda>_. True"] show ?thesis
    using s by blast
qed

end
