(* ===== verification/ServerSteps.thy ===== *)
theory ServerSteps
  imports ServerFaults
begin

text \<open>
  The server at work: its worker threads, the handlers of its messages and the thread that
  shuts it down run interleaved.  Each has a program counter (\<open>worker_pc\<close>, \<open>handler_pc\<close>,
  \<open>main_pc\<close>) between two accesses to shared state; \<open>worker_step\<close>, \<open>handler_step\<close> and
  \<open>main_step\<close> are the code from one counter to the next, each one operation of a component
  (which its own lock or the lock-free queue makes atomic).  The relation \<open>sys_step\<close> lets any
  of them take a step, or a message arrive, or a client leave; \<open>sys_run\<close> is its closure.
  Both carry two lists of work: what the step took from the data source, and what it lost.

  A step is taken only if its operation returns: a fault, or the join of a thread that has
  not ended, is a step that does not exist.
\<close>

section \<open>Program counters\<close>

datatype worker_pc =
    WTimer                                  \<comment> \<open>\<open>timer.Wait\<close>, then the check of \<open>exitThread\<close>\<close>
  | WFind                                   \<comment> \<open>\<open>FindClientForWork\<close>\<close>
  | WPop client                             \<comment> \<open>\<open>oldWork.pop\<close>\<close>
  | WNew client                             \<comment> \<open>\<open>GiveNewWork\<close>: \<open>GetClientWork\<close> under \<open>workLock\<close>\<close>
  | WNewMap client work_info "byte list"    \<comment> \<open>\<open>workMap.Change\<close>\<close>
  | WNewStamp client work_info "byte list"  \<comment> \<open>the time stamp\<close>
  | WNewSend client work_info "byte list"   \<comment> \<open>\<open>SendClientData\<close>\<close>
  | WNewRemove client                       \<comment> \<open>\<open>workMap.Remove\<close>: the send failed\<close>
  | WOld client work_info                   \<comment> \<open>\<open>GiveOldWork\<close>: \<open>GetClientWorkPrev\<close>\<close>
  | WOldMap client work_info "byte list"
  | WOldStamp client work_info "byte list"
  | WOldSend client work_info "byte list"
  | WOldRemove client                       \<comment> \<open>\<open>workMap.Remove\<close>: the send succeeded\<close>
  | WCheck                                  \<comment> \<open>\<open>exitThread\<close> after the work was given\<close>
  | WWait                                   \<comment> \<open>the wait loop: \<open>workMap.Empty\<close>\<close>
  | WWaitOld                                \<comment> \<open>the wait loop: \<open>oldWork.empty\<close>\<close>
  | WCount                                  \<comment> \<open>\<open>++reorderCounter\<close>\<close>
  | WComplete                               \<comment> \<open>\<open>OnCompletion\<close>\<close>
  | WDone

datatype handler_pc =
    HMsg client u16 u16 "byte list"         \<comment> \<open>a message has arrived\<close>
  | HAdd client bool                        \<comment> \<open>\<open>clntQueue.AddClient\<close>\<close>
  | HInit                                   \<comment> \<open>\<open>threadInitialized\<close>, \<open>threadPool.Initialize\<close>\<close>
  | HTime client "byte list"                \<comment> \<open>a result: the time since the stamp\<close>
  | HTake client real "byte list"           \<comment> \<open>\<open>workMap.GetClientWork\<close>\<close>
  | HWrite client real work_info "byte list"  \<comment> \<open>\<open>tempFileMap.Write\<close> under \<open>fileMapLock\<close>\<close>
  | HEval client real                       \<comment> \<open>\<open>EvaluateClient\<close>\<close>
  | HKick client                            \<comment> \<open>\<open>SendMsg\<close>, \<open>DisconnectClient\<close>\<close>
  | HReject client                          \<comment> \<open>\<open>DisconnectClient\<close>\<close>
  | HList client
  | HSend client
  | DRemove client                          \<comment> \<open>a client has left: \<open>RemoveClient\<close>\<close>
  | DTake client
  | DPush work_info                         \<comment> \<open>\<open>oldWork.push\<close>\<close>
  | DReady
  | HDone

datatype main_pc = MRun | MJoin | MEnd

section \<open>The steps\<close>

fun worker_step ::
  "'f server_env \<Rightarrow> int \<Rightarrow> bool \<Rightarrow> worker_pc \<Rightarrow> 'f server \<Rightarrow> (worker_pc \<times> 'f server) res" where
  "worker_step env now sent WTimer s = Inr (if sv_exitThread s then WDone else WFind, s)"
| "worker_step env now sent WFind s =
     rbind (ClientQueue_FindClientForWork (sv_clntQueue s)) (\<lambda>(r, q).
       Inr (case r of None \<Rightarrow> WTimer | Some clint \<Rightarrow> WPop clint, s\<lparr>sv_clntQueue := q\<rparr>))"
| "worker_step env now sent (WPop clint) s =
     rbind (queue_pop (sv_oldWork s)) (\<lambda>(w, old).
       Inr (case w of Some wi \<Rightarrow> WOld clint wi | None \<Rightarrow> WNew clint, s\<lparr>sv_oldWork := old\<rparr>))"
| "worker_step env now sent (WNew clint) s =
     (let (wi, bs, d) = DataInterp_GetClientWork (ev_ops env) (DataInterp_GetChunkSize (sv_data s)) (sv_data s);
          s1 = s\<lparr>sv_data := d\<rparr>
      in Inr (if wi_size wi \<noteq> 0 then (WNewMap clint wi bs, s1) else (WWait, log_event FreedBuffer s1)))"
| "worker_step env now sent (WNewMap clint wi bs) s =
     Inr (WNewStamp clint wi bs, s\<lparr>sv_workMap := ClientWorkMap_Change clint wi (sv_workMap s)\<rparr>)"
| "worker_step env now sent (WNewStamp clint wi bs) s =
     rbind (stamp_client clint now s) (\<lambda>s1. Inr (WNewSend clint wi bs, s1))"
| "worker_step env now sent (WNewSend clint wi bs) s =
     Inr (if sent then WCheck else WNewRemove clint,
          log_event (SentNew clint wi TYPE_WORK MSG_WORK_NEW (take (unat (wi_size wi)) bs) sent) s)"
| "worker_step env now sent (WNewRemove clint) s =
     Inr (WCheck, s\<lparr>sv_workMap := snd (ClientWorkMap_Remove clint (sv_workMap s))\<rparr>)"
| "worker_step env now sent (WOld clint wi) s =
     (let (wi', bs, d) = DataInterp_GetClientWorkPrev (ev_ops env) (wi_size wi) wi (sv_data s)
      in Inr (WOldMap clint wi bs, s\<lparr>sv_data := d\<rparr>))"
| "worker_step env now sent (WOldMap clint wi bs) s =
     Inr (WOldStamp clint wi bs, s\<lparr>sv_workMap := ClientWorkMap_Change clint wi (sv_workMap s)\<rparr>)"
| "worker_step env now sent (WOldStamp clint wi bs) s =
     rbind (stamp_client clint now s) (\<lambda>s1. Inr (WOldSend clint wi bs, s1))"
| "worker_step env now sent (WOldSend clint wi bs) s =
     Inr (if sent then WOldRemove clint else WCheck,
          log_event (SentOld clint wi TYPE_WORK MSG_WORK_NEW bs sent) s)"
| "worker_step env now sent (WOldRemove clint) s =
     Inr (WCheck, s\<lparr>sv_workMap := snd (ClientWorkMap_Remove clint (sv_workMap s))\<rparr>)"
| "worker_step env now sent WCheck s = Inr (if sv_exitThread s then WDone else WFind, s)"
| "worker_step env now sent WWait s =
     Inr (if DataInterp_ORDERED
          then (if ClientWorkMap_Empty (sv_workMap s) then WWaitOld else WWait) else WCount, s)"
| "worker_step env now sent WWaitOld s =
     Inr (if queue_empty (sv_oldWork s) then WCount else WWait, s)"
| "worker_step env now sent WCount s =
     (let s1 = s\<lparr>sv_reorderCounter := sv_reorderCounter s + 1\<rparr>
      in Inr (if sv_reorderCounter s1 = 1 then WComplete else WDone, s1))"
| "worker_step env now sent WComplete s =
     rbind (Server_OnCompletion env now s) (\<lambda>s1. Inr (WDone, s1))"
| "worker_step env now sent WDone s = Inr (WDone, s)"

definition dispatch :: "client \<Rightarrow> u16 \<Rightarrow> u16 \<Rightarrow> byte list \<Rightarrow> handler_pc" where
  "dispatch clint type msg data =
     (if type = TYPE_WORK then (if msg = MSG_WORK_COMPLETE then HTime clint data else HDone)
      else if type = TYPE_READY then
        (if msg = MSG_READY_INIT then HAdd clint True
         else if msg = MSG_READY_PROCESS then HAdd clint False else HDone)
      else if type = TYPE_FILETRANSFER then
        (if msg = MSG_FILETRANSFER_LIST then HList clint
         else if msg = MSG_FILETRANSFER_SEND then HSend clint else HDone)
      else HDone)"

fun handler_step ::
  "'f server_env \<Rightarrow> int \<Rightarrow> handler_pc \<Rightarrow> 'f server \<Rightarrow> (handler_pc \<times> 'f server) res" where
  "handler_step env now (HMsg clint type msg data) s = Inr (dispatch clint type msg data, s)"
| "handler_step env now (HAdd clint init) s =
     rbind (add_ready env clint s) (\<lambda>s1. Inr (if init then HInit else HDone, s1))"
| "handler_step env now HInit s =
     Inr (HDone, if \<not> sv_threadInitialized s
       then s\<lparr>sv_threadInitialized := True, sv_threadPool := ThreadPool_Initialize (sv_threadPool s),
              sv_startTime := now\<rparr> else s)"
| "handler_step env now (HTime clint data) s =
     (let obj = cq_obj (sv_clntQueue s) clint
      in if obj = 0 then Inl NullDeref
         else Inr (HTake clint (ev_r32 env (elapsed now (sv_stamps s obj))) data, s))"
| "handler_step env now (HTake clint time data) s =
     (let (w, s1) = complete_take clint s
      in Inr (case w of Some wi \<Rightarrow> HWrite clint time wi data | None \<Rightarrow> HReject clint, s1))"
| "handler_step env now (HWrite clint time wi data) s =
     rbind (FileMappingIndexed_Write (ev_mv env) (ev_end_deref env) (wi_curIndex wi) data (sv_tempFileMap s))
       (\<lambda>fm. Inr (HEval clint time, log_event (Wrote wi data) (s\<lparr>sv_tempFileMap := fm\<rparr>)))"
| "handler_step env now (HEval clint time) s =
     rbind (ClientQueue_EvaluateClient (ev_r32 env) (ev_r64 env) clint time (sv_clntQueue s)) (\<lambda>(keep, q).
       Inr (if keep then HDone else HKick clint, s\<lparr>sv_clntQueue := q\<rparr>))"
| "handler_step env now (HKick clint) s =
     Inr (HDone, log_event (DisconnectedClient clint) (log_event (SentMsg clint TYPE_KICK MSG_KICK_TOOSLOW) s))"
| "handler_step env now (HReject clint) s = Inr (HDone, log_event (DisconnectedClient clint) s)"
| "handler_step env now (HList clint) s =
     rbind (FileSend_SendFileList (ev_listbuf env) (sv_fileSend s)) (\<lambda>strm.
       Inr (HDone, log_event (SentList clint strm) s))"
| "handler_step env now (HSend clint) s =
     rbind (FileSend_QueueSend clint (sv_fileSend s)) (\<lambda>fs. Inr (HDone, s\<lparr>sv_fileSend := fs\<rparr>))"
| "handler_step env now (DRemove clint) s =
     Inr (DTake clint, s\<lparr>sv_clntQueue := ClientQueue_RemoveClient clint (sv_clntQueue s)\<rparr>)"
| "handler_step env now (DTake clint) s =
     (let (w, s1) = complete_take clint s
      in Inr (case w of Some wi \<Rightarrow> DPush wi | None \<Rightarrow> DReady, s1))"
| "handler_step env now (DPush wi) s =
     rbind (queue_push wi (sv_oldWork s)) (\<lambda>(pushed, old). Inr (DReady, s\<lparr>sv_oldWork := old\<rparr>))"
| "handler_step env now DReady s = Inr (HDone, s\<lparr>sv_nReady := sv_nReady s - 1\<rparr>)"
| "handler_step env now HDone s = Inr (HDone, s)"

text \<open>\<open>Shutdown\<close>: the flag first, then the joins, then the rest.\<close>

fun main_step :: "(nat \<Rightarrow> bool) \<Rightarrow> main_pc \<Rightarrow> 'f server \<Rightarrow> (main_pc \<times> 'f server) res" where
  "main_step ends MRun s =
     Inr (if \<not> sv_exitThread s then (MJoin, s\<lparr>sv_exitThread := True\<rparr>) else (MEnd, s))"
| "main_step ends MJoin s =
     rbind (ThreadPool_Wait ends (sv_threadPool s)) (\<lambda>threads.
       Inr (MEnd, log_event DestroyedServer (s\<lparr>sv_threadPool := threads\<rparr>)))"
| "main_step ends MEnd s = Inr (MEnd, s)"

section \<open>The system\<close>

record 'f sys =
  y_srv :: "'f server"
  y_workers :: "worker_pc list"
  y_handlers :: "handler_pc list"
  y_main :: main_pc

definition sys_of :: "'f server \<Rightarrow> 'f sys" where
  "sys_of s = \<lparr>y_srv = s, y_workers = [], y_handlers = [], y_main = MRun\<rparr>"

text \<open>\<open>ThreadPool::Initialize\<close> starts \<open>WorkThread\<close> in every thread.\<close>

definition start_threads :: "'f server \<Rightarrow> 'f server \<Rightarrow> worker_pc list \<Rightarrow> worker_pc list" where
  "start_threads s s' ws =
     (if \<not> sv_threadInitialized s \<and> sv_threadInitialized s'
      then replicate (length (sv_threadPool s')) WTimer else ws)"

text \<open>What a step takes from the data source, and the work it loses.\<close>

fun worker_fetched :: "'f server_env \<Rightarrow> worker_pc \<Rightarrow> 'f server \<Rightarrow> work_info list" where
  "worker_fetched env (WNew clint) s =
     (let wi = fst (DataInterp_GetClientWork (ev_ops env) (DataInterp_GetChunkSize (sv_data s)) (sv_data s))
      in if wi_size wi \<noteq> 0 then [wi] else [])"
| "worker_fetched env _ s = []"

fun worker_lost :: "worker_pc \<Rightarrow> 'f server \<Rightarrow> work_info list" where
  "worker_lost (WNewMap clint wi bs) s = entry_of clint (sv_workMap s)"
| "worker_lost (WNewRemove clint) s = entry_of clint (sv_workMap s)"
| "worker_lost (WOldMap clint wi bs) s = entry_of clint (sv_workMap s)"
| "worker_lost (WOldRemove clint) s = entry_of clint (sv_workMap s)"
| "worker_lost _ s = []"

fun handler_lost :: "handler_pc \<Rightarrow> 'f server \<Rightarrow> work_info list" where
  "handler_lost (DPush wi) s = (if length (sv_old s) < MAXCLIENTS then [] else [wi])"
| "handler_lost _ s = []"

inductive sys_step :: "'f server_env \<Rightarrow> 'f sys \<Rightarrow> work_info list \<Rightarrow> work_info list \<Rightarrow> 'f sys \<Rightarrow> bool"
  for env where
  sys_worker:
    "i < length (y_workers y) \<Longrightarrow> y_workers y ! i \<noteq> WDone \<Longrightarrow>
     worker_step env now sent (y_workers y ! i) (y_srv y) = Inr (pc, s') \<Longrightarrow>
     f = worker_fetched env (y_workers y ! i) (y_srv y) \<Longrightarrow>
     l = worker_lost (y_workers y ! i) (y_srv y) \<Longrightarrow>
     sys_step env y f l (y\<lparr>y_srv := s', y_workers := (y_workers y)[i := pc]\<rparr>)"
| sys_handler:
    "j < length (y_handlers y) \<Longrightarrow> y_handlers y ! j \<noteq> HDone \<Longrightarrow>
     handler_step env now (y_handlers y ! j) (y_srv y) = Inr (pc, s') \<Longrightarrow>
     l = handler_lost (y_handlers y ! j) (y_srv y) \<Longrightarrow>
     sys_step env y [] l
       (y\<lparr>y_srv := s', y_workers := start_threads (y_srv y) s' (y_workers y),
          y_handlers := (y_handlers y)[j := pc]\<rparr>)"
| sys_message:
    "sys_step env y [] [] (y\<lparr>y_handlers := y_handlers y @ [HMsg clint type msg data]\<rparr>)"
| sys_leave:
    "sys_step env y [] [] (y\<lparr>y_handlers := y_handlers y @ [DRemove clint]\<rparr>)"
| sys_main:
    "y_main y \<noteq> MEnd \<Longrightarrow>
     main_step (\<lambda>i. i < length (y_workers y) \<and> y_workers y ! i = WDone) (y_main y) (y_srv y) = Inr (m, s') \<Longrightarrow>
     sys_step env y [] [] (y\<lparr>y_srv := s', y_main := m\<rparr>)"

inductive_cases sys_stepE [elim]: "sys_step env y f l y'"

inductive sys_run :: "'f server_env \<Rightarrow> 'f sys \<Rightarrow> work_info list \<Rightarrow> work_info list \<Rightarrow> 'f sys \<Rightarrow> bool"
  for env y where
  run_refl: "sys_run env y [] [] y"
| run_step: "sys_run env y f l y1 \<Longrightarrow> sys_step env y1 f1 l1 y2 \<Longrightarrow> sys_run env y (f @ f1) (l @ l1) y2"

lemma run_one: "sys_step env y f l y' \<Longrightarrow> sys_run env y f l y'"
  using run_step [OF run_refl] by fastforce

lemma run_trans: "sys_run env y1 f1 l1 y2 \<Longrightarrow> sys_run env y f l y1 \<Longrightarrow> sys_run env y (f @ f1) (l @ l1) y2"
proof (induction rule: sys_run.induct)
  case (run_step f1 l1 y1' f2 l2 y2')
  then show ?case using sys_run.run_step [of env y "f @ f1" "l @ l1" y1' f2 l2 y2'] by simp
qed simp

section \<open>Work is neither duplicated nor lost silently\<close>

text \<open>The work a thread has in its hands: taken from where it was, not yet where it goes.\<close>

fun worker_holds :: "worker_pc \<Rightarrow> work_info list" where
  "worker_holds (WNewMap clint wi bs) = [wi]"
| "worker_holds (WOld clint wi) = [wi]"
| "worker_holds (WOldMap clint wi bs) = [wi]"
| "worker_holds _ = []"

fun handler_holds :: "handler_pc \<Rightarrow> work_info list" where
  "handler_holds (HWrite clint time wi data) = [wi]"
| "handler_holds (DPush wi) = [wi]"
| "handler_holds _ = []"

definition settled :: "'f server \<Rightarrow> work_info multiset" where
  "settled s = outstanding s + mset (written_work s)"

definition places :: "'f sys \<Rightarrow> work_info multiset" where
  "places y = settled (y_srv y) + (\<Sum>pc\<leftarrow>y_workers y. mset (worker_holds pc))
     + (\<Sum>pc\<leftarrow>y_handlers y. mset (handler_holds pc))"

lemma sum_update:
  fixes g :: "'a \<Rightarrow> 'b::comm_monoid_add"
  shows "i < length xs \<Longrightarrow> sum_list (map g (xs[i := x])) + g (xs ! i) = sum_list (map g xs) + g x"
proof (induction xs arbitrary: i)
  case (Cons a xs)
  then show ?case by (cases i) (auto simp: ac_simps)
qed simp

lemma settled_simps [simp]:
  "settled (log_event e s) = settled s + mset (written_of e)"
  "settled (s\<lparr>sv_stamps := st\<rparr>) = settled s" "settled (s\<lparr>sv_data := d\<rparr>) = settled s"
  "settled (s\<lparr>sv_clntQueue := q\<rparr>) = settled s" "settled (s\<lparr>sv_reorderCounter := k\<rparr>) = settled s"
  "settled (s\<lparr>sv_tempFileMap := fm\<rparr>) = settled s" "settled (s\<lparr>sv_startTime := t\<rparr>) = settled s"
  "settled (s\<lparr>sv_nReady := r\<rparr>) = settled s" "settled (s\<lparr>sv_fileSend := fs\<rparr>) = settled s"
  "settled (s\<lparr>sv_threadInitialized := b\<rparr>) = settled s" "settled (s\<lparr>sv_threadPool := tp\<rparr>) = settled s"
  "settled (s\<lparr>sv_exitThread := b\<rparr>) = settled s"
  by (simp_all add: settled_def outstanding_def sv_old_def written_work_def log_event_def)

lemma settled_map:
  "settled (s\<lparr>sv_workMap := m\<rparr>) + mapped (sv_workMap s) = settled s + mapped m"
  by (simp add: settled_def outstanding_def sv_old_def written_work_def)

lemma settled_old:
  "settled (s\<lparr>sv_oldWork := old\<rparr>) + mset (sv_old s) = settled s + mset (lfq_contents old)"
  by (simp add: settled_def outstanding_def sv_old_def written_work_def)

lemma settled_Change:
  "settled (s\<lparr>sv_workMap := ClientWorkMap_Change c wi (sv_workMap s)\<rparr>) + mset (entry_of c (sv_workMap s))
    = add_mset wi (settled s)"
proof -
  let ?m = "ClientWorkMap_Change c wi (sv_workMap s)"
  have "(settled (s\<lparr>sv_workMap := ?m\<rparr>) + mset (entry_of c (sv_workMap s))) + mapped (sv_workMap s)
      = add_mset wi (settled s) + mapped (sv_workMap s)"
    using settled_map [where s = s and m = ?m] mapped_Change [of c wi "sv_workMap s"]
    by (metis (no_types, lifting) add.assoc add.commute union_mset_add_mset_left union_mset_add_mset_right)
  then show ?thesis by simp
qed

lemma settled_erase:
  assumes "ClientWorkMap_inv (sv_workMap s)"
  shows "settled (s\<lparr>sv_workMap := erase_entry c (sv_workMap s)\<rparr>) + mset (entry_of c (sv_workMap s)) = settled s"
proof -
  let ?m = "erase_entry c (sv_workMap s)"
  have "(settled (s\<lparr>sv_workMap := ?m\<rparr>) + mset (entry_of c (sv_workMap s))) + mapped (sv_workMap s)
      = settled s + mapped (sv_workMap s)"
    using settled_map [where s = s and m = ?m] mapped_erase [OF assms, of c] by (metis (no_types, lifting) add.assoc add.commute)
  then show ?thesis by simp
qed

lemma sv_inv_updates [simp]:
  "sv_inv (s\<lparr>sv_data := d\<rparr>) = sv_inv s" "sv_inv (s\<lparr>sv_reorderCounter := k\<rparr>) = sv_inv s"
  "sv_inv (s\<lparr>sv_tempFileMap := fm\<rparr>) = sv_inv s" "sv_inv (s\<lparr>sv_startTime := t\<rparr>) = sv_inv s"
  "sv_inv (s\<lparr>sv_nReady := r\<rparr>) = sv_inv s" "sv_inv (s\<lparr>sv_threadInitialized := b\<rparr>) = sv_inv s"
  "sv_inv (s\<lparr>sv_threadPool := tp\<rparr>) = sv_inv s" "sv_inv (s\<lparr>sv_exitThread := b\<rparr>) = sv_inv s"
  by (simp_all add: sv_inv_def)

lemma sv_inv_Change: "sv_inv s \<Longrightarrow> sv_inv (s\<lparr>sv_workMap := ClientWorkMap_Change c wi (sv_workMap s)\<rparr>)"
  using wm.invar_change by (simp add: sv_inv_def)

lemma sv_inv_erase: "sv_inv s \<Longrightarrow> sv_inv (s\<lparr>sv_workMap := erase_entry c (sv_workMap s)\<rparr>)"
  by (simp add: sv_inv_def ClientWorkMap_inv_def distinct_erase_entry)

lemma worker_step_moves:
  assumes inv: "sv_inv s" and step: "worker_step env now sent pc s = Inr (pc', s')"
  shows "sv_inv s' \<and> mset (worker_fetched env pc s) + mset (worker_holds pc) + settled s
    = mset (worker_holds pc') + settled s' + mset (worker_lost pc s)"
proof (cases pc)
  case WFind
  obtain q where q: "ClientQueue_FindClientForWork (sv_clntQueue s)
      = Inr (case sv_waiting s of [] \<Rightarrow> None | c # _ \<Rightarrow> Some c, q)" "cq_inv MAXCLIENTS q"
    by (rule find_waiting [OF inv])
  then show ?thesis using step inv WFind by (auto simp: sv_inv_def split: option.splits)
next
  case (WPop c)
  obtain old where old: "queue_pop (sv_oldWork s) = Inr (case sv_old s of [] \<Rightarrow> None | w # _ \<Rightarrow> Some w, old)"
    "lfq_inv old" "lfq_cap old = MAXCLIENTS" "lfq_contents old = tl (sv_old s)"
    by (rule pop_old [OF inv])
  then show ?thesis using step inv WPop settled_old [where s = s and old = old]
    by (cases "sv_old s") (auto simp: sv_inv_def)
next
  case (WNew c)
  then show ?thesis using step inv by (auto simp: Let_def split: prod.splits if_splits)
next
  case (WNewMap c wi bs)
  then show ?thesis using step sv_inv_Change [OF inv] settled_Change [where s = s and c = c and wi = wi] by auto
next
  case (WNewStamp c wi bs)
  then show ?thesis using step inv by (auto elim!: rbind_InrE dest!: stamp_client_Inr)
next
  case (WNewSend c wi bs)
  then show ?thesis using step inv by auto
next
  case (WNewRemove c)
  then show ?thesis using step inv sv_inv_erase [OF inv] settled_erase [where s = s and c = c]
    by (auto simp: ClientWorkMap_Remove_def sv_inv_def)
next
  case (WOld c wi)
  then show ?thesis using step inv by (auto split: prod.splits)
next
  case (WOldMap c wi bs)
  then show ?thesis using step sv_inv_Change [OF inv] settled_Change [where s = s and c = c and wi = wi] by auto
next
  case (WOldStamp c wi bs)
  then show ?thesis using step inv by (auto elim!: rbind_InrE dest!: stamp_client_Inr)
next
  case (WOldSend c wi bs)
  then show ?thesis using step inv by auto
next
  case (WOldRemove c)
  then show ?thesis using step inv sv_inv_erase [OF inv] settled_erase [where s = s and c = c]
    by (auto simp: ClientWorkMap_Remove_def sv_inv_def)
next
  case WComplete
  then show ?thesis using step inv by (auto simp: Server_OnCompletion_def elim!: rbind_InrE)
qed (use step inv in \<open>auto simp: Let_def\<close>)

lemma complete_take_settled:
  assumes inv: "sv_inv s" and t: "complete_take c s = (w, s1)"
  shows "sv_inv s1 \<and> mset (case w of Some wi \<Rightarrow> [wi] | None \<Rightarrow> []) + settled s1 = settled s"
proof -
  note ct = complete_take_moves [OF inv t]
  have "entry_of c (sv_workMap s) = (case w of Some wi \<Rightarrow> [wi] | None \<Rightarrow> [])"
    using ct(2) by (simp add: entry_of_def split: option.splits)
  then show ?thesis using ct by (simp add: settled_def outstanding_def sv_old_def ac_simps)
qed

lemma handler_step_moves:
  assumes inv: "sv_inv s" and nb: "allocator_law (ev_newbuf env)"
    and step: "handler_step env now pc s = Inr (pc', s')"
  shows "sv_inv s' \<and> mset (handler_holds pc) + settled s
    = mset (handler_holds pc') + settled s' + mset (handler_lost pc s)"
proof (cases pc)
  case (HMsg c t m data)
  then show ?thesis using step inv by (auto simp: dispatch_def)
next
  case (HAdd c init)
  obtain q where "add_ready env c s = Inr (s\<lparr>sv_clntQueue := q\<rparr>)" "sv_inv (s\<lparr>sv_clntQueue := q\<rparr>)"
    by (rule add_ready_spec [OF inv nb])
  then show ?thesis using step HAdd by auto
next
  case (HTake c time data)
  obtain w s1 where t: "complete_take c s = (w, s1)" by fastforce
  then show ?thesis using step HTake complete_take_settled [OF inv t] by (auto split: option.splits)
next
  case (DTake c)
  obtain w s1 where t: "complete_take c s = (w, s1)" by fastforce
  then show ?thesis using step DTake complete_take_settled [OF inv t] by (auto split: option.splits)
next
  case (HWrite c time wi data)
  then show ?thesis using step inv by (auto elim!: rbind_InrE)
next
  case (HEval c time)
  have "cq_inv MAXCLIENTS (sv_clntQueue s)" using inv by (simp add: sv_inv_def)
  then obtain b q' where "ClientQueue_EvaluateClient (ev_r32 env) (ev_r64 env) c time (sv_clntQueue s) = Inr (b, q')"
    "cq_inv MAXCLIENTS q'"
    by (rule cq.evaluateE)
  then show ?thesis using step inv HEval by (auto simp: sv_inv_def)
next
  case (HSend c)
  have "lfq_inv (fs_clientQueue (sv_fileSend s))" using inv by (simp add: sv_inv_def)
  then obtain b q where "queue_push c (fs_clientQueue (sv_fileSend s)) = Inr (b, q)" "lfq_inv q"
    by (rule lf.pushE)
  then show ?thesis using step inv HSend by (auto simp: sv_inv_def FileSend_QueueSend_def)
next
  case (DRemove c)
  then show ?thesis using step inv cq.remove_spec by (auto simp: sv_inv_def)
next
  case (DPush wi)
  have i: "lfq_inv (sv_oldWork s)" "lfq_cap (sv_oldWork s) = MAXCLIENTS" using inv by (simp_all add: sv_inv_def)
  obtain b old where p: "queue_push wi (sv_oldWork s) = Inr (b, old)"
      "b = (length (sv_old s) < MAXCLIENTS)" "lfq_inv old" "lfq_cap old = MAXCLIENTS"
      "lfq_contents old = (if b then sv_old s @ [wi] else sv_old s)"
    by (rule lf.pushE [OF i(1), of wi]) (use i in \<open>auto simp: sv_old_def\<close>)
  then show ?thesis using step inv DPush settled_old [where s = s and old = old] by (auto simp: sv_inv_def)
qed (use step inv in \<open>auto simp: Let_def elim!: rbind_InrE split: if_splits\<close>)

lemma main_step_moves:
  assumes "sv_inv s" and "main_step ends m s = Inr (m', s')"
  shows "sv_inv s' \<and> settled s' = settled s"
  using assms by (cases m) (auto elim!: rbind_InrE split: if_splits)

section \<open>What the steps leave alone\<close>

fun is_completed :: "trace_event \<Rightarrow> bool" where
  "is_completed (Completed newData verified) = True"
| "is_completed _ = False"

definition completions :: "'f server \<Rightarrow> nat" where
  "completions s = length (filter is_completed (sv_trace s))"

lemma completions_simps [simp]:
  "completions (log_event e s) = completions s + (if is_completed e then 1 else 0)"
  "completions (s\<lparr>sv_clntQueue := q\<rparr>) = completions s" "completions (s\<lparr>sv_workMap := m\<rparr>) = completions s"
  "completions (s\<lparr>sv_oldWork := old\<rparr>) = completions s" "completions (s\<lparr>sv_data := d\<rparr>) = completions s"
  "completions (s\<lparr>sv_stamps := st\<rparr>) = completions s" "completions (s\<lparr>sv_reorderCounter := k\<rparr>) = completions s"
  "completions (s\<lparr>sv_tempFileMap := fm\<rparr>) = completions s" "completions (s\<lparr>sv_startTime := t\<rparr>) = completions s"
  "completions (s\<lparr>sv_nReady := r\<rparr>) = completions s" "completions (s\<lparr>sv_fileSend := fs\<rparr>) = completions s"
  "completions (s\<lparr>sv_threadInitialized := b\<rparr>) = completions s" "completions (s\<lparr>sv_threadPool := tp\<rparr>) = completions s"
  "completions (s\<lparr>sv_exitThread := b\<rparr>) = completions s"
  by (simp_all add: completions_def log_event_def)

lemma log_event_threads [simp]:
  "sv_threadPool (log_event e s) = sv_threadPool s" "sv_exitThread (log_event e s) = sv_exitThread s"
  "sv_threadInitialized (log_event e s) = sv_threadInitialized s"
  "sv_reorderCounter (log_event e s) = sv_reorderCounter s"
  "sv_old (log_event e s) = sv_old s" "sv_waiting (log_event e s) = sv_waiting s"
  by (simp_all add: log_event_def sv_old_def sv_waiting_def)

lemma worker_step_frame:
  assumes "worker_step env now sent pc s = Inr (pc', s')"
  shows "sv_threadPool s' = sv_threadPool s" and "sv_threadInitialized s' = sv_threadInitialized s"
    and "sv_exitThread s' = sv_exitThread s"
    and "sv_reorderCounter s' = sv_reorderCounter s + (if pc = WCount then 1 else 0)"
    and "completions s' = completions s + (if pc = WComplete then 1 else 0)"
  using assms
  by (cases pc; auto simp: Let_def Server_OnCompletion_def elim!: rbind_InrE dest!: stamp_client_Inr
      split: prod.splits if_splits)+

lemma complete_take_frame:
  "complete_take c s = (w, s1) \<Longrightarrow> \<exists>m. s1 = s\<lparr>sv_workMap := m\<rparr>"
  by (auto simp: complete_take_def split: prod.splits)

lemma handler_step_frame:
  assumes "handler_step env now pc s = Inr (pc', s')"
  shows "length (sv_threadPool s') = length (sv_threadPool s)"
    and "sv_threadInitialized s' = (sv_threadInitialized s \<or> pc = HInit)"
    and "sv_exitThread s' = sv_exitThread s" and "sv_reorderCounter s' = sv_reorderCounter s"
    and "completions s' = completions s"
  using assms
  by (cases pc; auto simp: Let_def add_ready_def Initialize_all elim!: rbind_InrE dest!: complete_take_frame
      split: prod.splits if_splits)+

lemma join_loop_length: "join_loop ends i ts = Inr ts' \<Longrightarrow> length ts' = length ts"
  by (induction ts arbitrary: i ts') (auto elim!: rbind_InrE split: if_splits)

lemma main_step_frame:
  assumes "main_step ends m s = Inr (m', s')"
  shows "length (sv_threadPool s') = length (sv_threadPool s)"
    and "sv_threadInitialized s' = sv_threadInitialized s" and "sv_reorderCounter s' = sv_reorderCounter s"
    and "completions s' = completions s" and "sv_oldWork s' = sv_oldWork s"
  using assms
  by (cases m; auto simp: ThreadPool_Wait_def dest: join_loop_length elim!: rbind_InrE split: if_splits)+

section \<open>The invariant of the system\<close>

definition finished :: "worker_pc \<Rightarrow> nat" where
  "finished pc = (if pc = WComplete \<or> pc = WDone then 1 else 0)"

definition completing :: "worker_pc \<Rightarrow> nat" where
  "completing pc = (if pc = WComplete then 1 else 0)"

text \<open>The data structures; the threads exist once they were started; \<open>reorderCounter\<close> counts no
  more threads than are at the end, and \<open>OnCompletion\<close> belongs to the first of them.\<close>

definition sys_inv :: "nat \<Rightarrow> 'f sys \<Rightarrow> bool" where
  "sys_inv n y \<longleftrightarrow> sv_inv (y_srv y) \<and> length (sv_threadPool (y_srv y)) = n
     \<and> (if sv_threadInitialized (y_srv y) then length (y_workers y) = n else y_workers y = [])
     \<and> unat (sv_reorderCounter (y_srv y)) \<le> (\<Sum>pc\<leftarrow>y_workers y. finished pc)
     \<and> completions (y_srv y) + (\<Sum>pc\<leftarrow>y_workers y. completing pc)
         = (if sv_reorderCounter (y_srv y) = 0 then 0 else 1)"

lemma finished_le: "(\<Sum>pc\<leftarrow>ws. finished pc) \<le> length ws"
  by (induction ws) (simp_all add: finished_def)

lemma finished_less:
  "i < length ws \<Longrightarrow> finished (ws ! i) = 0 \<Longrightarrow> (\<Sum>pc\<leftarrow>ws. finished pc) < length ws"
proof (induction ws arbitrary: i)
  case (Cons pc ws)
  have "finished pc \<le> 1" by (simp add: finished_def)
  show ?case
  proof (cases i)
    case 0
    then show ?thesis using Cons.prems finished_le [of ws] by simp
  next
    case (Suc k)
    then show ?thesis using Cons.prems Cons.IH [of k] \<open>finished pc \<le> 1\<close> by simp
  qed
qed simp

lemma timer_counts [simp]: "finished WTimer = 0" "completing WTimer = 0"
  by (simp_all add: finished_def completing_def)

lemma sum_replicate_empty [simp]: "sum_list (replicate n {#}) = {#}"
  by (induction n) simp_all

text \<open>Steps of a worker change the counters in one of three ways.\<close>

lemma worker_step_counters:
  assumes step: "worker_step env now sent pc s = Inr (pc', s')" and pc: "pc \<noteq> WDone"
  shows "pc = WCount \<and> finished pc = 0 \<and> finished pc' = 1
      \<and> completing pc' = (if sv_reorderCounter s + 1 = 1 then 1 else 0)
    \<or> pc = WComplete \<and> pc' = WDone
    \<or> pc \<noteq> WCount \<and> pc \<noteq> WComplete \<and> finished pc = 0 \<and> completing pc' = 0"
  using assms
  by (cases pc) (auto simp: Let_def finished_def completing_def elim!: rbind_InrE
      split: prod.splits if_splits option.splits)

lemma sys_worker_inv:
  assumes inv: "sys_inv n y" and n: "n < 2 ^ 32"
    and i: "i < length (y_workers y)" and nd: "y_workers y ! i \<noteq> WDone"
    and step: "worker_step env now sent (y_workers y ! i) (y_srv y) = Inr (pc, s')"
  shows "sys_inv n (y\<lparr>y_srv := s', y_workers := (y_workers y)[i := pc]\<rparr>)"
proof -
  let ?s = "y_srv y" and ?ws = "y_workers y" and ?pc = "y_workers y ! i"
  note fr = worker_step_frame [OF step]
  have sv: "sv_inv s'" using worker_step_moves [OF _ step] inv by (simp add: sys_inv_def)
  have init: "sv_threadInitialized ?s" "length ?ws = n" using inv i by (auto simp: sys_inv_def split: if_splits)
  have f: "(\<Sum>pc\<leftarrow>?ws[i := pc]. finished pc) + finished ?pc = (\<Sum>pc\<leftarrow>?ws. finished pc) + finished pc"
    and c: "(\<Sum>pc\<leftarrow>?ws[i := pc]. completing pc) + completing ?pc = (\<Sum>pc\<leftarrow>?ws. completing pc) + completing pc"
    using sum_update [OF i, of finished pc] sum_update [OF i, of completing pc] by simp_all
  have k: "unat (sv_reorderCounter ?s) \<le> (\<Sum>pc\<leftarrow>?ws. finished pc)"
    and dn: "completions ?s + (\<Sum>pc\<leftarrow>?ws. completing pc) = (if sv_reorderCounter ?s = 0 then 0 else 1)"
    using inv by (simp_all add: sys_inv_def)
  have "unat (sv_reorderCounter s') \<le> (\<Sum>pc\<leftarrow>?ws[i := pc]. finished pc)
      \<and> completions s' + (\<Sum>pc\<leftarrow>?ws[i := pc]. completing pc) = (if sv_reorderCounter s' = 0 then 0 else 1)"
    using worker_step_counters [OF step nd]
  proof (elim disjE conjE)
    assume w: "?pc = WCount" "finished ?pc = 0" "finished pc = 1"
      and cp: "completing pc = (if sv_reorderCounter ?s + 1 = 1 then 1 else 0)"
    have "unat (sv_reorderCounter ?s) + 1 < 2 ^ 32"
      using finished_less [OF i w(2)] k init n by simp
    then have u: "unat (sv_reorderCounter ?s + 1) = unat (sv_reorderCounter ?s) + 1"
      by (simp add: unat_add_small)
    then have "sv_reorderCounter ?s + 1 \<noteq> 0" by (metis add_is_0 one_neq_zero unat_0)
    then show ?thesis using fr w f c k dn cp u by (auto simp: completing_def split: if_splits)
  next
    assume w: "?pc = WComplete" "pc = WDone"
    then show ?thesis using fr f c k dn by (simp add: finished_def completing_def)
  next
    assume w: "?pc \<noteq> WCount" "?pc \<noteq> WComplete" "finished ?pc = 0" "completing pc = 0"
    then show ?thesis using fr f c k dn by (simp add: completing_def)
  qed
  then show ?thesis using sv fr init inv by (simp add: sys_inv_def)
qed

lemma sys_handler_inv:
  assumes inv: "sys_inv n y" and nb: "allocator_law (ev_newbuf env)"
    and step: "handler_step env now pc (y_srv y) = Inr (pc', s')"
  shows "sys_inv n (y\<lparr>y_srv := s', y_workers := start_threads (y_srv y) s' (y_workers y), y_handlers := hs\<rparr>)"
proof -
  have "sv_inv s'" using handler_step_moves [OF _ nb step] inv by (simp add: sys_inv_def)
  then show ?thesis using handler_step_frame [OF step] inv
    by (auto simp: sys_inv_def start_threads_def split: if_splits)
qed

lemma sys_step_inv:
  assumes "sys_inv n y" and "n < 2 ^ 32" and "allocator_law (ev_newbuf env)" and "sys_step env y f l y'"
  shows "sys_inv n y'"
  using assms(4)
proof (cases rule: sys_step.cases)
  case (sys_worker i now sent pc s')
  then show ?thesis using sys_worker_inv [OF assms(1,2)] by simp
next
  case (sys_handler j now pc s')
  then show ?thesis using sys_handler_inv [OF assms(1,3)] by simp
next
  case (sys_main m s')
  have "sv_inv s'" using main_step_moves [OF _ sys_main(5)] assms(1) by (simp add: sys_inv_def)
  then show ?thesis using sys_main main_step_frame [OF sys_main(5)] assms(1) by (simp add: sys_inv_def)
qed (use assms(1) in \<open>simp_all add: sys_inv_def\<close>)

lemma sys_run_inv:
  assumes "sys_run env y f l y'" and "sys_inv n y" and "n < 2 ^ 32" and "allocator_law (ev_newbuf env)"
  shows "sys_inv n y'"
  using assms(1) by (induction rule: sys_run.induct) (auto intro: assms sys_step_inv)

section \<open>Conservation\<close>

text \<open>Two balances with the thread that moves, and the parts that stay, add up.\<close>

lemma balance:
  fixes f :: "'a multiset"
  assumes "f + h + s = h' + s' + l" and "w' + h = w + h'"
  shows "f + (s + w + r) = (s' + w' + r) + l"
proof (rule multiset_eqI)
  fix x
  have "count (f + h + s) x = count (h' + s' + l) x" "count (w' + h) x = count (w + h') x"
    using assms by simp_all
  then show "count (f + (s + w + r)) x = count (s' + w' + r + l) x" by simp
qed

lemma sys_step_places:
  assumes inv: "sys_inv n y" and nb: "allocator_law (ev_newbuf env)" and step: "sys_step env y f l y'"
  shows "mset f + places y = places y' + mset l"
  using step
proof (cases rule: sys_step.cases)
  case (sys_worker i now sent pc s')
  let ?pc = "y_workers y ! i"
  have "mset f + mset (worker_holds ?pc) + settled (y_srv y)
      = mset (worker_holds pc) + settled s' + mset l"
    using worker_step_moves [OF _ sys_worker(4)] inv sys_worker by (simp add: sys_inv_def)
  from balance [OF this sum_update [OF sys_worker(2)]] show ?thesis
    unfolding places_def sys_worker(1) by simp
next
  case (sys_handler j now pc s')
  let ?pc = "y_handlers y ! j"
  have "{#} + mset (handler_holds ?pc) + settled (y_srv y) = mset (handler_holds pc) + settled s' + mset l"
    using handler_step_moves [OF _ nb sys_handler(5)] inv sys_handler by (simp add: sys_inv_def)
  from balance [OF this sum_update [OF sys_handler(3)],
      of "(\<Sum>pc\<leftarrow>y_workers y. mset (worker_holds pc))"]
  have "settled (y_srv y) + (\<Sum>pc\<leftarrow>y_handlers y. mset (handler_holds pc))
      + (\<Sum>pc\<leftarrow>y_workers y. mset (worker_holds pc))
    = settled s' + (\<Sum>pc\<leftarrow>(y_handlers y)[j := pc]. mset (handler_holds pc))
      + (\<Sum>pc\<leftarrow>y_workers y. mset (worker_holds pc)) + mset l"
    by simp
  moreover have "(\<Sum>pc\<leftarrow>start_threads (y_srv y) s' (y_workers y). mset (worker_holds pc))
      = (\<Sum>pc\<leftarrow>y_workers y. mset (worker_holds pc))"
    using inv by (auto simp: start_threads_def sys_inv_def)
  ultimately show ?thesis unfolding places_def sys_handler(1,2) by (simp add: ac_simps)
next
  case (sys_main m s')
  then show ?thesis using main_step_moves [OF _ sys_main(5)] inv by (simp add: places_def sys_inv_def)
qed (simp_all add: places_def)

lemma sys_run_places:
  assumes "sys_run env y f l y'" and "sys_inv n y" and "n < 2 ^ 32" and "allocator_law (ev_newbuf env)"
  shows "mset f + places y = places y' + mset l"
  using assms(1)
proof (induction rule: sys_run.induct)
  case (run_step f l y1 f1 l1 y2)
  have "sys_inv n y1" by (rule sys_run_inv [OF run_step(1) assms(2-4)])
  from sys_step_places [OF this assms(4) run_step(2)]
  have "mset f + mset f1 + places y + places y1 = mset f + (places y2 + mset l1) + places y" by simp
  then have "mset f + mset f1 + places y + places y1 = (places y1 + mset l) + places y2 + mset l1"
    using run_step.IH by (simp add: ac_simps)
  then show ?case by (simp add: ac_simps)
qed simp

lemma sys_init_inv:
  assumes "0 < base" and "Server_init env mem wmem base mx n f dir fileList opened contents = Inr s"
  shows "sys_inv n (sys_of s) \<and> places (sys_of s) = {#}"
proof -
  obtain s1 where s1: "Server_init env mem wmem base mx n f dir fileList opened contents = Inr s1"
    "sv_inv s1" "written_work s1 = []" "outstanding s1 = {#}" "sv_threadPool s1 = replicate n NoThread"
    "\<not> sv_threadInitialized s1"
    by (rule Server_init_spec [OF assms(1)])
  moreover have "sv_reorderCounter s = 0" "sv_trace s = []"
    using assms(2) by (auto simp: Server_init_def Let_def elim!: rbind_InrE)
  ultimately show ?thesis using assms(2)
    by (simp add: sys_inv_def sys_of_def places_def settled_def completions_def)
qed

end
