(* ===== verification/ServerRaces.thy ===== *)
theory ServerRaces
  imports ServerSteps "HOL-Library.Sublist"
begin

text \<open>
  What holds and what fails when the threads of the server are interleaved: the events of
  \<open>ServerRun\<close> are runs of the system, work is conserved, \<open>OnCompletion\<close> runs at most once, it
  can run before the last result is written, and work that comes back when every thread is
  waiting is never done.
\<close>

section \<open>A thread on its own\<close>

fun worker_seq :: "'f server_env \<Rightarrow> int \<Rightarrow> bool \<Rightarrow> nat \<Rightarrow> worker_pc \<Rightarrow> 'f server
    \<Rightarrow> (worker_pc \<times> 'f server \<times> work_info list \<times> work_info list) res" where
  "worker_seq env now sent 0 pc s = Inr (pc, s, [], [])"
| "worker_seq env now sent (Suc k) pc s =
     (if pc = WDone then Inr (pc, s, [], [])
      else rbind (worker_step env now sent pc s) (\<lambda>(pc1, s1).
             rbind (worker_seq env now sent k pc1 s1) (\<lambda>(pc2, s2, f, l).
               Inr (pc2, s2, worker_fetched env pc s @ f, worker_lost pc s @ l))))"

fun handler_seq :: "'f server_env \<Rightarrow> int \<Rightarrow> nat \<Rightarrow> handler_pc \<Rightarrow> 'f server
    \<Rightarrow> (handler_pc \<times> 'f server \<times> work_info list) res" where
  "handler_seq env now 0 pc s = Inr (pc, s, [])"
| "handler_seq env now (Suc k) pc s =
     (if pc = HDone then Inr (pc, s, [])
      else rbind (handler_step env now pc s) (\<lambda>(pc1, s1).
             rbind (handler_seq env now k pc1 s1) (\<lambda>(pc2, s2, l).
               Inr (pc2, s2, handler_lost pc s @ l))))"

lemma worker_seq_run:
  "worker_seq env now sent k pc s = Inr (pc', s', f, l) \<Longrightarrow> i < length (y_workers y) \<Longrightarrow>
    y_workers y ! i = pc \<Longrightarrow> y_srv y = s \<Longrightarrow>
    sys_run env y f l (y\<lparr>y_srv := s', y_workers := (y_workers y)[i := pc']\<rparr>)"
proof (induction k arbitrary: pc s f l y)
  case 0
  then show ?case by (auto intro: run_refl)
next
  case (Suc k)
  show ?case
  proof (cases "pc = WDone")
    case True
    have "(y_workers y)[i := pc] = y_workers y" using Suc.prems(3) by (metis list_update_id)
    then show ?thesis using Suc.prems True run_refl [of env y] by auto
  next
    case False
    then obtain pc1 s1 f1 l1 where s1: "worker_step env now sent pc s = Inr (pc1, s1)"
      and k: "worker_seq env now sent k pc1 s1 = Inr (pc', s', f1, l1)"
      and fl: "f = worker_fetched env pc s @ f1" "l = worker_lost pc s @ l1"
      using Suc.prems(1) by (auto elim!: rbind_InrE)
    let ?y = "y\<lparr>y_srv := s1, y_workers := (y_workers y)[i := pc1]\<rparr>"
    have "sys_step env y (worker_fetched env pc s) (worker_lost pc s) ?y"
      using sys_worker [of i y env now sent pc1 s1] Suc.prems(2-4) False s1 by simp
    moreover have "sys_run env ?y f1 l1 (?y\<lparr>y_srv := s', y_workers := (y_workers ?y)[i := pc']\<rparr>)"
      by (rule Suc.IH [OF k]) (use Suc.prems in simp_all)
    ultimately show ?thesis using run_trans [OF _ run_one] fl by fastforce
  qed
qed

lemma worker_seq_frame:
  "worker_seq env now sent k pc s = Inr (pc', s', f, l) \<Longrightarrow>
    sv_threadPool s' = sv_threadPool s \<and> sv_threadInitialized s' = sv_threadInitialized s
    \<and> sv_exitThread s' = sv_exitThread s"
proof (induction k arbitrary: pc s f l)
  case (Suc k)
  show ?case
  proof (cases "pc = WDone")
    case False
    then obtain pc1 s1 f1 l1 where "worker_step env now sent pc s = Inr (pc1, s1)"
      and "worker_seq env now sent k pc1 s1 = Inr (pc', s', f1, l1)"
      using Suc.prems by (auto elim!: rbind_InrE)
    then show ?thesis using worker_step_frame Suc.IH by metis
  qed (use Suc.prems in simp)
qed simp

lemma handler_seq_run:
  "handler_seq env now k pc s = Inr (pc', s', l) \<Longrightarrow> j < length (y_handlers y) \<Longrightarrow>
    y_handlers y ! j = pc \<Longrightarrow> y_srv y = s \<Longrightarrow>
    sys_run env y [] l (y\<lparr>y_srv := s', y_workers := start_threads s s' (y_workers y),
      y_handlers := (y_handlers y)[j := pc']\<rparr>)
    \<and> (sv_threadInitialized s \<longrightarrow> sv_threadInitialized s') \<and> length (sv_threadPool s') = length (sv_threadPool s)"
proof (induction k arbitrary: pc s l y)
  case 0
  then show ?case using run_refl [of env y] by (auto simp: start_threads_def)
next
  case (Suc k)
  show ?case
  proof (cases "pc = HDone")
    case True
    have "(y_handlers y)[j := pc] = y_handlers y" using Suc.prems(3) by (metis list_update_id)
    then show ?thesis using Suc.prems True run_refl [of env y] by (auto simp: start_threads_def)
  next
    case False
    then obtain pc1 s1 l1 where s1: "handler_step env now pc s = Inr (pc1, s1)"
      and k: "handler_seq env now k pc1 s1 = Inr (pc', s', l1)" and l: "l = handler_lost pc s @ l1"
      using Suc.prems(1) by (auto elim!: rbind_InrE)
    let ?y = "y\<lparr>y_srv := s1, y_workers := start_threads s s1 (y_workers y), y_handlers := (y_handlers y)[j := pc1]\<rparr>"
    have st: "sys_step env y [] (handler_lost pc s) ?y"
      using sys_handler [of j y env now pc1 s1] Suc.prems(2-4) False s1 by simp
    have IH: "sys_run env ?y [] l1 (?y\<lparr>y_srv := s', y_workers := start_threads s1 s' (y_workers ?y),
        y_handlers := (y_handlers ?y)[j := pc']\<rparr>)
      \<and> (sv_threadInitialized s1 \<longrightarrow> sv_threadInitialized s') \<and> length (sv_threadPool s') = length (sv_threadPool s1)"
      by (rule Suc.IH [OF k]) (use Suc.prems in simp_all)
    note fr = handler_step_frame [OF s1]
    have "start_threads s1 s' (start_threads s s1 (y_workers y)) = start_threads s s' (y_workers y)"
      using IH fr by (auto simp: start_threads_def)
    then show ?thesis using IH fr run_trans [OF conjunct1 [OF IH] run_one [OF st]] l by auto
  qed
qed

section \<open>The events are runs\<close>

definition turn_pc :: "work_result \<Rightarrow> worker_pc" where
  "turn_pc r = (case r of NoClient \<Rightarrow> WTimer | GaveWork \<Rightarrow> WCheck | WorkDone \<Rightarrow> WDone)"

lemma entry_of_Change [simp]: "entry_of c (ClientWorkMap_Change c wi m) = [wi]"
proof -
  have "map_of m c = Some old \<Longrightarrow> map_of (assign_entry c wi m) c = Some wi" for old
    by (induction c wi m rule: assign_entry.induct) (auto split: if_splits)
  then show ?thesis
    by (auto simp: entry_of_def ClientWorkMap_Change_def ClientWorkMap_Add_def split: option.splits)
qed

lemma stamp_client_workMap: "stamp_client c now s = Inr s' \<Longrightarrow> sv_workMap s' = sv_workMap s"
  by (auto dest: stamp_client_Inr)

lemma old_seq:
  assumes "Server_GiveOldWork env now sent c wi s = Inr s'"
  shows "worker_seq env now sent (if sent then 5 else 4) (WOld c wi) s
    = Inr (WCheck, s', [], entry_of c (sv_workMap s) @ (if sent then [wi] else []))"
proof -
  obtain wi' bs d where w: "DataInterp_GetClientWorkPrev (ev_ops env) (wi_size wi) wi (sv_data s) = (wi', bs, d)"
    by (metis prod.collapse)
  let ?m = "ClientWorkMap_Change c wi (sv_workMap s)"
  obtain s2 where s2: "stamp_client c now (s\<lparr>sv_data := d, sv_workMap := ?m\<rparr>) = Inr s2"
    and s': "s' = (let s3 = log_event (SentOld c wi TYPE_WORK MSG_WORK_NEW bs sent) s2
      in if sent then s3\<lparr>sv_workMap := snd (ClientWorkMap_Remove c (sv_workMap s3))\<rparr> else s3)"
    using assms by (auto simp: Server_GiveOldWork_def w Let_def elim!: rbind_InrE)
  have "sv_workMap s2 = ?m" using stamp_client_workMap [OF s2] by simp
  then show ?thesis using s2 unfolding s' by (cases sent) (simp_all add: eval_nat_numeral w Let_def)
qed

lemma new_seq:
  assumes "give_new_send env now sent c s = Inr (given, s')"
  defines "wi \<equiv> fst (DataInterp_GetClientWork (ev_ops env) (DataInterp_GetChunkSize (sv_data s)) (sv_data s))"
  shows "worker_seq env now sent (if given then if sent then 4 else 5 else 1) (WNew c) s
    = Inr (if given then WCheck else WWait, s', if given then [wi] else [],
        if given then entry_of c (sv_workMap s) @ (if sent then [] else [wi]) else [])"
proof -
  obtain bs d where w: "DataInterp_GetClientWork (ev_ops env) (DataInterp_GetChunkSize (sv_data s)) (sv_data s)
      = (wi, bs, d)"
    unfolding wi_def by (metis prod.collapse)
  show ?thesis
  proof (cases "wi_size wi = 0")
    case True
    then show ?thesis using assms(1) by (simp add: give_new_send_def w Let_def)
  next
    case False
    let ?m = "ClientWorkMap_Change c wi (sv_workMap s)"
    obtain s2 where s2: "stamp_client c now (s\<lparr>sv_data := d, sv_workMap := ?m\<rparr>) = Inr s2" and given
      and s': "s' = (let s3 = log_event (SentNew c wi TYPE_WORK MSG_WORK_NEW (take (unat (wi_size wi)) bs) sent) s2
        in if \<not> sent then s3\<lparr>sv_workMap := snd (ClientWorkMap_Remove c (sv_workMap s3))\<rparr> else s3)"
      using assms(1) False by (auto simp: give_new_send_def w Let_def elim!: rbind_InrE)
    have "sv_workMap s2 = ?m" using stamp_client_workMap [OF s2] by simp
    then show ?thesis using s2 \<open>given\<close> False unfolding s' by (cases sent) (simp_all add: eval_nat_numeral w Let_def)
  qed
qed

lemma finish_seq:
  assumes "may_finish s" and "give_new_finish env now s = Inr s'"
  shows "worker_seq env now sent 4 WWait s = Inr (WDone, s', [], [])"
  using assms
  by (auto simp: may_finish_def DataInterp_ORDERED_def give_new_finish_def eval_nat_numeral Let_def split: if_splits)

lemma worker_seq_add:
  "worker_seq env now sent k pc s = Inr (pc1, s1, f1, l1) \<Longrightarrow>
   worker_seq env now sent k1 pc1 s1 = Inr (pc2, s2, f2, l2) \<Longrightarrow>
   worker_seq env now sent (k + k1) pc s = Inr (pc2, s2, f1 @ f2, l1 @ l2)"
proof (induction k arbitrary: pc s f1 l1)
  case (Suc k)
  show ?case
  proof (cases "pc = WDone")
    case True
    then have "worker_seq env now sent k1 WDone s = Inr (WDone, s, [], [])" by (cases k1) simp_all
    then show ?thesis using Suc.prems True by simp
  next
    case False
    then show ?thesis using Suc.prems by (auto simp: rbind_eq_Inr dest: Suc.IH)
  qed
qed simp

text \<open>A turn after the client \<open>c\<close> was taken from its queue and the queue of old work was popped.\<close>

lemma new_turn_seq:
  assumes inv: "sv_inv s2" and pre: "worker_seq env now sent 2 WFind s = Inr (WNew c, s2, [], [])"
    and g: "Server_GiveNewWork env now sent c s2 = Inr (gave, s')"
  defines "wi \<equiv> fst (DataInterp_GetClientWork (ev_ops env) (DataInterp_GetChunkSize (sv_data s2)) (sv_data s2))"
  shows "\<exists>k f. worker_seq env now sent k WFind s = Inr (if gave then WCheck else WDone, s', f,
    if wi_size wi \<noteq> 0 then entry_of c (sv_workMap s2) @ (if sent then [] else [wi]) else [])"
proof -
  obtain given s3 where s3: "give_new_send env now sent c s2 = Inr (given, s3)"
    and fin: "given \<and> gave \<and> s' = s3 \<or> \<not> given \<and> \<not> gave \<and> may_finish s3 \<and> give_new_finish env now s3 = Inr s'"
    using g by (auto simp: Server_GiveNewWork_def elim!: rbind_InrE split: if_splits)
  have given: "given \<longleftrightarrow> wi_size wi \<noteq> 0" using give_new_moves(2) [OF inv s3] by (simp add: wi_def)
  note seq = worker_seq_add [OF pre new_seq [OF s3, folded wi_def]]
  show ?thesis
  proof (cases given)
    case True
    then have "gave" "s' = s3" using fin by auto
    then show ?thesis
      by (intro exI [of _ "2 + (if sent then 4 else 5)"] exI [of _ "[] @ [wi]"])
        (use seq True given in \<open>simp only: if_True append_Nil simp_thms\<close>)
  next
    case False
    then have "may_finish s3" and "give_new_finish env now s3 = Inr s'" and m: "\<not> gave" using fin by auto
    note fs = finish_seq [OF this(1,2)]
    have "worker_seq env now sent (2 + 1) WFind s = Inr (WWait, s3, [], [])" using seq False by simp
    from worker_seq_add [OF this fs [of sent]] show ?thesis using m False given by auto
  qed
qed

lemma turn_seq:
  assumes inv: "sv_inv s" and run: "work_turn env now sent s = Inr (r, s')"
  shows "\<exists>k f. worker_seq env now sent k WFind s = Inr (turn_pc r, s', f, losses env (now, Turn sent) s)"
proof (cases "sv_waiting s")
  case Nil
  obtain q where "ClientQueue_FindClientForWork (sv_clntQueue s)
      = Inr (case sv_waiting s of [] \<Rightarrow> None | c # _ \<Rightarrow> Some c, q)"
    by (rule find_waiting [OF inv])
  then have "worker_seq env now sent 1 WFind s = Inr (turn_pc r, s', [], losses env (now, Turn sent) s)"
    using run Nil by (simp add: work_turn_def Let_def turn_pc_def)
  then show ?thesis by blast
next
  case first: (Cons c cs)
  obtain q where q: "ClientQueue_FindClientForWork (sv_clntQueue s)
      = Inr (case sv_waiting s of [] \<Rightarrow> None | c # _ \<Rightarrow> Some c, q)" "cq_inv MAXCLIENTS q"
    by (rule find_waiting [OF inv])
  define s1 where "s1 = s\<lparr>sv_clntQueue := q\<rparr>"
  have i1: "sv_inv s1" "sv_old s1 = sv_old s" using inv q by (simp_all add: s1_def sv_inv_def sv_old_def)
  obtain old where old: "queue_pop (sv_oldWork s1) = Inr (case sv_old s1 of [] \<Rightarrow> None | w # _ \<Rightarrow> Some w, old)"
    by (rule pop_old [OF i1(1)])
  define s2 where "s2 = s1\<lparr>sv_oldWork := old\<rparr>"
  have s2: "sv_workMap s2 = sv_workMap s" "sv_data s2 = sv_data s" by (simp_all add: s2_def s1_def)
  have pre: "worker_seq env now sent 2 WFind s
      = Inr (case sv_old s of wi # _ \<Rightarrow> WOld c wi | [] \<Rightarrow> WNew c, s2, [], [])"
    using q old i1 first by (simp add: eval_nat_numeral s1_def s2_def split: list.splits)
  show ?thesis
  proof (cases "sv_old s")
    case (Cons wi ws)
    then have g: "Server_GiveOldWork env now sent c wi s2 = Inr s'" "r = GaveWork"
      using run q first old i1 by (auto simp: work_turn_def s1_def s2_def Let_def elim!: rbind_InrE)
    have "losses env (now, Turn sent) s = entry_of c (sv_workMap s2) @ (if sent then [wi] else [])"
      using first Cons s2 by simp
    moreover have "worker_seq env now sent 2 WFind s = Inr (WOld c wi, s2, [], [])" using pre Cons by simp
    ultimately show ?thesis using worker_seq_add [OF _ old_seq [OF g(1)]] g(2)
      by (fastforce simp: turn_pc_def)
  next
    case Nil
    then have pre: "worker_seq env now sent 2 WFind s = Inr (WNew c, s2, [], [])" using pre by simp
    obtain more where g: "Server_GiveNewWork env now sent c s2 = Inr (more, s')"
      and r: "r = (if more then GaveWork else WorkDone)"
      using run q first old i1 Nil by (auto simp: work_turn_def s1_def s2_def Let_def elim!: rbind_InrE)
    have i2: "sv_inv s2" using worker_step_moves [OF i1(1), of env now sent "WPop c"] old
      by (auto simp: s2_def)
    have "losses env (now, Turn sent) s
        = (let wi = fst (DataInterp_GetClientWork (ev_ops env) (DataInterp_GetChunkSize (sv_data s2)) (sv_data s2))
           in if wi_size wi \<noteq> 0 then entry_of c (sv_workMap s2) @ (if sent then [] else [wi]) else [])"
      using first Nil s2 by (simp add: Let_def)
    moreover have "turn_pc r = (if more then WCheck else WDone)" using r by (simp add: turn_pc_def)
    ultimately show ?thesis using new_turn_seq [OF i2 pre g] by (simp only: Let_def)
  qed
qed

lemma msg_seq:
  assumes "Server_MsgHandler env now c t m data s = Inr s'"
  shows "handler_seq env now 6 (HMsg c t m data) s = Inr (HDone, s', [])"
  using assms
  by (auto simp: Server_MsgHandler_def dispatch_def eval_nat_numeral message_defs on_work_complete_def
      complete_write_def Let_def log_event_def elim!: rbind_InrE split: if_splits option.splits prod.splits)

lemma leave_seq:
  assumes inv: "sv_inv s" and run: "Server_DisconnectHandler c s = Inr s'"
  shows "handler_seq env now 4 (DRemove c) s = Inr (HDone, s', losses env (now, Disconnected c) s)"
proof -
  define s0 where "s0 = s\<lparr>sv_clntQueue := ClientQueue_RemoveClient c (sv_clntQueue s)\<rparr>"
  have i0: "sv_inv s0" using inv cq.remove_spec by (auto simp: s0_def sv_inv_def)
  obtain w s2 where t: "complete_take c s0 = (w, s2)" by fastforce
  note ct = complete_take_moves [OF i0 t]
  have "sv_old s2 = sv_old s" "entry_of c (sv_workMap s) = (case w of Some wi \<Rightarrow> [wi] | None \<Rightarrow> [])"
    using ct by (simp_all add: sv_old_def s0_def entry_of_def split: option.splits)
  then show ?thesis
    using run t by (cases w) (auto simp: Server_DisconnectHandler_def eval_nat_numeral Let_def s0_def [symmetric]
        elim!: rbind_InrE split: prod.splits)
qed


section \<open>What holds under every interleaving\<close>

lemma reachable_inv:
  assumes "0 < base" and "allocator_law (ev_newbuf env)" and "n < 2 ^ 32"
    and "Server_init env mem wmem base mx n f dir fileList opened contents = Inr s0"
    and "sys_run env (sys_of s0) fetched lost y"
  shows "sys_inv n y \<and> mset fetched = places y + mset lost"
  using sys_init_inv [OF assms(1,4)] sys_run_inv [OF assms(5) _ assms(3,2)]
    sys_run_places [OF assms(5) _ assms(3,2)] by simp

text \<open>C1: no interleaving duplicates work or makes it disappear.  In every state the running
  server can reach, each piece of work taken from the data source is, exactly once, in the
  hands of a thread, in the work map, in the queue of old work, written, or lost by one of the
  steps that lose work.\<close>

theorem interleaved_work_conserved:
  assumes "0 < base" and "allocator_law (ev_newbuf env)" and "n < 2 ^ 32"
    and "Server_init env mem wmem base mx n f dir fileList opened contents = Inr s0"
    and "sys_run env (sys_of s0) fetched lost y"
  shows "mset fetched = mapped (sv_workMap (y_srv y)) + mset (sv_old (y_srv y)) + mset (written_work (y_srv y))
    + (\<Sum>pc\<leftarrow>y_workers y. mset (worker_holds pc)) + (\<Sum>pc\<leftarrow>y_handlers y. mset (handler_holds pc)) + mset lost"
  using reachable_inv [OF assms] by (simp add: places_def settled_def outstanding_def)

text \<open>C9: \<open>OnCompletion\<close> runs at most once, however many workers find the data exhausted at the same
  time: a worker that is about to run it and a run of it in the past exclude each other, and
  exclude a second of either.\<close>

theorem completion_at_most_once:
  assumes "0 < base" and "allocator_law (ev_newbuf env)" and "n < 2 ^ 32"
    and "Server_init env mem wmem base mx n f dir fileList opened contents = Inr s0"
    and "sys_run env (sys_of s0) fetched lost y"
  shows "completions (y_srv y) + length (filter (\<lambda>pc. pc = WComplete) (y_workers y)) \<le> 1"
proof -
  have inv: "sys_inv n y" using reachable_inv [OF assms] by blast
  have "length (filter (\<lambda>pc. pc = WComplete) ws) = (\<Sum>pc\<leftarrow>ws. completing pc)" for ws
    by (induction ws) (simp_all add: completing_def)
  then show ?thesis using inv by (simp add: sys_inv_def)
qed


section \<open>Work that is never done\<close>

definition waits :: "worker_pc \<Rightarrow> bool" where
  "waits pc \<longleftrightarrow> pc = WWait \<or> pc = WWaitOld"

text \<open>Every worker waits for the last results or has ended, at least one waits, and there is old
  work.\<close>

definition stuck :: "'f sys \<Rightarrow> bool" where
  "stuck y \<longleftrightarrow> sv_inv (y_srv y) \<and> sv_threadInitialized (y_srv y) \<and> sv_old (y_srv y) \<noteq> []
     \<and> length (sv_threadPool (y_srv y)) = length (y_workers y)
     \<and> y_main y \<noteq> MEnd \<and> (y_main y = MRun \<longrightarrow> \<not> sv_exitThread (y_srv y))
     \<and> (\<exists>pc \<in> set (y_workers y). waits pc) \<and> (\<forall>pc \<in> set (y_workers y). waits pc \<or> pc = WDone)"

lemma old_not_empty: "sv_inv s \<Longrightarrow> queue_empty (sv_oldWork s) \<longleftrightarrow> sv_old s = []"
  using lf.is_empty_spec [of "sv_oldWork s"] by (simp add: sv_inv_def sv_old_def)

lemma join_loop_ends: "join_loop ends i ts = Inr ts' \<Longrightarrow> \<forall>j<length ts. ends (i + j)"
proof (induction ts arbitrary: i ts')
  case (Cons t ts)
  then obtain ts1 where "ends i" and "join_loop ends (Suc i) ts = Inr ts1"
    by (auto elim!: rbind_InrE split: if_splits)
  moreover from this(2) have "\<forall>j<length ts. ends (Suc i + j)" by (rule Cons.IH)
  ultimately show ?case by (auto simp: less_Suc_eq_0_disj)
qed simp

lemma handler_old:
  assumes "sv_inv s" and "handler_step env now pc s = Inr (pc', s')"
  shows "prefix (sv_old s) (sv_old s')"
proof (cases "\<exists>wi. pc = DPush wi")
  case True
  then obtain wi where pc: "pc = DPush wi" by blast
  have "lfq_inv (sv_oldWork s)" using assms(1) by (simp add: sv_inv_def)
  then obtain b old where "queue_push wi (sv_oldWork s) = Inr (b, old)"
    "lfq_contents old = (if b then lfq_contents (sv_oldWork s) @ [wi] else lfq_contents (sv_oldWork s))"
    by (rule lf.pushE)
  then show ?thesis using assms(2) pc by (auto simp: sv_old_def)
next
  case False
  then have "sv_oldWork s' = sv_oldWork s" using assms(2)
    by (cases pc) (auto simp: Let_def add_ready_def log_event_def elim!: rbind_InrE dest!: complete_take_frame
        split: prod.splits if_splits)
  then show ?thesis by (simp add: sv_old_def)
qed

lemma stuck_worker:
  assumes "stuck y" and i: "i < length (y_workers y)" "y_workers y ! i \<noteq> WDone"
    and step: "worker_step env now sent (y_workers y ! i) (y_srv y) = Inr (pc, s')"
  shows "stuck (y\<lparr>y_srv := s', y_workers := (y_workers y)[i := pc]\<rparr>) \<and> s' = y_srv y"
proof -
  have "waits (y_workers y ! i)" using assms(1) i nth_mem [OF i(1)] unfolding stuck_def by metis
  moreover have "\<not> queue_empty (sv_oldWork (y_srv y))" using assms(1) by (simp add: stuck_def old_not_empty)
  ultimately have w: "waits pc" "s' = y_srv y"
    using step by (auto simp: waits_def DataInterp_ORDERED_def split: if_splits)
  have sub: "set ((y_workers y)[i := pc]) \<subseteq> insert pc (set (y_workers y))" by (rule set_update_subset_insert)
  have "pc \<in> set ((y_workers y)[i := pc])" using i by (simp add: set_update_memI)
  then show ?thesis using assms(1) w sub unfolding stuck_def by auto
qed

lemma stuck_step:
  assumes st: "stuck y" and nb: "allocator_law (ev_newbuf env)" and step: "sys_step env y f l y'"
  shows "stuck y' \<and> f = [] \<and> completions (y_srv y') = completions (y_srv y)
    \<and> prefix (sv_old (y_srv y)) (sv_old (y_srv y'))"
  using step
proof (cases rule: sys_step.cases)
  case (sys_worker i now sent pc s')
  have "waits (y_workers y ! i)" using st sys_worker(2,3) nth_mem [OF sys_worker(2)] unfolding stuck_def by metis
  then have "f = []" using sys_worker(5) by (auto simp: waits_def)
  then show ?thesis using stuck_worker [OF st sys_worker(2-4)] unfolding sys_worker(1) by auto
next
  case (sys_handler j now pc s')
  have inv: "sv_inv (y_srv y)" using st by (simp add: stuck_def)
  note fr = handler_step_frame [OF sys_handler(5)]
  have old: "prefix (sv_old (y_srv y)) (sv_old s')" by (rule handler_old [OF inv sys_handler(5)])
  moreover have "sv_inv s'" using handler_step_moves [OF inv nb sys_handler(5)] by blast
  moreover have "start_threads (y_srv y) s' (y_workers y) = y_workers y"
    using st by (simp add: start_threads_def stuck_def)
  moreover have "sv_old s' \<noteq> []" using st old by (auto simp: stuck_def)
  ultimately show ?thesis using st fr sys_handler(1,2) by (simp add: stuck_def)
next
  case (sys_main m s')
  obtain pc where "pc \<in> set (y_workers y)" "waits pc" using st by (auto simp: stuck_def)
  then obtain i where "i < length (sv_threadPool (y_srv y))" "y_workers y ! i \<noteq> WDone"
    using st unfolding stuck_def by (metis in_set_conv_nth waits_def worker_pc.distinct)
  then have "y_main y \<noteq> MJoin"
    using sys_main(5) join_loop_ends by (fastforce simp: ThreadPool_Wait_def elim!: rbind_InrE)
  then have run: "y_main y = MRun" using sys_main(4) by (cases "y_main y") auto
  then have "m = MJoin" "s' = y_srv y\<lparr>sv_exitThread := True\<rparr>" using sys_main(5) st by (auto simp: stuck_def)
  then show ?thesis using st sys_main(1-3) by (auto simp: stuck_def sv_old_def)
qed (use st in \<open>auto simp: stuck_def\<close>)

text \<open>C8: work that comes back late is never done.  Once every worker waits for the last results
  or has ended, and there is old work, no step of any thread changes that: no worker takes the
  old work, nothing more is handed out, \<open>OnCompletion\<close> is not reached again, the queue only
  grows, and \<open>Shutdown\<close> does not return.\<close>

theorem stuck_forever:
  assumes "stuck y" and "allocator_law (ev_newbuf env)" and "sys_run env y f l y'"
  shows "stuck y' \<and> f = [] \<and> completions (y_srv y') = completions (y_srv y)
    \<and> prefix (sv_old (y_srv y)) (sv_old (y_srv y')) \<and> y_main y' \<noteq> MEnd"
proof -
  have "stuck y' \<and> f = [] \<and> completions (y_srv y') = completions (y_srv y)
    \<and> prefix (sv_old (y_srv y)) (sv_old (y_srv y'))"
    using assms(3)
  proof (induction rule: sys_run.induct)
    case (run_step f l y1 f1 l1 y2)
    then show ?case using stuck_step [OF _ assms(2) run_step(2)] by (auto intro: prefix_order.trans)
  qed (use assms(1) in simp)
  then show ?thesis by (simp add: stuck_def)
qed

section \<open>The completion comes too early\<close>

text \<open>C10: the wait for the last results does not wait for the last results.  A handler takes the
  work of its client from the map before it writes the result; while it is between the two, a
  waiting worker sees an empty map and an empty queue, and reorders and verifies a file that
  lacks the result.  (No step of the handler is needed, and its result is still in its hands
  afterwards.)\<close>

theorem premature_completion:
  assumes "sv_inv (y_srv y)"
    and "i < length (y_workers y)" and "y_workers y ! i = WWait"
    and "HWrite c time wi data \<in> set (y_handlers y)"
    and "sv_workMap (y_srv y) = []" and "sv_old (y_srv y) = []" and "sv_reorderCounter (y_srv y) = 0"
    and "Server_OnCompletion env now (y_srv y\<lparr>sv_reorderCounter := 1\<rparr>) = Inr s'"
  shows "\<exists>y'. sys_run env y [] [] y' \<and> completions (y_srv y') = completions (y_srv y) + 1
    \<and> written_work (y_srv y') = written_work (y_srv y) \<and> HWrite c time wi data \<in> set (y_handlers y')"
proof -
  have f: "may_finish (y_srv y)"
    using assms(5,6) old_not_empty [OF assms(1)] by (simp add: may_finish_def ClientWorkMap_Empty_def)
  have "give_new_finish env now (y_srv y) = Inr s'"
    using assms(7,8) by (simp add: give_new_finish_def)
  from worker_seq_run [OF finish_seq [OF f this, of True] assms(2,3) refl]
  have "sys_run env y [] [] (y\<lparr>y_srv := s', y_workers := (y_workers y)[i := WDone]\<rparr>)" .
  moreover have "completions s' = completions (y_srv y) + 1" "written_work s' = written_work (y_srv y)"
    using assms(8) by (auto simp: Server_OnCompletion_def written_work_def log_event_def completions_def
        elim!: rbind_InrE)
  ultimately show ?thesis
    using assms(4) by (intro exI [of _ "y\<lparr>y_srv := s', y_workers := (y_workers y)[i := WDone]\<rparr>"]) simp
qed

section \<open>Runs from the start\<close>

text \<open>Runs of a system of one worker are put together from the steps of its threads.\<close>

definition one_worker :: "'f server \<Rightarrow> worker_pc \<Rightarrow> handler_pc list \<Rightarrow> 'f sys" where
  "one_worker s pc hs = \<lparr>y_srv = s, y_workers = [pc], y_handlers = hs, y_main = MRun\<rparr>"

lemma one_worker_sel [simp]:
  "y_srv (one_worker s pc hs) = s" "y_workers (one_worker s pc hs) = [pc]"
  "y_handlers (one_worker s pc hs) = hs" "y_main (one_worker s pc hs) = MRun"
  by (simp_all add: one_worker_def)

lemma run_worker:
  assumes "sys_run env y f l (one_worker s pc hs)" and "worker_seq env now sent k pc s = Inr (pc', s', f', l')"
  shows "sys_run env y (f @ f') (l @ l') (one_worker s' pc' hs)"
  using run_trans [OF worker_seq_run [OF assms(2), of 0 "one_worker s pc hs"] assms(1)]
  by (simp add: one_worker_def)

lemma run_handler:
  assumes "sys_run env y f l (one_worker s w hs)" and "handler_seq env now k pc s = Inr (pc', s', l')"
    and "sv_threadInitialized s"
    and "sys_step env (one_worker s w hs) [] [] (one_worker s w (hs @ [pc]))"
  shows "sys_run env y f (l @ l') (one_worker s' w (hs @ [pc']))"
  using run_trans [OF conjunct1 [OF handler_seq_run [OF assms(2), of "length hs" "one_worker s w (hs @ [pc])"]]
      run_step [OF assms(1,4)]] assms(3)
  by (simp add: one_worker_def start_threads_def)

lemma one_worker_message: "sys_step env (one_worker s w hs) [] [] (one_worker s w (hs @ [HMsg c t m data]))"
  using sys_message [of env "one_worker s w hs" c t m data] by (simp add: one_worker_def)

lemma one_worker_leave: "sys_step env (one_worker s w hs) [] [] (one_worker s w (hs @ [DRemove c]))"
  using sys_leave [of env "one_worker s w hs" c] by (simp add: one_worker_def)

text \<open>A worker that finds a client and no data.\<close>

lemma no_data_seq:
  assumes inv: "sv_inv s" and first: "sv_waiting s = c # cs" and old: "sv_old s = []" and nd: "\<not> data_left env s"
  obtains s' where "worker_seq env now sent 3 WFind s = Inr (WWait, s', [], [])" and "sv_inv s'"
    and "\<And>x. stamped x s' = stamped x s" and "sv_workMap s' = sv_workMap s" and "sv_old s' = []"
    and "sv_reorderCounter s' = sv_reorderCounter s" and "sv_tempFileMap s' = sv_tempFileMap s"
    and "sv_threadInitialized s' = sv_threadInitialized s" and "sv_exitThread s' = sv_exitThread s"
    and "sv_threadPool s' = sv_threadPool s" and "sv_stamps s' = sv_stamps s"
    and "sv_trace s' = sv_trace s @ [FreedBuffer]"
proof -
  obtain q where q: "ClientQueue_FindClientForWork (sv_clntQueue s)
      = Inr (case sv_waiting s of [] \<Rightarrow> None | c # _ \<Rightarrow> Some c, q)" "cq_inv MAXCLIENTS q"
    "cq_stamped q = cq_stamped (sv_clntQueue s)"
    by (rule find_waiting [OF inv])
  define s1 where "s1 = s\<lparr>sv_clntQueue := q\<rparr>"
  have i1: "sv_inv s1" "sv_old s1 = []" using inv q old by (simp_all add: s1_def sv_inv_def sv_old_def)
  obtain ow where ow: "queue_pop (sv_oldWork s1) = Inr (case sv_old s1 of [] \<Rightarrow> None | w # _ \<Rightarrow> Some w, ow)"
    "lfq_inv ow" "lfq_cap ow = MAXCLIENTS" "lfq_contents ow = tl (sv_old s1)"
    by (rule pop_old [OF i1(1)])
  obtain wi bs d where w: "DataInterp_GetClientWork (ev_ops env) (DataInterp_GetChunkSize (sv_data s)) (sv_data s)
      = (wi, bs, d)"
    by (metis prod.collapse)
  have nz: "wi_size wi = 0" using nd by (simp add: data_left_def w)
  let ?s = "log_event FreedBuffer (s1\<lparr>sv_oldWork := ow, sv_data := d\<rparr>)"
  show thesis
  proof (rule that [of ?s])
    show "worker_seq env now sent 3 WFind s = Inr (WWait, ?s, [], [])"
      using q(1) first ow(1) i1(2) w nz by (simp add: eval_nat_numeral s1_def [symmetric] Let_def)
        (simp add: s1_def)
    show "stamped x ?s = stamped x s" for x using q(3) by (simp add: s1_def stamped_def)
  qed (use i1 ow in \<open>simp_all add: s1_def sv_inv_def sv_old_def log_event_def\<close>)
qed

definition race_init :: "(byte list \<times> nat) server res" where
  "race_init = Server_init sample_env sample_memory (\<lambda>_. WorkInfo_default) 1 (8 + of_nat MSG_OFFSET) 1 ([], 0) [] []
     True (Some (replicate 8 0))"

definition race_work :: work_info where
  "race_work = WorkInfo 8 8 0"

definition race_data :: "nat \<Rightarrow> (byte list \<times> nat) data_state" where
  "race_data i = \<lparr>d_file = ([1,0,0,0,2,0,0,0], 8 * i), d_fileSize = 8, d_cursorPos = of_nat (8 * i),
     d_chunkSize = 8, d_curIndex = of_nat i\<rparr>"

lemma race_give:
  "DataInterp_GetClientWork (ev_ops sample_env) (DataInterp_GetChunkSize (race_data 0)) (race_data 0)
    = (race_work, [1,0,0,0,2,0,0,0], race_data 1)"
  by (simp add: sample_env_def mem_file_ops_def DataInterp_defs Data_GetChunkSize_def
      Data_GetClientWork_def race_data_def slice_at_def WorkInfo_def race_work_def)

lemma race_no_more: "sv_data s = race_data 1 \<Longrightarrow> \<not> data_left sample_env s"
  by (simp add: sample_env_def mem_file_ops_def DataInterp_defs Data_GetChunkSize_def data_left_def
      Data_GetClientWork_def race_data_def slice_at_def WorkInfo_default_def)

lemma race_initE:
  obtains s where "race_init = Inr s" and "sv_inv s" and "sv_waiting s = []" and "sv_old s = []"
    and "sv_workMap s = []" and "sv_threadPool s = replicate 1 NoThread" and "sv_data s = race_data 0"
    and "\<not> sv_threadInitialized s" and "\<not> sv_exitThread s" and "sv_reorderCounter s = 0"
    and "fi_indices (sv_tempFileMap s) = []" and "GetWritePos (sv_tempFileMap s) = 0"
proof -
  obtain s where s: "race_init = Inr s" "sv_inv s" "sv_waiting s = []" "sv_old s = []" "sv_workMap s = []"
    "sv_threadPool s = replicate 1 NoThread" "\<not> sv_threadInitialized s" "\<not> sv_exitThread s"
    "sv_reorderCounter s = 0"
    and d: "sv_data s = DataInterp_LoadData (ev_ops sample_env) 1 (8 + of_nat MSG_OFFSET - of_nat MSG_OFFSET) (Data_init ([], 0))"
    and fm: "sv_tempFileMap s = snd (FileMappingChunkRW_Create True (Some (replicate 8 0))
      (unat (Algorithm_GetOutSize (ucast (DataInterp_GetFileSize (sv_data s)))))
      (FileMappingIndexed_default (ev_gran sample_env) (unat (lit_MB 100))))"
    unfolding race_init_def
    by (rule Server_init_spec [of 1 sample_env sample_memory "\<lambda>_. WorkInfo_default" "8 + of_nat MSG_OFFSET" 1
      "([], 0)" "[]" "[]" True "Some (replicate 8 0)"]) auto
  have d0: "sv_data s = race_data 0"
    by (simp add: d sample_env_def mem_file_ops_def DataInterp_defs Data_LoadData_def Data_init_def race_data_def)
  have "fi_indices (sv_tempFileMap s) = []" "GetWritePos (sv_tempFileMap s) = 0"
    unfolding fm by (simp_all add: opened_defs GetWritePos_def)
  then show thesis using that s d0 by blast
qed

text \<open>Client 7 is ready and gets the only piece of work.\<close>

lemma given_stateE:
  obtains s0 s f where "race_init = Inr s0"
    and "sys_run sample_env ((sys_of s0)\<lparr>y_handlers := [HMsg 7 TYPE_READY MSG_READY_INIT []]\<rparr>) f [] (one_worker s WCheck [HDone])"
    and "sv_inv s" and "stamped 7 s" and "sv_waiting s = []" and "sv_old s = []" and "sv_data s = race_data 1"
    and "sv_workMap s = [(7, race_work)]" and "sv_reorderCounter s = 0" and "sv_threadInitialized s"
    and "\<not> sv_exitThread s" and "length (sv_threadPool s) = 1" and "fi_indices (sv_tempFileMap s) = []"
    and "GetWritePos (sv_tempFileMap s) = 0" and "sv_tempFileMap s = sv_tempFileMap s0"
    and "sv_trace s = [SentNew 7 race_work TYPE_WORK MSG_WORK_NEW [1,0,0,0,2,0,0,0] True]"
proof -
  obtain s0 where s0: "race_init = Inr s0" "sv_inv s0" "sv_waiting s0 = []" "sv_old s0 = []" "sv_workMap s0 = []"
    "sv_threadPool s0 = replicate 1 NoThread" "sv_data s0 = race_data 0" "\<not> sv_threadInitialized s0"
    "\<not> sv_exitThread s0" "sv_reorderCounter s0 = 0" "fi_indices (sv_tempFileMap s0) = []"
    "GetWritePos (sv_tempFileMap s0) = 0"
    by (rule race_initE)
  have tr: "sv_trace s0 = []" using s0(1) by (auto simp: race_init_def Server_init_def Let_def elim!: rbind_InrE)
  obtain s1 where s1: "Server_MsgHandler sample_env 1 7 TYPE_READY MSG_READY_INIT [] s0 = Inr s1" "sv_inv s1"
    "sv_waiting s1 = cq_fast (sv_clntQueue s0) @ push_bounded MAXCLIENTS 7 (cq_other (sv_clntQueue s0))"
    "\<And>x. stamped x s1 = (x = 7 \<or> stamped x s0)" "sv_old s1 = sv_old s0" "sv_workMap s1 = sv_workMap s0"
    "sv_data s1 = sv_data s0" "sv_threadInitialized s1" "sv_exitThread s1 = sv_exitThread s0"
    "sv_threadPool s1 = (if sv_threadInitialized s0 then sv_threadPool s0 else ThreadPool_Initialize (sv_threadPool s0))"
    "sv_tempFileMap s1 = sv_tempFileMap s0" "sv_reorderCounter s1 = sv_reorderCounter s0" "sv_trace s1 = sv_trace s0"
    using ready_spec [OF s0(2) sample_law, of 1 7 "[]"] by metis
  have w1: "sv_waiting s1 = [7]" using s0(3) s1(3) by (simp add: sv_waiting_def push_bounded_def MAXCLIENTS_def)
  have p1: "length (sv_threadPool s1) = 1" using s1(10) s0(6,8) by (simp add: Initialize_all)
  let ?y = "(sys_of s0)\<lparr>y_handlers := [HMsg 7 TYPE_READY MSG_READY_INIT []]\<rparr>"
  have "sys_run sample_env ?y [] [] (one_worker s1 WTimer [HDone])"
    using handler_seq_run [OF msg_seq [OF s1(1)], of 0 ?y] s0(8) s1(8) p1
    by (simp add: sys_of_def one_worker_def start_threads_def)
  then have r: "sys_run sample_env ?y [] [] (one_worker s1 WFind [HDone])"
    using run_worker [of sample_env ?y "[]" "[]" s1 WTimer "[HDone]" 0 True 1] s0(9) s1(9) by simp
  have o1: "sv_old s1 = []" and st1: "stamped 7 s1"
    and d1: "DataInterp_GetClientWork (ev_ops sample_env) (DataInterp_GetChunkSize (sv_data s1)) (sv_data s1)
      = (race_work, [1,0,0,0,2,0,0,0], race_data 1)"
    using s0 s1 race_give by simp_all
  have nz: "wi_size race_work \<noteq> 0" by (simp add: race_work_def WorkInfo_def)
  obtain s2 where s2: "work_turn sample_env 2 True s1 = Inr (GaveWork, s2)" "sv_inv s2"
    "\<And>x. stamped x s2 = stamped x s1" "sv_waiting s2 = []" "sv_old s2 = []" "sv_data s2 = race_data 1"
    "sv_workMap s2 = ClientWorkMap_Change 7 race_work (sv_workMap s1)" "sv_tempFileMap s2 = sv_tempFileMap s1"
    "sv_reorderCounter s2 = sv_reorderCounter s1"
    "sv_trace s2 = sv_trace s1 @ [SentNew 7 race_work TYPE_WORK MSG_WORK_NEW
      (take (unat (wi_size race_work)) [1,0,0,0,2,0,0,0]) True]"
    using turn_new_sent [OF s1(2) w1 o1 st1 d1 nz, of 2] by metis
  have "losses sample_env (2, Turn True) s1 = []"
    using w1 o1 s0(5) s1(6) by (simp add: entry_of_def Let_def)
  then obtain k f where k: "worker_seq sample_env 2 True k WFind s1 = Inr (WCheck, s2, f, [])"
    using turn_seq [OF s1(2) s2(1)] by (auto simp: turn_pc_def)
  note fr2 = worker_seq_frame [OF k]
  show thesis
  proof (rule that [OF s0(1)])
    show "sys_run sample_env ?y f [] (one_worker s2 WCheck [HDone])" using run_worker [OF r k] by simp
    show "sv_workMap s2 = [(7, race_work)]"
      using s0(5) s1(6) s2(7) by (simp add: ClientWorkMap_Change_def ClientWorkMap_Add_def)
    show "sv_trace s2 = [SentNew 7 race_work TYPE_WORK MSG_WORK_NEW [1,0,0,0,2,0,0,0] True]"
      using tr s1(13) s2(10) by (simp add: race_work_def WorkInfo_def)
  qed (use s0 s1 s2 fr2 p1 st1 in simp_all)
qed

text \<open>Then client 9 is ready, too: the worker waits for 7.\<close>

lemma race_stateE:
  obtains s0 s hs f where "race_init = Inr s0" and "sys_run sample_env (sys_of s0) f [] (one_worker s WWait hs)"
    and "sv_inv s" and "stamped 7 s" and "sv_workMap s = [(7, race_work)]" and "sv_old s = []"
    and "sv_reorderCounter s = 0" and "sv_threadInitialized s" and "\<not> sv_exitThread s"
    and "length (sv_threadPool s) = 1" and "fi_indices (sv_tempFileMap s) = []" and "GetWritePos (sv_tempFileMap s) = 0"
    and "sv_tempFileMap s = sv_tempFileMap s0"
    and "sv_trace s = [SentNew 7 race_work TYPE_WORK MSG_WORK_NEW [1,0,0,0,2,0,0,0] True, FreedBuffer]"
    and "hs = [HDone, HDone]"
proof -
  obtain s0 s2 f where g: "race_init = Inr s0"
    "sys_run sample_env ((sys_of s0)\<lparr>y_handlers := [HMsg 7 TYPE_READY MSG_READY_INIT []]\<rparr>) f [] (one_worker s2 WCheck [HDone])"
    and s2: "sv_inv s2" "stamped 7 s2" "sv_waiting s2 = []" "sv_old s2 = []" "sv_data s2 = race_data 1"
    "sv_workMap s2 = [(7, race_work)]" "sv_reorderCounter s2 = 0" "sv_threadInitialized s2" "\<not> sv_exitThread s2"
    "length (sv_threadPool s2) = 1" "fi_indices (sv_tempFileMap s2) = []" "GetWritePos (sv_tempFileMap s2) = 0"
    "sv_tempFileMap s2 = sv_tempFileMap s0"
    "sv_trace s2 = [SentNew 7 race_work TYPE_WORK MSG_WORK_NEW [1,0,0,0,2,0,0,0] True]"
    by (rule given_stateE)
  have "sys_step sample_env (sys_of s0) [] [] ((sys_of s0)\<lparr>y_handlers := [HMsg 7 TYPE_READY MSG_READY_INIT []]\<rparr>)"
    using sys_message [of sample_env "sys_of s0" 7] by (simp add: sys_of_def)
  then have "sys_run sample_env (sys_of s0) f [] (one_worker s2 WCheck [HDone])"
    using run_trans [OF g(2) run_one] by fastforce
  then have r3: "sys_run sample_env (sys_of s0) f [] (one_worker s2 WFind [HDone])"
    using run_worker [of sample_env "sys_of s0" f "[]" s2 WCheck "[HDone]" 0 True 1] s2(9) by simp
  obtain s3 where s3: "Server_MsgHandler sample_env 4 9 TYPE_READY MSG_READY_INIT [] s2 = Inr s3" "sv_inv s3"
    "sv_waiting s3 = cq_fast (sv_clntQueue s2) @ push_bounded MAXCLIENTS 9 (cq_other (sv_clntQueue s2))"
    "\<And>x. stamped x s3 = (x = 9 \<or> stamped x s2)" "sv_old s3 = sv_old s2" "sv_workMap s3 = sv_workMap s2"
    "sv_data s3 = sv_data s2" "sv_threadInitialized s3" "sv_exitThread s3 = sv_exitThread s2"
    "sv_threadPool s3 = (if sv_threadInitialized s2 then sv_threadPool s2 else ThreadPool_Initialize (sv_threadPool s2))"
    "sv_tempFileMap s3 = sv_tempFileMap s2" "sv_reorderCounter s3 = sv_reorderCounter s2" "sv_trace s3 = sv_trace s2"
    using ready_spec [OF s2(1) sample_law, of 4 9 "[]"] by metis
  have w3: "sv_waiting s3 = [9]" using s2(3) s3(3) by (simp add: sv_waiting_def push_bounded_def MAXCLIENTS_def)
  have r4: "sys_run sample_env (sys_of s0) f [] (one_worker s3 WFind [HDone, HDone])"
    using run_handler [OF r3 msg_seq [OF s3(1)] s2(8) one_worker_message] by simp
  have o3: "sv_old s3 = []" "\<not> data_left sample_env s3"
    using s2 s3 race_no_more by simp_all
  obtain s4 where s4: "worker_seq sample_env 5 True 3 WFind s3 = Inr (WWait, s4, [], [])" "sv_inv s4"
    "\<And>x. stamped x s4 = stamped x s3" "sv_workMap s4 = sv_workMap s3" "sv_old s4 = []"
    "sv_reorderCounter s4 = sv_reorderCounter s3" "sv_tempFileMap s4 = sv_tempFileMap s3"
    "sv_threadInitialized s4 = sv_threadInitialized s3" "sv_exitThread s4 = sv_exitThread s3"
    "sv_threadPool s4 = sv_threadPool s3" "sv_trace s4 = sv_trace s3 @ [FreedBuffer]"
    using no_data_seq [OF s3(2) w3 o3, of 5 True] by metis
  show thesis
  proof (rule that [OF g(1)])
    show "sys_run sample_env (sys_of s0) f [] (one_worker s4 WWait [HDone, HDone])"
      using run_worker [OF r4 s4(1)] by simp
  qed (use s2 s3 s4 in simp_all)
qed

lemma sample_completion:
  assumes "fi_indices (sv_tempFileMap s) = []" and "GetWritePos (sv_tempFileMap s) = 0"
  shows "\<exists>s'. Server_OnCompletion sample_env now s = Inr s'"
proof -
  define new where "new = FileMappingChunkRW_make 65536 (unat (lit_MB 100)) True (Some (replicate 8 0)) 0"
  have b: "fm_bytes (FileMappingChunkRW_Close new) = replicate 8 0"
    by (simp add: new_def FileMappingChunkRW_make_def FileMapping_Create_file_def set_map_def Let_def
        FileMappingChunkRW_Close_def FileMapping_Close_def FileMappingChunkRW_default_def)
  have "FileMappingIndexed_ReorderFileData (full_view 65536) 65536 True (Some (replicate 8 0)) (sv_tempFileMap s)
      = Inr (replicate 8 0, FileMappingChunkRW_Close (sv_tempFileMap s))"
    using assms by (simp add: FileMappingIndexed_ReorderFileData_def new_def [symmetric] b)
  moreover have d: "(4 :: nat) dvd Suc (Suc (Suc (Suc (Suc (Suc (Suc (Suc 0)))))))" by presburger
  have "Server_VerifyNewData (\<lambda>w. w) (mem_file_ops [1,0,0,0,2,0,0,0]) 9 True True
      (replicate 8 0, 0) ([1,0,0,0,2,0,0,0], 0) = Inr (replicate 8 0 = map_words (\<lambda>w. w) [1,0,0,0,2,0,0,0])"
    using VerifyNewData_eq [OF mem_file_laws, of "(replicate 8 0, 0)" "([1,0,0,0,2,0,0,0], 0)" "\<lambda>w. w" 9] d by simp
  ultimately show ?thesis by (simp add: Server_OnCompletion_def sample_env_def)
qed

theorem premature_completion_witness:
  "\<exists>s0 f y1 y2 time. race_init = Inr s0 \<and> sys_run sample_env (sys_of s0) f [] y1 \<and> sys_run sample_env y1 [] [] y2
    \<and> completions (y_srv y2) = completions (y_srv y1) + 1 \<and> written_work (y_srv y2) = written_work (y_srv y1)
    \<and> HWrite 7 time race_work [1,0,0,0,2,0,0,0] \<in> set (y_handlers y2)"
proof -
  obtain s0 s hs f where s: "race_init = Inr s0" "sys_run sample_env (sys_of s0) f [] (one_worker s WWait hs)"
    "sv_inv s" "stamped 7 s" "sv_workMap s = [(7, race_work)]" "sv_old s = []" "sv_reorderCounter s = 0"
    "sv_threadInitialized s" "fi_indices (sv_tempFileMap s) = []" "GetWritePos (sv_tempFileMap s) = 0"
    by (rule race_stateE)
  let ?data = "[1,0,0,0,2,0,0,0] :: byte list"
  let ?s = "s\<lparr>sv_workMap := []\<rparr>"
  have st: "cq_obj (sv_clntQueue s) 7 \<noteq> 0" using s(4) by (simp add: stamped_def cq_stamped_def)
  have t: "complete_take 7 s = (Some race_work, ?s)"
    using s(5) by (simp add: complete_take_def ClientWorkMap_GetClientWork_def erase_entry_def)
  define time where "time = ev_r32 sample_env (elapsed 6 (sv_stamps s (cq_obj (sv_clntQueue s) 7)))"
  have "handler_seq sample_env 6 3 (HMsg 7 TYPE_WORK MSG_WORK_COMPLETE ?data) s
      = Inr (HWrite 7 time race_work ?data, ?s, [])"
    using st t by (simp add: eval_nat_numeral dispatch_def Let_def time_def)
  from run_handler [OF s(2) this s(8) one_worker_message]
  have r: "sys_run sample_env (sys_of s0) f [] (one_worker ?s WWait (hs @ [HWrite 7 time race_work ?data]))" by simp
  let ?y = "one_worker ?s WWait (hs @ [HWrite 7 time race_work ?data])"
  obtain s' where "Server_OnCompletion sample_env 7 (?s\<lparr>sv_reorderCounter := 1\<rparr>) = Inr s'"
    using sample_completion [of "?s\<lparr>sv_reorderCounter := 1\<rparr>" 7] s by auto
  then have "\<exists>y'. sys_run sample_env ?y [] [] y' \<and> completions (y_srv y') = completions (y_srv ?y) + 1
      \<and> written_work (y_srv y') = written_work (y_srv ?y) \<and> HWrite 7 time race_work ?data \<in> set (y_handlers y')"
    by (intro premature_completion [of ?y 0]) (use s in \<open>auto simp: sv_inv_def ClientWorkMap_inv_def sv_old_def\<close>)
  then show ?thesis using s(1) r by blast
qed

text \<open>Client 7 leaves while the worker waits for it.\<close>

lemma stuck_stateE:
  obtains s0 f y where "race_init = Inr s0" and "sys_run sample_env (sys_of s0) f [] y" and "stuck y"
proof -
  obtain s0 s hs f where s: "race_init = Inr s0" "sys_run sample_env (sys_of s0) f [] (one_worker s WWait hs)"
    "sv_inv s" "sv_workMap s = [(7, race_work)]" "sv_old s = []" "sv_threadInitialized s" "\<not> sv_exitThread s"
    "length (sv_threadPool s) = 1"
    by (rule race_stateE)
  obtain s' where s': "Server_DisconnectHandler 7 s = Inr s'" "sv_inv s'"
    "sv_old s' = (if length (sv_old s) < MAXCLIENTS then sv_old s @ entry_of 7 (sv_workMap s) else sv_old s)"
    using disconnect_spec [OF s(3), of 7] by metis
  have seq: "handler_seq sample_env 6 4 (DRemove 7) s = Inr (HDone, s', [])"
    using leave_seq [OF s(3) s'(1), of sample_env 6] s(5) by (simp add: MAXCLIENTS_def)
  have "sv_threadInitialized s' \<and> length (sv_threadPool s') = 1 \<and> \<not> sv_exitThread s'"
    using s'(1) s(6-8) by (auto simp: Server_DisconnectHandler_def Let_def elim!: rbind_InrE
        dest!: complete_take_frame split: prod.splits option.splits)
  moreover have "sv_old s' \<noteq> []" using s'(3) s(4,5) by (simp add: entry_of_def MAXCLIENTS_def)
  ultimately have "stuck (one_worker s' WWait (hs @ [HDone]))"
    using s'(2) by (simp add: stuck_def waits_def)
  moreover have "sys_run sample_env (sys_of s0) f [] (one_worker s' WWait (hs @ [HDone]))"
    using run_handler [OF s(2) seq s(6) one_worker_leave] by simp
  ultimately show thesis using that s(1) by blast
qed

theorem stuck_forever_witness:
  "\<exists>s0 f y. race_init = Inr s0 \<and> sys_run sample_env (sys_of s0) f [] y \<and> stuck y
    \<and> (\<forall>f' l y'. \<not> sys_run sample_env y f' l y' \<or> y_main y' \<noteq> MEnd)"
proof -
  obtain s0 f y where s: "race_init = Inr s0" "sys_run sample_env (sys_of s0) f [] y" "stuck y"
    by (rule stuck_stateE)
  show ?thesis using stuck_forever [OF s(3) sample_law] s by blast
qed

theorem interleaved_work_conserved_witness:
  "\<exists>s0 f y. race_init = Inr s0 \<and> sys_run sample_env (sys_of s0) f [] y \<and> sv_old (y_srv y) \<noteq> []
    \<and> mset f = mapped (sv_workMap (y_srv y)) + mset (sv_old (y_srv y)) + mset (written_work (y_srv y))
      + (\<Sum>pc\<leftarrow>y_workers y. mset (worker_holds pc)) + (\<Sum>pc\<leftarrow>y_handlers y. mset (handler_holds pc))"
proof -
  obtain s0 f y where s: "race_init = Inr s0" "sys_run sample_env (sys_of s0) f [] y" "stuck y"
    by (rule stuck_stateE)
  have "0 < (1 :: nat)" and "1 < (2 :: nat) ^ 32" by simp_all
  from interleaved_work_conserved [OF this(1) sample_law this(2) s(1) [unfolded race_init_def] s(2)]
  show ?thesis using s by (auto simp: stuck_def)
qed

theorem completion_at_most_once_witness:
  "\<exists>s0 f y. race_init = Inr s0 \<and> sys_run sample_env (sys_of s0) f [] y \<and> completions (y_srv y) \<le> 1"
proof -
  obtain s0 f y where s: "race_init = Inr s0" "sys_run sample_env (sys_of s0) f [] y" "stuck y"
    by (rule stuck_stateE)
  have "0 < (1 :: nat)" and "1 < (2 :: nat) ^ 32" by simp_all
  from completion_at_most_once [OF this(1) sample_law this(2) s(1) [unfolded race_init_def] s(2)]
  have "completions (y_srv y) \<le> 1" by simp
  then show ?thesis using s(1,2) by blast
qed



end
