(* ===== verification/ClientSide.thy ===== *)
theory ClientSide
  imports Server
begin

text \<open>
  The client (\<open>Client/Client.cpp\<close>): a number of connections to the server that share one
  \<open>FileReceive\<close>.  The connections are objects of the closed \<open>TCPCS.dll\<close>
  (\<open>TCPClientInterface\<close>), known here by a number: what the client asks of them is the trace
  \<open>cl_calls\<close> (a null \<open>dest\<close> or \<open>port\<close> is \<open>None\<close>), what \<open>Connect\<close> and \<open>RecvServData\<close> answer is an argument.
\<close>

section \<open>State\<close>

datatype client_call =
    Create nat u32
  | Destroy nat
  | Connect nat "wstring option" "wstring option" bool real
  | RecvData nat u32 u32
  | Disconnect nat
  | SendMsgTo nat u16 u16
  | SendWork nat u16 u16 "byte list"

record 'd client_state =
  cl_nClients :: u32
  cl_clints :: "nat list"
  cl_fileReceive :: "'d file_receive"
  cl_calls :: "client_call list"

definition call :: "client_call \<Rightarrow> 'd client_state \<Rightarrow> 'd client_state" where
  "call c cl = cl\<lparr>cl_calls := cl_calls cl @ [c]\<rparr>"

definition sizeof_size_t :: u64 where "sizeof_size_t = 8"
definition sizeof_DataHeader :: u64 where "sizeof_DataHeader = 8"

text \<open>The size given to \<open>BufferOptions\<close> is a \<open>UINT\<close>.\<close>

definition Client_buffSize :: "u64 \<Rightarrow> u32" where
  "Client_buffSize buffSize = ucast (buffSize + sizeof_size_t + sizeof_DataHeader + of_nat MSG_OFFSET)"

fun create_loop :: "(nat \<Rightarrow> nat) \<Rightarrow> u64 \<Rightarrow> nat \<Rightarrow> nat \<Rightarrow> 'd client_state \<Rightarrow> 'd client_state" where
  "create_loop newClient buffSize i 0 cl = cl"
| "create_loop newClient buffSize i (Suc k) cl =
     create_loop newClient buffSize (Suc i) k
       (call (Create (newClient i) (Client_buffSize buffSize)) (cl\<lparr>cl_clints := cl_clints cl @ [newClient i]\<rparr>))"

definition Client_init :: "(nat \<Rightarrow> nat) \<Rightarrow> 'd \<Rightarrow> u32 \<Rightarrow> u64 \<Rightarrow> 'd client_state" where
  "Client_init newClient d nClients buffSize =
     create_loop newClient buffSize 0 (unat nClients)
       \<lparr>cl_nClients = nClients, cl_clints = [], cl_fileReceive = FileReceive_init d, cl_calls = []\<rparr>"

definition Client_destroy :: "'d client_state \<Rightarrow> 'd client_state" where
  "Client_destroy cl = fold (\<lambda>clint. call (Destroy clint)) (cl_clints cl) cl"

section \<open>Operations\<close>

text \<open>The loops of \<open>Connect\<close> and \<open>RecvServData\<close> stop at the first connection that refuses.\<close>

fun connect_loop ::
  "(nat \<Rightarrow> bool) \<Rightarrow> wstring option \<Rightarrow> wstring option \<Rightarrow> bool \<Rightarrow> real \<Rightarrow> nat list \<Rightarrow> 'd client_state \<Rightarrow> bool \<times> 'd client_state" where
  "connect_loop ok dest port ipv6 timeOut [] cl = (True, cl)"
| "connect_loop ok dest port ipv6 timeOut (clint # cs) cl =
     (let cl1 = call (Connect clint dest port ipv6 timeOut) cl
      in if \<not> ok clint then (False, cl1) else connect_loop ok dest port ipv6 timeOut cs cl1)"

definition Client_Connect ::
  "(nat \<Rightarrow> bool) \<Rightarrow> wstring option \<Rightarrow> wstring option \<Rightarrow> bool \<Rightarrow> real \<Rightarrow> 'd client_state \<Rightarrow> bool \<times> 'd client_state" where
  "Client_Connect ok dest port ipv6 timeOut cl = connect_loop ok dest port ipv6 timeOut (cl_clints cl) cl"

fun recv_loop ::
  "(nat \<Rightarrow> bool) \<Rightarrow> u32 \<Rightarrow> u32 \<Rightarrow> nat list \<Rightarrow> 'd client_state \<Rightarrow> bool \<times> 'd client_state" where
  "recv_loop ok nThreads nConcThreads [] cl = (True, cl)"
| "recv_loop ok nThreads nConcThreads (clint # cs) cl =
     (let cl1 = call (RecvData clint nThreads nConcThreads) cl
      in if \<not> ok clint then (False, cl1) else recv_loop ok nThreads nConcThreads cs cl1)"

text \<open>The list is asked for on the first connection; with none, \<open>*clints.get()\<close> is past the end.\<close>

definition Client_RecvServData ::
  "(nat \<Rightarrow> bool) \<Rightarrow> u32 \<Rightarrow> u32 \<Rightarrow> 'd client_state \<Rightarrow> (bool \<times> 'd client_state) res" where
  "Client_RecvServData ok nThreads nConcThreads cl =
     (let (r, cl1) = recv_loop ok nThreads nConcThreads (cl_clints cl) cl
      in if \<not> r then Inr (False, cl1)
         else (case cl_clints cl1 of
                 [] \<Rightarrow> Inl OutOfBounds
               | clint # _ \<Rightarrow> Inr (True, call (SendMsgTo clint TYPE_FILETRANSFER MSG_FILETRANSFER_LIST) cl1)))"

definition Client_Disconnect :: "'d client_state \<Rightarrow> 'd client_state" where
  "Client_Disconnect cl = fold (\<lambda>clint. call (Disconnect clint)) (cl_clints cl) cl"

definition Client_SignalReady :: "'d client_state \<Rightarrow> 'd client_state" where
  "Client_SignalReady cl = fold (\<lambda>clint. call (SendMsgTo clint TYPE_READY MSG_READY_INIT)) (cl_clints cl) cl"

section \<open>The handlers\<close>

text \<open>\<open>MSG_WORK_NEW\<close>: \<open>garbage\<close> is what the send buffer of \<open>GetSendBuffer\<close> holds.\<close>

definition process_work ::
  "(u32 \<Rightarrow> u32) \<Rightarrow> byte list \<Rightarrow> byte list \<Rightarrow> byte list res" where
  "process_work alg garbage indata =
     (let inDataSize = (of_nat (length indata) :: u32);
          outSizeMax = Algorithm_GetOutSize inDataSize
      in rbind (Algorithm_AlgorithmInOut alg (Some indata) inDataSize
                  (Some (take (unat outSizeMax) garbage)) outSizeMax)
           (\<lambda>(dataSize, out). Inr (take (unat dataSize) (case out of Some b \<Rightarrow> b | None \<Rightarrow> []))))"

definition Client_MsgHandler ::
  "'d disk_ops \<Rightarrow> (wstring \<Rightarrow> bool) \<Rightarrow> (wstring \<Rightarrow> file_data list) \<Rightarrow> (u32 \<Rightarrow> u32) \<Rightarrow> byte list
     \<Rightarrow> nat \<Rightarrow> u16 \<Rightarrow> u16 \<Rightarrow> stream \<Rightarrow> 'd client_state \<Rightarrow> 'd client_state res" where
  "Client_MsgHandler k exists_dir localList alg garbage tcpClient type msg strm cl =
     (if type = TYPE_FILETRANSFER then
        (if msg = MSG_FILETRANSFER_LIST then
           rbind (FileReceive_HaveFileList k exists_dir localList strm (cl_fileReceive cl)) (\<lambda>(have, fr).
             let cl1 = cl\<lparr>cl_fileReceive := fr\<rparr> in
             Inr (if have then Client_SignalReady cl1
                  else call (SendMsgTo tcpClient TYPE_FILETRANSFER MSG_FILETRANSFER_SEND) cl1))
         else if msg = MSG_FILETRANSFER_SEND then
           rbind (FileReceive_ReadFiles k (MsgStreamReader_GetData strm) (cl_fileReceive cl)) (\<lambda>(finished, fr).
             let cl1 = cl\<lparr>cl_fileReceive := fr\<rparr> in
             Inr (if finished then Client_SignalReady cl1 else cl1))
         else Inr cl)
      else if type = TYPE_WORK then
        (if msg = MSG_WORK_NEW then
           rbind (process_work alg garbage (MsgStreamReader_GetData strm)) (\<lambda>out.
             Inr (call (SendWork tcpClient TYPE_WORK MSG_WORK_COMPLETE out) cl))
         else Inr cl)
      else Inr cl)"

definition Client_DisconnectHandler :: "bool \<Rightarrow> 'd client_state \<Rightarrow> 'd client_state" where
  "Client_DisconnectHandler unexpected cl = cl"

section \<open>The reply to work\<close>

lemma process_work_eq:
  assumes "4 dvd length data" and "length data < 2 ^ 32" and "length data \<le> length garbage"
  shows "process_work alg garbage data = Inr (map_words alg data)"
proof -
  let ?n = "of_nat (length data) :: u32"
  have n: "unat ?n = length data" using assms(2) by (simp add: unat_of_nat_small)
  have "Algorithm_AlgorithmInOut alg (Some data) ?n (Some (take (length data) garbage)) ?n
      = Inr (?n, Some (put_at 0 (map_words alg (take (4 * (unat ?n div 4)) data)) (take (length data) garbage)))"
    by (rule AlgorithmInOut_eq) (use assms n in auto)
  moreover have "4 * (unat ?n div 4) = length data" using assms(1) n by simp
  ultimately show ?thesis
    using n assms by (simp add: process_work_def Algorithm_GetOutSize_def Let_def put_at_def length_map_words)
qed

section \<open>What the connections are asked for\<close>

lemma call_simps [simp]:
  "cl_clints (call c cl) = cl_clints cl" "cl_calls (call c cl) = cl_calls cl @ [c]"
  "cl_nClients (call c cl) = cl_nClients cl" "cl_fileReceive (call c cl) = cl_fileReceive cl"
  by (simp_all add: call_def)

lemma fold_call:
  "fold (\<lambda>clint. call (f clint)) cs cl = cl\<lparr>cl_calls := cl_calls cl @ map f cs\<rparr>"
  by (induction cs arbitrary: cl) (simp_all add: call_def)

lemma create_loop_spec:
  "create_loop newClient buffSize i k cl = cl\<lparr>cl_clints := cl_clints cl @ map newClient [i..<i + k],
     cl_calls := cl_calls cl @ map (\<lambda>j. Create (newClient j) (Client_buffSize buffSize)) [i..<i + k]\<rparr>"
  by (induction k arbitrary: i cl) (simp_all add: call_def upt_rec)

lemma Client_init_clints:
  "cl_clints (Client_init newClient d nClients buffSize) = map newClient [0..<unat nClients]"
  by (simp add: Client_init_def create_loop_spec)

text \<open>How far the loops get: to the first connection that refuses, that one included.\<close>

definition asked :: "('a \<Rightarrow> bool) \<Rightarrow> 'a list \<Rightarrow> 'a list" where
  "asked ok cs = takeWhile ok cs @ take 1 (dropWhile ok cs)"

lemma connect_loop_spec:
  "connect_loop ok dest port ipv6 timeOut cs cl
    = (list_all ok cs, cl\<lparr>cl_calls := cl_calls cl @ map (\<lambda>c. Connect c dest port ipv6 timeOut) (asked ok cs)\<rparr>)"
  by (induction cs arbitrary: cl) (simp_all add: call_def asked_def Let_def)

lemma recv_loop_spec:
  "recv_loop ok nt nct cs cl
    = (list_all ok cs, cl\<lparr>cl_calls := cl_calls cl @ map (\<lambda>c. RecvData c nt nct) (asked ok cs)\<rparr>)"
  by (induction cs arbitrary: cl) (simp_all add: call_def asked_def Let_def)

text \<open>C40: connecting and receiving.  A client constructed with at least one connection asks its
  connections in order up to the first that refuses, answers whether none did, and only then
  asks for the list of files, once, on the first connection.  A client without connections
  reads past the end of its array when it starts to receive.\<close>

theorem client_starts_in_order:
  assumes "0 < n" and cl: "cl = Client_init newClient d n buffSize"
  shows "(case Client_Connect ok dest port ipv6 timeOut cl of (b, cl1) \<Rightarrow>
        b = (\<forall>i < unat n. ok (newClient i))
      \<and> cl_calls cl1 = cl_calls cl @ map (\<lambda>c. Connect c dest port ipv6 timeOut) (asked ok (cl_clints cl)))
    \<and> (case Client_RecvServData ok nt nct cl of Inl e \<Rightarrow> False | Inr (b, cl1) \<Rightarrow>
        b = (\<forall>i < unat n. ok (newClient i))
      \<and> cl_calls cl1 = cl_calls cl @ map (\<lambda>c. RecvData c nt nct) (asked ok (cl_clints cl))
          @ (if b then [SendMsgTo (newClient 0) TYPE_FILETRANSFER MSG_FILETRANSFER_LIST] else []))
    \<and> Client_RecvServData ok nt nct (Client_init newClient d 0 buffSize) = Inl OutOfBounds"
proof -
  have c: "cl_clints cl = map newClient [0..<unat n]" by (simp add: cl Client_init_clints)
  have "0 < unat n" using assms(1) by (simp add: unat_gt_0 word_gt_0)
  then have ne: "cl_clints cl = newClient 0 # map newClient [1..<unat n]"
    using c by (simp add: upt_conv_Cons)
  have all: "list_all ok (cl_clints cl) = (\<forall>i < unat n. ok (newClient i))"
    by (auto simp: c list_all_iff)
  have "case Client_RecvServData ok nt nct cl of Inl e \<Rightarrow> False | Inr (b, cl1) \<Rightarrow>
        b = (\<forall>i < unat n. ok (newClient i))
      \<and> cl_calls cl1 = cl_calls cl @ map (\<lambda>c. RecvData c nt nct) (asked ok (cl_clints cl))
          @ (if b then [SendMsgTo (newClient 0) TYPE_FILETRANSFER MSG_FILETRANSFER_LIST] else [])"
    unfolding Client_RecvServData_def recv_loop_spec all Let_def case_prod_conv
    by (simp add: ne)
  moreover have "case Client_Connect ok dest port ipv6 timeOut cl of (b, cl1) \<Rightarrow>
        b = (\<forall>i < unat n. ok (newClient i))
      \<and> cl_calls cl1 = cl_calls cl @ map (\<lambda>c. Connect c dest port ipv6 timeOut) (asked ok (cl_clints cl))"
    unfolding Client_Connect_def connect_loop_spec all by simp
  moreover have "Client_RecvServData ok nt nct (Client_init newClient d 0 buffSize) = Inl OutOfBounds"
    by (simp add: Client_RecvServData_def Client_init_def create_loop_spec)
  ultimately show ?thesis by blast
qed

theorem client_starts_in_order_witness:
  "fst (Client_Connect (\<lambda>c. c \<noteq> 2) None None False 5 (Client_init Suc () 3 65536)) = False"
proof -
  have "(0 :: u32) < 3" by simp
  from client_starts_in_order [OF this refl, of "\<lambda>c. c \<noteq> 2" Suc "()" 65536 None None False 5 1 1]
  have "fst (Client_Connect (\<lambda>c. c \<noteq> 2) None None False 5 (Client_init Suc () 3 65536))
      = (\<forall>i < unat (3 :: u32). Suc i \<noteq> 2)"
    by (auto split: prod.splits)
  then show ?thesis by (auto intro: exI [of _ 1])
qed

end
