(* ===== verification/Job.thy ===== *)
theory Job
  imports ServerFaults ClientSide
begin

text \<open>
  A whole job, server and client together: one connection says that it is ready, is given the
  data chunk by chunk, answers each with what \<open>Client/Client.cpp\<close> computes, and the server
  writes the results, puts them in order and verifies them.  The events happen one after the
  other.
\<close>

section \<open>The protocol\<close>

text \<open>What the client answers to the last message that was sent: the payload of \<open>MSG_WORK_NEW\<close>
  goes through the client's handler.\<close>

definition client_reply :: "(u32 \<Rightarrow> u32) \<Rightarrow> byte list \<Rightarrow> client \<Rightarrow> trace_event list \<Rightarrow> byte list option" where
  "client_reply alg garbage c trace =
     (case last trace of
        SentNew c' wi t m payload sent \<Rightarrow>
          (if c' = c \<and> t = TYPE_WORK \<and> m = MSG_WORK_NEW \<and> sent
           then (case process_work alg garbage payload of Inr out \<Rightarrow> Some out | Inl e \<Rightarrow> None) else None)
      | _ \<Rightarrow> None)"

text \<open>One round: a worker gives the client work, the client sends the result.\<close>

fun job_rounds ::
  "'f server_env \<Rightarrow> byte list \<Rightarrow> client \<Rightarrow> (int \<times> int) list \<Rightarrow> 'f server \<Rightarrow> 'f server res" where
  "job_rounds env garbage c [] s = Inr s"
| "job_rounds env garbage c ((t1, t2) # ts) s =
     rbind (server_step env (t1, Turn True) s) (\<lambda>s1.
       case client_reply (ev_alg env) garbage c (sv_trace s1) of
         None \<Rightarrow> Inl NoReturn
       | Some out \<Rightarrow>
           rbind (server_step env (t2, Message c TYPE_WORK MSG_WORK_COMPLETE out) s1)
             (job_rounds env garbage c ts))"

section \<open>A result that is written\<close>

lemma EvaluateTime_first_batch:
  assumes "sd_mean (pm_sd pm) = 0" and "sd_maxResults (pm_sd pm) = 1000" and "length (sd_times (pm_sd pm)) < 999"
  obtains pm' where "PerformanceModel_EvaluateTime r32 r64 t pm = (NORMAL, pm')"
    and "sd_mean (pm_sd pm') = 0" and "sd_maxResults (pm_sd pm') = 1000"
    and "length (sd_times (pm_sd pm')) = Suc (length (sd_times (pm_sd pm)))"
proof -
  have "(of_nat (Suc (length (sd_times (pm_sd pm)))) :: u32) \<noteq> of_nat 1000"
    using assms(3) by (subst of_nat_eq_iff_small) simp_all
  then show thesis
    using assms by (intro that [of "pm\<lparr>pm_sd := (pm_sd pm)\<lparr>sd_times := sd_times (pm_sd pm) @ [t]\<rparr>\<rparr>"])
      (simp_all add: PerformanceModel_EvaluateTime_def StandardDeviation_Calculate_def Let_def)
qed

lemma complete_normal:
  assumes inv: "sv_inv s" and st: "stamped c s" and m: "sv_workMap s = [(c, wi)]"
    and w: "FileMappingIndexed_Write (ev_mv env) (ev_end_deref env) (wi_curIndex wi) data (sv_tempFileMap s) = Inr fm"
    and e: "\<And>t. fst (PerformanceModel_EvaluateTime (ev_r32 env) (ev_r64 env) t (cq_perfModel (sv_clntQueue s))) = NORMAL"
    and wait: "sv_waiting s = []"
  obtains s' t where "server_step env (now, Message c TYPE_WORK MSG_WORK_COMPLETE data) s = Inr s'"
    and "sv_inv s'" and "sv_waiting s' = [c]" and "stamped c s'" and "sv_workMap s' = []" and "sv_old s' = sv_old s"
    and "sv_tempFileMap s' = fm" and "sv_data s' = sv_data s" and "sv_reorderCounter s' = sv_reorderCounter s"
    and "cq_perfModel (sv_clntQueue s')
      = snd (PerformanceModel_EvaluateTime (ev_r32 env) (ev_r64 env) t (cq_perfModel (sv_clntQueue s)))"
    and "sv_trace s' = sv_trace s @ [Wrote wi data]"
proof -
  define t where "t = ev_r32 env (elapsed now (sv_stamps s (cq_obj (sv_clntQueue s) c)))"
  obtain pm where pm: "PerformanceModel_EvaluateTime (ev_r32 env) (ev_r64 env) t (cq_perfModel (sv_clntQueue s)) = (NORMAL, pm)"
    using e [of t] by (metis prod.collapse)
  have "cq_inv MAXCLIENTS (sv_clntQueue s)" using inv by (simp add: sv_inv_def)
  from EvaluateClient_spec [OF this pm, of c] obtain q where
    q: "ClientQueue_EvaluateClient (ev_r32 env) (ev_r64 env) c t (sv_clntQueue s) = Inr (True, q)" "cq_inv MAXCLIENTS q"
      "cq_stamped q = cq_stamped (sv_clntQueue s)" "cq_perfModel q = pm" "cq_fast q = cq_fast (sv_clntQueue s)"
      "cq_other q = push_bounded MAXCLIENTS c (cq_other (sv_clntQueue s))"
    by auto
  let ?s = "(log_event (Wrote wi data) (s\<lparr>sv_workMap := [], sv_tempFileMap := fm\<rparr>))\<lparr>sv_clntQueue := q\<rparr>"
  have "complete_take c s = (Some wi, s\<lparr>sv_workMap := []\<rparr>)"
    using m by (simp add: complete_take_def ClientWorkMap_GetClientWork_def erase_entry_def)
  moreover have "cq_obj (sv_clntQueue s) c \<noteq> 0" using st by (simp add: stamped_def cq_stamped_def)
  ultimately have "server_step env (now, Message c TYPE_WORK MSG_WORK_COMPLETE data) s = Inr ?s"
    using w q(1) by (simp add: Server_MsgHandler_def on_work_complete_def complete_write_def Let_def t_def
        log_event_def)
  then show thesis
    by (rule that [where t = t])
      (use inv st wait q pm in \<open>auto simp: sv_inv_def ClientWorkMap_inv_def stamped_def sv_waiting_def sv_old_def
        log_event_def push_bounded_def MAXCLIENTS_def\<close>)
qed

section \<open>The rounds\<close>

text \<open>The environment of a job on the data \<open>xs\<close>: the documented behaviour of files, views and the
  allocator; reading past the end of the index set yields \<open>g\<close>; the new temporary file has the
  bytes \<open>cs\<close>; the data is a whole number of 32-bit integers and at most 100 MB, one mapped
  chunk of the result file.\<close>

definition job_env ::
  "'f server_env \<Rightarrow> ('f \<Rightarrow> byte list) \<Rightarrow> ('f \<Rightarrow> nat) \<Rightarrow> u32 \<Rightarrow> byte list \<Rightarrow> byte list \<Rightarrow> bool" where
  "job_env env cont pos g xs cs \<longleftrightarrow>
     allocator_law (ev_newbuf env) \<and> file_laws (ev_ops env) cont pos
     \<and> 0 < ev_gran env \<and> ev_gran env < 2 ^ 32 \<and> view_law (ev_gran env) (ev_mv env)
     \<and> ev_end_deref env = Some g \<and> ev_temp env = Some cs \<and> length cs = length xs
     \<and> ev_data env = xs \<and> (\<forall>bs. cont (ev_handle env bs) = bs \<and> pos (ev_handle env bs) = 0)
     \<and> ev_alg env 0 = 0 \<and> length xs < ev_fuel env
     \<and> xs \<noteq> [] \<and> 4 dvd length xs \<and> length xs \<le> 104857600"

text \<open>After \<open>i\<close> rounds with chunks of \<open>k\<close> bytes.\<close>

definition job_at ::
  "'f server_env \<Rightarrow> ('f \<Rightarrow> byte list) \<Rightarrow> ('f \<Rightarrow> nat) \<Rightarrow> u32 \<Rightarrow> byte list \<Rightarrow> nat \<Rightarrow> client \<Rightarrow> nat \<Rightarrow> 'f server \<Rightarrow> bool" where
  "job_at env cont pos g xs k c i s \<longleftrightarrow>
     sv_inv s \<and> sv_waiting s = [c] \<and> stamped c s \<and> sv_old s = [] \<and> sv_workMap s = []
     \<and> data_at cont pos xs (min (i * k) (length xs)) i (sv_data s) \<and> unat (d_chunkSize (sv_data s)) = k
     \<and> sv_reorderCounter s = 0
     \<and> sd_mean (pm_sd (cq_perfModel (sv_clntQueue s))) = 0
     \<and> sd_maxResults (pm_sd (cq_perfModel (sv_clntQueue s))) = 1000
     \<and> length (sd_times (pm_sd (cq_perfModel (sv_clntQueue s)))) = i
     \<and> written (sv_tempFileMap s) (map_words (ev_alg env) (take (i * k) xs)) \<and> unread (sv_tempFileMap s)
     \<and> cr_chunkMapSize (sv_tempFileMap s) = length xs
     \<and> fi_indices (sv_tempFileMap s)
         = (if i = 0 then [] else [\<lparr>ie_index = g, ie_pos = 0, ie_size = length (take k xs)\<rparr>])"

lemma chunk_bytes:
  assumes "i * k < length xs" "0 < k" "4 dvd k" "4 dvd length xs" and bs: "bs = slice_at (i * k) k xs"
  shows "bs \<noteq> []" "length bs \<le> length xs" "4 dvd length bs" "i * k + length bs = min (Suc i * k) (length xs)"
    "take (i * k) xs @ bs = take (Suc i * k) xs"
proof -
  show "bs \<noteq> []" "length bs \<le> length xs" "i * k + length bs = min (Suc i * k) (length xs)"
    using assms(1,2) by (auto simp: bs slice_at_def min_def)
  have "length bs = min k (length xs - i * k)" by (simp add: bs slice_at_def)
  moreover have "4 dvd length xs - i * k" using assms(3,4) by (intro dvd_diff_nat) auto
  ultimately show "4 dvd length bs" using assms(3) by (simp add: min_def)
  show "take (i * k) xs @ bs = take (Suc i * k) xs"
    by (simp add: bs slice_at_def take_add add.commute [of k])
qed

text \<open>First half of a round: the worker's turn sends chunk \<open>i\<close> and the client's answer to it.\<close>

lemma job_given:
  assumes env: "job_env env cont pos g xs cs" and at: "job_at env cont pos g xs k c i s"
    and more: "i * k < length xs" and k: "0 < k" "4 dvd k" and garbage: "length xs \<le> length garbage"
    and bs: "bs = slice_at (i * k) k xs"
    and wi: "wi = WorkInfo (of_nat (i * k + length bs)) (of_nat (length bs)) (of_nat i)"
  obtains s1 where "work_turn env t True s = Inr (GaveWork, s1)" "sv_inv s1" "stamped c s1"
    "sv_waiting s1 = []" "sv_old s1 = []" "data_at cont pos xs (i * k + length bs) (Suc i) (sv_data s1)"
    "d_chunkSize (sv_data s1) = d_chunkSize (sv_data s)" "sv_workMap s1 = [(c, wi)]"
    "client_reply (ev_alg env) garbage c (sv_trace s1) = Some (map_words (ev_alg env) bs)"
    "sv_tempFileMap s1 = sv_tempFileMap s" "sv_reorderCounter s1 = sv_reorderCounter s"
    "cq_perfModel (sv_clntQueue s1) = cq_perfModel (sv_clntQueue s)"
proof -
  note a = at [unfolded job_at_def] and e = env [unfolded job_env_def]
  have laws: "file_laws (ev_ops env) cont pos" and dv: "4 dvd length xs" using e by blast+
  have dat: "data_at cont pos xs (i * k) i (sv_data s)" and ck: "unat (d_chunkSize (sv_data s)) = k"
    using a more by (simp_all add: min_def)
  then have nz: "d_chunkSize (sv_data s) \<noteq> 0" using k by auto
  obtain d where d: "DataInterp_GetClientWork (ev_ops env) (DataInterp_GetChunkSize (sv_data s)) (sv_data s) = (wi, bs, d)"
    "data_at cont pos xs (i * k + length bs) (Suc i) d" "d_chunkSize d = d_chunkSize (sv_data s)"
    using GetClientWork_more [OF laws dat more nz] ck
    unfolding bs wi DataInterp_defs Data_GetChunkSize_def by metis
  note b = chunk_bytes [OF more k dv bs]
  have small: "length bs < 2 ^ 32" using b(2) e by simp
  then have size: "unat (wi_size wi) = length bs" by (simp add: wi WorkInfo_def unat_of_nat_small)
  then have wnz: "wi_size wi \<noteq> 0" using b(1) by auto
  obtain s1 where s1: "work_turn env t True s = Inr (GaveWork, s1)" "sv_inv s1"
    "\<And>x. stamped x s1 = stamped x s" "sv_waiting s1 = []" "sv_old s1 = []" "sv_data s1 = d"
    "sv_workMap s1 = ClientWorkMap_Change c wi (sv_workMap s)"
    "sv_trace s1 = sv_trace s @ [SentNew c wi TYPE_WORK MSG_WORK_NEW (take (unat (wi_size wi)) bs) True]"
    "sv_tempFileMap s1 = sv_tempFileMap s" "sv_reorderCounter s1 = sv_reorderCounter s"
    "cq_perfModel (sv_clntQueue s1) = cq_perfModel (sv_clntQueue s)"
    using turn_new_sent [of s c "[]" env wi bs d t] a d(1) wnz by metis
  show thesis
  proof (rule that [OF s1(1,2) _ s1(4,5) _ _ _ _ s1(9-11)])
    show "client_reply (ev_alg env) garbage c (sv_trace s1) = Some (map_words (ev_alg env) bs)"
      using s1(8) size process_work_eq [OF b(3) small, of garbage "ev_alg env"] b(2) garbage
      by (simp add: client_reply_def)
    show "sv_workMap s1 = [(c, wi)]" using s1(7) a by (simp add: ClientWorkMap_Change_def ClientWorkMap_Add_def)
  qed (use s1(3,6) a d in simp_all)
qed

lemma job_round:
  assumes env: "job_env env cont pos g xs cs" and at: "job_at env cont pos g xs k c i s"
    and more: "i * k < length xs" and i: "i < 999" and k: "0 < k" "4 dvd k"
    and garbage: "length xs \<le> length garbage"
  obtains s' where "job_rounds env garbage c ((t1, t2) # ts) s = job_rounds env garbage c ts s'"
    and "job_at env cont pos g xs k c (Suc i) s'"
proof -
  note a = at [unfolded job_at_def] and e = env [unfolded job_env_def]
  define bs where "bs = slice_at (i * k) k xs"
  define wi where "wi = WorkInfo (of_nat (i * k + length bs)) (of_nat (length bs)) (of_nat i)"
  have law: "view_law (ev_gran env) (ev_mv env)" and dv: "4 dvd length xs" using e by blast+
  note b = chunk_bytes [OF more k dv bs_def]
  obtain s1 where s1: "work_turn env t1 True s = Inr (GaveWork, s1)" "sv_inv s1" "stamped c s1"
    "sv_waiting s1 = []" "sv_old s1 = []" "data_at cont pos xs (i * k + length bs) (Suc i) (sv_data s1)"
    "d_chunkSize (sv_data s1) = d_chunkSize (sv_data s)" "sv_workMap s1 = [(c, wi)]"
    "client_reply (ev_alg env) garbage c (sv_trace s1) = Some (map_words (ev_alg env) bs)"
    "sv_tempFileMap s1 = sv_tempFileMap s" "sv_reorderCounter s1 = sv_reorderCounter s"
    "cq_perfModel (sv_clntQueue s1) = cq_perfModel (sv_clntQueue s)"
    by (rule job_given [OF env at more k garbage bs_def wi_def])
  let ?out = "map_words (ev_alg env) bs" and ?pre = "map_words (ev_alg env) (take (i * k) xs)"
  have lp: "length ?pre = i * k" using more k(2) by (simp add: length_map_words min_def)
  have fits: "length ?pre + length ?out \<le> cr_chunkMapSize (sv_tempFileMap s1)"
    using lp b(3,4) s1(10) a by (simp add: length_map_words)
  have w: "written (sv_tempFileMap s1) ?pre" using s1(10) a by simp
  obtain fm where fm: "FileMappingIndexed_Write (ev_mv env) (Some g) (wi_curIndex wi) ?out (sv_tempFileMap s1) = Inr fm"
    "written fm (?pre @ ?out)" "cr_chunkMapSize fm = cr_chunkMapSize (sv_tempFileMap s1)"
    "fi_indices fm = (if fi_indices (sv_tempFileMap s1) = []
       then [\<lparr>ie_index = g, ie_pos = length ?pre, ie_size = length ?out\<rparr>] else fi_indices (sv_tempFileMap s1))"
    "unread (sv_tempFileMap s1) \<longrightarrow> unread fm"
    by (rule Indexed_Write_written [OF law w fits, of g "wi_curIndex wi"]) (use s1(10) a in auto)
  have nrm: "fst (PerformanceModel_EvaluateTime (ev_r32 env) (ev_r64 env) t (cq_perfModel (sv_clntQueue s1))) = NORMAL" for t
    using EvaluateTime_first_batch [of "cq_perfModel (sv_clntQueue s1)"] a i s1(12) by (metis fst_conv)
  have wr: "FileMappingIndexed_Write (ev_mv env) (ev_end_deref env) (wi_curIndex wi) ?out (sv_tempFileMap s1) = Inr fm"
    using fm(1) e by simp
  obtain s2 t where s2: "server_step env (t2, Message c TYPE_WORK MSG_WORK_COMPLETE ?out) s1 = Inr s2"
    "sv_inv s2" "sv_waiting s2 = [c]" "stamped c s2" "sv_workMap s2 = []" "sv_old s2 = sv_old s1"
    "sv_tempFileMap s2 = fm" "sv_data s2 = sv_data s1" "sv_reorderCounter s2 = sv_reorderCounter s1"
    "cq_perfModel (sv_clntQueue s2)
      = snd (PerformanceModel_EvaluateTime (ev_r32 env) (ev_r64 env) t (cq_perfModel (sv_clntQueue s1)))"
    using complete_normal [OF s1(2,3,8) wr nrm s1(4), of t2] by metis
  have pm: "sd_mean (pm_sd (cq_perfModel (sv_clntQueue s2))) = 0"
    "sd_maxResults (pm_sd (cq_perfModel (sv_clntQueue s2))) = 1000"
    "length (sd_times (pm_sd (cq_perfModel (sv_clntQueue s2)))) = Suc i"
    using EvaluateTime_first_batch [of "cq_perfModel (sv_clntQueue s1)" "ev_r32 env" "ev_r64 env" t] a i s1(12) s2(10)
    by (metis snd_conv)+
  have "?pre @ ?out = map_words (ev_alg env) (take (Suc i * k) xs)"
    using b(5) map_words_append [of "take (i * k) xs" "ev_alg env" bs] more k(2) by (simp add: min_def)
  moreover have "length ?out = length (take k xs)" if "i = 0"
    using that b(3) by (simp add: length_map_words bs_def slice_at_def)
  ultimately have "job_at env cont pos g xs k c (Suc i) s2"
    unfolding job_at_def using s2 s1 fm a pm b(4) lp by auto
  then show thesis
    using that s1(1,9) s2(1) by simp
qed

lemma job_all_rounds:
  assumes env: "job_env env cont pos g xs cs" and k: "0 < k" "4 dvd k" and garbage: "length xs \<le> length garbage"
  shows "job_at env cont pos g xs k c i s \<Longrightarrow> i + length ts < 1000 \<Longrightarrow> (i + length ts) * k < length xs + k \<Longrightarrow>
    \<exists>s'. job_rounds env garbage c ts s = Inr s' \<and> job_at env cont pos g xs k c (i + length ts) s'"
proof (induction ts arbitrary: i s)
  case (Cons t ts)
  obtain t1 t2 where t: "t = (t1, t2)" by (cases t)
  have "i * k \<le> (i + length ts) * k" by (intro mult_le_mono1) simp
  also have "(i + length ts) * k < length xs" using Cons.prems(3) by simp
  finally have lt: "i * k < length xs" .
  have i: "i < 999" using Cons.prems(2) by simp
  obtain s1 where "job_rounds env garbage c ((t1, t2) # ts) s = job_rounds env garbage c ts s1"
    "job_at env cont pos g xs k c (Suc i) s1"
    by (rule job_round [OF env Cons.prems(1) lt i k garbage])
  then show ?case using Cons.IH [of "Suc i" s1] Cons.prems t by auto
qed simp

text \<open>The reordering of a result file with one entry in its index set keeps the first chunk.\<close>

lemma reorder_first_chunk:
  assumes env: "job_env env cont pos g xs cs" and k: "4 dvd k"
    and w: "written fm (map_words (ev_alg env) xs)" "unread fm"
      "fi_indices fm = [\<lparr>ie_index = g, ie_pos = 0, ie_size = length (take k xs)\<rparr>]"
  obtains fm' where "FileMappingIndexed_ReorderFileData (ev_mv env) (ev_gran env) True (ev_temp env) fm
    = Inr (map_words (ev_alg env) (take k xs) @ drop k cs, fm')"
proof -
  define ys where "ys = map_words (ev_alg env) xs"
  have vl: "view_law (ev_gran env) (ev_mv env)" and gr: "0 < ev_gran env" "ev_gran env < 2 ^ 32"
    and le: "length xs \<le> 104857600" and xs: "xs \<noteq> []" "4 dvd length xs"
    and cs: "length cs = length xs" "ev_temp env = Some cs"
    using env by (simp_all add: job_env_def)
  have ys: "length ys = length xs" using xs(2) by (simp add: ys_def)
  with xs(1) have ne: "ys \<noteq> []" by (metis length_0_conv)
  have lm: "length (map_words (ev_alg env) (take k xs)) = min k (length xs)"
    using k xs(2) by (simp add: length_map_words min_def)
  have "ys = map_words (ev_alg env) (take k xs) @ map_words (ev_alg env) (drop k xs)"
    using map_words_append [of "take k xs" "ev_alg env" "drop k xs"] k xs(2) by (simp add: ys_def min_def)
  then have first: "slice_at 0 (length (take k xs)) ys = map_words (ev_alg env) (take k xs)"
    using lm by (simp add: slice_at_def)
  have tk: "length (take k xs) \<le> length xs" by simp
  have "\<exists>fm'. FileMappingIndexed_ReorderFileData (ev_mv env) (ev_gran env) True (Some cs) fm
      = Inr (put_at 0 (map_words (ev_alg env) (take k xs)) cs, fm')"
    using Reorder_spec [OF vl gr w(1,2) [folded ys_def] ne _ _ _ cs(1) [folded ys]] ys le tk
    by (simp add: w(3) first del: length_take)
  moreover have "drop (min k (length xs)) cs = drop k cs" using cs(1) by (simp add: min_def)
  ultimately show thesis using that lm cs(2) by (auto simp: put_at_def)
qed

lemma job_finish:
  assumes env: "job_env env cont pos g xs cs" and at: "job_at env cont pos g xs k c n s"
    and n: "length xs \<le> n * k" and k: "0 < k" "4 dvd k"
  shows "\<exists>s' newData. server_step env (t, Turn True) s = Inr s'
    \<and> newData = map_words (ev_alg env) (take k xs) @ drop k cs
    \<and> last (sv_trace s') = Completed newData (newData = map_words (ev_alg env) xs)"
proof -
  note a = at [unfolded job_at_def] and e = env [unfolded job_env_def]
  have laws: "file_laws (ev_ops env) cont pos" and xs: "xs \<noteq> []" "4 dvd length xs" "length cs = length xs"
    using e by blast+
  have n0: "n \<noteq> 0" using n xs(1) by (cases n) auto
  have dat: "data_at cont pos xs (length xs) n (sv_data s)" using a n by (simp add: min_def split: if_splits)
  obtain d where d: "DataInterp_GetClientWork (ev_ops env) (DataInterp_GetChunkSize (sv_data s)) (sv_data s)
      = (WorkInfo_default, [], d)"
    using GetClientWork_end [OF laws dat] unfolding DataInterp_defs Data_GetChunkSize_def by metis
  obtain s2 where s2: "sv_inv s2" "sv_workMap s2 = sv_workMap s" "sv_old s2 = tl (sv_old s)"
    "\<exists>q old. s2 = s\<lparr>sv_clntQueue := q, sv_oldWork := old\<rparr> \<and> cq_stamped q = cq_stamped (sv_clntQueue s)
      \<and> cq_perfModel q = cq_perfModel (sv_clntQueue s) \<and> cq_obj q = cq_obj (sv_clntQueue s)"
    "work_turn env t True s
      = rbind (Server_GiveNewWork env t True c s2) (\<lambda>(more, s3). Inr (if more then GaveWork else WorkDone, s3))"
    using work_turn_first [of s c "[]" env t True] a by metis
  let ?s3 = "log_event FreedBuffer (s2\<lparr>sv_data := d\<rparr>)"
  let ?s4 = "?s3\<lparr>sv_reorderCounter := sv_reorderCounter ?s3 + 1\<rparr>"
  have send: "give_new_send env t True c s2 = Inr (False, ?s3)"
    using d s2(4) by (auto simp: give_new_send_def WorkInfo_default_def Let_def)
  have i2: "lfq_inv (sv_oldWork s2)" "lfq_contents (sv_oldWork s2) = []"
    using s2(1,3) a by (simp_all add: sv_inv_def sv_old_def)
  then have fin: "may_finish ?s3"
    using lf.is_empty_spec [OF i2(1)] s2(2) a by (simp add: may_finish_def ClientWorkMap_Empty_def log_event_def)
  have s4: "sv_tempFileMap ?s4 = sv_tempFileMap s" "sv_reorderCounter ?s4 = 1"
    using s2(4) a by (auto simp: log_event_def)
  define newData where "newData = map_words (ev_alg env) (take k xs) @ drop k cs"
  have w: "written (sv_tempFileMap s) (map_words (ev_alg env) xs)" "unread (sv_tempFileMap s)"
    "fi_indices (sv_tempFileMap s) = [\<lparr>ie_index = g, ie_pos = 0, ie_size = length (take k xs)\<rparr>]"
    using a n n0 by simp_all
  obtain fm where re: "FileMappingIndexed_ReorderFileData (ev_mv env) (ev_gran env) True (ev_temp env) (sv_tempFileMap ?s4)
      = Inr (newData, fm)"
    unfolding s4(1) newData_def by (rule reorder_first_chunk [OF env k(2) w])
  have h: "cont (ev_handle env bs) = bs" "pos (ev_handle env bs) = 0" "ev_data env = xs" "ev_alg env 0 = 0"
    "length xs < ev_fuel env" for bs
    using e by blast+
  have len: "length newData = length xs" using k(2) xs by (simp add: newData_def length_map_words min_def)
  have ver: "Server_VerifyNewData (ev_alg env) (ev_ops env) (ev_fuel env) True True (ev_handle env newData)
      (ev_handle env (ev_data env)) = Inr (newData = map_words (ev_alg env) xs)"
    using VerifyNewData_eq [of "ev_ops env" cont pos "ev_handle env newData" "ev_handle env xs" "ev_alg env" "ev_fuel env"]
      laws h xs(2) len by simp
  have "give_new_finish env t ?s3 = Inr (log_event (Completed newData (newData = map_words (ev_alg env) xs))
      (?s4\<lparr>sv_tempFileMap := fm, sv_startTime := t\<rparr>))"
    using s4(2) re ver by (simp add: give_new_finish_def Server_OnCompletion_def)
  then have "server_step env (t, Turn True) s = Inr (log_event (Completed newData (newData = map_words (ev_alg env) xs))
      (?s4\<lparr>sv_tempFileMap := fm, sv_startTime := t\<rparr>))"
    using s2(5) send fin by (simp add: Server_GiveNewWork_def)
  then show ?thesis by (simp add: newData_def log_event_def)
qed

section \<open>The job\<close>

text \<open>The server after its construction, on data \<open>xs\<close> with an empty result file \<open>bs\<close> of the right
  size, and after the client's \<open>MSG_READY_INIT\<close>.\<close>

lemma job_init:
  assumes env: "job_env env cont pos g xs cs" and base: "0 < base"
    and init: "Server_init env mem wmem base mx nThreads f dir fileList True (Some bs) = Inr s0"
    and xs: "cont (d_file (sv_data s0)) = xs" and bs: "length bs = length xs" and mx: "mx \<noteq> of_nat MSG_OFFSET"
  shows "data_at cont pos xs 0 0 (sv_data s0)"
    and "sv_tempFileMap s0 = opened_result (ev_gran env) 104857600 bs"
    and "written (sv_tempFileMap s0) []" and "unread (sv_tempFileMap s0)"
    and "cr_chunkMapSize (sv_tempFileMap s0) = length xs" and "fi_indices (sv_tempFileMap s0) = []"
    and "sv_trace s0 = []"
proof -
  have e: "allocator_law (ev_newbuf env)" "file_laws (ev_ops env) cont pos" "0 < ev_gran env" "ev_gran env < 2 ^ 32"
    "xs \<noteq> []" "length xs \<le> 104857600"
    using env by (simp_all add: job_env_def)
  obtain s where s: "Server_init env mem wmem base mx nThreads f dir fileList True (Some bs) = Inr s"
    and d: "sv_data s = DataInterp_LoadData (ev_ops env) 1 (mx - of_nat MSG_OFFSET) (Data_init f)"
    and fm: "sv_tempFileMap s = snd (FileMappingChunkRW_Create True (Some bs)
      (unat (Algorithm_GetOutSize (ucast (DataInterp_GetFileSize (sv_data s)))))
      (FileMappingIndexed_default (ev_gran env) (unat (lit_MB 100))))"
    by (rule Server_init_spec [OF base, of env mem wmem mx nThreads f dir fileList True "Some bs"])
  have "s = s0" using trans [OF s [symmetric] init] by (rule Inr_inject)
  note d = d [unfolded \<open>s = s0\<close>] and fm = fm [unfolded \<open>s = s0\<close>]
  have len: "length xs < 2 ^ 64" using e(6) by simp
  show "data_at cont pos xs 0 0 (sv_data s0)"
    using LoadData_at(1) [OF e(2), of "Data_init f" "mx - of_nat MSG_OFFSET" "sv_data s0" 1] xs e(5) len mx d
    by (simp add: DataInterp_defs Data_init_def)
  have "d_fileSize (sv_data s0) = of_nat (length xs)"
    using e(2) xs by (simp add: d DataInterp_defs Data_LoadData_def Let_def file_laws_def)
  then have "unat (Algorithm_GetOutSize (ucast (DataInterp_GetFileSize (sv_data s0)))) = length bs"
    using e(6) bs by (simp add: DataInterp_defs Data_GetFileSize_def Algorithm_GetOutSize_def unsigned_ucast_eq
        unat_of_nat_small take_bit_nat_eq_self)
  then show fm: "sv_tempFileMap s0 = opened_result (ev_gran env) 104857600 bs"
    using fm by (simp add: opened_result_def lit_MB_def)
  have ge: "104857600 \<le> round_chunk 104857600 (ev_gran env)" by (rule round_chunk_ge [OF e(3,4)]) simp
  have "bs \<noteq> []" using bs e(5) by auto
  then show "written (sv_tempFileMap s0) []" "unread (sv_tempFileMap s0)"
    "cr_chunkMapSize (sv_tempFileMap s0) = length xs" "fi_indices (sv_tempFileMap s0) = []"
    using opened_written [of 104857600 "ev_gran env" bs] ge bs e(6) fm by auto
  show "sv_trace s0 = []" using init by (auto simp: Server_init_def Let_def elim!: rbind_InrE)
qed

lemma job_start:
  assumes env: "job_env env cont pos g xs cs" and base: "0 < base"
    and init: "Server_init env mem wmem base mx nThreads f dir fileList True (Some bs) = Inr s0"
    and xs: "cont (d_file (sv_data s0)) = xs" and bs: "length bs = length xs"
    and k: "mx \<noteq> of_nat MSG_OFFSET" "k = unat (d_chunkSize (sv_data s0))"
  obtains s1 where "server_step env (t0, Message c TYPE_READY MSG_READY_INIT []) s0 = Inr s1"
    and "job_at env cont pos g xs k c 0 s1"
proof -
  have nb: "allocator_law (ev_newbuf env)" using env by (simp add: job_env_def)
  obtain s where s: "Server_init env mem wmem base mx nThreads f dir fileList True (Some bs) = Inr s" "sv_inv s"
    "sv_waiting s = []" "sv_old s = []" "sv_workMap s = []" "sv_reorderCounter s = 0"
    "cq_perfModel (sv_clntQueue s) = PerformanceModel_init 2 4"
    by (rule Server_init_spec [OF base, of env mem wmem mx nThreads f dir fileList True "Some bs"])
  have "s = s0" using trans [OF s(1) [symmetric] init] by (rule Inr_inject)
  note s = s(2-) [unfolded \<open>s = s0\<close>] and start = job_init [OF env base init xs bs k(1)]
  obtain s1 where s1: "Server_MsgHandler env t0 c TYPE_READY MSG_READY_INIT [] s0 = Inr s1" "sv_inv s1"
    "sv_waiting s1 = cq_fast (sv_clntQueue s0) @ push_bounded MAXCLIENTS c (cq_other (sv_clntQueue s0))"
    "\<And>x. stamped x s1 = (x = c \<or> stamped x s0)" "sv_old s1 = sv_old s0" "sv_workMap s1 = sv_workMap s0"
    "sv_data s1 = sv_data s0" "sv_tempFileMap s1 = sv_tempFileMap s0" "sv_reorderCounter s1 = sv_reorderCounter s0"
    "cq_perfModel (sv_clntQueue s1) = cq_perfModel (sv_clntQueue s0)"
    using ready_spec [OF s(1) nb, of t0 c "[]"] by metis
  have "sv_waiting s1 = [c]" using s(2) s1(3) by (simp add: sv_waiting_def push_bounded_def MAXCLIENTS_def)
  then have "job_at env cont pos g xs k c 0 s1"
    unfolding job_at_def using s s1 start k(2)
    by (simp add: PerformanceModel_init_def StandardDeviation_init_def)
  then show thesis using that s1(1) by simp
qed



end
