(* ===== verification/ServerResults.thy ===== *)
theory ServerResults
  imports ServerRaces Job
begin

text \<open>
  What a job computes with any number of clients under every interleaving of the threads of the
  server.  Between its construction and the reordering at the end, the server hands out the
  chunks of the data in order, each payload is the chunk its work information names, and the
  result file holds the results one after the other in the order in which they were written.
  If every client answers what \<open>Client/Client.cpp\<close> computes from a payload it was sent, and
  nothing is lost or left over when the data is used up, these are the algorithm's results of
  all chunks, each once.

  Left out are runs that give out the work of a client that left, since \<open>GetClientWorkPrev\<close>
  reads other bytes than the work it names (\<open>DataSource\<close>).
\<close>

section \<open>Chunks\<close>

definition chunk :: "nat \<Rightarrow> byte list \<Rightarrow> nat \<Rightarrow> byte list" where
  "chunk k xs i = slice_at (i * k) k xs"

definition chunk_info :: "nat \<Rightarrow> byte list \<Rightarrow> nat \<Rightarrow> work_info" where
  "chunk_info k xs i = WorkInfo (of_nat (i * k + length (chunk k xs i))) (of_nat (length (chunk k xs i))) (of_nat i)"

lemma chunk_index:
  assumes "i * k < length xs" and "length xs < 2 ^ 32" and "0 < k"
  shows "unat (wi_curIndex (chunk_info k xs i)) = i"
proof -
  have "i \<le> i * k" using assms(3) by simp
  then have "i < 2 ^ 32" using assms(1,2) by linarith
  then show ?thesis by (simp add: chunk_info_def WorkInfo_def unat_of_nat_small)
qed

lemma chunk_size:
  assumes "length xs < 2 ^ 32"
  shows "unat (wi_size (chunk_info k xs i)) = length (chunk k xs i)"
proof -
  have "length (chunk k xs i) \<le> length xs" by (simp add: chunk_def slice_at_def)
  then show ?thesis using assms by (simp add: chunk_info_def WorkInfo_def unat_of_nat_small)
qed

lemma chunk_dvd: "4 dvd k \<Longrightarrow> 4 dvd length xs \<Longrightarrow> 4 dvd length (chunk k xs i)"
proof -
  assume "4 dvd k" "4 dvd length xs"
  then have "4 dvd length xs - i * k" by (intro dvd_diff_nat) auto
  then show "4 dvd length (chunk k xs i)" using \<open>4 dvd k\<close> by (simp add: chunk_def slice_at_def min_def)
qed

lemma chunk_lengths: "(\<Sum>i<n. length (chunk k xs i)) \<le> length xs"
proof -
  have "length (concat (map (chunk k xs) [0..<n])) = (\<Sum>i<n. length (chunk k xs i))"
    by (simp add: length_concat comp_def interv_sum_list_conv_sum_set_nat atLeast0LessThan)
  moreover have "concat (map (chunk k xs) [0..<n]) = take (n * k) xs"
    using concat_chunks [of k xs n] by (simp add: chunk_def [abs_def])
  ultimately show ?thesis by (metis length_take min.cobounded1)
qed

lemma map_words_chunks:
  assumes "4 dvd k" and "4 dvd length xs"
  shows "concat (map (\<lambda>i. map_words f (chunk k xs i)) [0..<n]) = map_words f (take (n * k) xs)"
proof (induction n)
  case (Suc n)
  have "4 dvd length (take (n * k) xs)" using assms by (simp add: min_def)
  moreover have "take (Suc n * k) xs = take (n * k) xs @ chunk k xs n"
    by (simp add: chunk_def slice_at_def take_add add.commute [of k])
  ultimately show ?case using Suc by (simp add: map_words_append)
qed simp

section \<open>What the trace records\<close>

fun sent_new :: "trace_event \<Rightarrow> (work_info \<times> byte list) list" where
  "sent_new (SentNew clint wi type msg payload sent) = [(wi, payload)]"
| "sent_new _ = []"

fun sent_old :: "trace_event \<Rightarrow> bool" where
  "sent_old (SentOld clint wi type msg payload sent) = True"
| "sent_old _ = False"

fun result_of :: "trace_event \<Rightarrow> (work_info \<times> byte list) list" where
  "result_of (Wrote wi data) = [(wi, data)]"
| "result_of _ = []"

definition payloads :: "'f server \<Rightarrow> (work_info \<times> byte list) list" where
  "payloads s = concat (map sent_new (sv_trace s))"

definition results :: "'f server \<Rightarrow> (work_info \<times> byte list) list" where
  "results s = concat (map result_of (sv_trace s))"

definition resent :: "'f server \<Rightarrow> bool" where
  "resent s = list_ex sent_old (sv_trace s)"

lemma record_simps [simp]:
  "payloads (log_event e s) = payloads s @ sent_new e" "results (log_event e s) = results s @ result_of e"
  "resent (log_event e s) = (resent s \<or> sent_old e)"
  by (simp_all add: payloads_def results_def resent_def log_event_def)

lemma record_updates [simp]:
  "payloads (s\<lparr>sv_clntQueue := q\<rparr>) = payloads s" "payloads (s\<lparr>sv_workMap := m\<rparr>) = payloads s"
  "payloads (s\<lparr>sv_oldWork := old\<rparr>) = payloads s" "payloads (s\<lparr>sv_data := d\<rparr>) = payloads s"
  "payloads (s\<lparr>sv_stamps := st\<rparr>) = payloads s" "payloads (s\<lparr>sv_reorderCounter := k\<rparr>) = payloads s"
  "payloads (s\<lparr>sv_tempFileMap := fm\<rparr>) = payloads s" "payloads (s\<lparr>sv_startTime := t\<rparr>) = payloads s"
  "payloads (s\<lparr>sv_nReady := r\<rparr>) = payloads s" "payloads (s\<lparr>sv_fileSend := fs\<rparr>) = payloads s"
  "payloads (s\<lparr>sv_threadInitialized := b\<rparr>) = payloads s" "payloads (s\<lparr>sv_threadPool := tp\<rparr>) = payloads s"
  "payloads (s\<lparr>sv_exitThread := b\<rparr>) = payloads s"
  "results (s\<lparr>sv_clntQueue := q\<rparr>) = results s" "results (s\<lparr>sv_workMap := m\<rparr>) = results s"
  "results (s\<lparr>sv_oldWork := old\<rparr>) = results s" "results (s\<lparr>sv_data := d\<rparr>) = results s"
  "results (s\<lparr>sv_stamps := st\<rparr>) = results s" "results (s\<lparr>sv_reorderCounter := k\<rparr>) = results s"
  "results (s\<lparr>sv_tempFileMap := fm\<rparr>) = results s" "results (s\<lparr>sv_startTime := t\<rparr>) = results s"
  "results (s\<lparr>sv_nReady := r\<rparr>) = results s" "results (s\<lparr>sv_fileSend := fs\<rparr>) = results s"
  "results (s\<lparr>sv_threadInitialized := b\<rparr>) = results s" "results (s\<lparr>sv_threadPool := tp\<rparr>) = results s"
  "results (s\<lparr>sv_exitThread := b\<rparr>) = results s"
  "resent (s\<lparr>sv_clntQueue := q\<rparr>) = resent s" "resent (s\<lparr>sv_workMap := m\<rparr>) = resent s"
  "resent (s\<lparr>sv_oldWork := old\<rparr>) = resent s" "resent (s\<lparr>sv_data := d\<rparr>) = resent s"
  "resent (s\<lparr>sv_stamps := st\<rparr>) = resent s" "resent (s\<lparr>sv_reorderCounter := k\<rparr>) = resent s"
  "resent (s\<lparr>sv_tempFileMap := fm\<rparr>) = resent s" "resent (s\<lparr>sv_startTime := t\<rparr>) = resent s"
  "resent (s\<lparr>sv_nReady := r\<rparr>) = resent s" "resent (s\<lparr>sv_fileSend := fs\<rparr>) = resent s"
  "resent (s\<lparr>sv_threadInitialized := b\<rparr>) = resent s" "resent (s\<lparr>sv_threadPool := tp\<rparr>) = resent s"
  "resent (s\<lparr>sv_exitThread := b\<rparr>) = resent s"
  by (simp_all add: payloads_def results_def resent_def)

lemma log_event_data [simp]:
  "sv_data (log_event e s) = sv_data s" "sv_tempFileMap (log_event e s) = sv_tempFileMap s"
  by (simp_all add: log_event_def)

lemma written_results: "written_work s = map fst (results s)"
proof -
  have "concat (map written_of es) = map fst (concat (map result_of es))" for es
  proof (induction es)
    case (Cons e es)
    then show ?case by (cases e) simp_all
  qed simp
  then show ?thesis by (simp add: written_work_def results_def)
qed

text \<open>The steps of the threads, as far as data, file and trace go.\<close>

fun redoing :: "worker_pc \<Rightarrow> bool" where
  "redoing (WOld clint wi) = True"
| "redoing (WOldMap clint wi bs) = True"
| "redoing (WOldStamp clint wi bs) = True"
| "redoing (WOldSend clint wi bs) = True"
| "redoing _ = False"

fun sending :: "worker_pc \<Rightarrow> (work_info \<times> byte list) list" where
  "sending (WNewSend clint wi bs) = [(wi, take (unat (wi_size wi)) bs)]"
| "sending _ = []"

lemma worker_step_record:
  assumes "worker_step env now sent pc s = Inr (pc', s')"
  shows "payloads s' = payloads s @ sending pc" and "results s' = results s"
    and "resent s \<or> redoing pc \<Longrightarrow> resent s' \<or> redoing pc'"
    and "pc \<noteq> WComplete \<Longrightarrow> sv_tempFileMap s' = sv_tempFileMap s"
    and "\<forall>c. pc \<noteq> WNew c \<Longrightarrow> \<not> redoing pc \<Longrightarrow> sv_data s' = sv_data s"
  using assms
  by (cases pc; auto simp: Let_def Server_OnCompletion_def elim!: rbind_InrE dest!: stamp_client_Inr
      split: prod.splits if_splits)+

lemma handler_step_record:
  assumes "handler_step env now pc s = Inr (pc', s')"
  shows "payloads s' = payloads s" and "resent s' = resent s" and "sv_data s' = sv_data s"
    and "\<forall>c t wi data. pc \<noteq> HWrite c t wi data \<Longrightarrow> sv_tempFileMap s' = sv_tempFileMap s"
    and "results s' = results s @ (case pc of HWrite c t wi data \<Rightarrow> [(wi, data)] | _ \<Rightarrow> [])"
  using assms
  by (cases pc; auto simp: Let_def add_ready_def elim!: rbind_InrE dest!: complete_take_frame
      split: prod.splits if_splits)+

lemma main_step_record:
  assumes "main_step ends m s = Inr (m', s')"
  shows "payloads s' = payloads s" and "results s' = results s" and "resent s' = resent s"
    and "sv_data s' = sv_data s" and "sv_tempFileMap s' = sv_tempFileMap s"
  using assms by (cases m; auto elim!: rbind_InrE split: if_splits)+

section \<open>Runs that give no work twice\<close>

definition redone :: "'f sys \<Rightarrow> bool" where
  "redone y \<longleftrightarrow> resent (y_srv y) \<or> (\<exists>pc \<in> set (y_workers y). redoing pc)"

lemma start_threads_pc: "pc \<in> set (start_threads s s' ws) \<Longrightarrow> pc \<in> set ws \<or> pc = WTimer"
  by (auto simp: start_threads_def split: if_splits)

lemma set_update_pc: "pc' \<in> set (ws[i := pc]) \<Longrightarrow> pc' \<in> set ws \<or> pc' = pc"
  using set_update_subset_insert [of ws i pc] by blast

lemma updated_or_kept:
  assumes "x \<in> set ws" and "x \<noteq> ws ! i"
  shows "x \<in> set (ws[i := y])"
proof -
  obtain j where j: "j < length ws" "ws ! j = x" using assms(1) by (auto simp: in_set_conv_nth)
  then have "j \<noteq> i" using assms(2) by auto
  then have "ws[i := y] ! j = x" using j by simp
  then show ?thesis using j by (metis length_list_update nth_mem)
qed

text \<open>Work that was given twice stays so, the results are only added to, and a run of
  \<open>OnCompletion\<close> is never undone.\<close>

lemma sys_step_mono:
  assumes inv: "sys_inv n y" and step: "sys_step env y f l y'"
  shows "(redone y \<longrightarrow> redone y') \<and> completions (y_srv y) \<le> completions (y_srv y')
    \<and> (\<exists>rs. results (y_srv y') = results (y_srv y) @ rs)"
  using step
proof (cases rule: sys_step.cases)
  case (sys_worker i now sent pc s')
  note r = worker_step_record [OF sys_worker(4)] and fr = worker_step_frame [OF sys_worker(4)]
  have "redone y \<longrightarrow> redone y'"
  proof
    assume "redone y"
    then consider "resent (y_srv y) \<or> redoing (y_workers y ! i)"
      | x where "x \<in> set (y_workers y)" "redoing x" "x \<noteq> y_workers y ! i"
      unfolding redone_def by metis
    then show "redone y'"
    proof cases
      case 1
      have "pc \<in> set ((y_workers y)[i := pc])" using sys_worker(2) by (rule set_update_memI)
      then show ?thesis using r(3) [OF 1] sys_worker(1) by (auto simp: redone_def)
    next
      case 2
      then show ?thesis using updated_or_kept [OF 2(1,3)] sys_worker(1) by (auto simp: redone_def)
    qed
  qed
  then show ?thesis using r(2) fr sys_worker(1) by simp
next
  case (sys_handler j now pc s')
  have "start_threads (y_srv y) s' (y_workers y) = y_workers y \<or> y_workers y = []"
    using inv by (auto simp: start_threads_def sys_inv_def split: if_splits)
  then have "redone y \<longrightarrow> redone y'"
    using handler_step_record(2) [OF sys_handler(5)] sys_handler(2) by (auto simp: redone_def)
  moreover have "completions (y_srv y) \<le> completions (y_srv y')"
    using handler_step_frame(5) [OF sys_handler(5)] sys_handler(2) by simp
  moreover have "\<exists>rs. results (y_srv y') = results (y_srv y) @ rs"
    using handler_step_record(5) [OF sys_handler(5)] sys_handler(2) by simp
  ultimately show ?thesis by blast
next
  case (sys_main m s')
  then show ?thesis using main_step_record [OF sys_main(5)] main_step_frame [OF sys_main(5)] by (simp add: redone_def)
qed (simp_all add: redone_def)

section \<open>The data is handed out in order\<close>

fun carries :: "(work_info \<Rightarrow> byte list \<Rightarrow> bool) \<Rightarrow> worker_pc \<Rightarrow> bool" where
  "carries p (WNewMap clint wi bs) = p wi bs"
| "carries p (WNewStamp clint wi bs) = p wi bs"
| "carries p (WNewSend clint wi bs) = p wi bs"
| "carries p _ = True"

definition is_chunk :: "nat \<Rightarrow> byte list \<Rightarrow> nat \<Rightarrow> work_info \<Rightarrow> byte list \<Rightarrow> bool" where
  "is_chunk k xs n wi bs \<longleftrightarrow> (\<exists>i < n. wi = chunk_info k xs i \<and> bs = chunk k xs i)"

definition source_inv ::
  "('f \<Rightarrow> byte list) \<Rightarrow> ('f \<Rightarrow> nat) \<Rightarrow> byte list \<Rightarrow> nat \<Rightarrow> work_info list \<Rightarrow> 'f sys \<Rightarrow> bool" where
  "source_inv cont pos xs k fetched y \<longleftrightarrow>
     fetched = map (chunk_info k xs) [0..<length fetched] \<and> (\<forall>i < length fetched. i * k < length xs)
     \<and> data_at cont pos xs (min (length fetched * k) (length xs)) (length fetched) (sv_data (y_srv y))
     \<and> unat (d_chunkSize (sv_data (y_srv y))) = k
     \<and> (\<forall>pc \<in> set (y_workers y). carries (is_chunk k xs (length fetched)) pc)
     \<and> (\<forall>(wi, bs) \<in> set (payloads (y_srv y)). is_chunk k xs (length fetched) wi bs)"

lemma is_chunk_mono: "is_chunk k xs n wi bs \<Longrightarrow> n \<le> m \<Longrightarrow> is_chunk k xs m wi bs"
  by (auto simp: is_chunk_def dest: less_le_trans)

lemma carries_mono: "carries (is_chunk k xs n) pc \<Longrightarrow> n \<le> m \<Longrightarrow> carries (is_chunk k xs m) pc"
  by (cases pc) (auto intro: is_chunk_mono)

lemma carries_step:
  assumes "worker_step env now sent pc s = Inr (pc', s')" and "carries p pc" and "\<forall>c. pc \<noteq> WNew c"
  shows "carries p pc'"
  using assms
  by (cases pc) (auto simp: Let_def elim!: rbind_InrE split: prod.splits if_splits option.splits)

lemma sending_chunk:
  assumes "carries (is_chunk k xs n) pc" and "length xs < 2 ^ 32" and "(wi, bs) \<in> set (sending pc)"
  shows "is_chunk k xs n wi bs"
  using assms chunk_size [OF assms(2), of k] by (cases pc) (auto simp: is_chunk_def)

text \<open>The turn that takes work from the data source: with data left, the next chunk.\<close>

lemma source_more:
  assumes laws: "file_laws (ev_ops env) cont pos" and xs: "length xs < 2 ^ 32" and k: "0 < k"
    and inv: "source_inv cont pos xs k f y" and more: "length f * k < length xs"
    and pc: "y_workers y ! i = WNew c"
    and step: "worker_step env now sent (y_workers y ! i) (y_srv y) = Inr (pc, s')"
    and ps: "\<forall>(wi, bs) \<in> set (payloads s'). is_chunk k xs (length f) wi bs"
  shows "source_inv cont pos xs k (f @ worker_fetched env (y_workers y ! i) (y_srv y))
    (y\<lparr>y_srv := s', y_workers := (y_workers y)[i := pc]\<rparr>)"
proof -
  let ?n = "length f" and ?d = "sv_data (y_srv y)"
  note v = inv [unfolded source_inv_def]
  have uk: "unat (d_chunkSize ?d) = k" using v by blast
  then have ck: "d_chunkSize ?d \<noteq> 0" using k by auto
  have at: "data_at cont pos xs (?n * k) ?n ?d" using v more by (simp add: min_def)
  obtain d where d: "Data_GetClientWork (ev_ops env) (d_chunkSize ?d) ?d = (chunk_info k xs ?n, chunk k xs ?n, d)"
    "data_at cont pos xs (?n * k + length (chunk k xs ?n)) (Suc ?n) d" "d_chunkSize d = d_chunkSize ?d"
    by (rule GetClientWork_more [OF laws at more ck]) (simp add: uk chunk_info_def chunk_def)
  have len: "?n * k + length (chunk k xs ?n) = min (Suc ?n * k) (length xs)"
    using more by (auto simp: chunk_def slice_at_def min_def)
  have "length (chunk k xs ?n) \<noteq> 0" using more k by (simp add: chunk_def slice_at_def)
  then have nz: "wi_size (chunk_info k xs ?n) \<noteq> 0" using chunk_size [OF xs, of k ?n] by auto
  have s': "pc = WNewMap c (chunk_info k xs ?n) (chunk k xs ?n)" "sv_data s' = d"
    "worker_fetched env (y_workers y ! i) (y_srv y) = [chunk_info k xs ?n]"
    using step pc d(1) nz by (auto simp: DataInterp_defs Data_GetChunkSize_def)
  have "carries (is_chunk k xs (Suc ?n)) pc'" if "pc' \<in> set ((y_workers y)[i := pc])" for pc'
    using set_update_pc [OF that] carries_mono [of k xs ?n pc' "Suc ?n"] v s'(1) by (auto simp: is_chunk_def)
  moreover have "\<forall>(wi, bs) \<in> set (payloads s'). is_chunk k xs (Suc ?n) wi bs"
    using ps by (auto intro: is_chunk_mono)
  moreover have "f @ [chunk_info k xs ?n] = map (chunk_info k xs) [0..<Suc ?n]"
    using conjunct1 [OF v] by simp
  moreover have "\<forall>i < Suc ?n. i * k < length xs" using v more by (auto simp: less_Suc_eq)
  moreover have "data_at cont pos xs (min (Suc ?n * k) (length xs)) (Suc ?n) (sv_data s')"
    "unat (d_chunkSize (sv_data s')) = k"
    using d len s'(2) v by simp_all
  ultimately show ?thesis unfolding source_inv_def s'(3) by simp
qed

text \<open>With no data left, nothing is taken and the worker waits.\<close>

lemma source_end:
  assumes laws: "file_laws (ev_ops env) cont pos"
    and inv: "source_inv cont pos xs k f y" and no_more: "\<not> length f * k < length xs"
    and pc: "y_workers y ! i = WNew c"
    and step: "worker_step env now sent (y_workers y ! i) (y_srv y) = Inr (pc, s')"
    and ps: "\<forall>(wi, bs) \<in> set (payloads s'). is_chunk k xs (length f) wi bs"
  shows "source_inv cont pos xs k (f @ worker_fetched env (y_workers y ! i) (y_srv y))
    (y\<lparr>y_srv := s', y_workers := (y_workers y)[i := pc]\<rparr>)"
proof -
  let ?n = "length f" and ?d = "sv_data (y_srv y)"
  note v = inv [unfolded source_inv_def]
  have m: "min (?n * k) (length xs) = length xs" using no_more by simp
  have at: "data_at cont pos xs (length xs) ?n ?d" using v unfolding m by blast
  have uk: "unat (d_chunkSize ?d) = k" using v by blast
  obtain d where d: "Data_GetClientWork (ev_ops env) (d_chunkSize ?d) ?d = (WorkInfo_default, [], d)"
    "data_at cont pos xs (length xs) ?n d" "d_chunkSize d = d_chunkSize ?d"
    by (rule GetClientWork_end [OF laws at])
  have s': "pc = WWait" "sv_data s' = d" "worker_fetched env (y_workers y ! i) (y_srv y) = []"
    using step pc d(1) by (auto simp: DataInterp_defs Data_GetChunkSize_def WorkInfo_default_def)
  then have cs: "\<forall>pc \<in> set ((y_workers y)[i := pc]). carries (is_chunk k xs ?n) pc"
    using v by (auto dest!: set_update_pc)
  have dat: "data_at cont pos xs (min (?n * k) (length xs)) ?n (sv_data s')" "unat (d_chunkSize (sv_data s')) = k"
    using d(2,3) s'(2) uk by (simp_all only: m)
  show ?thesis using v cs dat ps unfolding source_inv_def s'(3) by simp
qed

lemma source_worker:
  assumes laws: "file_laws (ev_ops env) cont pos" and xs: "length xs < 2 ^ 32" and k: "0 < k"
    and inv: "source_inv cont pos xs k f y" and i: "i < length (y_workers y)"
    and step: "worker_step env now sent (y_workers y ! i) (y_srv y) = Inr (pc, s')"
    and nr: "\<not> redoing (y_workers y ! i)"
  shows "source_inv cont pos xs k (f @ worker_fetched env (y_workers y ! i) (y_srv y))
    (y\<lparr>y_srv := s', y_workers := (y_workers y)[i := pc]\<rparr>)"
proof -
  let ?pc = "y_workers y ! i" and ?s = "y_srv y"
  note v = inv [unfolded source_inv_def]
  note r = worker_step_record [OF step]
  have cpc: "carries (is_chunk k xs (length f)) ?pc" using v i by simp
  have ps: "\<forall>(wi, bs) \<in> set (payloads s'). is_chunk k xs (length f) wi bs"
    using v r(1) sending_chunk [OF cpc xs] by auto
  show ?thesis
  proof (cases "\<exists>c. ?pc = WNew c")
    case False
    then have nf: "worker_fetched env ?pc ?s = []" by (cases ?pc) auto
    have "carries (is_chunk k xs (length f)) pc" using carries_step [OF step cpc] False by blast
    then show ?thesis
      using v nf r(5) False nr ps by (auto simp: source_inv_def dest!: set_update_pc)
  next
    case True
    then obtain c where c: "?pc = WNew c" by blast
    show ?thesis
      using source_more [OF laws xs k inv _ c step ps] source_end [OF laws inv _ c step ps] by blast
  qed
qed

lemma source_step:
  assumes laws: "file_laws (ev_ops env) cont pos" and xs: "length xs < 2 ^ 32" and k: "0 < k"
    and inv: "source_inv cont pos xs k f y" and sys: "sys_inv n y"
    and step: "sys_step env y f1 l1 y'" and nr: "\<not> redone y'"
  shows "source_inv cont pos xs k (f @ f1) y'"
proof -
  have nr0: "\<not> redone y" using sys_step_mono [OF sys step] nr by blast
  show ?thesis
    using step
  proof (cases rule: sys_step.cases)
    case (sys_worker i now sent pc s')
    have "\<not> redoing (y_workers y ! i)" using nr0 sys_worker(2) by (auto simp: redone_def)
    from source_worker [OF laws xs k inv sys_worker(2,4) this] show ?thesis using sys_worker by simp
  next
    case (sys_handler j now pc s')
    then show ?thesis using inv handler_step_record [OF sys_handler(5)]
      by (auto simp: source_inv_def dest!: start_threads_pc)
  next
    case (sys_main m s')
    then show ?thesis using inv main_step_record [OF sys_main(5)] by (simp add: source_inv_def)
  qed (use inv in \<open>simp_all add: source_inv_def\<close>)
qed

section \<open>The result file\<close>

text \<open>The numbers of the chunks whose results were written, in that order.\<close>

definition order :: "'f server \<Rightarrow> nat list" where
  "order s = map (\<lambda>(wi, data). unat (wi_curIndex wi)) (results s)"

definition right_results :: "nat \<Rightarrow> byte list \<Rightarrow> (u32 \<Rightarrow> u32) \<Rightarrow> 'f server \<Rightarrow> bool" where
  "right_results k xs alg s \<longleftrightarrow> (\<forall>(wi, data) \<in> set (results s).
     \<exists>i. i * k < length xs \<and> wi = chunk_info k xs i \<and> data = map_words alg (chunk k xs i))"

lemma right_results_data:
  assumes "right_results k xs alg s" and "length xs < 2 ^ 32" and "0 < k"
  shows "map snd (results s) = map (\<lambda>i. map_words alg (chunk k xs i)) (order s)"
  using assms(1) chunk_index [OF _ assms(2,3)] by (fastforce simp: right_results_def order_def)

text \<open>What conservation says of the order: no chunk twice, none that was not handed out; all of
  them when nothing is lost and nothing is in between.\<close>

lemma order_part:
  assumes f: "f = map (chunk_info k xs) [0..<n]" "\<forall>i < n. i * k < length xs"
    and xs: "length xs < 2 ^ 32" "0 < k" and cons: "mset f = mset (written_work s) + r"
  shows "distinct (order s)" and "set (order s) \<subseteq> {..< n}" and "r = {#} \<Longrightarrow> mset (order s) = mset [0..<n]"
proof -
  let ?ix = "\<lambda>wi. unat (wi_curIndex wi)"
  have "map ?ix f = map (\<lambda>i. ?ix (chunk_info k xs i)) [0..<n]" unfolding f(1) by simp
  also have "\<dots> = [0..<n]" using f(2) chunk_index [OF _ xs] by (intro map_idI) simp
  finally have ix: "map ?ix f = [0..<n]" .
  have "mset (map ?ix (written_work s)) = mset (order s)"
    by (simp add: written_results order_def comp_def case_prod_unfold)
  then have m: "mset [0..<n] = mset (order s) + image_mset ?ix r"
    using arg_cong [OF cons, of "image_mset ?ix"] ix by (simp only: image_mset_union mset_map [symmetric])
  then show "r = {#} \<Longrightarrow> mset (order s) = mset [0..<n]" by simp
  show "set (order s) \<subseteq> {..< n}" using arg_cong [OF m, of set_mset] by auto
  have "count (mset (order s)) a \<le> 1" for a
  proof -
    have "count (mset (order s)) a \<le> count (mset [0..<n]) a" by (simp only: m) simp
    also have "\<dots> \<le> 1" using distinct_count_atmost_1 [of "[0..<n]"] by auto
    finally show ?thesis .
  qed
  moreover have "count (mset (order s)) a = 0" if "a \<notin> set (order s)" for a using that by simp
  ultimately show "distinct (order s)" unfolding distinct_count_atmost_1
    by (metis count_mset_0_iff le_neq_implies_less less_one)
qed

lemma results_fit:
  assumes "map snd (results s) = map (\<lambda>i. map_words alg (chunk k xs i)) (order s)"
    and "distinct (order s)" and "set (order s) \<subseteq> {..< n}" and "4 dvd k" and "4 dvd length xs"
  shows "length (concat (map snd (results s))) \<le> length xs"
proof -
  have "length (concat (map snd (results s))) = (\<Sum>i\<leftarrow>order s. length (chunk k xs i))"
    using assms(4,5) by (simp add: assms(1) length_concat comp_def chunk_dvd)
  also have "\<dots> = (\<Sum>i\<in>set (order s). length (chunk k xs i))"
    using assms(2) by (simp add: sum_list_distinct_conv_sum_set)
  also have "\<dots> \<le> (\<Sum>i<n. length (chunk k xs i))" using assms(3) by (intro sum_mono2) auto
  also have "\<dots> \<le> length xs" by (rule chunk_lengths)
  finally show ?thesis .
qed

definition file_inv :: "u32 \<Rightarrow> byte list \<Rightarrow> 'f server \<Rightarrow> bool" where
  "file_inv g xs s \<longleftrightarrow> written (sv_tempFileMap s) (concat (map snd (results s)))
     \<and> cr_chunkMapSize (sv_tempFileMap s) = length xs
     \<and> (fi_indices (sv_tempFileMap s) = []
        \<or> (\<exists>p n. fi_indices (sv_tempFileMap s) = [\<lparr>ie_index = g, ie_pos = p, ie_size = n\<rparr>]))"

lemma file_step:
  assumes law: "view_law gran (ev_mv env)" "ev_end_deref env = Some g" and inv: "file_inv g xs (y_srv y)"
    and step: "sys_step env y f l y'" and c: "completions (y_srv y') = 0"
    and fits: "length (concat (map snd (results (y_srv y')))) \<le> length xs"
  shows "file_inv g xs (y_srv y')"
  using step
proof (cases rule: sys_step.cases)
  case (sys_worker i now sent pc s')
  have "y_workers y ! i \<noteq> WComplete" using c worker_step_frame(5) [OF sys_worker(4)] sys_worker(1) by auto
  then show ?thesis using inv worker_step_record [OF sys_worker(4)] sys_worker(1) by (simp add: file_inv_def)
next
  case (sys_handler j now pc s')
  note r = handler_step_record [OF sys_handler(5)]
  show ?thesis
  proof (cases "\<exists>c t wi data. y_handlers y ! j = HWrite c t wi data")
    case False
    then have "sv_tempFileMap s' = sv_tempFileMap (y_srv y)" "results s' = results (y_srv y)"
      using r(4,5) by (auto split: handler_pc.splits)
    then show ?thesis using inv sys_handler(2) by (simp add: file_inv_def)
  next
    case True
    then obtain c t wi data where h: "y_handlers y ! j = HWrite c t wi data" by blast
    let ?m = "sv_tempFileMap (y_srv y)"
    have rs: "results s' = results (y_srv y) @ [(wi, data)]" using r(5) h by simp
    have fit: "length (concat (map snd (results (y_srv y)))) + length data \<le> cr_chunkMapSize ?m"
      using fits rs inv sys_handler(2) by (simp add: file_inv_def)
    have w: "written ?m (concat (map snd (results (y_srv y))))"
      and ix: "fi_indices ?m = [] \<or> (\<exists>p n. fi_indices ?m = [\<lparr>ie_index = g, ie_pos = p, ie_size = n\<rparr>])"
      using inv by (simp_all add: file_inv_def)
    obtain fm where fm: "FileMappingIndexed_Write (ev_mv env) (Some g) (wi_curIndex wi) data ?m = Inr fm"
      "written fm (concat (map snd (results (y_srv y))) @ data)" "cr_chunkMapSize fm = cr_chunkMapSize ?m"
      "fi_indices fm = (if fi_indices ?m = []
         then [\<lparr>ie_index = g, ie_pos = length (concat (map snd (results (y_srv y)))), ie_size = length data\<rparr>]
         else fi_indices ?m)"
      by (rule Indexed_Write_written [OF law(1) w fit ix, of "wi_curIndex wi"])
    have "sv_tempFileMap s' = fm"
      using sys_handler(5) h fm(1) law(2) by (auto elim!: rbind_InrE)
    then show ?thesis using fm rs ix inv sys_handler(2) by (auto simp: file_inv_def)
  qed
next
  case (sys_main m s')
  then show ?thesis using inv main_step_record [OF sys_main(5)] by (simp add: file_inv_def)
qed (use inv in simp_all)

section \<open>The result of a job\<close>

lemma job_run:
  assumes env: "job_env env cont pos g xs cs" and base: "0 < base" and n: "n < 2 ^ 32"
    and init: "Server_init env mem wmem base mx n f dir fileList True (Some bs) = Inr s0"
    and xs: "cont (d_file (sv_data s0)) = xs" and bs: "length bs = length xs" and mx: "mx \<noteq> of_nat MSG_OFFSET"
    and k: "k = unat (d_chunkSize (sv_data s0))" "4 dvd k" "0 < k"
    and run: "sys_run env (sys_of s0) fetched lost y"
  shows "\<not> redone y \<Longrightarrow> source_inv cont pos xs k fetched y"
    and "\<not> redone y \<Longrightarrow> completions (y_srv y) = 0 \<Longrightarrow> right_results k xs (ev_alg env) (y_srv y) \<Longrightarrow>
      file_inv g xs (y_srv y)"
proof -
  have e: "allocator_law (ev_newbuf env)" "file_laws (ev_ops env) cont pos" "view_law (ev_gran env) (ev_mv env)"
    "ev_end_deref env = Some g" "4 dvd length xs" "length xs \<le> 104857600"
    using env by (simp_all add: job_env_def)
  then have small: "length xs < 2 ^ 32" by simp
  note start = job_init [OF env base init xs bs mx]
  have s0: "source_inv cont pos xs k [] (sys_of s0)"
    using start k(1) by (simp add: source_inv_def sys_of_def payloads_def)
  have f0: "file_inv g xs (y_srv (sys_of s0))"
    using start by (simp add: file_inv_def sys_of_def results_def)
  have "(\<not> redone y \<longrightarrow> source_inv cont pos xs k fetched y)
    \<and> (\<not> redone y \<longrightarrow> completions (y_srv y) = 0 \<longrightarrow> right_results k xs (ev_alg env) (y_srv y)
      \<longrightarrow> file_inv g xs (y_srv y))"
    using run
  proof (induction rule: sys_run.induct)
    case (run_step f l y1 f1 l1 y2)
    have sys: "sys_inv n y1" using reachable_inv [OF base e(1) n init run_step(1)] by blast
    note mono = sys_step_mono [OF sys run_step(2)]
    have src: "source_inv cont pos xs k (f @ f1) y2" if "\<not> redone y2"
      using source_step [OF e(2) small k(3) _ sys run_step(2) that] run_step.IH mono that by blast
    have "file_inv g xs (y_srv y2)"
      if nr: "\<not> redone y2" and c: "completions (y_srv y2) = 0" and rr: "right_results k xs (ev_alg env) (y_srv y2)"
    proof -
      have "set (results (y_srv y1)) \<subseteq> set (results (y_srv y2))" using mono by auto
      then have "right_results k xs (ev_alg env) (y_srv y1)" using rr unfolding right_results_def by blast
      then have "file_inv g xs (y_srv y1)" using run_step.IH mono nr c by auto
      moreover have "length (concat (map snd (results (y_srv y2)))) \<le> length xs"
      proof -
        have "mset (f @ f1) = mset (written_work (y_srv y2)) + (outstanding (y_srv y2)
            + (\<Sum>pc\<leftarrow>y_workers y2. mset (worker_holds pc)) + (\<Sum>pc\<leftarrow>y_handlers y2. mset (handler_holds pc)) + mset (l @ l1))"
          using reachable_inv [OF base e(1) n init sys_run.run_step [OF run_step(1,2)]]
          by (simp add: places_def settled_def ac_simps)
        note part = order_part [OF _ _ small k(3) this, where n = "length (f @ f1)"]
        show ?thesis
          using results_fit [OF right_results_data [OF rr small k(3)] part(1) part(2) k(2) e(5)]
            src [OF nr] unfolding source_inv_def by blast
      qed
      ultimately show ?thesis using file_step [OF e(3,4) _ run_step(2) c] by blast
    qed
    then show ?case using src by blast
  qed (use s0 f0 in simp)
  then show "\<not> redone y \<Longrightarrow> source_inv cont pos xs k fetched y"
    and "\<not> redone y \<Longrightarrow> completions (y_srv y) = 0 \<Longrightarrow> right_results k xs (ev_alg env) (y_srv y) \<Longrightarrow>
      file_inv g xs (y_srv y)"
    by blast+
qed

lemma answered_right:
  assumes src: "source_inv cont pos xs k f y" and dv: "4 dvd k" "4 dvd length xs" and small: "length xs < 2 ^ 32"
    and answered: "\<forall>(wi, data) \<in> set (results (y_srv y)). \<exists>p garbage. (wi, p) \<in> set (payloads (y_srv y))
      \<and> length p \<le> length garbage \<and> process_work alg garbage p = Inr data"
  shows "right_results k xs alg (y_srv y)"
  unfolding right_results_def
proof (safe, goal_cases)
  case (1 wi data)
  then obtain p garbage where p: "(wi, p) \<in> set (payloads (y_srv y))" "length p \<le> length garbage"
    "process_work alg garbage p = Inr data" using answered by blast
  then obtain i where i: "i < length f" "wi = chunk_info k xs i" "p = chunk k xs i"
    using src by (fastforce simp: source_inv_def is_chunk_def)
  have "length p \<le> length xs" using i(3) by (simp add: chunk_def slice_at_def)
  then have "data = map_words alg p"
    using p(2,3) process_work_eq [of p garbage alg] chunk_dvd [OF dv, of i] i(3) small by simp
  then show ?case using i src by (auto simp: source_inv_def)
qed

lemma right_job_result:
  assumes env: "job_env env cont pos g xs cs" and base: "0 < base" and n: "n < 2 ^ 32"
    and init: "Server_init env mem wmem base mx n f dir fileList True (Some bs) = Inr s0"
    and start: "cont (d_file (sv_data s0)) = xs" "length bs = length xs" "mx \<noteq> of_nat MSG_OFFSET"
    and k: "k = unat (d_chunkSize (sv_data s0))" "4 dvd k" "0 < k"
    and run: "sys_run env (sys_of s0) fetched lost y" and once: "\<not> redone y" "completions (y_srv y) = 0"
    and rr: "right_results k xs (ev_alg env) (y_srv y)"
  shows "fetched = map (chunk_info k xs) [0..<length fetched]
    \<and> distinct (order (y_srv y)) \<and> set (order (y_srv y)) \<subseteq> {..< length fetched}
    \<and> (let out = concat (map (\<lambda>i. map_words (ev_alg env) (chunk k xs i)) (order (y_srv y)))
       in take (length out) (fm_bytes (sv_tempFileMap (y_srv y))) = out)
    \<and> (length xs \<le> length fetched * k \<and> lost = [] \<and> places y = mset (written_work (y_srv y)) \<longrightarrow>
         mset (order (y_srv y)) = mset [0..<length fetched]
         \<and> (sorted (order (y_srv y)) \<longrightarrow>
              take (length xs) (fm_bytes (sv_tempFileMap (y_srv y))) = map_words (ev_alg env) xs))"
proof -
  have e: "allocator_law (ev_newbuf env)" "4 dvd length xs" "length xs \<le> 104857600"
    using env by (simp_all add: job_env_def)
  then have small: "length xs < 2 ^ 32" by simp
  note job = job_run [OF env base n init start k run]
  have src: "fetched = map (chunk_info k xs) [0..<length fetched]" "\<forall>i < length fetched. i * k < length xs"
    using job(1) [OF once(1)] unfolding source_inv_def by blast+
  have w: "written (sv_tempFileMap (y_srv y)) (concat (map snd (results (y_srv y))))"
    using job(2) [OF once rr] by (simp add: file_inv_def)
  note out = right_results_data [OF rr small k(3)]
  let ?r = "outstanding (y_srv y) + (\<Sum>pc\<leftarrow>y_workers y. mset (worker_holds pc))
    + (\<Sum>pc\<leftarrow>y_handlers y. mset (handler_holds pc)) + mset lost"
  have cons: "mset fetched = mset (written_work (y_srv y)) + ?r"
    using reachable_inv [OF base e(1) n init run] by (simp add: places_def settled_def ac_simps)
  note part = order_part [OF src small k(3) cons]
  have whole: "mset (order (y_srv y)) = mset [0..<length fetched]
      \<and> (sorted (order (y_srv y)) \<longrightarrow> take (length xs) (fm_bytes (sv_tempFileMap (y_srv y))) = map_words (ev_alg env) xs)"
    if "length xs \<le> length fetched * k" "lost = []" "places y = mset (written_work (y_srv y))"
  proof -
    have "?r = {#}" using that(2,3) by (simp add: places_def settled_def add.assoc)
    then have m: "mset (order (y_srv y)) = mset [0..<length fetched]" by (rule part(3))
    moreover have "take (length xs) (fm_bytes (sv_tempFileMap (y_srv y))) = map_words (ev_alg env) xs"
      if "sorted (order (y_srv y))"
    proof -
      have "order (y_srv y) = [0..<length fetched]" using m that properties_for_sort [of _ "order (y_srv y)"]
        by (metis sort_upt mset_eq_setD properties_for_sort sorted_upt)
      then have "concat (map snd (results (y_srv y))) = map_words (ev_alg env) (take (length fetched * k) xs)"
        using map_words_chunks [OF k(2) e(2)] by (simp add: out)
      then show ?thesis using w \<open>length xs \<le> length fetched * k\<close> e(2) by (auto simp: written_def)
    qed
    ultimately show ?thesis by blast
  qed
  show ?thesis using src(1) part(1,2) w whole by (auto simp: out written_def Let_def)
qed


text \<open>Client 7 answers the only chunk of a file of two integers while the worker waits and client 9
  is ready.\<close>

lemma race_job_env: "job_env sample_env fst snd 0 [1,0,0,0,2,0,0,0] (replicate 8 0)"
proof -
  have dv: "(4 :: nat) dvd Suc (Suc (Suc (Suc (Suc (Suc (Suc (Suc 0)))))))" by presburger
  show ?thesis
    using sample_law mem_file_laws [of "[1,0,0,0,2,0,0,0]"] full_view_law [of 65536] dv
    by (simp add: job_env_def sample_env_def)
qed

lemma race_start:
  assumes "race_init = Inr s0"
  shows "written (sv_tempFileMap s0) []" and "cr_chunkMapSize (sv_tempFileMap s0) = 8" and "sv_data s0 = race_data 0"
proof -
  obtain s0' where "race_init = Inr s0'" "sv_data s0' = race_data 0" by (rule race_initE)
  then show d0: "sv_data s0 = race_data 0" using assms by (metis sum.inject(2))
  have x: "fst (d_file (sv_data s0)) = [1,0,0,0,2,0,0,0]" "length (replicate 8 (0 :: byte)) = length ([1,0,0,0,2,0,0,0] :: byte list)"
    "(8 :: u32) + of_nat MSG_OFFSET \<noteq> of_nat MSG_OFFSET"
    by (simp_all add: d0 race_data_def)
  have one: "0 < (1 :: nat)" by simp
  note start = job_init [OF race_job_env one assms [unfolded race_init_def] x]
  show "written (sv_tempFileMap s0) []" "cr_chunkMapSize (sv_tempFileMap s0) = 8" using start by simp_all
qed

lemma answer_seqE:
  assumes "sv_workMap s = [(7, race_work)]" and "stamped 7 s" and "fi_indices (sv_tempFileMap s) = []"
    and w: "written (sv_tempFileMap s) []" "cr_chunkMapSize (sv_tempFileMap s) = 8"
  obtains time fm where "handler_seq sample_env 6 4 (HMsg 7 TYPE_WORK MSG_WORK_COMPLETE [1,0,0,0,2,0,0,0]) s
    = Inr (HEval 7 time, log_event (Wrote race_work [1,0,0,0,2,0,0,0]) (s\<lparr>sv_workMap := [], sv_tempFileMap := fm\<rparr>), [])"
proof -
  let ?data = "[1,0,0,0,2,0,0,0] :: byte list"
  have law: "view_law 65536 (ev_mv sample_env)" "ev_end_deref sample_env = Some 0"
    by (simp_all add: sample_env_def full_view_law)
  obtain fm where fm: "FileMappingIndexed_Write (ev_mv sample_env) (Some 0) (wi_curIndex race_work) ?data (sv_tempFileMap s)
      = Inr fm"
    by (rule Indexed_Write_written [OF law(1) w(1), of ?data 0 "wi_curIndex race_work"]) (use w assms(3) in auto)
  have st: "cq_obj (sv_clntQueue s) 7 \<noteq> 0" using assms(2) by (simp add: stamped_def cq_stamped_def)
  have t: "complete_take 7 s = (Some race_work, s\<lparr>sv_workMap := []\<rparr>)"
    using assms(1) by (simp add: complete_take_def ClientWorkMap_GetClientWork_def erase_entry_def)
  show thesis
    by (rule that) (use st t fm law(2) in \<open>simp add: eval_nat_numeral dispatch_def Let_def\<close>)
qed

lemma answered_stateE:
  obtains s0 f y where "race_init = Inr s0" and "sv_data s0 = race_data 0"
    and "sys_run sample_env (sys_of s0) f [] y" and "\<not> redone y"
    and "completions (y_srv y) = 0" and "results (y_srv y) = [(race_work, [1,0,0,0,2,0,0,0])]"
    and "payloads (y_srv y) = [(race_work, [1,0,0,0,2,0,0,0])]" and "places y = {#race_work#}"
proof -
  let ?data = "[1,0,0,0,2,0,0,0] :: byte list"
  obtain s0 s hs f where s: "race_init = Inr s0" "sys_run sample_env (sys_of s0) f [] (one_worker s WWait hs)"
    "sv_inv s" "stamped 7 s" "sv_workMap s = [(7, race_work)]" "sv_old s = []" "sv_reorderCounter s = 0"
    "sv_threadInitialized s" "\<not> sv_exitThread s" "length (sv_threadPool s) = 1" "fi_indices (sv_tempFileMap s) = []"
    "GetWritePos (sv_tempFileMap s) = 0" "sv_tempFileMap s = sv_tempFileMap s0"
    "sv_trace s = [SentNew 7 race_work TYPE_WORK MSG_WORK_NEW ?data True, FreedBuffer]" "hs = [HDone, HDone]"
    by (rule race_stateE)
  note start = race_start [OF s(1)]
  obtain time fm where h: "handler_seq sample_env 6 4 (HMsg 7 TYPE_WORK MSG_WORK_COMPLETE ?data) s
    = Inr (HEval 7 time, log_event (Wrote race_work ?data) (s\<lparr>sv_workMap := [], sv_tempFileMap := fm\<rparr>), [])"
    by (rule answer_seqE [OF s(5,4,11)]) (simp_all add: s(13) start)
  let ?s1 = "log_event (Wrote race_work ?data) (s\<lparr>sv_workMap := [], sv_tempFileMap := fm\<rparr>)"
  from run_handler [OF s(2) h s(8) one_worker_message]
  have r: "sys_run sample_env (sys_of s0) f [] (one_worker ?s1 WWait (hs @ [HEval 7 time]))" by simp
  show thesis
  proof (rule that [OF s(1) start(3) r])
    show "\<not> redone (one_worker ?s1 WWait (hs @ [HEval 7 time]))" by (simp add: redone_def) (simp add: resent_def s(14))
    show "completions (y_srv (one_worker ?s1 WWait (hs @ [HEval 7 time]))) = 0"
      by (simp add: completions_def s(14) log_event_def)
    show "results (y_srv (one_worker ?s1 WWait (hs @ [HEval 7 time]))) = [(race_work, ?data)]"
      by simp (simp add: results_def s(14))
    show "payloads (y_srv (one_worker ?s1 WWait (hs @ [HEval 7 time]))) = [(race_work, ?data)]"
      by simp (simp add: payloads_def s(14))
    show "places (one_worker ?s1 WWait (hs @ [HEval 7 time])) = {#race_work#}"
      using s(6) by (simp add: places_def settled_def outstanding_def mapped_def sv_old_def written_work_def log_event_def s(14,15))
  qed
qed


end
