(* ===== verification/Network.thy ===== *)
theory Network
  imports ServerResults
begin

text \<open>
  The server and its clients together.  A client signals once that it is ready, gets work, and
  answers every payload it is sent with what \<open>Client/Client.cpp\<close> computes from it; the network
  carries the payloads, in any order and with any delay; clients may ask for files and may leave
  at any time.  \<open>net_step\<close> is one step of the server (\<open>sys_step\<close>), of a client, or a departure.

  Shown is that each client is in one place at a time (waiting, with a worker, computing, or with
  a handler), so that the result a handler writes for a piece of work was computed from the
  payload of that piece, and from this what the job computes.
\<close>

section \<open>The system\<close>

text \<open>What the server's library puts on the network.\<close>

fun deliveries :: "trace_event \<Rightarrow> (client \<times> byte list) list" where
  "deliveries (SentNew clint wi type msg payload sent) = (if sent then [(clint, payload)] else [])"
| "deliveries (SentOld clint wi type msg payload sent) = (if sent then [(clint, payload)] else [])"
| "deliveries _ = []"

definition sent_since :: "'f server \<Rightarrow> 'f server \<Rightarrow> (client \<times> byte list) list" where
  "sent_since s s' = concat (map deliveries (drop (length (sv_trace s)) (sv_trace s')))"

record 'f net =
  n_sys :: "'f sys"
  n_ready :: "client set"                  \<comment> \<open>the clients that have signalled that they are ready\<close>
  n_inbox :: "(client \<times> byte list) list"  \<comment> \<open>the payloads on the way and being computed\<close>

definition net_of :: "'f server \<Rightarrow> 'f net" where
  "net_of s = \<lparr>n_sys = sys_of s, n_ready = {}, n_inbox = []\<rparr>"

definition arrives :: "handler_pc \<Rightarrow> 'f sys \<Rightarrow> 'f sys" where
  "arrives pc y = y\<lparr>y_handlers := y_handlers y @ [pc]\<rparr>"

text \<open>A step of a thread of the server starts no handler; what a client does starts one.
  \<open>garbage\<close> is what the client's send buffer holds before.\<close>

inductive net_step :: "'f server_env \<Rightarrow> 'f net \<Rightarrow> work_info list \<Rightarrow> work_info list \<Rightarrow> 'f net \<Rightarrow> bool"
  for env where
  net_server:
    "sys_step env (n_sys z) f l y' \<Longrightarrow> length (y_handlers y') = length (y_handlers (n_sys z)) \<Longrightarrow>
     net_step env z f l (z\<lparr>n_sys := y', n_inbox := n_inbox z @ sent_since (y_srv (n_sys z)) (y_srv y')\<rparr>)"
| net_ready:
    "clint \<notin> n_ready z \<Longrightarrow>
     net_step env z [] [] (z\<lparr>n_sys := arrives (HMsg clint TYPE_READY MSG_READY_INIT []) (n_sys z),
       n_ready := insert clint (n_ready z)\<rparr>)"
| net_answer:
    "(clint, payload) \<in> set (n_inbox z) \<Longrightarrow> length payload \<le> length garbage \<Longrightarrow>
     process_work (ev_alg env) garbage payload = Inr data \<Longrightarrow>
     net_step env z [] [] (z\<lparr>n_sys := arrives (HMsg clint TYPE_WORK MSG_WORK_COMPLETE data) (n_sys z),
       n_inbox := remove1 (clint, payload) (n_inbox z)\<rparr>)"
| net_files:
    "net_step env z [] [] (z\<lparr>n_sys := arrives (HMsg clint TYPE_FILETRANSFER msg data) (n_sys z)\<rparr>)"
| net_leave:
    "net_step env z [] [] (z\<lparr>n_sys := arrives (DRemove clint) (n_sys z)\<rparr>)"

inductive net_run :: "'f server_env \<Rightarrow> 'f net \<Rightarrow> work_info list \<Rightarrow> work_info list \<Rightarrow> 'f net \<Rightarrow> bool"
  for env z0 where
  net_refl: "net_run env z0 [] [] z0"
| net_next: "net_run env z0 f l z \<Longrightarrow> net_step env z f1 l1 z' \<Longrightarrow> net_run env z0 (f @ f1) (l @ l1) z'"

lemma net_step_sys: "net_step env z f l z' \<Longrightarrow> sys_step env (n_sys z) f l (n_sys z')"
  by (induction rule: net_step.induct) (auto simp: arrives_def intro: sys_message sys_leave)

lemma net_run_sys: "net_run env z0 f l z \<Longrightarrow> sys_run env (n_sys z0) f l (n_sys z)"
  by (induction rule: net_run.induct) (auto intro: run_refl run_step net_step_sys)

section \<open>Where a client is\<close>

text \<open>The client a thread is serving: a worker from \<open>FindClientForWork\<close> until the work is sent, a
  handler until the client is back in the queue.\<close>

fun serving :: "worker_pc \<Rightarrow> client list" where
  "serving (WPop c) = [c]"
| "serving (WNew c) = [c]"
| "serving (WNewMap c wi bs) = [c]"
| "serving (WNewStamp c wi bs) = [c]"
| "serving (WNewSend c wi bs) = [c]"
| "serving (WNewRemove c) = [c]"
| "serving (WOld c wi) = [c]"
| "serving (WOldMap c wi bs) = [c]"
| "serving (WOldStamp c wi bs) = [c]"
| "serving (WOldSend c wi bs) = [c]"
| "serving _ = []"

fun handling :: "handler_pc \<Rightarrow> client list" where
  "handling (HMsg c type msg data) =
     (if type = TYPE_WORK \<and> msg = MSG_WORK_COMPLETE \<or> type = TYPE_READY \<and> msg \<in> {MSG_READY_INIT, MSG_READY_PROCESS}
      then [c] else [])"
| "handling (HAdd c init) = [c]"
| "handling (HTime c data) = [c]"
| "handling (HTake c t data) = [c]"
| "handling (HWrite c t wi data) = [c]"
| "handling (HEval c t) = [c]"
| "handling _ = []"

definition whereabouts :: "'f net \<Rightarrow> client multiset" where
  "whereabouts z = mset (sv_waiting (y_srv (n_sys z))) + (\<Sum>pc\<leftarrow>y_workers (n_sys z). mset (serving pc))
     + (\<Sum>pc\<leftarrow>y_handlers (n_sys z). mset (handling pc)) + mset (map fst (n_inbox z))"

lemma sent_since_log [simp]: "sent_since s (log_event e s) = deliveries e"
  by (simp add: sent_since_def log_event_def)

lemma sent_since_same: "sv_trace s' = sv_trace s \<Longrightarrow> sent_since s s' = []"
  by (simp add: sent_since_def)

lemma sv_waiting_updates [simp]:
  "sv_waiting (s\<lparr>sv_workMap := m\<rparr>) = sv_waiting s" "sv_waiting (s\<lparr>sv_oldWork := old\<rparr>) = sv_waiting s"
  "sv_waiting (s\<lparr>sv_data := d\<rparr>) = sv_waiting s" "sv_waiting (s\<lparr>sv_stamps := st\<rparr>) = sv_waiting s"
  "sv_waiting (s\<lparr>sv_reorderCounter := k\<rparr>) = sv_waiting s" "sv_waiting (s\<lparr>sv_tempFileMap := fm\<rparr>) = sv_waiting s"
  "sv_waiting (s\<lparr>sv_startTime := t\<rparr>) = sv_waiting s" "sv_waiting (s\<lparr>sv_nReady := r\<rparr>) = sv_waiting s"
  "sv_waiting (s\<lparr>sv_fileSend := fs\<rparr>) = sv_waiting s" "sv_waiting (s\<lparr>sv_threadInitialized := b\<rparr>) = sv_waiting s"
  "sv_waiting (s\<lparr>sv_trace := tr\<rparr>) = sv_waiting s" "sv_waiting (s\<lparr>sv_threadPool := tp\<rparr>) = sv_waiting s" "sv_waiting (s\<lparr>sv_exitThread := b\<rparr>) = sv_waiting s"
  by (simp_all add: sv_waiting_def)

lemma worker_step_client:
  assumes inv: "sv_inv s" and step: "worker_step env now sent pc s = Inr (pc', s')"
  shows "mset (serving pc') + mset (sv_waiting s') + mset (map fst (sent_since s s'))
    \<subseteq># mset (serving pc) + mset (sv_waiting s)"
proof (cases pc)
  case WFind
  obtain q where q: "ClientQueue_FindClientForWork (sv_clntQueue s)
      = Inr (case sv_waiting s of [] \<Rightarrow> None | c # _ \<Rightarrow> Some c, q)" "cq_fast q @ cq_other q = tl (sv_waiting s)"
    by (rule find_waiting [OF inv])
  have "sv_waiting (s\<lparr>sv_clntQueue := q\<rparr>) = tl (sv_waiting s)" using q(2) by (simp add: sv_waiting_def)
  then show ?thesis using step q(1) WFind by (cases "sv_waiting s") (auto simp: sent_since_def)
next
  case (WNew c)
  then show ?thesis using step by (auto simp: Let_def sent_since_def log_event_def split: prod.splits if_splits)
next
  case WComplete
  then show ?thesis using step by (auto simp: Server_OnCompletion_def sent_since_def log_event_def elim!: rbind_InrE)
qed (use step in \<open>auto simp: Let_def sent_since_same sent_since_def log_event_def elim!: rbind_InrE dest!: stamp_client_Inr split: option.splits prod.splits\<close>)

lemma mset_push_bounded: "mset (push_bounded n c xs) \<subseteq># add_mset c (mset xs)"
  by (simp add: push_bounded_def)

lemma handler_step_client:
  assumes inv: "sv_inv s" and nb: "allocator_law (ev_newbuf env)"
    and step: "handler_step env now pc s = Inr (pc', s')"
  shows "mset (handling pc') + mset (sv_waiting s') \<subseteq># mset (handling pc) + mset (sv_waiting s)
    \<and> sent_since s s' = []"
proof (cases pc)
  case (HMsg c type msg data)
  then show ?thesis using step by (auto simp: dispatch_def sent_since_def)
next
  case (HAdd c init)
  obtain q where q: "add_ready env c s = Inr (s\<lparr>sv_clntQueue := q\<rparr>)"
    "cq_fast q @ cq_other q = cq_fast (sv_clntQueue s) @ push_bounded MAXCLIENTS c (cq_other (sv_clntQueue s))"
    by (rule add_ready_spec [OF inv nb])
  have "mset (sv_waiting (s\<lparr>sv_clntQueue := q\<rparr>)) \<subseteq># add_mset c (mset (sv_waiting s))"
    using arg_cong [OF q(2), of mset] mset_push_bounded [of MAXCLIENTS c "cq_other (sv_clntQueue s)"]
    by (simp add: sv_waiting_def)
  then show ?thesis using step q(1) HAdd by (auto simp: sent_since_def)
next
  case (HEval c t)
  obtain st pm where e: "PerformanceModel_EvaluateTime (ev_r32 env) (ev_r64 env) t (cq_perfModel (sv_clntQueue s)) = (st, pm)"
    by fastforce
  have "cq_inv MAXCLIENTS (sv_clntQueue s)" using inv by (simp add: sv_inv_def)
  then obtain q where q: "ClientQueue_EvaluateClient (ev_r32 env) (ev_r64 env) c t (sv_clntQueue s) = Inr (st \<noteq> TOOSLOW, q)"
    "cq_fast q = (if st = FAST then push_bounded MAXCLIENTS c (cq_fast (sv_clntQueue s)) else cq_fast (sv_clntQueue s))"
    "cq_other q = (if st = NORMAL then push_bounded MAXCLIENTS c (cq_other (sv_clntQueue s)) else cq_other (sv_clntQueue s))"
    using EvaluateClient_spec [OF _ e, of MAXCLIENTS c] by blast
  have "mset (sv_waiting (s\<lparr>sv_clntQueue := q\<rparr>)) \<subseteq># add_mset c (mset (sv_waiting s))"
    using q(2,3) by (cases st) (auto simp: sv_waiting_def push_bounded_def)
  then show ?thesis using step q(1) HEval by (auto simp: sent_since_def)
next
  case (DRemove c)
  have "cq_inv MAXCLIENTS (sv_clntQueue s)" using inv by (simp add: sv_inv_def)
  then have "sv_waiting (s\<lparr>sv_clntQueue := ClientQueue_RemoveClient c (sv_clntQueue s)\<rparr>) = sv_waiting s"
    using cq.remove_spec by (simp add: sv_waiting_def)
  then show ?thesis using step DRemove by (auto simp: sent_since_def)
qed (use step in \<open>auto simp: Let_def sent_since_def log_event_def elim!: rbind_InrE dest!: complete_take_frame
    split: option.splits prod.splits if_splits\<close>)

lemma main_step_client:
  "main_step ends m s = Inr (m', s') \<Longrightarrow> sv_waiting s' = sv_waiting s \<and> sent_since s s' = []"
  by (cases m) (auto simp: sent_since_def log_event_def elim!: rbind_InrE split: if_splits)

text \<open>No step of the server puts a client where it was not before.\<close>

lemma sub_balance:
  fixes a :: "'a multiset"
  assumes "a' + s' + i \<subseteq># a + s" and "w' + a = w + a'"
  shows "s' + w' + r + (b + i) \<subseteq># s + w + r + b"
proof (rule mset_subset_eqI)
  fix x
  have "count (a' + s' + i) x \<le> count (a + s) x" using assms(1) by (rule mset_subset_eq_count)
  moreover have "count (w' + a) x = count (w + a') x" using assms(2) by simp
  ultimately show "count (s' + w' + r + (b + i)) x \<le> count (s + w + r + b) x" by simp
qed

lemma server_whereabouts:
  assumes inv: "sys_inv n (n_sys z)" and nb: "allocator_law (ev_newbuf env)"
    and step: "sys_step env (n_sys z) f l y'" and len: "length (y_handlers y') = length (y_handlers (n_sys z))"
    and z': "z' = z\<lparr>n_sys := y', n_inbox := n_inbox z @ sent_since (y_srv (n_sys z)) (y_srv y')\<rparr>"
  shows "whereabouts z' \<subseteq># whereabouts z"
proof -
  have sv: "sv_inv (y_srv (n_sys z))" using inv by (simp add: sys_inv_def)
  show ?thesis using step
  proof (cases rule: sys_step.cases)
    case (sys_worker i now sent pc s')
    from sub_balance [OF worker_step_client [OF sv sys_worker(4)]
        sum_update [OF sys_worker(2), of "\<lambda>pc. mset (serving pc)" pc]] show ?thesis
      using sys_worker(1) by (simp add: whereabouts_def z' ac_simps)
  next
    case (sys_handler j now pc s')
    have st: "(\<Sum>pc\<leftarrow>start_threads (y_srv (n_sys z)) s' (y_workers (n_sys z)). mset (serving pc))
        = (\<Sum>pc\<leftarrow>y_workers (n_sys z). mset (serving pc))"
      using inv by (auto simp: start_threads_def sys_inv_def)
    note h = handler_step_client [OF sv nb sys_handler(5)]
    have "mset (handling pc) + mset (sv_waiting s') + {#} \<subseteq># mset (handling (y_handlers (n_sys z) ! j)) + mset (sv_waiting (y_srv (n_sys z)))"
      using h by simp
    from sub_balance [OF this sum_update [OF sys_handler(3), of "\<lambda>pc. mset (handling pc)" pc]] show ?thesis
      using sys_handler(2) h st by (simp add: whereabouts_def z' ac_simps)
  next
    case (sys_main m s')
    then show ?thesis using main_step_client [OF sys_main(5)] by (simp add: whereabouts_def z')
  qed (use len in simp_all)
qed

definition one_place :: "'f net \<Rightarrow> bool" where
  "one_place z \<longleftrightarrow> finite (n_ready z) \<and> whereabouts z \<subseteq># mset_set (n_ready z)"

lemma one_place_step:
  assumes "sys_inv n (n_sys z)" and "allocator_law (ev_newbuf env)" and "one_place z" and "net_step env z f l z'"
  shows "one_place z'"
  using assms(4)
proof cases
  case (net_server y')
  then show ?thesis using server_whereabouts [OF assms(1,2) net_server(2,3,1)] assms(3)
    by (auto simp: one_place_def intro: subset_mset.order_trans)
next
  case (net_ready clint)
  have "whereabouts z' = add_mset clint (whereabouts z)"
    using net_ready by (simp add: whereabouts_def arrives_def TYPE_READY_def TYPE_WORK_def)
  then show ?thesis using net_ready assms(3) by (simp add: one_place_def)
next
  case (net_answer clint payload garbage data)
  have "mset (n_inbox z) = add_mset (clint, payload) (mset (n_inbox z) - {#(clint, payload)#})"
    using net_answer(4) by simp
  then have "image_mset fst (mset (n_inbox z)) = add_mset clint (image_mset fst (mset (n_inbox z) - {#(clint, payload)#}))"
    by (metis fst_conv image_mset_add_mset)
  then have "whereabouts z' = whereabouts z" by (simp add: whereabouts_def arrives_def net_answer(3))
  then show ?thesis using net_answer(3) assms(3) by (simp add: one_place_def)
next
  case (net_files clint msg data)
  then show ?thesis using assms(3)
    by (simp add: one_place_def whereabouts_def arrives_def TYPE_FILETRANSFER_def TYPE_WORK_def TYPE_READY_def)
next
  case (net_leave clint)
  then show ?thesis using assms(3) by (simp add: one_place_def whereabouts_def arrives_def)
qed

lemma sum_member:
  fixes g :: "'b \<Rightarrow> 'a multiset"
  assumes "x \<in> set xs"
  shows "g x \<subseteq># (\<Sum>y\<leftarrow>xs. g y)"
proof -
  obtain ys zs where "xs = ys @ x # zs" using assms by (meson split_list)
  then show ?thesis by (simp add: subset_mset.add_increasing)
qed

text \<open>A client that a worker serves is nowhere else.\<close>

lemma served_only:
  assumes one: "one_place z" and i: "i < length (y_workers (n_sys z))" and c: "serving (y_workers (n_sys z) ! i) = [c]"
  shows "(c, p) \<notin> set (n_inbox z)" and "h \<in> set (y_handlers (n_sys z)) \<Longrightarrow> c \<notin> set (handling h)"
    and "w \<in> set ((y_workers (n_sys z))[i := WDone]) \<Longrightarrow> c \<notin> set (serving w)"
proof -
  let ?ws = "y_workers (n_sys z)" and ?hs = "y_handlers (n_sys z)"
  have "count (whereabouts z) c \<le> count (mset_set (n_ready z)) c"
    using one unfolding one_place_def by (intro mset_subset_eq_count) blast
  also have "\<dots> \<le> 1" using one by (cases "c \<in> n_ready z") (auto simp: one_place_def count_mset_set)
  finally have "count (whereabouts z) c \<le> 1" .
  moreover have "(\<Sum>pc\<leftarrow>?ws. mset (serving pc)) = (\<Sum>pc\<leftarrow>?ws[i := WDone]. mset (serving pc)) + {#c#}"
    using sum_update [OF i, of "\<lambda>pc. mset (serving pc)" WDone] c by simp
  ultimately have z: "count (\<Sum>pc\<leftarrow>?ws[i := WDone]. mset (serving pc)) c = 0"
    "count (\<Sum>pc\<leftarrow>?hs. mset (handling pc)) c = 0" "count (mset (map fst (n_inbox z))) c = 0"
    by (simp_all add: whereabouts_def)
  show "(c, p) \<notin> set (n_inbox z)" using z(3) by (force simp: count_eq_zero_iff simp del: count_mset_0_iff)
  show "c \<notin> set (handling h)" if "h \<in> set ?hs"
    using mset_subset_eq_count [OF sum_member [OF that, of "\<lambda>pc. mset (handling pc)"], of c] z(2) by simp
  show "c \<notin> set (serving w)" if "w \<in> set (?ws[i := WDone])"
    using mset_subset_eq_count [OF sum_member [OF that, of "\<lambda>pc. mset (serving pc)"], of c] z(1) by simp
qed

section \<open>What an answer belongs to\<close>

definition computed :: "(u32 \<Rightarrow> u32) \<Rightarrow> byte list \<Rightarrow> byte list \<Rightarrow> bool" where
  "computed alg p data \<longleftrightarrow> (\<exists>garbage. length p \<le> length garbage \<and> process_work alg garbage p = Inr data)"

text \<open>If the client has an entry in the work map, the payload was sent for that work.\<close>

definition sent_for :: "'f server \<Rightarrow> client \<Rightarrow> byte list \<Rightarrow> bool" where
  "sent_for s c p \<longleftrightarrow> (\<forall>wi. map_of (sv_workMap s) c = Some wi \<longrightarrow> (wi, p) \<in> set (payloads s))"

fun worker_fits :: "'f server \<Rightarrow> worker_pc \<Rightarrow> bool" where
  "worker_fits s (WNewStamp c wi bs) = (map_of (sv_workMap s) c \<in> {None, Some wi})"
| "worker_fits s (WNewSend c wi bs) = (map_of (sv_workMap s) c \<in> {None, Some wi})"
| "worker_fits s pc = True"

fun handler_fits :: "(u32 \<Rightarrow> u32) \<Rightarrow> 'f server \<Rightarrow> handler_pc \<Rightarrow> bool" where
  "handler_fits alg s (HMsg c type msg data) =
     (type = TYPE_WORK \<and> msg = MSG_WORK_COMPLETE \<longrightarrow> (\<exists>p. computed alg p data \<and> sent_for s c p))"
| "handler_fits alg s (HTime c data) = (\<exists>p. computed alg p data \<and> sent_for s c p)"
| "handler_fits alg s (HTake c t data) = (\<exists>p. computed alg p data \<and> sent_for s c p)"
| "handler_fits alg s (HWrite c t wi data) = (\<exists>p. computed alg p data \<and> (wi, p) \<in> set (payloads s))"
| "handler_fits alg s pc = True"

definition net_fits :: "(u32 \<Rightarrow> u32) \<Rightarrow> 'f net \<Rightarrow> bool" where
  "net_fits alg z \<longleftrightarrow>
     (\<forall>pc \<in> set (y_workers (n_sys z)). worker_fits (y_srv (n_sys z)) pc)
     \<and> (\<forall>pc \<in> set (y_handlers (n_sys z)). handler_fits alg (y_srv (n_sys z)) pc)
     \<and> (\<forall>(c, p) \<in> set (n_inbox z). sent_for (y_srv (n_sys z)) c p)
     \<and> (\<forall>(wi, data) \<in> set (results (y_srv (n_sys z))). \<exists>p. computed alg p data \<and> (wi, p) \<in> set (payloads (y_srv (n_sys z))))"

text \<open>A step that changes only the entry of a client in \<open>C\<close>, if it does more than erase entries,
  and adds to the payloads.\<close>

definition others_keep :: "client set \<Rightarrow> 'f server \<Rightarrow> 'f server \<Rightarrow> bool" where
  "others_keep C s s' \<longleftrightarrow> set (payloads s) \<subseteq> set (payloads s')
     \<and> (\<forall>c. c \<notin> C \<longrightarrow> map_of (sv_workMap s') c \<in> {None, map_of (sv_workMap s) c})"

lemma others_keepD:
  assumes "others_keep C s s'"
  shows "x \<in> set (payloads s) \<Longrightarrow> x \<in> set (payloads s')"
    and "c \<notin> C \<Longrightarrow> map_of (sv_workMap s') c = None \<or> map_of (sv_workMap s') c = map_of (sv_workMap s) c"
  using assms by (auto simp: others_keep_def)

lemma sent_for_keep: "others_keep C s s' \<Longrightarrow> c \<notin> C \<Longrightarrow> sent_for s c p \<Longrightarrow> sent_for s' c p"
  unfolding sent_for_def by (metis others_keepD option.distinct(1))

lemma worker_fits_keep:
  assumes "others_keep C s s'" and "set (serving pc) \<inter> C = {}" and "worker_fits s pc"
  shows "worker_fits s' pc"
proof (cases pc)
  case (WNewStamp c wi bs)
  then show ?thesis using assms(2,3) others_keepD(2) [OF assms(1), of c] by auto
next
  case (WNewSend c wi bs)
  then show ?thesis using assms(2,3) others_keepD(2) [OF assms(1), of c] by auto
qed simp_all

lemma handler_fits_keep:
  assumes "others_keep C s s'" and "set (handling pc) \<inter> C = {}" and "handler_fits alg s pc"
  shows "handler_fits alg s' pc"
proof -
  note keep = sent_for_keep [OF assms(1)]
  show ?thesis
  proof (cases pc)
    case (HMsg c type msg data)
    then show ?thesis using assms(2,3) keep by (auto split: if_splits)
  next
    case (HTime c data)
    then show ?thesis using assms(2,3) keep by auto
  next
    case (HTake c t data)
    then show ?thesis using assms(2,3) keep by auto
  next
    case (HWrite c t wi data)
    then show ?thesis using assms(3) others_keepD(1) [OF assms(1)] by auto
  qed simp_all
qed

text \<open>The steps keep, and what a thread itself has fits afterwards.\<close>

lemma map_of_Change: "map_of (ClientWorkMap_Change c wi m) = (map_of m)(c \<mapsto> wi)"
  by (auto simp: ClientWorkMap_Change_def ClientWorkMap_Add_def map_of_assign_entry WorkInfo_def split: option.split)

lemma complete_take_map:
  "complete_take c s = (w, s1) \<Longrightarrow>
    w = map_of (sv_workMap s) c \<and> map_of (sv_workMap s1) = (map_of (sv_workMap s))(c := None)"
  by (auto simp: complete_take_def ClientWorkMap_GetClientWork_def map_of_erase_entry fun_eq_iff split: option.splits prod.splits)

fun assigns :: "worker_pc \<Rightarrow> client set" where
  "assigns (WNewMap c wi bs) = {c}"
| "assigns (WOldMap c wi bs) = {c}"
| "assigns pc = {}"

lemma worker_step_keeps:
  assumes "worker_step env now sent pc s = Inr (pc', s')"
  shows "others_keep (assigns pc) s s'"
  using assms worker_step_record(1) [OF assms]
  by (cases pc) (auto simp: others_keep_def Let_def Server_OnCompletion_def log_event_def ClientWorkMap_Remove_def map_of_erase_entry map_of_Change
      elim!: rbind_InrE dest!: stamp_client_Inr split: prod.splits if_splits)

lemma handler_step_keeps:
  assumes step: "handler_step env now pc s = Inr (pc', s')"
  shows "others_keep {} s s'"
  using step handler_step_record(1) [OF step]
  by (cases pc) (auto simp: others_keep_def Let_def add_ready_def log_event_def
      elim!: rbind_InrE dest!: complete_take_map split: prod.splits if_splits)

lemma worker_own_fits:
  assumes "worker_step env now sent pc s = Inr (pc', s')" and "\<not> redoing pc" and "worker_fits s pc"
  shows "worker_fits s' pc'" and "(c, p) \<in> set (sent_since s s') \<Longrightarrow> sent_for s' c p"
  using assms
  by (cases pc; auto simp: Let_def map_of_Change sent_for_def sent_since_def log_event_def payloads_def
      Server_OnCompletion_def elim!: rbind_InrE dest!: stamp_client_Inr split: prod.splits if_splits option.splits)+

lemma handler_own_fits:
  assumes step: "handler_step env now pc s = Inr (pc', s')" and fits: "handler_fits alg s pc"
  shows "handler_fits alg s' pc'"
proof (cases pc)
  case (HMsg c type msg data)
  then show ?thesis using assms by (auto simp: dispatch_def split: if_splits)
next
  case (HTime c data)
  then show ?thesis using assms by (auto simp: Let_def split: if_splits)
next
  case (HTake c t data)
  obtain w s1 where t: "complete_take c s = (w, s1)" by fastforce
  have "payloads s1 = payloads s" using complete_take_frame [OF t] by auto
  then show ?thesis using assms HTake t complete_take_map [OF t] by (auto simp: sent_for_def split: option.splits)
qed (use assms in \<open>auto simp: Let_def elim!: rbind_InrE split: prod.splits option.splits if_splits\<close>)

lemma net_fits_keep:
  assumes "net_fits alg z" and "others_keep C (y_srv (n_sys z)) s'"
  shows "pc \<in> set (y_workers (n_sys z)) \<Longrightarrow> set (serving pc) \<inter> C = {} \<Longrightarrow> worker_fits s' pc"
    and "h \<in> set (y_handlers (n_sys z)) \<Longrightarrow> set (handling h) \<inter> C = {} \<Longrightarrow> handler_fits alg s' h"
    and "(c, p) \<in> set (n_inbox z) \<Longrightarrow> c \<notin> C \<Longrightarrow> sent_for s' c p"
    and "(wi, data) \<in> set (results (y_srv (n_sys z))) \<Longrightarrow> \<exists>p. computed alg p data \<and> (wi, p) \<in> set (payloads s')"
  using assms(1) worker_fits_keep [OF assms(2)] handler_fits_keep [OF assms(2)] sent_for_keep [OF assms(2)]
    others_keepD(1) [OF assms(2)]
  unfolding net_fits_def by blast+

lemma net_fits_worker:
  assumes one: "one_place z" and fits: "net_fits alg z" and i: "i < length (y_workers (n_sys z))"
    and step: "worker_step env now sent (y_workers (n_sys z) ! i) (y_srv (n_sys z)) = Inr (pc', s')"
    and nr: "\<not> redoing (y_workers (n_sys z) ! i)"
  shows "net_fits alg (z\<lparr>n_sys := (n_sys z)\<lparr>y_srv := s', y_workers := (y_workers (n_sys z))[i := pc']\<rparr>,
    n_inbox := n_inbox z @ sent_since (y_srv (n_sys z)) s'\<rparr>)"
proof -
  let ?ws = "y_workers (n_sys z)" and ?s = "y_srv (n_sys z)"
  let ?C = "assigns (?ws ! i)"
  note keep = net_fits_keep [OF fits worker_step_keeps [OF step]]
  have only: "c \<in> ?C \<Longrightarrow> serving (?ws ! i) = [c]" for c using nr by (cases "?ws ! i") auto
  have own: "worker_fits ?s (?ws ! i)" using fits i by (simp add: net_fits_def)
  have "worker_fits s' pc" if "pc \<in> set (?ws[i := pc'])" for pc
  proof -
    have "pc = pc' \<or> pc \<in> set (?ws[i := WDone]) \<and> pc \<in> set ?ws"
      using that i by (auto simp: in_set_conv_nth nth_list_update split: if_splits)
    then show ?thesis
      using worker_own_fits(1) [OF step nr own] keep(1) [of pc] served_only(3) [OF one i only] by auto
  qed
  moreover have "handler_fits alg s' h" if "h \<in> set (y_handlers (n_sys z))" for h
    using keep(2) [OF that] served_only(2) [OF one i only that] by auto
  moreover have "sent_for s' c p" if "(c, p) \<in> set (n_inbox z @ sent_since ?s s')" for c p
    using that keep(3) [of c p] served_only(1) [OF one i only] worker_own_fits(2) [OF step nr own] by auto
  moreover have "results s' = results ?s" by (rule worker_step_record(2) [OF step])
  ultimately show ?thesis using keep(4) unfolding net_fits_def by auto
qed

lemma net_fits_handler:
  assumes fits: "net_fits alg z" and j: "j < length (y_handlers (n_sys z))"
    and step: "handler_step env now (y_handlers (n_sys z) ! j) (y_srv (n_sys z)) = Inr (pc', s')"
    and ib: "ib = n_inbox z"
  shows "net_fits alg (z\<lparr>n_sys := (n_sys z)\<lparr>y_srv := s',
    y_workers := start_threads (y_srv (n_sys z)) s' (y_workers (n_sys z)), y_handlers := (y_handlers (n_sys z))[j := pc']\<rparr>,
    n_inbox := ib\<rparr>)"
proof -
  let ?h = "y_handlers (n_sys z) ! j"
  note keep = net_fits_keep [OF fits handler_step_keeps [OF step]]
  note r = handler_step_record [OF step]
  have own: "handler_fits alg (y_srv (n_sys z)) ?h" using fits j by (simp add: net_fits_def)
  have "worker_fits s' pc" if "pc \<in> set (start_threads (y_srv (n_sys z)) s' (y_workers (n_sys z)))" for pc
    using start_threads_pc [OF that] keep(1) by auto
  moreover have "handler_fits alg s' h" if "h \<in> set ((y_handlers (n_sys z))[j := pc'])" for h
    using set_update_pc [OF that] keep(2) handler_own_fits [OF step own] by auto
  moreover have "\<exists>p. computed alg p data \<and> (wi, p) \<in> set (payloads s')" if "(wi, data) \<in> set (results s')" for wi data
    using that r(1,5) keep(4) own by (cases ?h) auto
  ultimately show ?thesis using keep(3) unfolding net_fits_def ib by auto
qed

lemma net_fits_step:
  assumes inv: "sys_inv n (n_sys z)" and nb: "allocator_law (ev_newbuf env)" and one: "one_place z"
    and fits: "net_fits (ev_alg env) z" and nr: "\<not> redone (n_sys z)" and step: "net_step env z f l z'"
  shows "net_fits (ev_alg env) z'"
  using step
proof cases
  case (net_server y')
  have sv: "sv_inv (y_srv (n_sys z))" using inv by (simp add: sys_inv_def)
  show ?thesis using net_server(2)
  proof (cases rule: sys_step.cases)
    case (sys_worker i now sent pc s')
    have "\<not> redoing (y_workers (n_sys z) ! i)" using nr sys_worker(2) by (auto simp: redone_def)
    from net_fits_worker [OF one fits sys_worker(2,4) this] show ?thesis using net_server(1) sys_worker(1) by simp
  next
    case (sys_handler j now pc s')
    have "sent_since (y_srv (n_sys z)) s' = []" using handler_step_client [OF sv nb sys_handler(5)] by blast
    from net_fits_handler [OF fits sys_handler(3,5), of "n_inbox z @ sent_since (y_srv (n_sys z)) s'"] this
    show ?thesis using net_server(1) sys_handler(2) by simp
  next
    case (sys_main m s')
    have "others_keep {} (y_srv (n_sys z)) s'"
      using main_step_record(1) [OF sys_main(5)] sys_main(5)
      by (cases "y_main (n_sys z)") (auto simp: others_keep_def log_event_def elim!: rbind_InrE split: if_splits)
    from net_fits_keep [OF fits this] show ?thesis
      using main_step_client [OF sys_main(5)] main_step_record(2) [OF sys_main(5)] net_server(1) sys_main(3)
      by (auto simp: net_fits_def)
  qed (use net_server(3) in simp_all)
next
  case (net_ready clint)
  have "handler_fits (ev_alg env) (y_srv (n_sys z)) (HMsg clint TYPE_READY MSG_READY_INIT [])"
    by (simp add: TYPE_READY_def TYPE_WORK_def)
  then show ?thesis using fits by (simp add: net_ready(3) net_fits_def arrives_def del: handler_fits.simps)
next
  case (net_answer clint payload garbage data)
  have "computed (ev_alg env) payload data" using net_answer(5,6) unfolding computed_def by blast
  moreover have "sent_for (y_srv (n_sys z)) clint payload" using fits net_answer(4) by (auto simp: net_fits_def)
  ultimately have "handler_fits (ev_alg env) (y_srv (n_sys z)) (HMsg clint TYPE_WORK MSG_WORK_COMPLETE data)" by auto
  then show ?thesis using fits set_remove1_subset [of "(clint, payload)" "n_inbox z"]
    by (simp add: net_answer(3) net_fits_def arrives_def del: handler_fits.simps) blast
next
  case (net_files clint msg data)
  have "handler_fits (ev_alg env) (y_srv (n_sys z)) (HMsg clint TYPE_FILETRANSFER msg data)"
    by (simp add: TYPE_FILETRANSFER_def TYPE_WORK_def)
  then show ?thesis using fits by (simp add: net_files(3) net_fits_def arrives_def del: handler_fits.simps)
next
  case (net_leave clint)
  then show ?thesis using fits by (simp add: net_fits_def arrives_def)
qed

section \<open>The job\<close>

lemma net_run_inv:
  assumes nb: "allocator_law (ev_newbuf env)" and base: "0 < base" and n: "n < 2 ^ 32"
    and init: "Server_init env mem wmem base mx n f dir fileList opened contents = Inr s0"
    and run: "net_run env (net_of s0) fetched lost z"
  shows "one_place z \<and> (\<not> redone (n_sys z) \<longrightarrow> net_fits (ev_alg env) z)"
  using run
proof (induction rule: net_run.induct)
  case net_refl
  have "sv_trace s0 = []" using init by (auto simp: Server_init_def Let_def elim!: rbind_InrE)
  moreover obtain s where "Server_init env mem wmem base mx n f dir fileList opened contents = Inr s" "sv_waiting s = []"
    by (rule Server_init_spec [OF base])
  ultimately show ?case using init
    by (simp add: one_place_def whereabouts_def net_fits_def net_of_def sys_of_def results_def)
next
  case (net_next f l z f1 l1 z')
  have sys: "sys_inv n (n_sys z)"
    using reachable_inv [OF base nb n init] net_run_sys [OF net_next(1)] by (simp add: net_of_def)
  have "\<not> redone (n_sys z)" if "\<not> redone (n_sys z')"
    using sys_step_mono [OF sys net_step_sys [OF net_next(2)]] that by blast
  then show ?case
    using one_place_step [OF sys nb _ net_next(2)] net_fits_step [OF sys nb _ _ _ net_next(2)] net_next.IH by blast
qed


text \<open>Client 7 signals, gets the only chunk of a file of two integers, and answers.\<close>

lemma trace_step:
  assumes "sys_step env y f l y'"
  shows "\<exists>es. sv_trace (y_srv y') = sv_trace (y_srv y) @ es"
  using assms
proof (cases rule: sys_step.cases)
  case (sys_worker i now sent pc s')
  then show ?thesis
    by (cases "y_workers y ! i") (auto simp: Let_def Server_OnCompletion_def log_event_def elim!: rbind_InrE
        dest!: stamp_client_Inr split: prod.splits if_splits)
next
  case (sys_handler j now pc s')
  then show ?thesis
    by (cases "y_handlers y ! j") (auto simp: Let_def add_ready_def log_event_def elim!: rbind_InrE
        dest!: complete_take_frame split: prod.splits if_splits)
next
  case (sys_main m s')
  then show ?thesis by (cases "y_main y") (auto simp: log_event_def elim!: rbind_InrE split: if_splits)
qed simp_all

lemma trace_run: "sys_run env y f l y' \<Longrightarrow> \<exists>es. sv_trace (y_srv y') = sv_trace (y_srv y) @ es"
proof (induction rule: sys_run.induct)
  case (run_step f l y1 f1 l1 y2)
  then show ?case using trace_step [OF run_step(2)] by auto
qed simp

lemma handlers_grow: "sys_step env y f l y' \<Longrightarrow> length (y_handlers y) \<le> length (y_handlers y')"
  by (cases rule: sys_step.cases) auto

lemma net_lift:
  assumes "sys_run env (n_sys z) f l y" and "net_run env z0 f0 l0 z"
  shows "length (y_handlers (n_sys z)) \<le> length (y_handlers y)
    \<and> (length (y_handlers y) = length (y_handlers (n_sys z)) \<longrightarrow>
      net_run env z0 (f0 @ f) (l0 @ l)
        (z\<lparr>n_sys := y, n_inbox := n_inbox z @ sent_since (y_srv (n_sys z)) (y_srv y)\<rparr>))"
  using assms(1)
proof (induction rule: sys_run.induct)
  case run_refl
  then show ?case using assms(2) by (simp add: sent_since_same)
next
  case (run_step f l y1 f1 l1 y2)
  note g = handlers_grow [OF run_step(2)]
  let ?s = "y_srv (n_sys z)"
  obtain es fs where es: "sv_trace (y_srv y1) = sv_trace ?s @ es" "sv_trace (y_srv y2) = sv_trace (y_srv y1) @ fs"
    using trace_run [OF run_step(1)] trace_step [OF run_step(2)] by blast
  then have s: "sent_since ?s (y_srv y2) = sent_since ?s (y_srv y1) @ sent_since (y_srv y1) (y_srv y2)"
    by (simp add: sent_since_def)
  have "net_run env z0 (f0 @ f @ f1) (l0 @ l @ l1) (z\<lparr>n_sys := y2, n_inbox := n_inbox z @ sent_since ?s (y_srv y2)\<rparr>)"
    if len: "length (y_handlers y2) = length (y_handlers (n_sys z))"
  proof -
    let ?z = "z\<lparr>n_sys := y1, n_inbox := n_inbox z @ sent_since ?s (y_srv y1)\<rparr>"
    have "net_run env z0 (f0 @ f) (l0 @ l) ?z" using run_step.IH g len by auto
    moreover have "net_step env ?z f1 l1 (?z\<lparr>n_sys := y2, n_inbox := n_inbox ?z @ sent_since (y_srv y1) (y_srv y2)\<rparr>)"
      using net_server [of env ?z f1 l1 y2] run_step(2) run_step.IH g len by simp
    ultimately show ?thesis using net_next by (fastforce simp: s)
  qed
  then show ?case using run_step.IH g by auto
qed

lemma net_lifted:
  "net_run env z0 f0 l0 z \<Longrightarrow> sys_run env (n_sys z) f l y \<Longrightarrow> length (y_handlers y) = length (y_handlers (n_sys z)) \<Longrightarrow>
    net_run env z0 (f0 @ f) (l0 @ l) (z\<lparr>n_sys := y, n_inbox := n_inbox z @ sent_since (y_srv (n_sys z)) (y_srv y)\<rparr>)"
  using net_lift by blast

lemma race_process: "process_work (ev_alg sample_env) (replicate 8 0) [1,0,0,0,2,0,0,0] = Inr [1,0,0,0,2,0,0,0]"
proof -
  let ?data = "[1,0,0,0,2,0,0,0] :: byte list"
  have dv: "(4 :: nat) dvd 8" by presburger
  have id: "map_words (\<lambda>w. w) ?data = ?data" by code_simp
  have len: "length ?data = 8" by simp
  have "process_work (ev_alg sample_env) (replicate 8 0) ?data = Inr (map_words (ev_alg sample_env) ?data)"
    by (rule process_work_eq) (use dv in \<open>simp_all only: len length_replicate\<close>, simp)
  moreover have "ev_alg sample_env = (\<lambda>w. w)" by (simp add: sample_env_def)
  ultimately show ?thesis by (simp only: id)
qed

lemma net_answeredE:
  obtains s0 f z where "race_init = Inr s0" and "net_run sample_env (net_of s0) f [] z"
    and "\<not> redone (n_sys z)" and "completions (y_srv (n_sys z)) = 0"
    and "results (y_srv (n_sys z)) = [(race_work, [1,0,0,0,2,0,0,0])]" and "places (n_sys z) = {#race_work#}"
proof -
  let ?data = "[1,0,0,0,2,0,0,0] :: byte list"
  let ?init = "HMsg 7 TYPE_READY MSG_READY_INIT []" and ?done = "HMsg 7 TYPE_WORK MSG_WORK_COMPLETE ?data"
  obtain s0 s f where s: "race_init = Inr s0"
    "sys_run sample_env ((sys_of s0)\<lparr>y_handlers := [?init]\<rparr>) f [] (one_worker s WCheck [HDone])"
    "sv_inv s" "stamped 7 s" "sv_waiting s = []" "sv_old s = []" "sv_data s = race_data 1"
    "sv_workMap s = [(7, race_work)]" "sv_reorderCounter s = 0" "sv_threadInitialized s"
    "\<not> sv_exitThread s" "length (sv_threadPool s) = 1" "fi_indices (sv_tempFileMap s) = []"
    "GetWritePos (sv_tempFileMap s) = 0" "sv_tempFileMap s = sv_tempFileMap s0"
    "sv_trace s = [SentNew 7 race_work TYPE_WORK MSG_WORK_NEW ?data True]"
    by (rule given_stateE)
  have tr0: "sv_trace s0 = []" using s(1) by (auto simp: race_init_def Server_init_def Let_def elim!: rbind_InrE)
  obtain time fm where h: "handler_seq sample_env 6 4 ?done s
    = Inr (HEval 7 time, log_event (Wrote race_work ?data) (s\<lparr>sv_workMap := [], sv_tempFileMap := fm\<rparr>), [])"
    by (rule answer_seqE [OF s(8,4,13)]) (simp_all add: s(15) race_start [OF s(1)])
  let ?s1 = "log_event (Wrote race_work ?data) (s\<lparr>sv_workMap := [], sv_tempFileMap := fm\<rparr>)"
  let ?z1 = "\<lparr>n_sys = (sys_of s0)\<lparr>y_handlers := [?init]\<rparr>, n_ready = {7}, n_inbox = []\<rparr>"
  have z1: "net_run sample_env (net_of s0) [] [] ?z1"
    using net_next [OF net_refl net_ready [of 7 "net_of s0" sample_env]] by (simp add: net_of_def arrives_def sys_of_def)
  let ?z2 = "?z1\<lparr>n_sys := one_worker s WCheck [HDone], n_inbox := [(7, ?data)]\<rparr>"
  have "sent_since s0 s = [(7, ?data)]" by (simp add: sent_since_def tr0 s(16))
  then have z2: "net_run sample_env (net_of s0) f [] ?z2"
    using net_lifted [OF z1, of f "[]" "one_worker s WCheck [HDone]"] s(2) by (simp add: sys_of_def)
  let ?z3 = "?z2\<lparr>n_sys := one_worker s WCheck ([HDone] @ [?done]), n_inbox := []\<rparr>"
  have "net_step sample_env ?z2 [] [] ?z3"
    using net_answer [of 7 ?data ?z2 "replicate 8 0" sample_env ?data] race_process by (simp add: arrives_def one_worker_def)
  from net_next [OF z2 this] have z3: "net_run sample_env (net_of s0) f [] ?z3" by simp
  let ?y = "one_worker ?s1 WCheck [HDone, HEval 7 time]"
  have "sys_run sample_env (n_sys ?z3) [] [] ?y"
    using conjunct1 [OF handler_seq_run [OF h, of 1 "n_sys ?z3"]] s(10) by (simp add: one_worker_def start_threads_def)
  from net_lifted [OF z3 this] have run: "net_run sample_env (net_of s0) f [] (?z3\<lparr>n_sys := ?y,
      n_inbox := sent_since s ?s1\<rparr>)" by simp
  show thesis
  proof (rule that [OF s(1) run])
    show "places (n_sys (?z3\<lparr>n_sys := ?y, n_inbox := sent_since s ?s1\<rparr>)) = {#race_work#}"
      using s(6) by (simp add: places_def settled_def outstanding_def mapped_def sv_old_def written_work_def log_event_def s(16))
  qed (simp_all add: redone_def resent_def completions_def results_def log_event_def s(16))
qed


end
