(* ===== verification/CmdParser.thy ===== *)
theory CmdParser
  imports Codec
begin

text \<open>
  The command line parser (\<open>Common/CmdParser.cpp\<close>): it cuts a line in place, by writing
  terminators over the blanks and equal signs, and keeps pointers into it.

  A buffer is a list of 16-bit characters, a \<open>TCHAR*\<close> into it an index, a null pointer
  \<open>None\<close>; the loop reads up to the end of the buffer and faults beyond it.
\<close>

section \<open>Characters\<close>

definition tx :: "string \<Rightarrow> wstring" where
  "tx s = map of_char s"

definition NUL :: u16 where "NUL = 0"
definition SPACE :: u16 where "SPACE = 32"
definition DASH :: u16 where "DASH = 45"
definition EQUALS :: u16 where "EQUALS = 61"

lemmas char_defs = NUL_def SPACE_def DASH_def EQUALS_def

lemma chars_distinct [simp]:
  "NUL \<noteq> SPACE" "NUL \<noteq> DASH" "NUL \<noteq> EQUALS" "SPACE \<noteq> NUL" "SPACE \<noteq> DASH" "SPACE \<noteq> EQUALS"
  "DASH \<noteq> NUL" "DASH \<noteq> SPACE" "DASH \<noteq> EQUALS" "EQUALS \<noteq> NUL" "EQUALS \<noteq> SPACE" "EQUALS \<noteq> DASH"
  by (simp_all add: char_defs)

text \<open>The string a pointer is at.\<close>

definition cstr :: "wstring \<Rightarrow> nat \<Rightarrow> wstring" where
  "cstr buf p = takeWhile (\<lambda>c. c \<noteq> NUL) (drop p buf)"

section \<open>State and operations\<close>

record param_data =
  pd_param :: "nat option"
  pd_data :: "nat option"

definition ParamData :: "nat option \<Rightarrow> nat option \<Rightarrow> param_data" where
  "ParamData param data = \<lparr>pd_param = param, pd_data = data\<rparr>"

record cmd_parser =
  cp_cmd :: "nat option"
  cp_args :: "param_data list"

definition CmdParser_init :: cmd_parser where
  "CmdParser_init = \<lparr>cp_cmd = None, cp_args = []\<rparr>"

definition set_back_data :: "nat \<Rightarrow> param_data list \<Rightarrow> param_data list" where
  "set_back_data d args = butlast args @ [(last args)\<lparr>pd_data := Some d\<rparr>]"

text \<open>The loop: \<open>c\<close> is its pointer, \<open>str\<close> the argument of \<open>ParseCmd\<close>.\<close>

function parse_loop :: "nat \<Rightarrow> nat \<Rightarrow> wstring \<Rightarrow> cmd_parser \<Rightarrow> (bool \<times> wstring \<times> cmd_parser) res" where
  "parse_loop str c buf cp =
     (if length buf \<le> c then Inl OutOfBounds
      else if buf ! c = NUL then Inr (True, buf, cp)
      else if cp_cmd cp \<noteq> None \<and> buf ! c = DASH
      then parse_loop str (c + 2) buf (cp\<lparr>cp_args := cp_args cp @ [ParamData (Some (c + 1)) None]\<rparr>)
      else if cp_cmd cp \<noteq> None then
        (if buf ! c = SPACE then parse_loop str (c + 1) (buf[c := NUL]) cp
         else if buf ! c = EQUALS then
           (if cp_args cp = [] then Inr (False, buf[c := NUL], cp)
            else parse_loop str (c + 1) (buf[c := NUL]) (cp\<lparr>cp_args := set_back_data (c + 1) (cp_args cp)\<rparr>))
         else parse_loop str (c + 1) buf cp)
      else if buf ! c = SPACE then parse_loop str (c + 1) (buf[c := NUL]) (cp\<lparr>cp_cmd := Some str\<rparr>)
      else parse_loop str (c + 1) buf cp)"
  by pat_completeness auto
termination
  by (relation "measure (\<lambda>(str, c, buf, cp). length buf - c)") auto

declare parse_loop.simps [simp del]

definition CmdParser_ParseCmd :: "nat \<Rightarrow> wstring \<Rightarrow> cmd_parser \<Rightarrow> (bool \<times> wstring \<times> cmd_parser) res" where
  "CmdParser_ParseCmd str buf cp =
     rbind (parse_loop str str buf (cp\<lparr>cp_cmd := None, cp_args := []\<rparr>)) (\<lambda>(ok, buf1, cp1).
       if \<not> ok then Inr (False, buf1, cp1)
       else Inr (True, buf1, if cp_args cp1 = [] then cp1\<lparr>cp_cmd := Some str\<rparr> else cp1))"

definition CmdParser_GetCmd :: "cmd_parser \<Rightarrow> nat option" where
  "CmdParser_GetCmd cp = cp_cmd cp"

definition CmdParser_GetArgs :: "cmd_parser \<Rightarrow> param_data list" where
  "CmdParser_GetArgs cp = cp_args cp"

definition CmdParser_ParamCount :: "cmd_parser \<Rightarrow> nat" where
  "CmdParser_ParamCount cp = length (cp_args cp)"

text \<open>\<open>_tcscmp\<close> of a pointer with a string.\<close>

definition tcscmp_eq :: "wstring \<Rightarrow> nat option \<Rightarrow> wstring \<Rightarrow> bool res" where
  "tcscmp_eq buf p s = (case p of None \<Rightarrow> Inl NullDeref | Some i \<Rightarrow> Inr (cstr buf i = s))"

fun isset_loop :: "wstring \<Rightarrow> wstring \<Rightarrow> param_data list \<Rightarrow> bool res" where
  "isset_loop buf argv [] = Inr False"
| "isset_loop buf argv (it # its) =
     rbind (tcscmp_eq buf (pd_param it) argv) (\<lambda>eq. if eq then Inr True else isset_loop buf argv its)"

definition CmdParser_IsSet :: "wstring \<Rightarrow> wstring \<Rightarrow> cmd_parser \<Rightarrow> bool res" where
  "CmdParser_IsSet buf argv cp = isset_loop buf argv (cp_args cp)"

definition CmdParser_CmdComp :: "wstring \<Rightarrow> wstring \<Rightarrow> cmd_parser \<Rightarrow> bool res" where
  "CmdParser_CmdComp buf str cp = tcscmp_eq buf (cp_cmd cp) str"

section \<open>One character at a time\<close>

lemma parse_end: "c < length buf \<Longrightarrow> buf ! c = NUL \<Longrightarrow> parse_loop str c buf cp = Inr (True, buf, cp)"
  by (subst parse_loop.simps) simp

lemma parse_nul: "parse_loop str (length a) (a @ NUL # b) cp = Inr (True, a @ NUL # b, cp)"
  by (rule parse_end) simp_all

lemma parse_past: "length buf \<le> c \<Longrightarrow> parse_loop str c buf cp = Inl OutOfBounds"
  by (subst parse_loop.simps) simp

text \<open>Characters that mean nothing.\<close>

definition plain :: "wstring \<Rightarrow> bool" where
  "plain w \<longleftrightarrow> list_all (\<lambda>x. x \<noteq> NUL \<and> x \<noteq> SPACE \<and> x \<noteq> DASH \<and> x \<noteq> EQUALS) w"

lemma plain_nil [simp]: "plain []"
  by (simp add: plain_def)

lemma plain_cstr: "plain w \<Longrightarrow> cstr (a @ w @ NUL # b) (length a) = w"
  by (simp add: cstr_def plain_def list_all_iff takeWhile_append)

lemma parse_plain:
  "plain w \<Longrightarrow> parse_loop str (length a) (a @ w @ b) cp = parse_loop str (length a + length w) (a @ w @ b) cp"
proof (induction w arbitrary: a)
  case (Cons x w)
  have "parse_loop str (length a) (a @ (x # w) @ b) cp = parse_loop str (length a + 1) (a @ (x # w) @ b) cp"
    using Cons.prems by (subst parse_loop.simps) (simp add: plain_def)
  also have "\<dots> = parse_loop str (length a + length (x # w)) (a @ (x # w) @ b) cp"
    using Cons.IH [of "a @ [x]"] Cons.prems by (simp add: plain_def)
  finally show ?case .
qed simp

lemma parse_space:
  assumes "cp_cmd cp \<noteq> None"
  shows "parse_loop str (length a) (a @ SPACE # b) cp = parse_loop str (length (a @ [NUL])) ((a @ [NUL]) @ b) cp"
  using assms by (subst parse_loop.simps) simp

lemma parse_first_space:
  assumes "cp_cmd cp = None"
  shows "parse_loop str (length a) (a @ SPACE # b) cp
    = parse_loop str (length (a @ [NUL])) ((a @ [NUL]) @ b) (cp\<lparr>cp_cmd := Some str\<rparr>)"
  using assms by (subst parse_loop.simps) simp

lemma parse_dash:
  assumes "cp_cmd cp \<noteq> None"
  shows "parse_loop str (length a) (a @ DASH # x # b) cp = parse_loop str (length (a @ [DASH, x])) ((a @ [DASH, x]) @ b)
    (cp\<lparr>cp_args := cp_args cp @ [ParamData (Some (length a + 1)) None]\<rparr>)"
  using assms by (subst parse_loop.simps) simp

lemma parse_equals:
  assumes "cp_cmd cp \<noteq> None" and "cp_args cp \<noteq> []"
  shows "parse_loop str (length a) (a @ EQUALS # b) cp = parse_loop str (length (a @ [NUL])) ((a @ [NUL]) @ b)
    (cp\<lparr>cp_args := set_back_data (length a + 1) (cp_args cp)\<rparr>)"
  using assms by (subst parse_loop.simps) simp

lemma parse_equals_first:
  assumes "cp_cmd cp \<noteq> None" and "cp_args cp = []"
  shows "parse_loop str (length a) (a @ EQUALS # b) cp = Inr (False, (a @ [NUL]) @ b, cp)"
  using assms by (subst parse_loop.simps) simp

section \<open>A line of a command and its parameters\<close>

text \<open>The text of a parameter, what the parser leaves of it, and the pointers it keeps.\<close>

definition param_text :: "wstring \<times> wstring \<Rightarrow> wstring" where
  "param_text a = SPACE # DASH # fst a @ EQUALS # snd a"

definition param_cut :: "wstring \<times> wstring \<Rightarrow> wstring" where
  "param_cut a = NUL # DASH # fst a @ NUL # snd a"

definition param_ptr :: "nat \<Rightarrow> wstring \<times> wstring \<Rightarrow> param_data" where
  "param_ptr p a = ParamData (Some (p + 2)) (Some (p + 3 + length (fst a)))"

fun ptrs :: "nat \<Rightarrow> (wstring \<times> wstring) list \<Rightarrow> param_data list" where
  "ptrs p [] = []"
| "ptrs p (a # as) = param_ptr p a # ptrs (p + length (param_cut a)) as"

definition good_param :: "wstring \<times> wstring \<Rightarrow> bool" where
  "good_param a \<longleftrightarrow> fst a \<noteq> [] \<and> plain (fst a) \<and> plain (snd a)"

lemma parse_param:
  assumes good: "good_param a" and cmd: "cp_cmd cp \<noteq> None"
  shows "parse_loop str (length pre) (pre @ param_text a @ b) cp
    = parse_loop str (length (pre @ param_cut a)) ((pre @ param_cut a) @ b)
        (cp\<lparr>cp_args := cp_args cp @ [param_ptr (length pre) a]\<rparr>)"
proof -
  obtain n d where a: "a = (n, d)" by (cases a)
  obtain x n' where n: "n = x # n'" using good by (cases n) (auto simp: good_param_def a)
  have pl: "plain n'" "plain d" using good by (auto simp: good_param_def a n plain_def)
  let ?cp1 = "cp\<lparr>cp_args := cp_args cp @ [ParamData (Some (length pre + 2)) None]\<rparr>"
  let ?p1 = "pre @ [NUL]" and ?p2 = "pre @ [NUL, DASH, x]"
  have "parse_loop str (length pre) (pre @ param_text a @ b) cp
      = parse_loop str (length ?p1) (?p1 @ DASH # x # n' @ EQUALS # d @ b) cp"
    using parse_space [OF cmd, of str pre "DASH # x # n' @ EQUALS # d @ b"] by (simp add: param_text_def a n)
  also have "\<dots> = parse_loop str (length ?p2) (?p2 @ n' @ EQUALS # d @ b) ?cp1"
    using parse_dash [OF cmd, of str ?p1 x "n' @ EQUALS # d @ b"] by simp
  also have "\<dots> = parse_loop str (length (?p2 @ n')) ((?p2 @ n') @ EQUALS # d @ b) ?cp1"
    using parse_plain [OF pl(1), of str ?p2 "EQUALS # d @ b" ?cp1] by simp
  also have "\<dots> = parse_loop str (length (?p2 @ n' @ [NUL])) ((?p2 @ n' @ [NUL]) @ d @ b)
      (cp\<lparr>cp_args := cp_args cp @ [param_ptr (length pre) a]\<rparr>)"
    using parse_equals [of ?cp1 str "?p2 @ n'" "d @ b"] cmd
    by (simp add: set_back_data_def param_ptr_def ParamData_def a n eval_nat_numeral)
  also have "\<dots> = parse_loop str (length (pre @ param_cut a)) ((pre @ param_cut a) @ b)
      (cp\<lparr>cp_args := cp_args cp @ [param_ptr (length pre) a]\<rparr>)"
    using parse_plain [OF pl(2), of str "?p2 @ n' @ [NUL]" b] by (simp add: param_cut_def a n add.assoc)
  finally show ?thesis .
qed

lemma parse_params:
  assumes "list_all good_param as" and "cp_cmd cp \<noteq> None"
  shows "parse_loop str (length pre) (pre @ concat (map param_text as) @ NUL # b) cp
    = Inr (True, pre @ concat (map param_cut as) @ NUL # b, cp\<lparr>cp_args := cp_args cp @ ptrs (length pre) as\<rparr>)"
  using assms
proof (induction as arbitrary: pre cp)
  case Nil
  then show ?case using parse_end [of "length pre" "pre @ NUL # b"] by simp
next
  case (Cons a as)
  then show ?case
    using parse_param [of a cp str pre "concat (map param_text as) @ NUL # b"]
      Cons.IH [of "cp\<lparr>cp_args := cp_args cp @ [param_ptr (length pre) a]\<rparr>" "pre @ param_cut a"]
    by simp
qed

definition arg_strings :: "wstring \<Rightarrow> param_data list \<Rightarrow> (wstring option \<times> wstring option) list" where
  "arg_strings buf args = map (\<lambda>a. (map_option (cstr buf) (pd_param a), map_option (cstr buf) (pd_data a))) args"

lemma arg_strings_ptrs:
  assumes "list_all good_param as"
  shows "arg_strings (pre @ concat (map param_cut as) @ NUL # b) (ptrs (length pre) as)
    = map (\<lambda>(n, d). (Some n, Some d)) as"
  using assms
proof (induction as arbitrary: pre)
  case (Cons a as)
  obtain n d where a: "a = (n, d)" by (cases a)
  have pl: "plain n" "plain d" using Cons.prems by (simp_all add: good_param_def a)
  obtain b' where b': "concat (map param_cut as) @ NUL # b = NUL # b'"
    by (cases as) (simp_all add: param_cut_def)
  have "cstr ((pre @ [NUL, DASH]) @ n @ NUL # d @ NUL # b') (length (pre @ [NUL, DASH])) = n"
    by (rule plain_cstr [OF pl(1)])
  moreover have "cstr ((pre @ [NUL, DASH] @ n @ [NUL]) @ d @ NUL # b') (length (pre @ [NUL, DASH] @ n @ [NUL])) = d"
    by (rule plain_cstr [OF pl(2)])
  moreover have "arg_strings ((pre @ param_cut a) @ concat (map param_cut as) @ NUL # b)
      (ptrs (length (pre @ param_cut a)) as) = map (\<lambda>(n, d). (Some n, Some d)) as"
    using Cons.prems by (intro Cons.IH) simp
  moreover have "param_cut a = NUL # DASH # n @ NUL # d" by (simp add: param_cut_def a)
  ultimately show ?case
    by (simp add: arg_strings_def param_ptr_def ParamData_def a b' eval_nat_numeral)
qed (simp add: arg_strings_def)

lemma parse_line:
  assumes "plain cmd" and "list_all good_param as"
  shows "\<exists>buf cp'. CmdParser_ParseCmd 0 (cmd @ concat (map param_text as) @ NUL # junk) cp = Inr (True, buf, cp')
    \<and> map_option (cstr buf) (CmdParser_GetCmd cp') = Some cmd
    \<and> arg_strings buf (CmdParser_GetArgs cp') = map (\<lambda>(n, d). (Some n, Some d)) as
    \<and> CmdParser_ParamCount cp' = length as"
proof -
  define cp0 where "cp0 = cp\<lparr>cp_cmd := None, cp_args := []\<rparr>"
  have start: "parse_loop 0 0 (cmd @ b) cp0 = parse_loop 0 (length cmd) (cmd @ b) cp0" for b
    using parse_plain [OF assms(1), of 0 "[]" b cp0] by simp
  show ?thesis
  proof (cases as)
    case Nil
    have "CmdParser_ParseCmd 0 (cmd @ NUL # junk) cp = Inr (True, cmd @ NUL # junk, cp0\<lparr>cp_cmd := Some 0\<rparr>)"
      using start [of "NUL # junk"] parse_end [of "length cmd" "cmd @ NUL # junk"]
      by (simp add: CmdParser_ParseCmd_def cp0_def [symmetric]) (simp add: cp0_def)
    then show ?thesis using plain_cstr [OF assms(1), of "[]" junk] Nil
      by (simp add: CmdParser_GetCmd_def CmdParser_GetArgs_def CmdParser_ParamCount_def arg_strings_def cp0_def)
  next
    case (Cons a as')
    define r where "r = tl (param_text a) @ concat (map param_text as') @ NUL # junk"
    have t: "concat (map param_text as) @ NUL # junk = SPACE # r"
      by (simp add: Cons r_def param_text_def)
    let ?cp1 = "cp0\<lparr>cp_cmd := Some 0\<rparr>"
    have "parse_loop 0 0 (cmd @ SPACE # r) cp0 = parse_loop 0 (length (cmd @ [NUL])) ((cmd @ [NUL]) @ r) ?cp1"
      using start [of "SPACE # r"] parse_first_space [of cp0 0 cmd r] by (simp add: cp0_def)
    also have "\<dots> = parse_loop 0 (length cmd) (cmd @ SPACE # r) ?cp1"
      using parse_space [of ?cp1 0 cmd r] by simp
    also have "\<dots> = Inr (True, cmd @ concat (map param_cut as) @ NUL # junk, ?cp1\<lparr>cp_args := ptrs (length cmd) as\<rparr>)"
      using parse_params [OF assms(2), of ?cp1 0 cmd junk] t by (simp add: cp0_def)
    finally have p: "CmdParser_ParseCmd 0 (cmd @ SPACE # r) cp
        = Inr (True, cmd @ concat (map param_cut as) @ NUL # junk, ?cp1\<lparr>cp_args := ptrs (length cmd) as\<rparr>)"
      by (simp add: CmdParser_ParseCmd_def cp0_def [symmetric] Cons)
    obtain b' where "concat (map param_cut as) @ NUL # junk = NUL # b'"
      by (simp add: Cons param_cut_def)
    then have "cstr (cmd @ concat (map param_cut as) @ NUL # junk) 0 = cmd"
      using plain_cstr [OF assms(1), of "[]" b'] by simp
    moreover have "length (ptrs p xs) = length xs" for p xs
      by (induction p xs rule: ptrs.induct) simp_all
    ultimately show ?thesis
      using p arg_strings_ptrs [OF assms(2), of cmd junk] unfolding t [symmetric]
      by (simp add: CmdParser_GetCmd_def CmdParser_GetArgs_def CmdParser_ParamCount_def)
  qed
qed



text \<open>A dash at the end of a line.  The dash skips the character after it, so when it is the
  last one the terminator is skipped and the loop goes on behind it: past the buffer, or into
  what an earlier line left there.\<close>

lemma trailing_dash_skips_terminator:
  assumes "plain cmd"
  shows "CmdParser_ParseCmd 0 (cmd @ [SPACE, DASH, NUL]) cp = Inl OutOfBounds
    \<and> (plain w \<longrightarrow> (\<exists>buf cp'. CmdParser_ParseCmd 0 (cmd @ [SPACE, DASH, NUL] @ w @ [SPACE, DASH, x, NUL]) cp
          = Inr (True, buf, cp') \<and> CmdParser_ParamCount cp' = 2))"
proof -
  define cp1 where "cp1 = cp\<lparr>cp_args := [], cp_cmd := Some 0\<rparr>"
  have dash: "parse_loop 0 0 (cmd @ SPACE # DASH # NUL # b) (cp\<lparr>cp_cmd := None, cp_args := []\<rparr>)
      = parse_loop 0 (length (cmd @ [NUL, DASH, NUL])) ((cmd @ [NUL, DASH, NUL]) @ b)
          (cp1\<lparr>cp_args := [ParamData (Some (length cmd + 2)) None]\<rparr>)" for b
  proof -
    have "parse_loop 0 0 (cmd @ SPACE # DASH # NUL # b) (cp\<lparr>cp_cmd := None, cp_args := []\<rparr>)
        = parse_loop 0 (length (cmd @ [NUL])) ((cmd @ [NUL]) @ DASH # NUL # b) cp1"
      using parse_plain [OF assms, of 0 "[]" "SPACE # DASH # NUL # b" "cp\<lparr>cp_cmd := None, cp_args := []\<rparr>"]
        parse_first_space [of "cp\<lparr>cp_cmd := None, cp_args := []\<rparr>" 0 cmd "DASH # NUL # b"]
      by (simp add: cp1_def)
    also have "\<dots> = parse_loop 0 (length (cmd @ [NUL, DASH, NUL])) ((cmd @ [NUL, DASH, NUL]) @ b)
          (cp1\<lparr>cp_args := [ParamData (Some (length cmd + 2)) None]\<rparr>)"
      using parse_dash [of cp1 0 "cmd @ [NUL]" NUL b] by (simp add: cp1_def)
    finally show ?thesis .
  qed
  have "CmdParser_ParseCmd 0 (cmd @ [SPACE, DASH, NUL]) cp = Inl OutOfBounds"
    using dash [of "[]"] by (simp add: CmdParser_ParseCmd_def parse_past)
  moreover have "\<exists>buf cp'. CmdParser_ParseCmd 0 (cmd @ [SPACE, DASH, NUL] @ w @ [SPACE, DASH, x, NUL]) cp
      = Inr (True, buf, cp') \<and> CmdParser_ParamCount cp' = 2" if w: "plain w"
  proof -
    let ?pre = "cmd @ [NUL, DASH, NUL]" and ?cp2 = "cp1\<lparr>cp_args := [ParamData (Some (length cmd + 2)) None]\<rparr>"
    have c2: "cp_cmd ?cp2 \<noteq> None" by (simp add: cp1_def)
    have "parse_loop 0 (length ?pre) (?pre @ w @ [SPACE, DASH, x, NUL]) ?cp2
        = parse_loop 0 (length (?pre @ w @ [NUL])) ((?pre @ w @ [NUL]) @ [DASH, x, NUL]) ?cp2"
      using parse_plain [OF w, of 0 ?pre "[SPACE, DASH, x, NUL]" ?cp2]
        parse_space [OF c2, of 0 "?pre @ w" "[DASH, x, NUL]"] by simp
    also have "\<dots> = parse_loop 0 (length (?pre @ w @ [NUL, DASH, x])) ((?pre @ w @ [NUL, DASH, x]) @ [NUL])
        (?cp2\<lparr>cp_args := cp_args ?cp2 @ [ParamData (Some (length (?pre @ w @ [NUL]) + 1)) None]\<rparr>)"
      using parse_dash [OF c2, of 0 "?pre @ w @ [NUL]" x "[NUL]"] by simp
    finally show ?thesis
      using dash [of "w @ [SPACE, DASH, x, NUL]"] parse_nul [of 0 "?pre @ w @ [NUL, DASH, x]" "[]"]
      by (simp add: CmdParser_ParseCmd_def CmdParser_ParamCount_def)
  qed
  ultimately show ?thesis by blast
qed

lemma trailing_dash_skips_terminator_witness:
  "CmdParser_ParseCmd 0 (tx ''help -'' @ [0]) CmdParser_init = Inl OutOfBounds"
proof -
  have "plain (tx ''help'')" by (simp add: plain_def tx_def char_defs)
  from trailing_dash_skips_terminator [OF this, of CmdParser_init] show ?thesis
    by (simp add: tx_def char_defs)
qed

end
