(* ===== verification/Console.thy ===== *)
theory Console
  imports CmdParser ClientSide
begin

text \<open>
  The commands of the two consoles: \<open>ParamParser\<close> checks the parameters of a command and runs
  it, the classes derived from it (\<open>Client/ClientCmdParser.h\<close>, \<open>Server/ServerCmdParser.h\<close>)
  say which parameters there are, \<open>CmdHandler\<close> finds the command of a line, and the main loops
  read lines.

  A parameter is the pair of its name and data as the pointers of \<open>CmdParser\<close> find them.
  What is printed is a list of messages.  \<open>std::stof\<close> is a parameter (\<open>None\<close>: it throws),
  \<open>std::stoull\<close> is written out.
\<close>

section \<open>ParamParser\<close>

type_synonym arg = "wstring option \<times> wstring option"

datatype console_msg =
    ParseError
  | CommandList "wstring list"
  | InvalidCmd
  | UsageText
  | InvalidData "wstring option"
  | InvalidParam "wstring"
  | Required wstring
  | UseHelp
  | ConnectResult bool "wstring option" "wstring option"
  | RecvResult bool
  | AllowResult bool "wstring option"

record usable_param =
  up_param :: wstring
  up_required :: bool
  up_found :: bool

definition Parameter :: "wstring \<Rightarrow> bool \<Rightarrow> usable_param" where
  "Parameter param required = \<lparr>up_param = param, up_required = required, up_found = False\<rparr>"

definition ParamParser_init :: "(wstring \<times> bool) list \<Rightarrow> usable_param list" where
  "ParamParser_init usableParams = map (\<lambda>(p, r). Parameter p r) usableParams"

definition clear_found :: "usable_param list \<Rightarrow> usable_param list" where
  "clear_found us = map (\<lambda>u. u\<lparr>up_found := False\<rparr>) us"

fun mark_found :: "wstring \<Rightarrow> usable_param list \<Rightarrow> usable_param list" where
  "mark_found n [] = []"
| "mark_found n (u # us) = (if up_param u = n then u\<lparr>up_found := True\<rparr> # us else u # mark_found n us)"

text \<open>The loop over the arguments: it ends with the messages of an early return, or \<open>None\<close>.\<close>

fun parse_args ::
  "(arg \<Rightarrow> 'p \<Rightarrow> (bool \<times> 'p) res) \<Rightarrow> arg list \<Rightarrow> usable_param list \<Rightarrow> 'p
     \<Rightarrow> (console_msg list option \<times> usable_param list \<times> 'p) res" where
  "parse_args process [] us p = Inr (None, us, p)"
| "parse_args process (a # as) us p =
     (case fst a of
        None \<Rightarrow> Inl NullDeref
      | Some n \<Rightarrow>
          if n = tx ''h'' \<or> n = tx ''?'' then Inr (Some [UsageText], us, p)
          else if list_ex (\<lambda>u. n = up_param u) us
          then rbind (process a p) (\<lambda>(ok, p1).
            if \<not> ok then Inr (Some [InvalidData (snd a)], clear_found us, p1)
            else parse_args process as (mark_found n us) p1)
          else Inr (Some [InvalidParam n, UseHelp], us, p))"

definition missing :: "usable_param list \<Rightarrow> wstring list" where
  "missing us = map up_param (filter (\<lambda>u. up_required u \<and> \<not> up_found u) us)"

definition ParamParser_Parse ::
  "'p \<Rightarrow> (arg \<Rightarrow> 'p \<Rightarrow> (bool \<times> 'p) res) \<Rightarrow> ('p \<Rightarrow> 'e \<Rightarrow> (console_msg list \<times> 'e) res)
     \<Rightarrow> arg list \<Rightarrow> usable_param list \<Rightarrow> 'e \<Rightarrow> (console_msg list \<times> usable_param list \<times> 'e) res" where
  "ParamParser_Parse defaults process execute args us e =
     rbind (parse_args process args us defaults) (\<lambda>(stop, us1, p1).
       case stop of
         Some ms \<Rightarrow> Inr (ms, us1, e)
       | None \<Rightarrow>
           if missing us1 = []
           then rbind (execute p1 e) (\<lambda>(ms, e1). Inr (ms, clear_found us1, e1))
           else Inr (map Required (missing us1) @ [UseHelp], clear_found us1, e))"

section \<open>Numbers\<close>

definition is_digit :: "u16 \<Rightarrow> bool" where
  "is_digit c \<longleftrightarrow> 48 \<le> c \<and> c \<le> 57"

definition is_blank :: "u16 \<Rightarrow> bool" where
  "is_blank c \<longleftrightarrow> c = 32 \<or> 9 \<le> c \<and> c \<le> 13"

definition digits_value :: "wstring \<Rightarrow> nat" where
  "digits_value ds = fold (\<lambda>c v. v * 10 + unat (c - 48)) ds 0"

text \<open>Blanks, a sign, digits; no digits or a value above 64 bits throw; a minus negates modulo
  \<open>2^64\<close>.  The argument becomes a \<open>std::wstring\<close>, from a null pointer a fault.\<close>

definition stoull :: "wstring option \<Rightarrow> u64 res" where
  "stoull arg =
     (case arg of
        None \<Rightarrow> Inl NullDeref
      | Some w \<Rightarrow>
          (let w1 = dropWhile is_blank w;
               neg = (w1 \<noteq> [] \<and> hd w1 = 45);
               w2 = (if w1 \<noteq> [] \<and> (hd w1 = 45 \<or> hd w1 = 43) then tl w1 else w1);
               ds = takeWhile is_digit w2
           in if ds = [] \<or> 2 ^ 64 \<le> digits_value ds then Inl Uncaught
              else Inr (if neg then - of_nat (digits_value ds) else of_nat (digits_value ds))))"

section \<open>The commands of the client\<close>

record connect_fields =
  cn_ip :: "wstring option"
  cn_port :: "wstring option"
  cn_ipv6 :: bool
  cn_timeout :: real

definition ConnectParser_params :: "usable_param list" where
  "ConnectParser_params = ParamParser_init [(tx ''ip'', True), (tx ''p'', True), (tx ''ipv6'', False), (tx ''t'', False)]"

definition ConnectParser_DefaultParams :: connect_fields where
  "ConnectParser_DefaultParams = \<lparr>cn_ip = None, cn_port = None, cn_ipv6 = False, cn_timeout = 5\<rparr>"

definition ConnectParser_ProcessParam ::
  "(wstring \<Rightarrow> real option) \<Rightarrow> arg \<Rightarrow> connect_fields \<Rightarrow> (bool \<times> connect_fields) res" where
  "ConnectParser_ProcessParam stof a f =
     (case fst a of
        None \<Rightarrow> Inl NullDeref
      | Some n \<Rightarrow>
          if n = tx ''ip'' then Inr (True, f\<lparr>cn_ip := snd a\<rparr>)
          else if n = tx ''p'' then Inr (True, f\<lparr>cn_port := snd a\<rparr>)
          else if n = tx ''ipv6'' then
            (case snd a of
               None \<Rightarrow> Inl NullDeref
             | Some v \<Rightarrow>
                 if v = tx ''true'' then Inr (True, f\<lparr>cn_ipv6 := True\<rparr>)
                 else if v = tx ''false'' then Inr (True, f\<lparr>cn_ipv6 := False\<rparr>)
                 else Inr (False, f))
          else if n = tx ''t'' then
            (case snd a of
               None \<Rightarrow> Inl NullDeref
             | Some v \<Rightarrow> (case stof v of None \<Rightarrow> Inl Uncaught | Some r \<Rightarrow> Inr (True, f\<lparr>cn_timeout := r\<rparr>)))
          else Inr (True, f))"

definition ConnectParser_Execute ::
  "(nat \<Rightarrow> bool) \<Rightarrow> connect_fields \<Rightarrow> 'd client_state \<Rightarrow> (console_msg list \<times> 'd client_state) res" where
  "ConnectParser_Execute ok f cl =
     (let (res, cl1) = Client_Connect ok (cn_ip f) (cn_port f) (cn_ipv6 f) (cn_timeout f) cl
      in Inr ([ConnectResult res (cn_ip f) (cn_port f)], cl1))"

record recv_fields =
  rv_nThreads :: u32
  rv_nConcThreads :: u32

definition RecvServDataParser_params :: "usable_param list" where
  "RecvServDataParser_params = ParamParser_init [(tx ''nt'', False), (tx ''nct'', False)]"

definition RecvServDataParser_DefaultParams :: recv_fields where
  "RecvServDataParser_DefaultParams = \<lparr>rv_nThreads = 2, rv_nConcThreads = 1\<rparr>"

definition RecvServDataParser_ProcessParam :: "arg \<Rightarrow> recv_fields \<Rightarrow> (bool \<times> recv_fields) res" where
  "RecvServDataParser_ProcessParam a f =
     (if fst a = None then Inl NullDeref
      else rbind (if fst a = Some (tx ''nt'')
                  then rbind (stoull (snd a)) (\<lambda>n. Inr (f\<lparr>rv_nThreads := ucast n\<rparr>)) else Inr f) (\<lambda>f1.
           rbind (if fst a = Some (tx ''nct'')
                  then rbind (stoull (snd a)) (\<lambda>n. Inr (f1\<lparr>rv_nConcThreads := ucast n\<rparr>)) else Inr f1) (\<lambda>f2.
           Inr (True, f2))))"

definition RecvServDataParser_Execute ::
  "(nat \<Rightarrow> bool) \<Rightarrow> recv_fields \<Rightarrow> 'd client_state \<Rightarrow> (console_msg list \<times> 'd client_state) res" where
  "RecvServDataParser_Execute ok f cl =
     rbind (Client_RecvServData ok (rv_nThreads f) (rv_nConcThreads f) cl) (\<lambda>(res, cl1).
       Inr ([RecvResult res], cl1))"

definition DisconnectParser_params :: "usable_param list" where
  "DisconnectParser_params = ParamParser_init []"

definition DisconnectParser_ProcessParam :: "arg \<Rightarrow> unit \<Rightarrow> (bool \<times> unit) res" where
  "DisconnectParser_ProcessParam a f = Inr (True, f)"

definition DisconnectParser_Execute ::
  "unit \<Rightarrow> 'd client_state \<Rightarrow> (console_msg list \<times> 'd client_state) res" where
  "DisconnectParser_Execute f cl = Inr ([], Client_Disconnect cl)"

section \<open>The commands of the server\<close>

datatype IPv = ipvnone | ipv4 | ipv6 | ipboth

fun IPv_value :: "IPv \<Rightarrow> u16" where
  "IPv_value ipvnone = 0"
| "IPv_value ipv4 = 0xFF00"
| "IPv_value ipv6 = 0x00FF"
| "IPv_value ipboth = 0xFFFF"

text \<open>The calls on \<open>TCPServInterface\<close>; every connection is accepted (\<open>CanConnect\<close>).\<close>

datatype serv_call = AllowConnections "wstring option" u32 u32 IPv u32 | ShutdownServ

record allow_fields =
  al_port :: "wstring option"
  al_ipv :: IPv
  al_nThreads :: u32
  al_nConcThreads :: u32
  al_nConcAccepts :: u32

definition AllowConnParser_params :: "usable_param list" where
  "AllowConnParser_params = ParamParser_init [(tx ''p'', True), (tx ''ipv'', False), (tx ''nt'', False),
     (tx ''nct'', False), (tx ''nca'', False)]"

definition AllowConnParser_DefaultParams :: allow_fields where
  "AllowConnParser_DefaultParams =
     \<lparr>al_port = None, al_ipv = ipv4, al_nThreads = 8, al_nConcThreads = 4, al_nConcAccepts = 2\<rparr>"

definition AllowConnParser_ProcessParam :: "arg \<Rightarrow> allow_fields \<Rightarrow> (bool \<times> allow_fields) res" where
  "AllowConnParser_ProcessParam a f =
     (case fst a of
        None \<Rightarrow> Inl NullDeref
      | Some n \<Rightarrow>
          (let f1 = (if n = tx ''p'' then f\<lparr>al_port := snd a\<rparr> else f) in
           if n = tx ''ipv'' then
             (case snd a of
                None \<Rightarrow> Inl NullDeref
              | Some v \<Rightarrow>
                  if v = tx ''ipv4'' then Inr (True, f1\<lparr>al_ipv := ipv4\<rparr>)
                  else if v = tx ''ipv6'' then Inr (True, f1\<lparr>al_ipv := ipv6\<rparr>)
                  else if v = tx ''ipboth'' then Inr (True, f1\<lparr>al_ipv := ipboth\<rparr>)
                  else Inr (False, f1))
           else if n = tx ''nt'' then rbind (stoull (snd a)) (\<lambda>k. Inr (True, f1\<lparr>al_nThreads := ucast k\<rparr>))
           else if n = tx ''nct'' then rbind (stoull (snd a)) (\<lambda>k. Inr (True, f1\<lparr>al_nConcThreads := ucast k\<rparr>))
           else if n = tx ''nca'' then rbind (stoull (snd a)) (\<lambda>k. Inr (True, f1\<lparr>al_nConcAccepts := ucast k\<rparr>))
           else Inr (True, f1)))"

definition AllowConnParser_CanConnect :: bool where
  "AllowConnParser_CanConnect = True"

definition AllowConnParser_Execute ::
  "(serv_call list \<Rightarrow> bool) \<Rightarrow> allow_fields \<Rightarrow> serv_call list \<Rightarrow> (console_msg list \<times> serv_call list) res" where
  "AllowConnParser_Execute allowed f calls =
     (let calls1 = calls @ [AllowConnections (al_port f) (al_nThreads f) (al_nConcThreads f) (al_ipv f) (al_nConcAccepts f)]
      in Inr ([AllowResult (allowed calls1) (al_port f)], calls1))"

definition ShutdownParser_params :: "usable_param list" where
  "ShutdownParser_params = ParamParser_init []"

definition ShutdownParser_ProcessParam :: "arg \<Rightarrow> unit \<Rightarrow> (bool \<times> unit) res" where
  "ShutdownParser_ProcessParam a f = Inr (True, f)"

definition ShutdownParser_Execute :: "unit \<Rightarrow> serv_call list \<Rightarrow> (console_msg list \<times> serv_call list) res" where
  "ShutdownParser_Execute f calls = Inr ([], calls @ [ShutdownServ])"

section \<open>CmdHandler\<close>

text \<open>A command is its parser object: its parameters with their flags, and the virtual \<open>Parse\<close>.\<close>

record 'e command =
  co_name :: wstring
  co_params :: "usable_param list"
  co_parse :: "arg list \<Rightarrow> usable_param list \<Rightarrow> 'e \<Rightarrow> (console_msg list \<times> usable_param list \<times> 'e) res"

record 'e cmd_handler =
  ch_cmds :: "'e command list"
  ch_cmdParser :: cmd_parser

text \<open>\<open>_tcscmp(lhs, rhs) < 0\<close> on unsigned 16-bit characters.\<close>

fun StrCompare :: "wstring \<Rightarrow> wstring \<Rightarrow> bool" where
  "StrCompare [] [] = False"
| "StrCompare [] (b # bs) = True"
| "StrCompare (a # as) [] = False"
| "StrCompare (a # as) (b # bs) = (if a = b then StrCompare as bs else a < b)"

fun cmds_emplace :: "'e command \<Rightarrow> 'e command list \<Rightarrow> 'e command list" where
  "cmds_emplace c [] = [c]"
| "cmds_emplace c (d # ds) =
     (if StrCompare (co_name d) (co_name c) then d # cmds_emplace c ds
      else if StrCompare (co_name c) (co_name d) then c # d # ds
      else d # ds)"

definition CmdHandler_init :: "'e cmd_handler" where
  "CmdHandler_init = \<lparr>ch_cmds = [], ch_cmdParser = CmdParser_init\<rparr>"

definition CmdHandler_AddCmd ::
  "wstring \<Rightarrow> usable_param list \<Rightarrow>
     (arg list \<Rightarrow> usable_param list \<Rightarrow> 'e \<Rightarrow> (console_msg list \<times> usable_param list \<times> 'e) res)
     \<Rightarrow> 'e cmd_handler \<Rightarrow> 'e cmd_handler" where
  "CmdHandler_AddCmd name params parse h =
     h\<lparr>ch_cmds := cmds_emplace \<lparr>co_name = name, co_params = params, co_parse = parse\<rparr> (ch_cmds h)\<rparr>"

fun run_command ::
  "wstring \<Rightarrow> arg list \<Rightarrow> 'e command list \<Rightarrow> 'e \<Rightarrow> (console_msg list \<times> 'e command list \<times> 'e) res" where
  "run_command name args [] e = Inr ([InvalidCmd], [], e)"
| "run_command name args (c # cs) e =
     (if co_name c = name
      then rbind (co_parse c args (co_params c) e) (\<lambda>(ms, us, e1). Inr (ms, c\<lparr>co_params := us\<rparr> # cs, e1))
      else rbind (run_command name args cs e) (\<lambda>(ms, cs1, e1). Inr (ms, c # cs1, e1)))"

definition CmdHandler_Process ::
  "wstring \<Rightarrow> 'e cmd_handler \<Rightarrow> 'e \<Rightarrow> (bool \<times> console_msg list \<times> wstring \<times> 'e cmd_handler \<times> 'e) res" where
  "CmdHandler_Process str h e =
     rbind (CmdParser_ParseCmd 0 str (ch_cmdParser h)) (\<lambda>(parsed, buf, cp).
       let h1 = h\<lparr>ch_cmdParser := cp\<rparr>; ms0 = (if \<not> parsed then [ParseError] else []) in
       rbind (CmdParser_CmdComp buf (tx ''exit'') cp) (\<lambda>is_exit.
       if is_exit then Inr (False, ms0, buf, h1, e)
       else rbind (CmdParser_CmdComp buf (tx ''help'') cp) (\<lambda>is_help.
       if is_help then Inr (True, ms0 @ [CommandList (map co_name (ch_cmds h1))], buf, h1, e)
       else rbind (run_command (cstr buf (the (CmdParser_GetCmd cp))) (arg_strings buf (CmdParser_GetArgs cp)) (ch_cmds h1) e)
              (\<lambda>(ms, cmds, e1). Inr (True, ms0 @ ms, buf, h1\<lparr>ch_cmds := cmds\<rparr>, e1)))))"

section \<open>The main loops\<close>

definition buffer_size :: nat where "buffer_size = 512"

text \<open>\<open>_getts_s(buffer, 512)\<close>: what follows the line in the buffer stays; a line that does not
  fit ends the program.\<close>

definition getts_s :: "wstring \<Rightarrow> wstring \<Rightarrow> wstring res" where
  "getts_s line buffer =
     (if length line < buffer_size then Inr (put_at 0 (line @ [NUL]) buffer) else Inl Uncaught)"

fun console_loop :: "wstring list \<Rightarrow> wstring \<Rightarrow> 'e cmd_handler \<Rightarrow> 'e \<Rightarrow> (console_msg list \<times> 'e) res" where
  "console_loop [] buffer h e = Inl NoReturn"
| "console_loop (line # input) buffer h e =
     rbind (getts_s line buffer) (\<lambda>buf.
     rbind (CmdHandler_Process buf h e) (\<lambda>(more, ms, buf1, h1, e1).
       if more then rbind (console_loop input buf1 h1 e1) (\<lambda>(ms2, e2). Inr (ms @ ms2, e2))
       else Inr (ms, e1)))"

definition client_commands :: "(nat \<Rightarrow> bool) \<Rightarrow> (wstring \<Rightarrow> real option) \<Rightarrow> 'd client_state cmd_handler" where
  "client_commands ok stof =
     CmdHandler_AddCmd (tx ''disconnect'') DisconnectParser_params
       (ParamParser_Parse () DisconnectParser_ProcessParam DisconnectParser_Execute)
     (CmdHandler_AddCmd (tx ''recvdata'') RecvServDataParser_params
       (ParamParser_Parse RecvServDataParser_DefaultParams RecvServDataParser_ProcessParam (RecvServDataParser_Execute ok))
     (CmdHandler_AddCmd (tx ''connect'') ConnectParser_params
       (ParamParser_Parse ConnectParser_DefaultParams (ConnectParser_ProcessParam stof) (ConnectParser_Execute ok))
     CmdHandler_init))"

text \<open>\<open>nClients\<close> is the number typed first, \<open>rest\<close> what is left of its line.\<close>

definition client_main ::
  "(nat \<Rightarrow> nat) \<Rightarrow> 'd \<Rightarrow> (nat \<Rightarrow> bool) \<Rightarrow> (wstring \<Rightarrow> real option) \<Rightarrow> u32 \<Rightarrow> wstring \<Rightarrow> wstring list
     \<Rightarrow> (console_msg list \<times> 'd client_state) res" where
  "client_main newClient d ok stof nClients rest input =
     rbind (getts_s rest (replicate buffer_size NUL)) (\<lambda>buffer.
     rbind (console_loop input buffer (client_commands ok stof)
              (Client_init newClient d nClients (lit_KB 64)))
       (\<lambda>(ms, cl). Inr (ms, Client_destroy cl)))"

definition server_commands :: "(serv_call list \<Rightarrow> bool) \<Rightarrow> serv_call list cmd_handler" where
  "server_commands allowed =
     CmdHandler_AddCmd (tx ''shutdown'') ShutdownParser_params
       (ParamParser_Parse () ShutdownParser_ProcessParam ShutdownParser_Execute)
     (CmdHandler_AddCmd (tx ''allowcon'') AllowConnParser_params
       (ParamParser_Parse AllowConnParser_DefaultParams AllowConnParser_ProcessParam (AllowConnParser_Execute allowed))
     CmdHandler_init)"

text \<open>\<open>run\<close> is what the handlers and workers do to the server while the console is used.  At the
  end \<open>Shutdown\<close> is called, and again by the destructor.\<close>

definition server_main ::
  "('f server \<Rightarrow> 'f server res) \<Rightarrow> (nat \<Rightarrow> bool) \<Rightarrow> (serv_call list \<Rightarrow> bool) \<Rightarrow> wstring list \<Rightarrow> 'f server res
     \<Rightarrow> (console_msg list \<times> serv_call list \<times> 'f server) res" where
  "server_main run ends allowed input server =
     rbind server (\<lambda>s.
     rbind (console_loop input (replicate buffer_size NUL) (server_commands allowed) []) (\<lambda>(ms, calls).
     rbind (run s) (\<lambda>s1.
     rbind (Server_Shutdown ends s1) (\<lambda>s2.
     rbind (Server_destroy ends s2) (\<lambda>s3. Inr (ms, calls, s3))))))"

end
