(* ===== verification/ConsoleRun.thy ===== *)
theory ConsoleRun
  imports Console
begin

text \<open>
  What the commands do: the contract of a command's parameters as a locale, interpreted for
  the commands that have any, and the way from a typed line to the call it makes.
\<close>

section \<open>Flags\<close>

lemma clear_mark [simp]: "clear_found (mark_found n us) = clear_found us"
  by (induction n us rule: mark_found.induct) (simp_all add: clear_found_def)

lemma up_param_mark [simp]: "map up_param (mark_found n us) = map up_param us"
  by (induction n us rule: mark_found.induct) simp_all

lemma clear_fold_mark [simp]: "clear_found (fold mark_found ns us) = clear_found us"
  by (induction ns arbitrary: us) simp_all

lemma list_ex_up_param: "list_ex (\<lambda>u. n = up_param u) us \<longleftrightarrow> n \<in> set (map up_param us)"
  by (auto simp: list_ex_iff)

lemma mark_found_map:
  "distinct (map up_param us) \<Longrightarrow>
    mark_found n us = map (\<lambda>u. if up_param u = n then u\<lparr>up_found := True\<rparr> else u) us"
proof (induction n us rule: mark_found.induct)
  case (2 n u us)
  have "map (\<lambda>u. if up_param u = n then u\<lparr>up_found := True\<rparr> else u) us = us" if "n \<notin> set (map up_param us)"
    using that by (induction us) auto
  then show ?case using 2 by auto
qed simp

lemma missing_mark:
  "distinct (map up_param us) \<Longrightarrow> missing (mark_found n us) = filter (\<lambda>x. x \<noteq> n) (missing us)"
  by (simp add: mark_found_map) (induction us, auto simp: missing_def)

lemma missing_fold_mark:
  "distinct (map up_param us) \<Longrightarrow> missing (fold mark_found ns us) = filter (\<lambda>x. x \<notin> set ns) (missing us)"
proof (induction ns arbitrary: us)
  case (Cons n ns)
  then show ?case by (simp add: missing_mark conj_commute cong: filter_cong)
qed simp

definition given :: "(wstring \<times> wstring) list \<Rightarrow> arg list" where
  "given as = map (\<lambda>(n, d). (Some n, Some d)) as"

lemma given_simps [simp]: "given [] = []" "given ((n, d) # as) = (Some n, Some d) # given as"
  by (simp_all add: given_def)

section \<open>The contract of a command\<close>

text \<open>A command knows its parameters by \<open>names\<close> and accepts data that is \<open>wf\<close>.\<close>

locale param_command =
  fixes names :: "wstring list"
    and process :: "arg \<Rightarrow> 'p \<Rightarrow> (bool \<times> 'p) res"
    and wf :: "wstring \<Rightarrow> wstring \<Rightarrow> bool"
  assumes accepts: "n \<in> set names \<Longrightarrow> wf n d \<Longrightarrow> \<exists>p'. process (Some n, Some d) p = Inr (True, p')"
    and names_distinct: "distinct names"
    and no_help: "tx ''h'' \<notin> set names" "tx ''?'' \<notin> set names"
begin

definition good_args :: "(wstring \<times> wstring) list \<Rightarrow> bool" where
  "good_args as \<longleftrightarrow> (\<forall>a \<in> set as. fst a \<in> set names \<and> wf (fst a) (snd a))"

lemma parse_args_good:
  assumes "good_args as" and "map up_param us = names"
  shows "\<exists>p'. parse_args process (given as) us p = Inr (None, fold mark_found (map fst as) us, p')"
  using assms
proof (induction as arbitrary: us p)
  case (Cons a as)
  obtain n d where a: "a = (n, d)" by (cases a)
  have n: "n \<in> set names" "wf n d" "n \<noteq> tx ''h''" "n \<noteq> tx ''?''"
    using Cons.prems(1) no_help by (auto simp: good_args_def a)
  obtain p1 where "process (Some n, Some d) p = Inr (True, p1)" using accepts n by blast
  moreover have "n \<in> set (map up_param us)" using n(1) Cons.prems(2) by simp
  moreover have "good_args as" "map up_param (mark_found n us) = names"
    using Cons.prems by (auto simp: good_args_def)
  ultimately show ?case using Cons.IH [of "mark_found n us" p1] n by (auto simp: a list_ex_up_param)
qed simp

text \<open>The command runs exactly when nothing required is missing, and clears the flags.\<close>

lemma Parse_good:
  assumes "good_args as" and "map up_param us = names"
  shows "\<exists>p'. parse_args process (given as) us p = Inr (None, fold mark_found (map fst as) us, p')
    \<and> ParamParser_Parse p process execute (given as) us e =
      (if set (missing us) \<subseteq> fst ` set as
       then rbind (execute p' e) (\<lambda>(ms, e1). Inr (ms, clear_found us, e1))
       else Inr (map Required (filter (\<lambda>x. x \<notin> fst ` set as) (missing us)) @ [UseHelp], clear_found us, e))"
proof -
  obtain p' where p': "parse_args process (given as) us p = Inr (None, fold mark_found (map fst as) us, p')"
    using parse_args_good [OF assms] by blast
  have m: "missing (fold mark_found (map fst as) us) = filter (\<lambda>x. x \<notin> fst ` set as) (missing us)"
    using missing_fold_mark [of us "map fst as"] assms(2) names_distinct by simp
  have "filter (\<lambda>x. x \<notin> fst ` set as) (missing us) = [] \<longleftrightarrow> set (missing us) \<subseteq> fst ` set as"
    by (auto simp: filter_empty_conv)
  then show ?thesis
    using p' m by (simp add: ParamParser_Parse_def)
qed

text \<open>An argument of another name ends the command, and the flags set so far stay.\<close>

lemma Parse_unknown:
  assumes "good_args as" and "map up_param us = names" and "x \<notin> set names" "x \<noteq> tx ''h''" "x \<noteq> tx ''?''"
  shows "ParamParser_Parse p process execute (given as @ (Some x, y) # rest) us e
    = Inr ([InvalidParam x, UseHelp], fold mark_found (map fst as) us, e)"
proof -
  have "\<exists>p'. parse_args process (given as @ (Some x, y) # rest) us p
      = Inr (Some [InvalidParam x, UseHelp], fold mark_found (map fst as) us, p')"
    using assms(1,2)
  proof (induction as arbitrary: us p)
    case Nil
    have "x \<notin> set (map up_param us)" using Nil.prems(2) assms(3) by simp
    then show ?case using assms(4,5) by (auto simp: list_ex_up_param)
  next
    case (Cons a as)
    obtain n d where a: "a = (n, d)" by (cases a)
    have n: "n \<in> set names" "wf n d" "n \<noteq> tx ''h''" "n \<noteq> tx ''?''"
      using Cons.prems(1) no_help by (auto simp: good_args_def a)
    obtain p1 where "process (Some n, Some d) p = Inr (True, p1)" using accepts n by blast
    moreover have "n \<in> set (map up_param us)" using n(1) Cons.prems(2) by simp
    moreover have "good_args as" "map up_param (mark_found n us) = names"
      using Cons.prems by (auto simp: good_args_def)
    ultimately show ?case using Cons.IH [of "mark_found n us" p1] n by (auto simp: a list_ex_up_param)
  qed
  then show ?thesis by (auto simp: ParamParser_Parse_def)
qed

end

lemmas param_defs = ConnectParser_params_def RecvServDataParser_params_def AllowConnParser_params_def
  DisconnectParser_params_def ShutdownParser_params_def ParamParser_init_def Parameter_def

interpretation connect: param_command "map up_param ConnectParser_params" "ConnectParser_ProcessParam stof"
    "\<lambda>n d. (n = tx ''ipv6'' \<longrightarrow> d = tx ''true'' \<or> d = tx ''false'') \<and> (n = tx ''t'' \<longrightarrow> stof d \<noteq> None)"
  for stof :: "wstring \<Rightarrow> real option"
  by unfold_locales (auto simp: param_defs ConnectParser_ProcessParam_def tx_def)

interpretation recvdata: param_command "map up_param RecvServDataParser_params" RecvServDataParser_ProcessParam
    "\<lambda>n d. \<exists>v. stoull (Some d) = Inr v"
  by unfold_locales (auto simp: param_defs RecvServDataParser_ProcessParam_def tx_def)

interpretation allowcon: param_command "map up_param AllowConnParser_params" AllowConnParser_ProcessParam
    "\<lambda>n d. if n = tx ''ipv'' then d \<in> {tx ''ipv4'', tx ''ipv6'', tx ''ipboth''}
      else n \<noteq> tx ''p'' \<longrightarrow> (\<exists>v. stoull (Some d) = Inr v)"
  by unfold_locales (auto simp: param_defs AllowConnParser_ProcessParam_def tx_def split: if_splits)


section \<open>Commands\<close>

abbreviation Connect_command ::
  "(nat \<Rightarrow> bool) \<Rightarrow> (wstring \<Rightarrow> real option) \<Rightarrow> arg list \<Rightarrow> usable_param list \<Rightarrow> 'd client_state
     \<Rightarrow> (console_msg list \<times> usable_param list \<times> 'd client_state) res" where
  "Connect_command ok stof \<equiv> ParamParser_Parse ConnectParser_DefaultParams (ConnectParser_ProcessParam stof) (ConnectParser_Execute ok)"

lemma missing_connect: "missing ConnectParser_params = [tx ''ip'', tx ''p'']"
  by (simp add: missing_def param_defs)

lemma clear_connect: "clear_found ConnectParser_params = ConnectParser_params"
  by (simp add: clear_found_def param_defs)

text \<open>\<open>connect\<close> checks its parameters.  With parameters it knows and data it can read it
  connects exactly when both an address and a port are given, and otherwise names what is
  missing and does nothing; either way it is ready for the next command.\<close>

theorem connect_requires_ip_and_port:
  assumes "\<forall>(n, d) \<in> set as. n \<in> {tx ''ip'', tx ''p'', tx ''ipv6'', tx ''t''}
    \<and> (n = tx ''ipv6'' \<longrightarrow> d \<in> {tx ''true'', tx ''false''}) \<and> (n = tx ''t'' \<longrightarrow> stof d \<noteq> None)"
  shows "if tx ''ip'' \<in> fst ` set as \<and> tx ''p'' \<in> fst ` set as
    then \<exists>ip port v6 timeout b cl'. Client_Connect ok ip port v6 timeout cl = (b, cl')
      \<and> Connect_command ok stof (given as) ConnectParser_params cl = Inr ([ConnectResult b ip port], ConnectParser_params, cl')
    else Connect_command ok stof (given as) ConnectParser_params cl
      = Inr (map Required (filter (\<lambda>x. x \<notin> fst ` set as) [tx ''ip'', tx ''p'']) @ [UseHelp], ConnectParser_params, cl)"
proof -
  have good: "connect.good_args stof as"
    using assms unfolding connect.good_args_def by (auto simp: param_defs)
  obtain f where f: "Connect_command ok stof (given as) ConnectParser_params cl =
      (if set (missing ConnectParser_params) \<subseteq> fst ` set as
       then rbind (ConnectParser_Execute ok f cl) (\<lambda>(ms, e1). Inr (ms, clear_found ConnectParser_params, e1))
       else Inr (map Required (filter (\<lambda>x. x \<notin> fst ` set as) (missing ConnectParser_params)) @ [UseHelp],
          clear_found ConnectParser_params, cl))"
    using connect.Parse_good [OF good refl, of ConnectParser_DefaultParams "ConnectParser_Execute ok" cl] by metis
  have sub: "set (missing ConnectParser_params) \<subseteq> fst ` set as
      \<longleftrightarrow> tx ''ip'' \<in> fst ` set as \<and> tx ''p'' \<in> fst ` set as"
    by (simp only: missing_connect list.set insert_subset empty_subsetI simp_thms)
  obtain b cl' where c: "Client_Connect ok (cn_ip f) (cn_port f) (cn_ipv6 f) (cn_timeout f) cl = (b, cl')"
    by fastforce
  have ex: "ConnectParser_Execute ok f cl = Inr ([ConnectResult b (cn_ip f) (cn_port f)], cl')"
    by (simp add: ConnectParser_Execute_def c)
  show ?thesis
    unfolding f sub clear_connect ex by (simp only: missing_connect rbind_Inr case_prod_conv) (use c in auto)
qed

theorem connect_requires_ip_and_port_witness:
  "Connect_command (\<lambda>_. True) (\<lambda>_. None) [(Some (tx ''ip''), Some (tx ''host''))] ConnectParser_params
      (Client_init Suc () 1 0)
    = Inr ([Required (tx ''p''), UseHelp], ConnectParser_params, Client_init Suc () 1 0)"
proof -
  have 1: "\<forall>(n, d) \<in> set [(tx ''ip'', tx ''host'')]. n \<in> {tx ''ip'', tx ''p'', tx ''ipv6'', tx ''t''}
    \<and> (n = tx ''ipv6'' \<longrightarrow> d \<in> {tx ''true'', tx ''false''}) \<and> (n = tx ''t'' \<longrightarrow> (\<lambda>_. None :: real option) d \<noteq> None)"
    by (simp add: tx_def)
  have 2: "tx ''p'' \<noteq> tx ''ip''" by (simp add: tx_def)
  from connect_requires_ip_and_port [OF 1, of "\<lambda>_. True" "Client_init Suc () 1 0"] 2 show ?thesis
    by simp
qed

text \<open>Stale flags.  The flag of a parameter that was given is cleared only at the end of a
  command.  When an unknown parameter ends the command before, the flag stays, and the next
  command passes the check without the required parameter: \<open>connect -p=...\<close> after a failed
  \<open>connect -ip=... -x\<close> connects to a null address.\<close>

lemma stale_flag_connects_to_null:
  assumes "x \<notin> {tx ''ip'', tx ''p'', tx ''ipv6'', tx ''t'', tx ''h'', tx ''?''}"
  shows "\<exists>us. Connect_command ok stof [(Some (tx ''ip''), Some host), (Some x, y)] ConnectParser_params cl
      = Inr ([InvalidParam x, UseHelp], us, cl)
    \<and> Connect_command ok stof [(Some (tx ''p''), Some port)] us cl
      = (case Client_Connect ok None (Some port) False 5 cl of
           (b, cl') \<Rightarrow> Inr ([ConnectResult b None (Some port)], ConnectParser_params, cl'))
    \<and> Connect_command ok stof [(Some (tx ''p''), Some port)] ConnectParser_params cl
      = Inr ([Required (tx ''ip''), UseHelp], ConnectParser_params, cl)"
proof -
  define us where "us = mark_found (tx ''ip'') ConnectParser_params"
  have good: "connect.good_args stof [(tx ''ip'', host)]" "connect.good_args stof [(tx ''p'', port)]"
    unfolding connect.good_args_def by (simp_all add: param_defs tx_def)
  have ne: "tx ''ip'' \<noteq> tx ''p''" by (simp add: tx_def)
  have "Connect_command ok stof (given [(tx ''ip'', host)] @ (Some x, y) # []) ConnectParser_params cl
      = Inr ([InvalidParam x, UseHelp], fold mark_found (map fst [(tx ''ip'', host)]) ConnectParser_params, cl)"
    using assms by (intro connect.Parse_unknown [OF good(1) refl]) (simp_all add: param_defs)
  moreover have "map up_param us = map up_param ConnectParser_params" by (simp add: us_def)
  moreover have "missing us = [tx ''p'']"
    using missing_mark [of ConnectParser_params "tx ''ip''"] ne connect.names_distinct
    by (simp add: us_def missing_connect)
  moreover have "clear_found us = ConnectParser_params" by (simp add: us_def clear_connect)
  moreover have pa: "parse_args (ConnectParser_ProcessParam stof) (given [(tx ''p'', port)]) us0 ConnectParser_DefaultParams
      = Inr (None, mark_found (tx ''p'') us0, ConnectParser_DefaultParams\<lparr>cn_port := Some port\<rparr>)"
    if "map up_param us0 = map up_param ConnectParser_params" for us0
  proof -
    have "tx ''p'' \<in> set (map up_param us0)" unfolding that by (simp add: param_defs)
    then show ?thesis by (simp add: ConnectParser_ProcessParam_def list_ex_up_param) (simp add: tx_def)
  qed
  ultimately show ?thesis
    using connect.Parse_good [OF good(2), of us ConnectParser_DefaultParams "ConnectParser_Execute ok" cl]
      connect.Parse_good [OF good(2), of ConnectParser_params ConnectParser_DefaultParams "ConnectParser_Execute ok" cl]
      pa [of us] ne
    by (intro exI [of _ us])
      (auto simp: us_def [symmetric] missing_connect clear_connect ConnectParser_Execute_def
        ConnectParser_DefaultParams_def split: prod.splits)
qed

lemma stale_flag_connects_to_null_example:
  "\<exists>us. Connect_command (\<lambda>_. True) (\<lambda>_. None) [(Some (tx ''p''), Some (tx ''80''))] us (Client_init Suc () 1 0)
    = (case Client_Connect (\<lambda>_. True) None (Some (tx ''80'')) False 5 (Client_init Suc () 1 0) of
         (b, cl') \<Rightarrow> Inr ([ConnectResult b None (Some (tx ''80''))], ConnectParser_params, cl'))"
proof -
  have "tx ''x'' \<notin> {tx ''ip'', tx ''p'', tx ''ipv6'', tx ''t'', tx ''h'', tx ''?''}" by (simp add: tx_def)
  from stale_flag_connects_to_null [OF this, of "\<lambda>_. None" "\<lambda>_. True" "tx ''host''" None "Client_init Suc () 1 0" "tx ''80''"]
  show ?thesis by blast
qed


section \<open>Lines\<close>

lemma Process_line:
  assumes "plain cmd" and "list_all good_param as" and "cmd \<noteq> tx ''exit''" and "cmd \<noteq> tx ''help''"
    and "run_command cmd (given as) (ch_cmds h) e = Inr (ms, cmds, e1)"
  shows "\<exists>buf cp. CmdHandler_Process (cmd @ concat (map param_text as) @ NUL # junk) h e
    = Inr (True, ms, buf, h\<lparr>ch_cmdParser := cp, ch_cmds := cmds\<rparr>, e1)"
proof -
  obtain buf cp where p: "CmdParser_ParseCmd 0 (cmd @ concat (map param_text as) @ NUL # junk) (ch_cmdParser h)
      = Inr (True, buf, cp)" "map_option (cstr buf) (CmdParser_GetCmd cp) = Some cmd"
    "arg_strings buf (CmdParser_GetArgs cp) = map (\<lambda>(n, d). (Some n, Some d)) as"
    using parse_line [OF assms(1,2)] by blast
  obtain i where "CmdParser_GetCmd cp = Some i" "cstr buf i = cmd" using p(2) by blast
  then show ?thesis
    using p assms(3,4,5)
    by (simp add: CmdHandler_Process_def CmdParser_CmdComp_def tcscmp_eq_def CmdParser_GetCmd_def given_def) blast
qed

lemma client_cmds:
  "ch_cmds (client_commands ok stof) =
    [\<lparr>co_name = tx ''connect'', co_params = ConnectParser_params, co_parse = Connect_command ok stof\<rparr>,
     \<lparr>co_name = tx ''disconnect'', co_params = DisconnectParser_params,
        co_parse = ParamParser_Parse () DisconnectParser_ProcessParam DisconnectParser_Execute\<rparr>,
     \<lparr>co_name = tx ''recvdata'', co_params = RecvServDataParser_params,
        co_parse = ParamParser_Parse RecvServDataParser_DefaultParams RecvServDataParser_ProcessParam
          (RecvServDataParser_Execute ok)\<rparr>]"
  by (simp add: client_commands_def CmdHandler_AddCmd_def CmdHandler_init_def tx_def)

lemma connect_args:
  "parse_args (ConnectParser_ProcessParam stof) (given [(tx ''ip'', host), (tx ''p'', port)]) ConnectParser_params
      ConnectParser_DefaultParams
    = Inr (None, fold mark_found [tx ''ip'', tx ''p''] ConnectParser_params,
        ConnectParser_DefaultParams\<lparr>cn_ip := Some host, cn_port := Some port\<rparr>)"
  by (simp add: ConnectParser_ProcessParam_def list_ex_up_param param_defs) (simp add: tx_def)

lemma connect_runs:
  assumes "Client_Connect ok (Some host) (Some port) False 5 cl = (b, cl')"
  shows "Connect_command ok stof (given [(tx ''ip'', host), (tx ''p'', port)]) ConnectParser_params cl
    = Inr ([ConnectResult b (Some host) (Some port)], ConnectParser_params, cl')"
proof -
  have "missing (fold mark_found [tx ''ip'', tx ''p''] ConnectParser_params) = []"
    using missing_fold_mark [OF connect.names_distinct, of "[tx ''ip'', tx ''p'']"]
    by (simp only: missing_connect) simp
  then show ?thesis
    unfolding ParamParser_Parse_def connect_args
    by (simp add: ConnectParser_Execute_def ConnectParser_DefaultParams_def assms clear_connect)
qed

text \<open>C32: from the line to the call.  Typing \<open>connect -ip=host -p=port\<close>, for any host and port
  without blanks, dashes and equal signs, connects the client's connections to exactly these,
  with IPv4 and a time-out of 5 seconds, and says how it ended; the commands are as before.\<close>

theorem connect_line_connects:
  assumes "plain host" and "plain port" and "Client_Connect ok (Some host) (Some port) False 5 cl = (b, cl')"
  shows "\<exists>buf h'. CmdHandler_Process
      (tx ''connect'' @ concat (map param_text [(tx ''ip'', host), (tx ''p'', port)]) @ NUL # junk)
      (client_commands ok stof) cl
    = Inr (True, [ConnectResult b (Some host) (Some port)], buf, h', cl')
    \<and> ch_cmds h' = ch_cmds (client_commands ok stof)"
proof -
  have 1: "plain (tx ''connect'')" and 2: "list_all good_param [(tx ''ip'', host), (tx ''p'', port)]"
    and 3: "tx ''connect'' \<noteq> tx ''exit''" and 4: "tx ''connect'' \<noteq> tx ''help''"
    using assms(1,2) by (simp_all add: plain_def good_param_def tx_def char_defs)
  have "run_command (tx ''connect'') (given [(tx ''ip'', host), (tx ''p'', port)]) (ch_cmds (client_commands ok stof)) cl
      = Inr ([ConnectResult b (Some host) (Some port)], ch_cmds (client_commands ok stof), cl')"
    by (simp add: client_cmds connect_runs [OF assms(3)] del: given_simps)
  from Process_line [OF 1 2 3 4 this, of junk] show ?thesis by fastforce
qed

theorem connect_line_connects_witness:
  "\<exists>buf h'. CmdHandler_Process (tx ''connect -ip=host -p=80'' @ [0])
      (client_commands (\<lambda>_. True) (\<lambda>_. None)) (Client_init Suc () 1 0)
    = Inr (True, [ConnectResult True (Some (tx ''host'')) (Some (tx ''80''))], buf, h',
        call (Connect 1 (Some (tx ''host'')) (Some (tx ''80'')) False 5) (Client_init Suc () 1 0))"
proof -
  have 1: "plain (tx ''host'')" and 2: "plain (tx ''80'')" by (simp_all add: plain_def tx_def char_defs)
  have 3: "Client_Connect (\<lambda>_. True) (Some (tx ''host'')) (Some (tx ''80'')) False 5 (Client_init Suc () 1 0)
      = (True, call (Connect 1 (Some (tx ''host'')) (Some (tx ''80'')) False 5) (Client_init Suc () 1 0))"
    by (simp add: Client_Connect_def Client_init_clints)
  have "tx ''connect -ip=host -p=80'' @ [0]
      = tx ''connect'' @ concat (map param_text [(tx ''ip'', tx ''host''), (tx ''p'', tx ''80'')]) @ NUL # []"
    by (simp add: tx_def param_text_def char_defs)
  then show ?thesis
    using connect_line_connects [OF 1 2 3, of "[]" "\<lambda>_. None"] by auto
qed

text \<open>An error of the parser does not stop the command.  A line whose first equal sign comes
  before any parameter is reported as an error and then run all the same, without parameters:
  \<open>disconnect =\<close> disconnects.\<close>

theorem parse_error_still_runs:
  assumes "plain cmd" and "cmd \<noteq> tx ''exit''" and "cmd \<noteq> tx ''help''"
    and "run_command cmd [] (ch_cmds h) e = Inr (ms, cmds, e1)"
  shows "\<exists>buf h'. CmdHandler_Process (cmd @ [SPACE, EQUALS] @ rest) h e = Inr (True, ParseError # ms, buf, h', e1)
    \<and> ch_cmds h' = cmds"
proof -
  define cp0 where "cp0 = (ch_cmdParser h)\<lparr>cp_cmd := None, cp_args := []\<rparr>"
  have "parse_loop 0 0 (cmd @ SPACE # EQUALS # rest) cp0
      = parse_loop 0 (length (cmd @ [NUL])) ((cmd @ [NUL]) @ EQUALS # rest) (cp0\<lparr>cp_cmd := Some 0\<rparr>)"
    using parse_plain [OF assms(1), of 0 "[]" "SPACE # EQUALS # rest" cp0] parse_first_space [of cp0 0 cmd "EQUALS # rest"]
    by (simp add: cp0_def)
  also have "\<dots> = Inr (False, cmd @ [NUL, NUL] @ rest, cp0\<lparr>cp_cmd := Some 0\<rparr>)"
    using parse_equals_first [of "cp0\<lparr>cp_cmd := Some 0\<rparr>" 0 "cmd @ [NUL]" rest] by (simp add: cp0_def)
  finally have p: "CmdParser_ParseCmd 0 (cmd @ SPACE # EQUALS # rest) (ch_cmdParser h)
      = Inr (False, cmd @ [NUL, NUL] @ rest, cp0\<lparr>cp_cmd := Some 0\<rparr>)"
    by (simp add: CmdParser_ParseCmd_def cp0_def [symmetric])
  have "cstr (cmd @ [NUL, NUL] @ rest) 0 = cmd" using plain_cstr [OF assms(1), of "[]" "NUL # rest"] by simp
  then show ?thesis
    using p assms(2-)
    by (simp add: CmdHandler_Process_def CmdParser_CmdComp_def tcscmp_eq_def CmdParser_GetCmd_def
        CmdParser_GetArgs_def arg_strings_def cp0_def)
qed

theorem parse_error_still_runs_witness:
  "\<exists>buf h'. CmdHandler_Process (tx ''disconnect ='' @ [0]) (client_commands (\<lambda>_. True) (\<lambda>_. None)) (Client_init Suc () 1 0)
    = Inr (True, [ParseError], buf, h', Client_Disconnect (Client_init Suc () 1 0))"
proof -
  have 1: "plain (tx ''disconnect'')" and 2: "tx ''disconnect'' \<noteq> tx ''exit''" and 3: "tx ''disconnect'' \<noteq> tx ''help''"
    and 4: "tx ''connect'' \<noteq> tx ''disconnect''"
    by (simp_all add: plain_def tx_def char_defs)
  have 5: "run_command (tx ''disconnect'') [] (ch_cmds (client_commands (\<lambda>_. True) (\<lambda>_. None))) (Client_init Suc () 1 0)
      = Inr ([], ch_cmds (client_commands (\<lambda>_. True) (\<lambda>_. None)), Client_Disconnect (Client_init Suc () 1 0))"
    using 4 by (simp add: client_cmds ParamParser_Parse_def DisconnectParser_Execute_def missing_def clear_found_def
        DisconnectParser_params_def ParamParser_init_def)
  have "tx ''disconnect ='' @ [0] = tx ''disconnect'' @ [SPACE, EQUALS] @ [0]" by (simp add: tx_def char_defs)
  then show ?thesis using parse_error_still_runs [OF 1 2 3 5, of "[0]"] by auto
qed

lemma server_cmds:
  "ch_cmds (server_commands allowed) =
    [\<lparr>co_name = tx ''allowcon'', co_params = AllowConnParser_params,
        co_parse = ParamParser_Parse AllowConnParser_DefaultParams AllowConnParser_ProcessParam (AllowConnParser_Execute allowed)\<rparr>,
     \<lparr>co_name = tx ''shutdown'', co_params = ShutdownParser_params,
        co_parse = ParamParser_Parse () ShutdownParser_ProcessParam ShutdownParser_Execute\<rparr>]"
  by (simp add: server_commands_def CmdHandler_AddCmd_def CmdHandler_init_def tx_def)

text \<open>The defaults of \<open>allowcon\<close>.  \<open>allowcon -p=port\<close> allows connections on that port with 8
  threads, 4 of them concurrent, IPv4 and 2 concurrent accepts (the usage text and the README
  say 4).\<close>

theorem allowcon_line_defaults:
  assumes "plain port"
  shows "\<exists>buf h'. CmdHandler_Process (tx ''allowcon'' @ param_text (tx ''p'', port) @ NUL # junk)
      (server_commands allowed) calls
    = Inr (True, [AllowResult (allowed (calls @ [AllowConnections (Some port) 8 4 ipv4 2])) (Some port)], buf, h',
        calls @ [AllowConnections (Some port) 8 4 ipv4 2])"
proof -
  have 1: "plain (tx ''allowcon'')" and 2: "list_all good_param [(tx ''p'', port)]"
    and 3: "tx ''allowcon'' \<noteq> tx ''exit''" and 4: "tx ''allowcon'' \<noteq> tx ''help''"
    using assms by (simp_all add: plain_def good_param_def tx_def char_defs)
  have pa: "parse_args AllowConnParser_ProcessParam (given [(tx ''p'', port)]) AllowConnParser_params AllowConnParser_DefaultParams
      = Inr (None, mark_found (tx ''p'') AllowConnParser_params, AllowConnParser_DefaultParams\<lparr>al_port := Some port\<rparr>)"
    by (simp add: AllowConnParser_ProcessParam_def list_ex_up_param param_defs) (simp add: tx_def)
  have "missing (mark_found (tx ''p'') AllowConnParser_params) = []"
    by (simp add: missing_mark [OF allowcon.names_distinct]) (simp add: missing_def param_defs)
  then have "run_command (tx ''allowcon'') (given [(tx ''p'', port)]) (ch_cmds (server_commands allowed)) calls
      = Inr ([AllowResult (allowed (calls @ [AllowConnections (Some port) 8 4 ipv4 2])) (Some port)],
          ch_cmds (server_commands allowed), calls @ [AllowConnections (Some port) 8 4 ipv4 2])"
    using pa by (simp add: server_cmds ParamParser_Parse_def AllowConnParser_Execute_def AllowConnParser_DefaultParams_def
        clear_found_def param_defs Let_def del: given_simps)
  from Process_line [OF 1 2 3 4 this, of junk] show ?thesis by fastforce
qed

theorem allowcon_line_defaults_witness:
  "\<exists>buf h'. CmdHandler_Process (tx ''allowcon -p=80'' @ [0]) (server_commands (\<lambda>_. True)) []
    = Inr (True, [AllowResult True (Some (tx ''80''))], buf, h', [AllowConnections (Some (tx ''80'')) 8 4 ipv4 2])"
proof -
  have 1: "plain (tx ''80'')" by (simp add: plain_def tx_def char_defs)
  have "tx ''allowcon -p=80'' @ [0] = tx ''allowcon'' @ param_text (tx ''p'', tx ''80'') @ NUL # []"
    by (simp add: tx_def param_text_def char_defs)
  then show ?thesis using allowcon_line_defaults [OF 1, of "[]" "\<lambda>_. True" "[]"] by auto
qed

end
