(* ===== verification/Sync.thy ===== *)
theory Sync
  imports Base
begin

text \<open>
  Events and timers (\<open>Common/Event.cpp\<close>, \<open>Common/WaitableTimer.cpp\<close>).

  Every operation of an event holds its mutex, so it is one step.  A wait gives the mutex up
  while it sleeps: \<open>wakes\<close> are the states it finds at its wake-ups, in order, and a wait that
  is still asleep after the last is \<open>None\<close>; \<open>later\<close> is the state a timed wait finds when it
  ends.  A timer is what was asked of the system.
\<close>

section \<open>Event\<close>

record event =
  ev_isSet :: bool

definition Event_init :: "bool \<Rightarrow> event" where
  "Event_init initialState = \<lparr>ev_isSet = initialState\<rparr>"

definition Event_Set :: "event \<Rightarrow> event" where
  "Event_Set e = e\<lparr>ev_isSet := True\<rparr>"

definition Event_Reset :: "event \<Rightarrow> event" where
  "Event_Reset e = e\<lparr>ev_isSet := False\<rparr>"

text \<open>\<open>cv.wait(lock, pred)\<close>.\<close>

fun cv_wait :: "('e \<Rightarrow> bool) \<Rightarrow> 'e \<Rightarrow> 'e list \<Rightarrow> 'e option" where
  "cv_wait pred e [] = (if pred e then Some e else None)"
| "cv_wait pred e (w # ws) = (if pred e then Some e else cv_wait pred w ws)"

definition Event_Wait :: "event \<Rightarrow> event list \<Rightarrow> event option" where
  "Event_Wait e wakes = (if ev_isSet e then Some e else cv_wait ev_isSet e wakes)"

definition Event_WaitFor :: "event \<Rightarrow> event \<Rightarrow> bool \<times> event" where
  "Event_WaitFor e later = (if ev_isSet e then (True, e) else (ev_isSet later, later))"

section \<open>EventAutoReset\<close>

record event_auto =
  ea_counter :: u32
  ea_isSet :: bool

definition EventAutoReset_init :: "bool \<Rightarrow> event_auto" where
  "EventAutoReset_init initialState = \<lparr>ea_counter = 0, ea_isSet = initialState\<rparr>"

definition EventAutoReset_Set :: "u32 \<Rightarrow> event_auto \<Rightarrow> event_auto" where
  "EventAutoReset_Set waitCount e = e\<lparr>ea_counter := waitCount, ea_isSet := True\<rparr>"

definition EventAutoReset_Reset :: "event_auto \<Rightarrow> event_auto" where
  "EventAutoReset_Reset e = e\<lparr>ea_counter := 0, ea_isSet := False\<rparr>"

definition count_down :: "event_auto \<Rightarrow> event_auto" where
  "count_down e =
     (let e1 = e\<lparr>ea_counter := ea_counter e - 1\<rparr>
      in if ea_counter e1 = 0 then e1\<lparr>ea_isSet := False\<rparr> else e1)"

definition EventAutoReset_Wait :: "event_auto \<Rightarrow> event_auto list \<Rightarrow> event_auto option" where
  "EventAutoReset_Wait e wakes =
     (if ea_isSet e then Some (count_down e)
      else map_option count_down (cv_wait ea_isSet e wakes))"

definition EventAutoReset_WaitFor :: "event_auto \<Rightarrow> event_auto \<Rightarrow> bool \<times> event_auto" where
  "EventAutoReset_WaitFor e later =
     (if ea_isSet e then (True, count_down e)
      else if ea_isSet later then (True, count_down later)
      else (False, later))"

section \<open>WaitableTimer\<close>

datatype timer_handle = NullTimer | OpenTimer | InvalidTimer

record timer =
  tm_handle :: timer_handle
  tm_manualReset :: bool
  tm_due :: "int option"
  tm_period :: int

definition WaitableTimer_init :: "bool \<Rightarrow> bool \<Rightarrow> timer" where
  "WaitableTimer_init created autoReset =
     \<lparr>tm_handle = (if created then OpenTimer else NullTimer), tm_manualReset = \<not> autoReset, tm_due = None, tm_period = 0\<rparr>"

definition WaitableTimer_Cancel :: "bool \<Rightarrow> timer \<Rightarrow> bool \<times> timer" where
  "WaitableTimer_Cancel ok t = (ok, t\<lparr>tm_due := None\<rparr>)"

text \<open>\<open>LI.QuadPart\<close>: the product is taken in 32 bits (a signed overflow, here as the machine does
  it) and widened afterwards; a negative value is a relative time in units of 100 ns.\<close>

definition due_time :: "u32 \<Rightarrow> int" where
  "due_time timeMilli = sint (timeMilli * (- 10000))"

text \<open>\<open>SetWaitableTimer\<close> with a period \<open>(LONG)timeMilli\<close>; it refuses a negative period.\<close>

definition WaitableTimer_Set :: "u32 \<Rightarrow> timer \<Rightarrow> bool \<times> timer" where
  "WaitableTimer_Set timeMilli t =
     (if tm_handle t = OpenTimer \<and> 0 \<le> sint timeMilli
      then (True, t\<lparr>tm_due := Some (due_time timeMilli), tm_period := sint timeMilli\<rparr>)
      else (False, t))"

definition WaitableTimer_destroy :: "timer \<Rightarrow> timer" where
  "WaitableTimer_destroy t =
     (if tm_handle t \<noteq> InvalidTimer
      then (snd (WaitableTimer_Cancel (tm_handle t = OpenTimer) t))\<lparr>tm_handle := InvalidTimer\<rparr> else t)"

definition WaitableTimer_GetHandle :: "timer \<Rightarrow> timer_handle" where
  "WaitableTimer_GetHandle t = tm_handle t"

definition WAIT_OBJECT_0 :: u32 where "WAIT_OBJECT_0 = 0"

text \<open>\<open>wait\<close> is what \<open>WaitForSingleObject\<close> returns.\<close>

definition WaitableTimer_Wait :: "u32 \<Rightarrow> bool" where
  "WaitableTimer_Wait wait \<longleftrightarrow> wait = WAIT_OBJECT_0"

section \<open>How often an event releases\<close>

text \<open>\<open>n\<close> waits on an event no one sets again: how many of them return.\<close>

fun waits :: "nat \<Rightarrow> event_auto \<Rightarrow> nat \<times> event_auto" where
  "waits 0 e = (0, e)"
| "waits (Suc n) e =
     (case EventAutoReset_Wait e [] of
        None \<Rightarrow> waits n e
      | Some e1 \<Rightarrow> (let (k, e2) = waits n e1 in (Suc k, e2)))"

lemma waits_unset: "\<not> ea_isSet e \<Longrightarrow> waits n e = (0, e)"
  by (induction n) (simp_all add: EventAutoReset_Wait_def)

text \<open>How many waits are left: the counter, where 0 stands for \<open>2^32\<close>.\<close>

definition releases :: "u32 \<Rightarrow> nat" where
  "releases c = (if c = 0 then 2 ^ 32 else unat c)"

lemma releases_count_down:
  "releases c = Suc (if c - 1 = 0 then 0 else releases (c - 1))"
proof (cases "c = 0")
  case True
  have "unat (- 1 :: u32) = 2 ^ 32 - 1" by (simp add: unsigned_minus_1_eq_mask mask_eq_exp_minus_1)
  then show ?thesis using True by (simp add: releases_def)
next
  case False
  then have "unat (c - 1) = unat c - 1" and "0 < unat c"
    by (simp_all add: unat_minus_one unat_gt_0)
  moreover have "c - 1 = 0 \<longleftrightarrow> unat c = 1"
    using calculation by (metis One_nat_def Suc_pred unat_eq_zero unat_0 Suc_inject diff_Suc_1)
  ultimately show ?thesis using False by (auto simp: releases_def)
qed

lemma waits_set: "ea_isSet e \<Longrightarrow> fst (waits n e) = min n (releases (ea_counter e))"
proof (induction n arbitrary: e)
  case (Suc n)
  let ?c = "ea_counter e"
  have w: "EventAutoReset_Wait e [] = Some (count_down e)"
    using Suc.prems by (simp add: EventAutoReset_Wait_def)
  have "fst (waits n (count_down e)) = min n (if ?c - 1 = 0 then 0 else releases (?c - 1))"
  proof (cases "?c - 1 = 0")
    case True
    then have "\<not> ea_isSet (count_down e)" by (simp add: count_down_def Let_def)
    then show ?thesis using True by (simp add: waits_unset)
  next
    case False
    then have "ea_isSet (count_down e)" "ea_counter (count_down e) = ?c - 1"
      using Suc.prems by (simp_all add: count_down_def Let_def)
    then show ?thesis using Suc.IH [of "count_down e"] False by simp
  qed
  then show ?case using w releases_count_down [of ?c] by (simp add: case_prod_beta Let_def)
qed (simp add: releases_def)

text \<open>An auto-reset event releases as many waits as it was set for, and then none, if the
  number is not 0.  Set for 0 waits, or set in the constructor, it releases \<open>2^32\<close> waits: the
  counter wraps around.\<close>

theorem autoreset_releases:
  "fst (waits n (EventAutoReset_Set c e)) = min n (if c = 0 then 2 ^ 32 else unat c)
    \<and> fst (waits n (EventAutoReset_init True)) = min n (2 ^ 32)
    \<and> fst (waits n (EventAutoReset_init False)) = 0
    \<and> fst (waits n (EventAutoReset_Reset e)) = 0"
  using waits_set [of "EventAutoReset_Set c e" n] waits_set [of "EventAutoReset_init True" n]
  by (simp add: EventAutoReset_Set_def EventAutoReset_init_def EventAutoReset_Reset_def releases_def waits_unset)

text \<open>The due time of a timer.  It is \<open>timeMilli\<close> milliseconds from now exactly up to 214748;
  from there on the product wraps, for 214749 to a positive number, which the system takes as
  a point in the past.  The interval of the server's workers is below the bound.\<close>

theorem timer_due_time:
  "(due_time t = - 10000 * int (unat t) \<longleftrightarrow> unat t \<le> 214748) \<and> 0 < due_time 214749"
proof -
  define x where "x = uint t"
  have "t * (- 10000) = word_of_int (- 10000 * x)"
    by (simp add: x_def mult.commute)
  then have eq: "due_time t = signed_take_bit 31 (- 10000 * x)"
    unfolding due_time_def by (simp only: sint_sbintrunc') simp
  have x: "0 \<le> x" "int (unat t) = x" by (simp_all add: x_def)
  have "due_time t = - 10000 * x \<longleftrightarrow> x \<le> 214748"
  proof
    assume "due_time t = - 10000 * x"
    moreover have "- (2 ^ 31) \<le> due_time t" unfolding eq by (rule signed_take_bit_int_greater_eq_minus_exp)
    ultimately show "x \<le> 214748" by simp
  next
    assume "x \<le> 214748"
    then show "due_time t = - 10000 * x" unfolding eq using x(1) by (intro signed_take_bit_int_eq_self) simp_all
  qed
  moreover have "0 < due_time 214749" by (simp add: due_time_def)
  ultimately show ?thesis using x(2) by (simp add: nat_le_iff) (metis x(2) of_nat_le_iff of_nat_numeral)
qed

end
