(* ===== verification/HeapAlloc.thy ===== *)
theory HeapAlloc
  imports Base
begin

text \<open>
  The allocation layer (\<open>Common/CNLIB/HeapAlloc.h\<close>): blocks from a Windows heap, objects
  constructed in them one by one or as arrays, the allocators and deleters made of these.

  A heap is the sizes of its blocks and the 64-bit words stored in them (only the element
  count before an array is ever read back); which objects were constructed and destructed
  is recorded in order.  An object is its address; of its type \<open>T\<close> only the size and whether it
  is trivially destructible matter.  Where the system places a block is the parameter
  \<open>place\<close>, with the law \<open>place_law\<close>: it is not null and no block of the heap has it,
  as long as these are finitely many.
  \<open>size_t\<close> has 64 bits; \<open>HEAP_GENERATE_EXCEPTIONS\<close> makes a failed allocation end the program,
  which is not modelled.
\<close>

section \<open>Heaps\<close>

datatype obj_event = Constructed nat | Destructed nat

record heap =
  hp_blocks :: "nat \<rightharpoonup> nat"
  hp_words :: "nat \<Rightarrow> u64"
  hp_log :: "obj_event list"

definition place_law :: "(heap \<Rightarrow> nat) \<Rightarrow> bool" where
  "place_law place \<longleftrightarrow>
     (\<forall>h. finite (dom (hp_blocks h)) \<longrightarrow> 0 < place h \<and> place h \<notin> dom (hp_blocks h))"

record obj_type =
  ty_size :: u64
  ty_trivial :: bool

definition sizeof_size :: nat where "sizeof_size = 8"

definition HeapAlloc_sys :: "(heap \<Rightarrow> nat) \<Rightarrow> u64 \<Rightarrow> heap \<Rightarrow> nat \<times> heap" where
  "HeapAlloc_sys place sz h = (place h, h\<lparr>hp_blocks := (hp_blocks h)(place h \<mapsto> unat sz)\<rparr>)"

definition HeapFree_sys :: "nat \<Rightarrow> heap \<Rightarrow> heap res" where
  "HeapFree_sys p h =
     (if p \<in> dom (hp_blocks h) then Inr (h\<lparr>hp_blocks := (hp_blocks h)(p := None)\<rparr>) else Inl OutOfBounds)"

definition HeapSize_sys :: "nat \<Rightarrow> heap \<Rightarrow> nat res" where
  "HeapSize_sys p h = (case hp_blocks h p of None \<Rightarrow> Inl NullDeref | Some n \<Rightarrow> Inr n)"

text \<open>The block may move; what it held does not matter here.\<close>

definition HeapReAlloc_sys :: "(heap \<Rightarrow> nat) \<Rightarrow> nat \<Rightarrow> nat \<Rightarrow> heap \<Rightarrow> (nat \<times> heap) res" where
  "HeapReAlloc_sys place p sz h =
     rbind (HeapFree_sys p h) (\<lambda>h1.
       Inr (place h1, h1\<lparr>hp_blocks := (hp_blocks h1)(place h1 \<mapsto> sz)\<rparr>))"

section \<open>Construction at a place\<close>

definition log_obj :: "obj_event \<Rightarrow> heap \<Rightarrow> heap" where
  "log_obj e h = h\<lparr>hp_log := hp_log h @ [e]\<rparr>"

definition pmconstruct :: "nat \<Rightarrow> heap \<Rightarrow> (nat \<times> heap) res" where
  "pmconstruct ptr h = (if ptr = 0 then Inl NullDeref else Inr (ptr, log_obj (Constructed ptr) h))"

definition pmdestruct :: "nat \<Rightarrow> heap \<Rightarrow> heap" where
  "pmdestruct p h = (if p \<noteq> 0 then log_obj (Destructed p) h else h)"

text \<open>\<open>new(ptr) T[n]{...}\<close>: if \<open>T\<close> has a destructor the compiler stores \<open>n\<close> in front and the
  elements follow it.\<close>

fun construct_elems :: "nat \<Rightarrow> nat \<Rightarrow> nat \<Rightarrow> heap \<Rightarrow> heap" where
  "construct_elems sz p 0 h = h"
| "construct_elems sz p (Suc n) h = construct_elems sz (p + sz) n (log_obj (Constructed p) h)"

definition pmconstructa :: "obj_type \<Rightarrow> nat \<Rightarrow> nat \<Rightarrow> heap \<Rightarrow> nat \<times> heap" where
  "pmconstructa ty ptr n h =
     (if ty_trivial ty then (ptr, construct_elems (unat (ty_size ty)) ptr n h)
      else (ptr + sizeof_size, construct_elems (unat (ty_size ty)) (ptr + sizeof_size) n
              (h\<lparr>hp_words := (hp_words h)(ptr := of_nat n)\<rparr>)))"

fun destruct_loop :: "nat \<Rightarrow> nat \<Rightarrow> nat \<Rightarrow> heap \<Rightarrow> nat \<times> heap" where
  "destruct_loop sz 0 p h = (p, h)"
| "destruct_loop sz (Suc n) p h = destruct_loop sz n (p + sz) (pmdestruct p h)"

text \<open>The pointer is a reference and is left at the start of the block.\<close>

definition pmdestructa :: "obj_type \<Rightarrow> nat \<Rightarrow> heap \<Rightarrow> nat \<times> heap" where
  "pmdestructa ty p h =
     (if p \<noteq> 0 \<and> \<not> ty_trivial ty
      then (let count = unat (hp_words h (p - sizeof_size));
                size = unat (ty_size ty) * count + sizeof_size;
                (q, h1) = destruct_loop (unat (ty_size ty)) count p h
            in (q - size, h1))
      else (p, h))"

section \<open>Alloc\<close>

text \<open>\<open>sizeof(T) * count\<close> is a \<open>size_t\<close>.\<close>

definition Alloc_alloc :: "(heap \<Rightarrow> nat) \<Rightarrow> obj_type \<Rightarrow> u64 \<Rightarrow> heap \<Rightarrow> nat \<times> heap" where
  "Alloc_alloc place ty count h =
     (if count \<noteq> 0 then HeapAlloc_sys place (ty_size ty * count) h else (0, h))"

definition Alloc_dealloc :: "nat \<Rightarrow> heap \<Rightarrow> (nat \<times> heap) res" where
  "Alloc_dealloc p h = (if p \<noteq> 0 then rbind (HeapFree_sys p h) (\<lambda>h1. Inr (0, h1)) else Inr (p, h))"

definition Alloc_construct :: "(heap \<Rightarrow> nat) \<Rightarrow> obj_type \<Rightarrow> heap \<Rightarrow> (nat \<times> heap) res" where
  "Alloc_construct place ty h = (let (p, h1) = Alloc_alloc place ty 1 h in pmconstruct p h1)"

definition Alloc_destruct :: "nat \<Rightarrow> heap \<Rightarrow> (nat \<times> heap) res" where
  "Alloc_destruct p h = Alloc_dealloc p (pmdestruct p h)"

definition Alloc_constructa :: "(heap \<Rightarrow> nat) \<Rightarrow> obj_type \<Rightarrow> nat \<Rightarrow> heap \<Rightarrow> (nat \<times> heap) res" where
  "Alloc_constructa place ty n h =
     (let (p, h1) = Alloc_alloc place ty (of_nat n) h
      in if \<not> ty_trivial ty
         then rbind (HeapSize_sys p h1) (\<lambda>size.
              rbind (HeapReAlloc_sys place p (sizeof_size + size) h1) (\<lambda>(p1, h2).
                Inr (pmconstructa ty p1 n h2)))
         else Inr (pmconstructa ty p n h1))"

definition Alloc_destructa :: "obj_type \<Rightarrow> nat \<Rightarrow> heap \<Rightarrow> (nat \<times> heap) res" where
  "Alloc_destructa ty p h = (let (q, h1) = pmdestructa ty p h in Alloc_dealloc q h1)"

text \<open>The life of an \<open>Alloc\<close> object: the process heap is never destroyed; a moved-from object has
  the null handle.\<close>

datatype heap_handle = NoHeap | ProcessHeap | PrivateHeap nat

definition Alloc_default :: heap_handle where
  "Alloc_default = ProcessHeap"

definition Alloc_create :: "nat \<Rightarrow> (nat \<rightharpoonup> heap) \<Rightarrow> heap_handle \<times> (nat \<rightharpoonup> heap)" where
  "Alloc_create i heaps =
     (PrivateHeap i, heaps(i \<mapsto> \<lparr>hp_blocks = Map.empty, hp_words = (\<lambda>_. 0), hp_log = []\<rparr>))"

text \<open>An object made from a handle owns the heap like one that created it: two made from the same
  handle both destroy it.\<close>

definition Alloc_of_handle :: "heap_handle \<Rightarrow> heap_handle" where
  "Alloc_of_handle hdl = hdl"

definition Alloc_move :: "heap_handle \<Rightarrow> heap_handle \<times> heap_handle" where
  "Alloc_move al = (al, NoHeap)"

definition Alloc_destroy :: "heap_handle \<Rightarrow> (nat \<rightharpoonup> heap) \<Rightarrow> (nat \<rightharpoonup> heap)" where
  "Alloc_destroy al heaps = (case al of PrivateHeap i \<Rightarrow> heaps(i := None) | _ \<Rightarrow> heaps)"

section \<open>The free functions, the allocators, the deleters\<close>

text \<open>The free functions act on \<open>ProcHeap\<close>.\<close>

definition alloc :: "(heap \<Rightarrow> nat) \<Rightarrow> obj_type \<Rightarrow> u64 \<Rightarrow> heap \<Rightarrow> nat \<times> heap" where
  "alloc = Alloc_alloc"

definition dealloc :: "nat \<Rightarrow> heap \<Rightarrow> (nat \<times> heap) res" where
  "dealloc = Alloc_dealloc"

definition construct :: "(heap \<Rightarrow> nat) \<Rightarrow> obj_type \<Rightarrow> heap \<Rightarrow> (nat \<times> heap) res" where
  "construct = Alloc_construct"

definition destruct :: "nat \<Rightarrow> heap \<Rightarrow> (nat \<times> heap) res" where
  "destruct = Alloc_destruct"

definition constructa :: "(heap \<Rightarrow> nat) \<Rightarrow> obj_type \<Rightarrow> nat \<Rightarrow> heap \<Rightarrow> (nat \<times> heap) res" where
  "constructa = Alloc_constructa"

definition destructa :: "obj_type \<Rightarrow> nat \<Rightarrow> heap \<Rightarrow> (nat \<times> heap) res" where
  "destructa = Alloc_destructa"

definition HeapAllocator_max_size :: "obj_type \<Rightarrow> u64" where
  "HeapAllocator_max_size ty = - 1 div ty_size ty"

definition HeapAllocator_allocate :: "(heap \<Rightarrow> nat) \<Rightarrow> obj_type \<Rightarrow> u64 \<Rightarrow> heap \<Rightarrow> nat \<times> heap" where
  "HeapAllocator_allocate place ty n = alloc place ty n"

text \<open>The pointer is passed by value: the caller's keeps its value.\<close>

definition HeapAllocator_deallocate :: "nat \<Rightarrow> u64 \<Rightarrow> heap \<Rightarrow> heap res" where
  "HeapAllocator_deallocate p n h = rbind (dealloc p h) (\<lambda>(q, h1). Inr h1)"

definition HeapAllocator_construct :: "nat \<Rightarrow> heap \<Rightarrow> heap res" where
  "HeapAllocator_construct p h = rbind (pmconstruct p h) (\<lambda>(q, h1). Inr h1)"

definition HeapAllocator_destroy :: "nat \<Rightarrow> heap \<Rightarrow> heap" where
  "HeapAllocator_destroy = pmdestruct"

definition HeapAllocator_eq :: bool where "HeapAllocator_eq = True"
definition HeapAllocator_neq :: bool where "HeapAllocator_neq = False"

text \<open>\<open>PageAllignAllocator\<close>: \<open>VirtualAlloc\<close> rounds up to whole pages and can fail (\<open>page\<close> is
  \<open>None\<close>); \<open>VirtualFree\<close> ignores an address that is no region's start.\<close>

definition PageAllignAllocator_allocate :: "(heap \<Rightarrow> nat option) \<Rightarrow> obj_type \<Rightarrow> u64 \<Rightarrow> heap \<Rightarrow> nat \<times> heap" where
  "PageAllignAllocator_allocate page ty n h =
     (case page h of
        None \<Rightarrow> (0, h)
      | Some a \<Rightarrow>
          if n * ty_size ty = 0 then (0, h)
          else (a, h\<lparr>hp_blocks := (hp_blocks h)(a \<mapsto> (unat (n * ty_size ty) + 4095) div 4096 * 4096)\<rparr>))"

definition PageAllignAllocator_deallocate :: "nat \<Rightarrow> u64 \<Rightarrow> heap \<Rightarrow> heap" where
  "PageAllignAllocator_deallocate p n h = h\<lparr>hp_blocks := (hp_blocks h)(p := None)\<rparr>"

definition PageAllignAllocator_max_size :: "obj_type \<Rightarrow> u64" where
  "PageAllignAllocator_max_size ty = - 1 div ty_size ty"

definition PageAllignAllocator_construct :: "nat \<Rightarrow> heap \<Rightarrow> heap res" where
  "PageAllignAllocator_construct p h = rbind (pmconstruct p h) (\<lambda>(q, h1). Inr h1)"

definition PageAllignAllocator_destroy :: "nat \<Rightarrow> heap \<Rightarrow> heap" where
  "PageAllignAllocator_destroy = pmdestruct"

definition PageAllignAllocator_eq :: bool where "PageAllignAllocator_eq = True"
definition PageAllignAllocator_neq :: bool where "PageAllignAllocator_neq = False"

definition deleter :: "nat \<Rightarrow> heap \<Rightarrow> heap res" where
  "deleter t h = rbind (dealloc t h) (\<lambda>(q, h1). Inr h1)"

definition deleterc :: "nat \<Rightarrow> heap \<Rightarrow> heap res" where
  "deleterc t h = rbind (destruct t h) (\<lambda>(q, h1). Inr h1)"

definition pmdeleter :: "nat \<Rightarrow> heap \<Rightarrow> heap" where
  "pmdeleter = pmdestruct"

definition deleterca :: "obj_type \<Rightarrow> nat \<Rightarrow> heap \<Rightarrow> heap res" where
  "deleterca ty t h = rbind (destructa ty t h) (\<lambda>(q, h1). Inr h1)"

text \<open>The smart pointers: a pointer with the deleter that fits how it was made.  When its last
  owner goes, a \<open>shared_ptr\<close> calls the deleter on the pointer it was given, a \<open>unique_ptr\<close> only
  if that is not null.\<close>

datatype deleter_kind = Deleter | DeleterC | DeleterCA | PmDeleter

definition m_sp :: "nat \<Rightarrow> nat \<times> deleter_kind" where "m_sp p = (p, Deleter)"
definition m_csp :: "nat \<Rightarrow> nat \<times> deleter_kind" where "m_csp p = (p, DeleterC)"
definition m_casp :: "nat \<Rightarrow> nat \<times> deleter_kind" where "m_casp p = (p, DeleterCA)"
definition m_pmsp :: "nat \<Rightarrow> nat \<times> deleter_kind" where "m_pmsp p = (p, PmDeleter)"

definition uqp :: "nat \<Rightarrow> nat \<times> deleter_kind" where "uqp p = (p, Deleter)"
definition uqpc :: "nat \<Rightarrow> nat \<times> deleter_kind" where "uqpc p = (p, DeleterC)"
definition uqpca :: "nat \<Rightarrow> nat \<times> deleter_kind" where "uqpca p = (p, DeleterCA)"
definition pmuqp :: "nat \<Rightarrow> nat \<times> deleter_kind" where "pmuqp p = (p, PmDeleter)"

definition shared_release :: "obj_type \<Rightarrow> nat \<times> deleter_kind \<Rightarrow> heap \<Rightarrow> heap res" where
  "shared_release ty sp h = (case sp of
       (p, Deleter) \<Rightarrow> deleter p h
     | (p, DeleterC) \<Rightarrow> deleterc p h
     | (p, DeleterCA) \<Rightarrow> deleterca ty p h
     | (p, PmDeleter) \<Rightarrow> Inr (pmdeleter p h))"

definition unique_release :: "obj_type \<Rightarrow> nat \<times> deleter_kind \<Rightarrow> heap \<Rightarrow> heap res" where
  "unique_release ty up h = (if fst up = 0 then Inr h else shared_release ty up h)"

section \<open>Objects and arrays come and go\<close>

lemma log_obj_simps [simp]:
  "hp_blocks (log_obj e h) = hp_blocks h" "hp_words (log_obj e h) = hp_words h"
  "hp_log (log_obj e h) = hp_log h @ [e]"
  by (simp_all add: log_obj_def)

definition elems_at :: "nat \<Rightarrow> nat \<Rightarrow> nat \<Rightarrow> nat list" where
  "elems_at sz p n = map (\<lambda>i. p + i * sz) [0..<n]"

lemma elems_at_Suc: "elems_at sz p (Suc n) = p # elems_at sz (p + sz) n"
  by (simp add: elems_at_def map_upt_Suc ac_simps del: upt_Suc)

lemma construct_elems_eq:
  "construct_elems sz p n h = h\<lparr>hp_log := hp_log h @ map Constructed (elems_at sz p n)\<rparr>"
  by (induction n arbitrary: p h) (simp_all add: elems_at_Suc log_obj_def, simp add: elems_at_def)

lemma destruct_loop_eq:
  "0 < p \<Longrightarrow> destruct_loop sz n p h = (p + n * sz, h\<lparr>hp_log := hp_log h @ map Destructed (elems_at sz p n)\<rparr>)"
  by (induction n arbitrary: p h)
    (simp_all add: elems_at_Suc pmdestruct_def log_obj_def ac_simps, simp add: elems_at_def)

text \<open>The two ways of an array: a type without a destructor has no count in front; otherwise the
  block is made larger for the count.\<close>

lemma trivial_array:
  assumes p: "0 < p" "hp_blocks h p = None"
    and al: "Alloc_alloc place ty (of_nat n) h = (p, h\<lparr>hp_blocks := (hp_blocks h)(p \<mapsto> k)\<rparr>)" and ty: "ty_trivial ty"
  shows "\<exists>h1. Alloc_constructa place ty n h = Inr (p, h1) \<and> hp_blocks h1 = (hp_blocks h)(p \<mapsto> k)
    \<and> Alloc_destructa ty p h1 = Inr (0, h1\<lparr>hp_blocks := hp_blocks h\<rparr>)
    \<and> hp_log h1 = hp_log h @ map Constructed (elems_at (unat (ty_size ty)) p n)"
proof -
  let ?h = "h\<lparr>hp_blocks := (hp_blocks h)(p \<mapsto> k)\<rparr>"
  have "Alloc_constructa place ty n h = Inr (p, construct_elems (unat (ty_size ty)) p n ?h)"
    using ty al by (simp add: Alloc_constructa_def pmconstructa_def)
  then show ?thesis using ty p fun_upd_idem [of "hp_blocks h" p None]
    by (simp add: construct_elems_eq Alloc_destructa_def pmdestructa_def Alloc_dealloc_def HeapFree_sys_def)
qed

lemma counted_array:
  assumes law: "place_law place" and fin: "finite (dom (hp_blocks h))" and p: "hp_blocks h p = None"
    and al: "Alloc_alloc place ty (of_nat n) h = (p, h\<lparr>hp_blocks := (hp_blocks h)(p \<mapsto> k)\<rparr>)" and ty: "\<not> ty_trivial ty"
  shows "\<exists>a h1. Alloc_constructa place ty n h = Inr (a + 8, h1) \<and> 0 < a \<and> hp_blocks h a = None
    \<and> hp_blocks h1 = (hp_blocks h)(a \<mapsto> 8 + k) \<and> hp_words h1 a = of_nat n
    \<and> hp_log h1 = hp_log h @ map Constructed (elems_at (unat (ty_size ty)) (a + 8) n)"
proof -
  define h0 where "h0 = h\<lparr>hp_blocks := (hp_blocks h)(p \<mapsto> k)\<rparr>"
  define hf where "hf = h0\<lparr>hp_blocks := (hp_blocks h0)(p := None)\<rparr>"
  have bf: "hp_blocks hf = hp_blocks h" using p by (auto simp: hf_def h0_def)
  define a where "a = place hf"
  have a: "0 < a" "hp_blocks h a = None" using law fin unfolding place_law_def a_def bf [symmetric] by auto
  define h2 where "h2 = hf\<lparr>hp_blocks := (hp_blocks hf)(a \<mapsto> 8 + k)\<rparr>"
  have "HeapSize_sys p h0 = Inr k" by (simp add: HeapSize_sys_def h0_def)
  moreover have "HeapReAlloc_sys place p (sizeof_size + k) h0 = Inr (a, h2)"
    by (simp add: HeapReAlloc_sys_def HeapFree_sys_def hf_def [symmetric] a_def h2_def sizeof_size_def)
      (simp add: h0_def hf_def)
  ultimately have "Alloc_constructa place ty n h = Inr (a + 8,
      construct_elems (unat (ty_size ty)) (a + 8) n (h2\<lparr>hp_words := (hp_words h2)(a := of_nat n)\<rparr>))"
    using ty al by (simp add: Alloc_constructa_def pmconstructa_def sizeof_size_def h0_def)
  then show ?thesis using a bf
    by (intro exI [of _ a]) (simp add: construct_elems_eq h2_def hf_def h0_def)
qed

lemma counted_array_freed:
  assumes h: "hp_words h a = of_nat n" "hp_blocks h = b(a \<mapsto> k)" "b a = None" "0 < a"
    and n: "n < 2 ^ 64" and ty: "\<not> ty_trivial ty" "0 < unat (ty_size ty)"
  shows "Alloc_destructa ty (a + 8) h = Inr (0, h\<lparr>
    hp_log := hp_log h @ map Destructed (elems_at (unat (ty_size ty)) (a + 8) n), hp_blocks := b\<rparr>)"
proof -
  have "unat (of_nat n :: u64) = n" using n by (simp add: unat_of_nat_small)
  then have "pmdestructa ty (a + 8) h
      = (a, h\<lparr>hp_log := hp_log h @ map Destructed (elems_at (unat (ty_size ty)) (a + 8) n)\<rparr>)"
    using ty h(1) by (simp add: pmdestructa_def sizeof_size_def destruct_loop_eq Let_def mult.commute)
  moreover have "(hp_blocks h)(a := None) = b" using h(2,3) by (auto simp: fun_eq_iff)
  ultimately show ?thesis using h(2,4) by (simp add: Alloc_destructa_def Alloc_dealloc_def HeapFree_sys_def)
qed

text \<open>An array comes and goes.  \<open>constructa\<close> of \<open>n > 0\<close> elements whose size fits returns a
  pointer into one new block that holds the count and the elements; \<open>destructa\<close> of that
  pointer gives exactly that block back.  In between, every element is constructed once and
  destructed once, in the same order, unless the type needs no destructor.\<close>

theorem array_lifetime:
  assumes law: "place_law place" and fin: "finite (dom (hp_blocks h))"
    and n: "0 < n" "ty_size ty \<noteq> 0" "unat (ty_size ty) * n < 2 ^ 64"
  shows "\<exists>p h1 a h2. Alloc_constructa place ty n h = Inr (p, h1)
    \<and> hp_blocks h1 = (hp_blocks h)(a \<mapsto> unat (ty_size ty) * n + (if ty_trivial ty then 0 else 8))
    \<and> a \<notin> dom (hp_blocks h) \<and> p = a + (if ty_trivial ty then 0 else 8)
    \<and> Alloc_destructa ty p h1 = Inr (0, h2) \<and> hp_blocks h2 = hp_blocks h
    \<and> hp_log h2 = hp_log h @ map Constructed (elems_at (unat (ty_size ty)) p n)
        @ (if ty_trivial ty then [] else map Destructed (elems_at (unat (ty_size ty)) p n))"
proof -
  let ?s = "unat (ty_size ty)"
  have s: "0 < ?s" using n(2) by (simp add: unat_gt_0)
  then have "n \<le> ?s * n" by simp
  then have n64: "n < 2 ^ 64" using n(3) by linarith
  have un: "unat (of_nat n :: u64) = n" using n64 by (simp add: unat_of_nat_small)
  then have nz: "(of_nat n :: u64) \<noteq> 0" using n(1) by (metis unat_0 less_irrefl)
  have size: "unat (ty_size ty * of_nat n) = ?s * n"
    using n(3) un by (simp add: unat_word_ariths)
  define p0 where "p0 = place h"
  have p0: "0 < p0" "hp_blocks h p0 = None" using law fin by (auto simp: place_law_def p0_def)
  have al: "Alloc_alloc place ty (of_nat n) h = (p0, h\<lparr>hp_blocks := (hp_blocks h)(p0 \<mapsto> ?s * n)\<rparr>)"
    using nz size by (simp add: Alloc_alloc_def HeapAlloc_sys_def p0_def)
  show ?thesis
  proof (cases "ty_trivial ty")
    case True
    then show ?thesis using trivial_array [OF p0 al True] p0 by (auto simp: domIff)
  next
    case False
    obtain a h1 where c: "Alloc_constructa place ty n h = Inr (a + 8, h1)" and a: "0 < a" "hp_blocks h a = None"
      and h1: "hp_blocks h1 = (hp_blocks h)(a \<mapsto> 8 + ?s * n)" "hp_words h1 a = of_nat n"
        "hp_log h1 = hp_log h @ map Constructed (elems_at ?s (a + 8) n)"
      using counted_array [OF law fin p0(2) al False] by blast
    define h2 where "h2 = h1\<lparr>hp_log := hp_log h1 @ map Destructed (elems_at ?s (a + 8) n), hp_blocks := hp_blocks h\<rparr>"
    have d: "Alloc_destructa ty (a + 8) h1 = Inr (0, h2)"
      unfolding h2_def by (rule counted_array_freed [OF h1(2,1) a(2,1) n64 False s])
    have h2: "hp_blocks h2 = hp_blocks h" "hp_log h2 = hp_log h1 @ map Destructed (elems_at ?s (a + 8) n)"
      by (simp_all add: h2_def)
    show ?thesis
      by (rule exI [of _ "a + 8"], rule exI [of _ h1], rule exI [of _ a], rule exI [of _ h2], intro conjI, rule c)
        (use False h1 h2 a d in \<open>simp_all add: domIff add.commute\<close>)
  qed
qed

definition bump_place :: "heap \<Rightarrow> nat" where
  "bump_place h = Suc (\<Sum>(dom (hp_blocks h)))"

lemma bump_place_law: "place_law bump_place"
proof -
  have "a \<le> \<Sum>A" if "finite A" "a \<in> A" for a :: nat and A
    using that by (metis member_le_sum zero_le)
  then show ?thesis unfolding place_law_def bump_place_def by (metis Suc_n_not_le_n zero_less_Suc)
qed

theorem array_lifetime_witness:
  "\<exists>p h1 h2. Alloc_constructa bump_place \<lparr>ty_size = 16, ty_trivial = False\<rparr> 3
        \<lparr>hp_blocks = Map.empty, hp_words = (\<lambda>_. 0), hp_log = []\<rparr> = Inr (p, h1)
    \<and> Alloc_destructa \<lparr>ty_size = 16, ty_trivial = False\<rparr> p h1 = Inr (0, h2) \<and> hp_blocks h2 = Map.empty"
proof -
  let ?ty = "\<lparr>ty_size = 16, ty_trivial = False\<rparr>" and ?h = "\<lparr>hp_blocks = Map.empty, hp_words = (\<lambda>_. 0), hp_log = []\<rparr>"
  have 1: "finite (dom (hp_blocks ?h))" and 2: "(0 :: nat) < 3" and 3: "ty_size ?ty \<noteq> 0"
    and 4: "unat (ty_size ?ty) * 3 < 2 ^ 64" by simp_all
  from array_lifetime [OF bump_place_law 1 2 3 4] show ?thesis by fastforce
qed

text \<open>An allocator never gives less than was asked for, up to \<open>max_size\<close>: for \<open>n\<close> elements
  with \<open>0 < n \<le> max_size()\<close> the block has room for them.  One element more can wrap: with
  \<open>sizeof(T) = 8\<close> it is a block of 0 bytes.\<close>

theorem allocate_has_room:
  assumes "0 < n" and "n \<le> HeapAllocator_max_size ty" and "ty_size ty \<noteq> 0"
  shows "\<exists>p h1. HeapAllocator_allocate place ty n h = (p, h1)
      \<and> hp_blocks h1 p = Some (unat n * unat (ty_size ty))
    \<and> (ty_size ty = 8 \<longrightarrow> (\<exists>p h1. HeapAllocator_allocate place ty (HeapAllocator_max_size ty + 1) h = (p, h1)
        \<and> hp_blocks h1 p = Some 0))"
proof -
  have "unat n \<le> unat (- 1 div ty_size ty)" using assms(2) by (simp add: HeapAllocator_max_size_def word_le_nat_alt)
  also have "\<dots> = (2 ^ 64 - 1) div unat (ty_size ty)"
    by (simp add: unat_div_distrib unsigned_minus_1_eq_mask mask_eq_exp_minus_1)
  finally have "unat n * unat (ty_size ty) \<le> 2 ^ 64 - 1"
    using assms(3) by (simp add: unat_gt_0 less_eq_div_iff_mult_less_eq)
  then have room: "unat (ty_size ty * n) = unat n * unat (ty_size ty)"
    by (simp add: unat_word_ariths mult.commute)
  have "n \<noteq> 0" using assms(1) by auto
  then have 1: "\<exists>p h1. HeapAllocator_allocate place ty n h = (p, h1) \<and> hp_blocks h1 p = Some (unat n * unat (ty_size ty))"
    using room by (simp add: HeapAllocator_allocate_def alloc_def Alloc_alloc_def HeapAlloc_sys_def)
  have 2: "\<exists>p h1. HeapAllocator_allocate place ty (HeapAllocator_max_size ty + 1) h = (p, h1) \<and> hp_blocks h1 p = Some 0"
    if "ty_size ty = 8"
  proof -
    have m: "HeapAllocator_max_size ty + 1 = 2 ^ 61" unfolding HeapAllocator_max_size_def that by simp
    show ?thesis unfolding m
      by (simp add: HeapAllocator_allocate_def alloc_def Alloc_alloc_def HeapAlloc_sys_def that)
  qed
  show ?thesis using 1 2 by blast
qed

theorem allocate_has_room_witness:
  "\<exists>p h1. HeapAllocator_allocate bump_place \<lparr>ty_size = 8, ty_trivial = True\<rparr> 5
      \<lparr>hp_blocks = Map.empty, hp_words = (\<lambda>_. 0), hp_log = []\<rparr> = (p, h1) \<and> hp_blocks h1 p = Some 40"
proof -
  have 1: "(0 :: u64) < 5" and 2: "5 \<le> HeapAllocator_max_size \<lparr>ty_size = 8, ty_trivial = True\<rparr>"
    and 3: "ty_size \<lparr>ty_size = 8, ty_trivial = True\<rparr> \<noteq> 0"
    by (simp_all add: HeapAllocator_max_size_def)
  from allocate_has_room [OF this, of bump_place] show ?thesis by fastforce
qed

section \<open>The smart pointers\<close>

text \<open>On a null pointer no deleter does anything, so the two kinds of smart pointer release alike.\<close>

lemma release_null: "shared_release ty (0, k) h = Inr h"
  by (cases k) (simp_all add: shared_release_def deleter_def deleterc_def deleterca_def pmdeleter_def
      dealloc_def destruct_def destructa_def Alloc_dealloc_def Alloc_destruct_def Alloc_destructa_def
      pmdestruct_def pmdestructa_def)

lemma unique_like_shared: "unique_release ty up h = shared_release ty up h"
  using release_null by (cases up) (simp add: unique_release_def)

text \<open>Each pairs with its way of allocation: the object, blank block or array made for it is gone
  when it is released, and the heap has the blocks it had before; an object made at a place is
  only destructed.\<close>

lemma sp_releases:
  assumes "place_law place" and "finite (dom (hp_blocks h))" and "alloc place ty n h = (p, h1)"
  shows "\<exists>h2. shared_release ty (m_sp p) h1 = Inr h2 \<and> hp_blocks h2 = hp_blocks h \<and> hp_log h2 = hp_log h"
proof (cases "n = 0")
  case True
  then show ?thesis using assms(3) release_null by (simp add: alloc_def Alloc_alloc_def m_sp_def)
next
  case False
  then have "0 < p" "hp_blocks h p = None" "h1 = h\<lparr>hp_blocks := (hp_blocks h)(p \<mapsto> unat (ty_size ty * n))\<rparr>"
    using assms by (auto simp: alloc_def Alloc_alloc_def HeapAlloc_sys_def place_law_def)
  then show ?thesis
    by (auto simp: m_sp_def shared_release_def deleter_def dealloc_def Alloc_dealloc_def HeapFree_sys_def)
qed

lemma csp_releases:
  assumes "place_law place" and "finite (dom (hp_blocks h))"
  obtains p h1 h2 where "construct place ty h = Inr (p, h1)" and "shared_release ty (m_csp p) h1 = Inr h2"
    and "hp_blocks h2 = hp_blocks h" and "hp_log h2 = hp_log h @ [Constructed p, Destructed p]"
proof -
  define p where "p = place h"
  have p: "0 < p" "hp_blocks h p = None" using assms by (auto simp: place_law_def p_def)
  let ?h1 = "log_obj (Constructed p) (h\<lparr>hp_blocks := (hp_blocks h)(p \<mapsto> unat (ty_size ty))\<rparr>)"
  let ?h2 = "log_obj (Destructed p) ?h1\<lparr>hp_blocks := (hp_blocks ?h1)(p := None)\<rparr>"
  have "construct place ty h = Inr (p, ?h1)"
    using p by (simp add: construct_def Alloc_construct_def Alloc_alloc_def HeapAlloc_sys_def p_def [symmetric] pmconstruct_def)
  moreover have "shared_release ty (m_csp p) ?h1 = Inr ?h2"
    using p by (simp add: m_csp_def shared_release_def deleterc_def destruct_def Alloc_destruct_def pmdestruct_def
        Alloc_dealloc_def HeapFree_sys_def)
  moreover have "hp_blocks ?h2 = hp_blocks h" using p by (auto simp: fun_eq_iff)
  ultimately show thesis using that by simp
qed

lemma casp_releases:
  assumes "place_law place" and "finite (dom (hp_blocks h))"
    and "0 < n" and "ty_size ty \<noteq> 0" and "unat (ty_size ty) * n < 2 ^ 64"
  obtains p h1 h2 where "constructa place ty n h = Inr (p, h1)" and "shared_release ty (m_casp p) h1 = Inr h2"
    and "hp_blocks h2 = hp_blocks h"
proof -
  from array_lifetime [OF assms] obtain p h1 h2 where
    "Alloc_constructa place ty n h = Inr (p, h1)" "Alloc_destructa ty p h1 = Inr (0, h2)" "hp_blocks h2 = hp_blocks h"
    by blast
  then show thesis using that
    by (simp add: constructa_def m_casp_def shared_release_def deleterca_def destructa_def)
qed

lemma pmsp_releases:
  "0 < p \<Longrightarrow> shared_release ty (m_pmsp p) h = Inr (log_obj (Destructed p) h)"
  by (simp add: m_pmsp_def shared_release_def pmdeleter_def pmdestruct_def)

end
