(* ===== verification/LockfreeExtra.thy ===== *)
theory LockfreeExtra
  imports LockfreeQueue
begin

text \<open>
  The rest of the queue and its free list: the operations without synchronization, the
  destructor (which the server's queues go through), the consuming loops, the accessors.
  They act on the state of \<open>LockfreeQueue\<close>, so what is shown there of \<open>push\<close> and \<open>pop\<close> carries
  over; the loops take fuel, one more than the number of nodes, and the lemmas show that it
  is enough.
\<close>

section \<open>Handles and the free list\<close>

definition get_index :: "tagged_index \<Rightarrow> u16" where
  "get_index h = tg_index h"

definition set_index :: "u16 \<Rightarrow> tagged_index \<Rightarrow> tagged_index" where
  "set_index i h = h\<lparr>tg_index := i\<rparr>"

definition get_tag :: "tagged_index \<Rightarrow> u16" where
  "get_tag h = tg_tag h"

definition set_tag :: "u16 \<Rightarrow> tagged_index \<Rightarrow> tagged_index" where
  "set_tag t h = h\<lparr>tg_tag := t\<rparr>"

definition tagged_index_eq :: "tagged_index \<Rightarrow> tagged_index \<Rightarrow> bool" where
  "tagged_index_eq a b \<longleftrightarrow> tg_index a = tg_index b \<and> tg_tag a = tg_tag b"

definition tagged_index_neq :: "tagged_index \<Rightarrow> tagged_index \<Rightarrow> bool" where
  "tagged_index_neq a b \<longleftrightarrow> \<not> tagged_index_eq a b"

definition node_count :: "'a lfq \<Rightarrow> nat" where
  "node_count q = q_count q"

definition get_handle :: "'a lfq \<Rightarrow> u16 option \<Rightarrow> u16" where
  "get_handle q p = (case p of None \<Rightarrow> null_handle q | Some i \<Rightarrow> i)"

definition get_handle_tagged :: "tagged_index \<Rightarrow> u16" where
  "get_handle_tagged h = get_index h"

definition get_pointer_tagged :: "'a lfq \<Rightarrow> tagged_index \<Rightarrow> u16 option" where
  "get_pointer_tagged q h = get_pointer q (get_index h)"

definition allocate_impl_unsafe :: "'a lfq \<Rightarrow> u16 \<times> 'a lfq" where
  "allocate_impl_unsafe q =
     (let old_pool = q_pool q; index = get_index old_pool
      in if index = null_handle q then (index, q)
         else (get_index old_pool,
               q\<lparr>q_pool := tagged (get_index (q_next q index)) (get_next_tag old_pool)\<rparr>))"

definition deallocate_impl_unsafe :: "u16 \<Rightarrow> 'a lfq \<Rightarrow> 'a lfq" where
  "deallocate_impl_unsafe index q =
     (let old_pool = q_pool q; new_pool = tagged index (get_tag old_pool)
      in q\<lparr>q_next := (q_next q)(index := set_index (get_index old_pool) (q_next q index)), q_pool := new_pool\<rparr>)"

definition allocate :: "bool \<Rightarrow> 'a lfq \<Rightarrow> u16 \<times> 'a lfq" where
  "allocate ThreadSafe q =
     (if ThreadSafe then (case freelist_allocate q of (p, q1) \<Rightarrow> (get_handle q p, q1)) else allocate_impl_unsafe q)"

definition deallocate :: "bool \<Rightarrow> u16 \<Rightarrow> 'a lfq \<Rightarrow> 'a lfq" where
  "deallocate ThreadSafe index q =
     (if ThreadSafe then freelist_deallocate index q else deallocate_impl_unsafe index q)"

text \<open>\<open>construct\<close> with the constructor of the node; the type of the nodes has no destructor.\<close>

definition freelist_construct :: "bool \<Rightarrow> (u16 \<Rightarrow> 'a lfq \<Rightarrow> 'a lfq) \<Rightarrow> 'a lfq \<Rightarrow> u16 option \<times> 'a lfq" where
  "freelist_construct ThreadSafe new_node q =
     (let (node_index, q1) = allocate ThreadSafe q
      in if node_index = null_handle q then (None, q1) else (Some node_index, new_node node_index q1))"

definition freelist_construct_arg :: "bool \<Rightarrow> 'a lfq \<Rightarrow> u16 option \<times> 'a lfq" where
  "freelist_construct_arg ThreadSafe = freelist_construct ThreadSafe construct_null"

definition freelist_construct_args :: "bool \<Rightarrow> 'a \<Rightarrow> 'a lfq \<Rightarrow> u16 option \<times> 'a lfq" where
  "freelist_construct_args ThreadSafe v = freelist_construct ThreadSafe (\<lambda>i. construct_value i v)"

definition freelist_destruct :: "bool \<Rightarrow> tagged_index \<Rightarrow> 'a lfq \<Rightarrow> 'a lfq" where
  "freelist_destruct ThreadSafe h q = deallocate ThreadSafe (get_index h) q"

section \<open>The queue without synchronization\<close>

text \<open>\<open>do_push\<close> of a fixed-size free list does not look at its template argument \<open>Bounded\<close>.\<close>

definition queue_bounded_push :: "'a \<Rightarrow> 'a lfq \<Rightarrow> (bool \<times> 'a lfq) res" where
  "queue_bounded_push = queue_push"

fun unsynchronized_pop_loop :: "nat \<Rightarrow> 'a lfq \<Rightarrow> ('a option \<times> 'a lfq) res" where
  "unsynchronized_pop_loop 0 q = Inl NoReturn"
| "unsynchronized_pop_loop (Suc fuel) q =
     (let head = q_head q in
      case get_pointer_tagged q head of
        None \<Rightarrow> Inl NullDeref
      | Some head_ptr \<Rightarrow>
          let tail = q_tail q; next = q_next q head_ptr; next_ptr = get_pointer_tagged q next in
          if get_handle_tagged head = get_handle_tagged tail then
            (if next_ptr = None then Inr (None, q)
             else unsynchronized_pop_loop fuel
                    (q\<lparr>q_tail := tagged (get_handle_tagged next) (get_next_tag tail)\<rparr>))
          else
            (case next_ptr of
               None \<Rightarrow> unsynchronized_pop_loop fuel q
             | Some i \<Rightarrow>
                 Inr (Some (q_data q i),
                   freelist_destruct False head
                     (q\<lparr>q_head := tagged (get_handle_tagged next) (get_next_tag head)\<rparr>))))"

definition queue_unsynchronized_pop :: "'a lfq \<Rightarrow> ('a option \<times> 'a lfq) res" where
  "queue_unsynchronized_pop q = unsynchronized_pop_loop (q_count q + 2) q"

text \<open>The destructor: the loop that empties the queue, then the last node goes back.\<close>

fun drain :: "nat \<Rightarrow> 'a lfq \<Rightarrow> 'a lfq res" where
  "drain 0 q = Inl NoReturn"
| "drain (Suc fuel) q =
     rbind (queue_unsynchronized_pop q) (\<lambda>(r, q1). case r of None \<Rightarrow> Inr q1 | Some _ \<Rightarrow> drain fuel q1)"

definition queue_destroy :: "'a lfq \<Rightarrow> 'a lfq res" where
  "queue_destroy q = rbind (drain (q_count q + 1) q) (\<lambda>q1. Inr (freelist_destruct False (q_head q1) q1))"

text \<open>The functor acts on a state of its own.\<close>

definition consume_one :: "('a \<Rightarrow> 's \<Rightarrow> 's) \<Rightarrow> 's \<Rightarrow> 'a lfq \<Rightarrow> (bool \<times> 's \<times> 'a lfq) res" where
  "consume_one f s q =
     rbind (queue_pop q) (\<lambda>(r, q1). Inr (case r of None \<Rightarrow> (False, s, q1) | Some x \<Rightarrow> (True, f x s, q1)))"

fun consume_loop :: "nat \<Rightarrow> ('a \<Rightarrow> 's \<Rightarrow> 's) \<Rightarrow> nat \<Rightarrow> 's \<Rightarrow> 'a lfq \<Rightarrow> (nat \<times> 's \<times> 'a lfq) res" where
  "consume_loop 0 f element_count s q = Inl NoReturn"
| "consume_loop (Suc fuel) f element_count s q =
     rbind (consume_one f s q) (\<lambda>(ok, s1, q1).
       if ok then consume_loop fuel f (element_count + 1) s1 q1 else Inr (element_count, s1, q1))"

definition consume_all :: "('a \<Rightarrow> 's \<Rightarrow> 's) \<Rightarrow> 's \<Rightarrow> 'a lfq \<Rightarrow> (nat \<times> 's \<times> 'a lfq) res" where
  "consume_all f s q = consume_loop (q_count q + 1) f 0 s q"

section \<open>They are the operations of the queue\<close>

lemma set_index_tagged: "set_index i h = tagged i (tg_tag h)"
  by (cases h) (simp add: set_index_def tagged_def)

lemma deallocate_unsafe_eq: "deallocate_impl_unsafe i q = freelist_deallocate i q"
  by (simp add: deallocate_impl_unsafe_def freelist_deallocate_def Let_def set_index_tagged get_index_def
      get_tag_def)

lemma allocate_unsafe_eq: "allocate False q = allocate True q"
  by (simp add: allocate_def allocate_impl_unsafe_def freelist_allocate_def Let_def get_handle_def get_index_def)

lemma unsynchronized_pop_loop_eq: "unsynchronized_pop_loop fuel q = pop_loop fuel q"
proof (induction fuel arbitrary: q)
  case (Suc fuel)
  show ?case
    by (cases "get_pointer q (tg_index (q_head q))")
      (auto simp: Suc.IH Let_def get_pointer_tagged_def get_handle_tagged_def get_index_def freelist_destruct_def
        deallocate_def deallocate_unsafe_eq split: option.splits)
qed simp

lemma unsynchronized_pop_eq: "queue_unsynchronized_pop q = queue_pop q"
  by (simp add: queue_unsynchronized_pop_def queue_pop_def unsynchronized_pop_loop_eq)

lemma queue_pop_length:
  assumes "lfq_inv q"
  shows "length (lfq_contents q) \<le> q_count q"
  using lf.contents_le_cap [OF assms] by (simp add: lfq_cap_def)

lemma consume_loop_spec:
  "lfq_inv q \<Longrightarrow> length (lfq_contents q) < fuel \<Longrightarrow>
    \<exists>q'. consume_loop fuel f k s q = Inr (k + length (lfq_contents q), fold f (lfq_contents q) s, q')
      \<and> lfq_inv q' \<and> lfq_contents q' = []"
proof (induction fuel arbitrary: k s q)
  case (Suc fuel)
  obtain r q1 where p: "queue_pop q = Inr (r, q1)" "lfq_inv q1"
    "r = (case lfq_contents q of [] \<Rightarrow> None | x # _ \<Rightarrow> Some x)" "lfq_contents q1 = tl (lfq_contents q)"
    by (rule lf.popE [OF Suc.prems(1)])
  show ?case
  proof (cases "lfq_contents q")
    case Nil
    then show ?thesis using p by (simp add: consume_one_def)
  next
    case (Cons x xs)
    then show ?thesis using p Suc.IH [of q1 "k + 1" "f x s"] Suc.prems(2) by (simp add: consume_one_def)
  qed
qed simp

lemma drain_rep:
  "lfq_rep q fl (h # ns) \<Longrightarrow> length ns < fuel \<Longrightarrow>
    \<exists>q' fl' h'. drain fuel q = Inr q' \<and> lfq_rep q' fl' [h'] \<and> q_count q' = q_count q"
proof (induction fuel arbitrary: q fl h ns)
  case (Suc fuel)
  show ?case
  proof (cases ns)
    case Nil
    then show ?thesis using Suc.prems pop_loop_empty_rep [of q fl h] by (auto simp: unsynchronized_pop_eq)
  next
    case (Cons x xs)
    then obtain q1 where "queue_pop q = Inr (Some (q_data q x), q1)" "lfq_rep q1 (h # fl) (x # xs)"
      "q_count q1 = q_count q"
      using queue_pop_rep [of q fl h x xs] Suc.prems(1) by metis
    then show ?thesis using Suc.IH [of q1 "h # fl" x xs] Suc.prems(2) Cons by (simp add: unsynchronized_pop_eq)
  qed
qed simp

text \<open>Emptying a queue.  \<open>consume_all\<close> applies its functor to every element, oldest first, and
  counts them; the destructor terminates without a fault and leaves every node of the queue,
  the dummy included, exactly once in the free list.\<close>

theorem queue_teardown:
  assumes "lfq_inv q"
  shows "(\<exists>q'. consume_all f s q = Inr (length (lfq_contents q), fold f (lfq_contents q) s, q')
      \<and> lfq_inv q' \<and> lfq_contents q' = [])
    \<and> (\<exists>q' fl. queue_destroy q = Inr q' \<and> linked (nx q') (tg_index (q_pool q')) fl (null_handle q')
      \<and> distinct fl \<and> length fl = q_count q \<and> (\<forall>i \<in> set fl. unat i < q_count q))"
proof
  show "\<exists>q'. consume_all f s q = Inr (length (lfq_contents q), fold f (lfq_contents q) s, q')
      \<and> lfq_inv q' \<and> lfq_contents q' = []"
    using consume_loop_spec [OF assms, of "q_count q + 1" f 0 s] queue_pop_length [OF assms]
    by (simp add: consume_all_def)
next
  obtain fl h ns where rep: "lfq_rep q fl (h # ns)" and "length ns + length fl = lfq_cap q"
    by (rule lfq_invE [OF assms])
  then have "length ns < q_count q + 1" by (simp add: lfq_cap_def)
  then obtain q1 fl1 h1 where d: "drain (q_count q + 1) q = Inr q1" "lfq_rep q1 fl1 [h1]" "q_count q1 = q_count q"
    using drain_rep [OF rep] by blast
  note r1 = d(2) [unfolded lfq_rep_def]
  let ?q = "freelist_deallocate h1 q1"
  have "tg_index (q_head q1) = h1" using r1 by simp
  then have "queue_destroy q = Inr ?q"
    using d(1) by (simp add: queue_destroy_def freelist_destruct_def deallocate_def deallocate_unsafe_eq get_index_def)
  moreover have "nx ?q = (nx q1)(h1 := tg_index (q_pool q1))" "null_handle ?q = null_handle q1"
    "tg_index (q_pool ?q) = h1"
    by (auto simp: freelist_deallocate_def null_handle_def)
  then have "linked (nx ?q) (tg_index (q_pool ?q)) (h1 # fl1) (null_handle ?q)"
    using r1 by simp
  moreover have "distinct (h1 # fl1)" "length (h1 # fl1) = q_count q" "\<forall>i \<in> set (h1 # fl1). unat i < q_count q"
    using r1 d(3) by auto
  ultimately show "\<exists>q' fl. queue_destroy q = Inr q' \<and> linked (nx q') (tg_index (q_pool q')) fl (null_handle q')
      \<and> distinct fl \<and> length fl = q_count q \<and> (\<forall>i \<in> set fl. unat i < q_count q)"
    by blast
qed

theorem queue_teardown_witness:
  "\<exists>q q1. queue_init (\<lambda>_. tagged 7 7) (\<lambda>_. 0 :: nat) 2 = Inr q \<and> queue_destroy q = Inr q1"
proof -
  obtain q where "queue_init (\<lambda>_. tagged 7 7) (\<lambda>_. 0 :: nat) 2 = Inr q" "lfq_inv q"
    by (rule queue_init_rep [of 2 "\<lambda>_. tagged 7 7" "\<lambda>_. 0 :: nat"]) simp_all
  then show ?thesis using queue_teardown [of q "\<lambda>x s. s" "()"] by blast
qed

end
