(* ===== verification/FreelistRaces.thy ===== *)
theory FreelistRaces
  imports LockfreeQueue
begin

text \<open>
  The free list of the lock-free queue under concurrency
  (\<open>fixed_size_freelist\<close>, \<open>boost/lockfree/detail/freelist.hpp\<close>).  Any number of threads run
  \<open>allocate_impl\<close> and \<open>deallocate_impl\<close> interleaved, one access to shared memory per step
  (\<open>freelist_step\<close>); a node that is out may be overwritten at any time.  The weak
  compare-exchange may fail without cause.

  Shown is that no node is handed out twice and none is lost, as long as fewer than 65536
  nodes are allocated while an allocation is between its load and its exchange; and that with
  65536 of them the 16-bit tag has wrapped around and a node is handed out twice.
\<close>

section \<open>The steps of the two loops\<close>

datatype fl_pc =
    FIdle
  | ALoad                     \<comment> \<open>\<open>allocate_impl\<close>: load \<open>pool_\<close>\<close>
  | ATest tagged_index        \<comment> \<open>the loop head: test the index, read the link of the node\<close>
  | ACas tagged_index u16     \<comment> \<open>the exchange, with the link that was read\<close>
  | AGot "u16 option"         \<comment> \<open>returns\<close>
  | DLoad u16                 \<comment> \<open>\<open>deallocate_impl\<close>: load \<open>pool_\<close>\<close>
  | DLink u16 tagged_index    \<comment> \<open>write the link of the node\<close>
  | DCas u16 tagged_index     \<comment> \<open>the exchange\<close>
  | DEnd

text \<open>\<open>weak\<close>: the exchange fails although the values agree.  A failed exchange loads the present
  value into \<open>old_pool\<close>.\<close>

fun freelist_step :: "bool \<Rightarrow> fl_pc \<Rightarrow> 'a lfq \<Rightarrow> fl_pc \<times> 'a lfq" where
  "freelist_step weak ALoad q = (ATest (q_pool q), q)"
| "freelist_step weak (ATest old_pool) q =
     (let index = tg_index old_pool
      in if index = null_handle q then (AGot None, q) else (ACas old_pool (nx q index), q))"
| "freelist_step weak (ACas old_pool next_index) q =
     (if q_pool q = old_pool \<and> \<not> weak
      then (AGot (Some (tg_index old_pool)), q\<lparr>q_pool := tagged next_index (get_next_tag old_pool)\<rparr>)
      else (ATest (q_pool q), q))"
| "freelist_step weak (DLoad index) q = (DLink index (q_pool q), q)"
| "freelist_step weak (DLink index old_pool) q =
     (DCas index old_pool,
      q\<lparr>q_next := (q_next q)(index := tagged (tg_index old_pool) (tg_tag (q_next q index)))\<rparr>)"
| "freelist_step weak (DCas index old_pool) q =
     (if q_pool q = old_pool \<and> \<not> weak
      then (DEnd, q\<lparr>q_pool := tagged index (tg_tag old_pool)\<rparr>)
      else (DLink index (q_pool q), q))"
| "freelist_step weak pc q = (pc, q)"

text \<open>The threads, numbered, and the nodes that are out.  \<open>fs_pops\<close> counts the nodes allocated so
  far and \<open>fs_seen\<close> its value when a thread last loaded \<open>pool_\<close>; no step depends on these
  two.\<close>

record 'a fl_sys =
  fs_q :: "'a lfq"
  fs_pc :: "nat \<Rightarrow> fl_pc"
  fs_out :: "u16 list"
  fs_pops :: nat
  fs_seen :: "nat \<Rightarrow> nat"

fun popped :: "fl_pc \<Rightarrow> fl_pc \<Rightarrow> nat" where
  "popped (ACas old_pool n) (AGot r) = 1"
| "popped pc pc' = 0"

fun loaded :: "fl_pc \<Rightarrow> bool" where
  "loaded (ATest old_pool) = True"
| "loaded pc = False"

fun in_code :: "fl_pc \<Rightarrow> bool" where
  "in_code FIdle = False"
| "in_code (AGot r) = False"
| "in_code DEnd = False"
| "in_code pc = True"

definition fl_move :: "nat \<Rightarrow> fl_pc \<times> 'a lfq \<Rightarrow> 'a fl_sys \<Rightarrow> 'a fl_sys" where
  "fl_move t r y =
     y\<lparr>fs_q := snd r, fs_pc := (fs_pc y)(t := fst r), fs_pops := fs_pops y + popped (fs_pc y t) (fst r),
       fs_seen := (if loaded (fst r) then (fs_seen y)(t := fs_pops y) else fs_seen y)\<rparr>"

inductive fl_step :: "'a fl_sys \<Rightarrow> 'a fl_sys \<Rightarrow> bool" where
  fl_code: "in_code (fs_pc y t) \<Longrightarrow> fl_step y (fl_move t (freelist_step weak (fs_pc y t) (fs_q y)) y)"
| fl_allocate: "fs_pc y t = FIdle \<Longrightarrow> fl_step y (y\<lparr>fs_pc := (fs_pc y)(t := ALoad)\<rparr>)"
| fl_allocated:
    "fs_pc y t = AGot r \<Longrightarrow>
     fl_step y (y\<lparr>fs_pc := (fs_pc y)(t := FIdle),
       fs_out := (case r of Some i \<Rightarrow> i # fs_out y | None \<Rightarrow> fs_out y)\<rparr>)"
| fl_deallocate:
    "fs_pc y t = FIdle \<Longrightarrow> i \<in> set (fs_out y) \<Longrightarrow>
     fl_step y (y\<lparr>fs_pc := (fs_pc y)(t := DLoad i), fs_out := remove1 i (fs_out y)\<rparr>)"
| fl_deallocated: "fs_pc y t = DEnd \<Longrightarrow> fl_step y (y\<lparr>fs_pc := (fs_pc y)(t := FIdle)\<rparr>)"
| fl_use:
    "i \<in> set (fs_out y) \<Longrightarrow>
     fl_step y (y\<lparr>fs_q := (fs_q y)\<lparr>q_next := (q_next (fs_q y))(i := h), q_data := (q_data (fs_q y))(i := v)\<rparr>\<rparr>)"

inductive_cases fl_stepE: "fl_step y y'"

text \<open>A run every state of which satisfies \<open>P\<close> before its step.\<close>

inductive fl_run :: "('a fl_sys \<Rightarrow> bool) \<Rightarrow> 'a fl_sys \<Rightarrow> 'a fl_sys \<Rightarrow> bool" for P y0 where
  fl_refl: "fl_run P y0 y0"
| fl_next: "fl_run P y0 y \<Longrightarrow> P y \<Longrightarrow> fl_step y y' \<Longrightarrow> fl_run P y0 y'"

text \<open>No allocation has been overtaken by 65536 others.\<close>

definition timely :: "'a fl_sys \<Rightarrow> bool" where
  "timely y \<longleftrightarrow> (\<forall>t old_pool n. fs_pc y t = ACas old_pool n \<longrightarrow> fs_pops y - fs_seen y t < 65536)"

definition fl_start :: "'a lfq \<Rightarrow> 'a fl_sys" where
  "fl_start q = \<lparr>fs_q = q, fs_pc = (\<lambda>_. FIdle), fs_out = [], fs_pops = 0, fs_seen = (\<lambda>_. 0)\<rparr>"

section \<open>The invariant\<close>

text \<open>The node a thread has in its hands.\<close>

fun pc_node :: "fl_pc \<Rightarrow> u16 option" where
  "pc_node (AGot r) = r"
| "pc_node (DLoad i) = Some i"
| "pc_node (DLink i old_pool) = Some i"
| "pc_node (DCas i old_pool) = Some i"
| "pc_node pc = None"

text \<open>What a thread knows: the tag it loaded is behind by the allocations since, and if there
  were none, its node is still free and linked as it was read.\<close>

fun pc_fits :: "'a lfq \<Rightarrow> u16 list \<Rightarrow> nat \<Rightarrow> nat \<Rightarrow> fl_pc \<Rightarrow> bool" where
  "pc_fits q fl pops seen (ATest old) \<longleftrightarrow>
     seen \<le> pops \<and> tg_tag old + of_nat (pops - seen) = tg_tag (q_pool q)
     \<and> (pops = seen \<longrightarrow> tg_index old = null_handle q \<or> tg_index old \<in> set fl)"
| "pc_fits q fl pops seen (ACas old n) \<longleftrightarrow>
     seen \<le> pops \<and> tg_tag old + of_nat (pops - seen) = tg_tag (q_pool q) \<and> tg_index old \<noteq> null_handle q
     \<and> (pops = seen \<longrightarrow> tg_index old \<in> set fl \<and> nx q (tg_index old) = n)"
| "pc_fits q fl pops seen (DCas i old) \<longleftrightarrow> nx q i = tg_index old"
| "pc_fits q fl pops seen pc \<longleftrightarrow> True"

definition fl_rep :: "'a fl_sys \<Rightarrow> u16 list \<Rightarrow> bool" where
  "fl_rep y fl \<longleftrightarrow>
     q_count (fs_q y) \<le> 65535
     \<and> linked (nx (fs_q y)) (tg_index (q_pool (fs_q y))) fl (null_handle (fs_q y))
     \<and> distinct (fl @ fs_out y)
     \<and> (\<forall>t i. pc_node (fs_pc y t) = Some i \<longrightarrow> i \<notin> set fl \<and> i \<notin> set (fs_out y)
          \<and> (\<forall>u. u \<noteq> t \<longrightarrow> pc_node (fs_pc y u) \<noteq> Some i))
     \<and> (\<forall>i. unat i < q_count (fs_q y) \<longleftrightarrow>
          i \<in> set fl \<or> i \<in> set (fs_out y) \<or> (\<exists>t. pc_node (fs_pc y t) = Some i))
     \<and> (\<forall>t. pc_fits (fs_q y) fl (fs_pops y) (fs_seen y t) (fs_pc y t))"

lemma linked_write:
  assumes "linked (nx q) a fl z" and "i \<notin> set fl" and "q' = q\<lparr>q_next := (q_next q)(i := h), q_data := d\<rparr>"
  shows "linked (nx q') a fl z"
proof -
  have "nx q' = (nx q)(i := tg_index h)" using assms(3) by auto
  then show ?thesis using assms(1,2) by simp
qed

lemma fl_rep_null:
  assumes "fl_rep y fl"
  shows "null_handle (fs_q y) \<notin> set fl" "null_handle (fs_q y) \<notin> set (fs_out y)"
    "pc_node (fs_pc y t) \<noteq> Some (null_handle (fs_q y))"
proof -
  have "\<not> unat (null_handle (fs_q y)) < q_count (fs_q y)"
    using assms by (simp add: fl_rep_def unat_null_handle)
  then have "\<not> (null_handle (fs_q y) \<in> set fl \<or> null_handle (fs_q y) \<in> set (fs_out y)
    \<or> (\<exists>t. pc_node (fs_pc y t) = Some (null_handle (fs_q y))))"
    using assms unfolding fl_rep_def by blast
  then show "null_handle (fs_q y) \<notin> set fl" "null_handle (fs_q y) \<notin> set (fs_out y)"
    "pc_node (fs_pc y t) \<noteq> Some (null_handle (fs_q y))" by auto
qed

lemma fl_rep_pool:
  assumes "fl_rep y fl"
  shows "tg_index (q_pool (fs_q y)) = (case fl of [] \<Rightarrow> null_handle (fs_q y) | f # _ \<Rightarrow> f)"
  using assms by (cases fl) (auto simp: fl_rep_def)

text \<open>A write to a node that is neither free nor being given back does not disturb any thread.\<close>

lemma pc_fits_off:
  assumes "pc_fits q fl pops seen pc" and "i \<notin> set fl" and "\<And>old. pc \<noteq> DCas i old"
    and "q' = q\<lparr>q_next := (q_next q)(i := h), q_data := d\<rparr>"
  shows "pc_fits q' fl pops seen pc"
  using assms by (cases "(q, fl, pops, seen, pc)" rule: pc_fits.cases) (auto simp: null_handle_def)

lemma pc_fits_push:
  assumes "pc_fits q fl pops seen pc" and "i \<notin> set fl"
    and "q' = q\<lparr>q_pool := tagged i (tg_tag (q_pool q))\<rparr>"
  shows "pc_fits q' (i # fl) pops seen pc"
  using assms by (cases "(q, fl, pops, seen, pc)" rule: pc_fits.cases) (auto simp: null_handle_def)

lemma pc_fits_pop:
  assumes "pc_fits q fl pops seen pc" 
    and "q' = q\<lparr>q_pool := tagged n (tg_tag (q_pool q) + 1)\<rparr>"
  shows "pc_fits q' fl' (Suc pops) seen pc"
  using assms by (cases "(q, fl, pops, seen, pc)" rule: pc_fits.cases) (auto simp: null_handle_def Suc_diff_le add.assoc add.commute)


lemma fl_repD:
  assumes "fl_rep y fl"
  shows "q_count (fs_q y) \<le> 65535"
    and "linked (nx (fs_q y)) (tg_index (q_pool (fs_q y))) fl (null_handle (fs_q y))"
    and "distinct (fl @ fs_out y)"
    and "pc_node (fs_pc y t) = Some i \<Longrightarrow> i \<notin> set fl \<and> i \<notin> set (fs_out y)"
    and "pc_node (fs_pc y t) = Some i \<Longrightarrow> u \<noteq> t \<Longrightarrow> pc_node (fs_pc y u) \<noteq> Some i"
    and "unat i < q_count (fs_q y) \<longleftrightarrow> i \<in> set fl \<or> i \<in> set (fs_out y) \<or> (\<exists>t. pc_node (fs_pc y t) = Some i)"
    and "pc_fits (fs_q y) fl (fs_pops y) (fs_seen y t) (fs_pc y t)"
  using assms unfolding fl_rep_def by blast+

lemma fl_repI:
  assumes "q_count (fs_q y) \<le> 65535"
    and "linked (nx (fs_q y)) (tg_index (q_pool (fs_q y))) fl (null_handle (fs_q y))"
    and "distinct (fl @ fs_out y)"
    and "\<And>t i. pc_node (fs_pc y t) = Some i \<Longrightarrow> i \<notin> set fl \<and> i \<notin> set (fs_out y)"
    and "\<And>t u i. pc_node (fs_pc y t) = Some i \<Longrightarrow> u \<noteq> t \<Longrightarrow> pc_node (fs_pc y u) \<noteq> Some i"
    and "\<And>i. unat i < q_count (fs_q y) \<longleftrightarrow> i \<in> set fl \<or> i \<in> set (fs_out y) \<or> (\<exists>t. pc_node (fs_pc y t) = Some i)"
    and "\<And>t. pc_fits (fs_q y) fl (fs_pops y) (fs_seen y t) (fs_pc y t)"
  shows "fl_rep y fl"
  using assms unfolding fl_rep_def by blast

text \<open>A step that moves no node, and writes at most its own.\<close>

lemma fl_rep_local:
  assumes rep: "fl_rep y fl" and node: "pc_node pc' = pc_node (fs_pc y t)"
    and q': "q' = fs_q y \<or> (\<exists>i h. pc_node (fs_pc y t) = Some i \<and> q' = (fs_q y)\<lparr>q_next := (q_next (fs_q y))(i := h)\<rparr>)"
    and fits: "pc_fits q' fl (fs_pops y) (if loaded pc' then fs_pops y else fs_seen y t) pc'"
    and pop: "popped (fs_pc y t) pc' = 0"
  shows "fl_rep (fl_move t (pc', q') y) fl"
proof -
  have nodes: "pc_node (fs_pc (fl_move t (pc', q') y) u) = pc_node (fs_pc y u)" for u
    using node by (simp add: fl_move_def)
  show ?thesis
proof (rule fl_repI, unfold nodes, goal_cases)
  case (6 i)
  then show ?case using fl_repD(6) [OF rep, of i] q' by (auto simp: fl_move_def)
next
  case (5 u v i)
  then show ?case using fl_repD(5) [OF rep] by blast
next
  case (7 u)
  show ?case
  proof (cases "u = t")
    case True
    then show ?thesis using fits pop by (auto simp: fl_move_def)
  next
    case False
    have "pc_fits q' fl (fs_pops y) (fs_seen y u) (fs_pc y u)"
      using q'
    proof
      assume "\<exists>i h. pc_node (fs_pc y t) = Some i \<and> q' = (fs_q y)\<lparr>q_next := (q_next (fs_q y))(i := h)\<rparr>"
      then obtain i h where i: "pc_node (fs_pc y t) = Some i" 
        and q: "q' = (fs_q y)\<lparr>q_next := (q_next (fs_q y))(i := h), q_data := q_data (fs_q y)\<rparr>" by auto
      have "fs_pc y u \<noteq> DCas i old" for old
        using fl_repD(5) [OF rep i False] by auto
      then show ?thesis using pc_fits_off [OF fl_repD(7) [OF rep] _ _ q, of u] fl_repD(4) [OF rep i] by auto
    qed (simp add: fl_repD(7) [OF rep])
    then show ?thesis using False pop by (auto simp: fl_move_def)
  qed
next
  case (2)
  have "linked (nx q') (tg_index (q_pool (fs_q y))) fl (null_handle (fs_q y))"
    using q'
  proof
    assume "\<exists>i h. pc_node (fs_pc y t) = Some i \<and> q' = (fs_q y)\<lparr>q_next := (q_next (fs_q y))(i := h)\<rparr>"
    then obtain i h where i: "pc_node (fs_pc y t) = Some i" 
      and q: "q' = (fs_q y)\<lparr>q_next := (q_next (fs_q y))(i := h), q_data := q_data (fs_q y)\<rparr>" by auto
    show ?thesis using linked_write [OF fl_repD(2) [OF rep] _ q] fl_repD(4) [OF rep i] by simp
  qed (simp add: fl_repD(2) [OF rep])
  then show ?case using q' by (auto simp: fl_move_def null_handle_def)
qed (use fl_repD(1,3) [OF rep] fl_repD(4) [OF rep] q' in \<open>auto simp: fl_move_def\<close>)
qed

lemma fl_rep_pop:
  assumes rep: "fl_rep y (f # fl)" and pc: "fs_pc y t = ACas old n" and n: "nx (fs_q y) f = n"
  shows "fl_rep (fl_move t (AGot (Some f), (fs_q y)\<lparr>q_pool := tagged n (tg_tag (q_pool (fs_q y)) + 1)\<rparr>) y) fl"
    (is "fl_rep ?y fl")
proof -
  have nodes: "pc_node (fs_pc ?y u) = (if u = t then Some f else pc_node (fs_pc y u))" for u
    by (simp add: fl_move_def)
  show ?thesis
  proof (rule fl_repI, unfold nodes, goal_cases)
    case (2)
    then show ?case using fl_repD(2) [OF rep] n by (simp add: fl_move_def null_handle_def)
  next
    case (4 u i)
    then show ?case using fl_repD(3) [OF rep] fl_repD(4) [OF rep] by (auto simp: fl_move_def split: if_splits)
  next
    case (5 u v i)
    then show ?case using fl_repD(4) [OF rep, of _ f] fl_repD(5) [OF rep] by (auto split: if_splits)
  next
    case (6 i)
    have "pc_node (fs_pc y t) \<noteq> Some i" using pc by simp
    then show ?case using fl_repD(6) [OF rep, of i] by (auto simp: fl_move_def)
  next
    case (7 u)
    then show ?case using pc_fits_pop [OF fl_repD(7) [OF rep, of u] refl] pc by (auto simp: fl_move_def)
  qed (use fl_repD(1,3) [OF rep] in \<open>auto simp: fl_move_def\<close>)
qed

lemma fl_rep_push:
  assumes rep: "fl_rep y fl" and pc: "fs_pc y t = DCas i old" and n: "nx (fs_q y) i = tg_index (q_pool (fs_q y))"
  shows "fl_rep (fl_move t (DEnd, (fs_q y)\<lparr>q_pool := tagged i (tg_tag (q_pool (fs_q y)))\<rparr>) y) (i # fl)"
    (is "fl_rep ?y _")
proof -
  have nodes: "pc_node (fs_pc ?y u) = (if u = t then None else pc_node (fs_pc y u))" for u
    by (simp add: fl_move_def)
  have i: "i \<notin> set fl" "i \<notin> set (fs_out y)" "u \<noteq> t \<Longrightarrow> pc_node (fs_pc y u) \<noteq> Some i" for u
    using fl_repD(4,5) [OF rep, of t] pc by auto
  show ?thesis
  proof (rule fl_repI, unfold nodes, goal_cases)
    case (2)
    then show ?case using fl_repD(2) [OF rep] n by (simp add: fl_move_def null_handle_def)
  next
    case (4 u j)
    then show ?case using i fl_repD(4) [OF rep] by (auto simp: fl_move_def split: if_splits)
  next
    case (5 u v j)
    then show ?case using fl_repD(5) [OF rep] by (auto split: if_splits)
  next
    case (6 j)
    have "pc_node (fs_pc y t) = Some i" using pc by simp
    moreover from this have "(\<exists>u. (if u = t then None else pc_node (fs_pc y u)) = Some j) \<longleftrightarrow> j \<noteq> i \<and> (\<exists>u. pc_node (fs_pc y u) = Some j)"
      using i(3) by (metis option.distinct(1) option.inject)
    ultimately show ?case using fl_repD(6) [OF rep, of j] by (auto simp: fl_move_def)
  next
    case (7 u)
    then show ?case using pc_fits_push [OF fl_repD(7) [OF rep, of u] i(1) refl] pc by (auto simp: fl_move_def)
  qed (use fl_repD(1,3) [OF rep] i in \<open>auto simp: fl_move_def\<close>)
qed

lemma fl_rep_load:
  assumes "fl_rep y fl" and "pc_node (fs_pc y t) = None" and "popped (fs_pc y t) (ATest (q_pool (fs_q y))) = 0"
  shows "fl_rep (fl_move t (ATest (q_pool (fs_q y)), fs_q y) y) fl"
  using assms fl_rep_pool [OF assms(1)] by (intro fl_rep_local) (auto split: list.splits)

lemma fl_rep_code:
  assumes rep: "fl_rep y fl" and "timely y" and code: "in_code (fs_pc y t)"
  shows "\<exists>fl'. fl_rep (fl_move t (freelist_step weak (fs_pc y t) (fs_q y)) y) fl'"
proof (cases "fs_pc y t")
  case ALoad
  then show ?thesis using fl_rep_load [OF rep, of t] by auto
next
  case (ATest old)
  then show ?thesis using fl_repD(7) [OF rep, of t]
    by (auto simp: Let_def intro!: exI [of _ fl] fl_rep_local [OF rep])
next
  case (ACas old n)
  show ?thesis
  proof (cases "q_pool (fs_q y) = old \<and> \<not> weak")
    case True
    let ?q = "(fs_q y)\<lparr>q_pool := tagged n (tg_tag (q_pool (fs_q y)) + 1)\<rparr>"
    have fits: "pc_fits (fs_q y) fl (fs_pops y) (fs_seen y t) (ACas old n)"
      using fl_repD(7) [OF rep, of t] unfolding ACas .
    have "tg_tag old + of_nat (fs_pops y - fs_seen y t) = tg_tag old" using fits True by (simp only: pc_fits.simps)
    then have "(of_nat (fs_pops y - fs_seen y t) :: u16) = 0" by (simp del: of_nat_diff)
    moreover have "fs_pops y - fs_seen y t < 65536" using assms(2) ACas by (auto simp: timely_def)
    ultimately have "fs_pops y = fs_seen y t"
      using fits by (simp add: word_of_nat_eq_0_iff del: of_nat_diff) (use nat_dvd_not_less in fastforce)
    then have f: "tg_index old \<in> set fl" "nx (fs_q y) (tg_index old) = n" using fits by auto
    then obtain fl' where fl: "fl = tg_index old # fl'" using True fl_rep_pool [OF rep] by (cases fl) auto
    have "fl_rep (fl_move t (AGot (Some (tg_index old)), ?q) y) fl'"
      using fl_rep_pop [OF rep [unfolded fl] ACas f(2)] .
    then show ?thesis using True ACas by (auto simp: get_next_tag_def)
  next
    case False
    then show ?thesis using ACas fl_rep_load [OF rep, of t] by auto
  qed
next
  case (DLoad i)
  then show ?thesis by (auto intro!: exI [of _ fl] fl_rep_local [OF rep])
next
  case (DLink i old)
  then show ?thesis by (auto intro!: exI [of _ fl] fl_rep_local [OF rep])
next
  case (DCas i old)
  show ?thesis
  proof (cases "q_pool (fs_q y) = old \<and> \<not> weak")
    case True
    have "fl_rep (fl_move t (DEnd, (fs_q y)\<lparr>q_pool := tagged i (tg_tag (q_pool (fs_q y)))\<rparr>) y) (i # fl)"
      using fl_rep_push [OF rep] DCas True fl_repD(7) [OF rep, of t] by simp
    then show ?thesis using True DCas by auto
  next
    case False
    then show ?thesis using DCas by (auto intro!: exI [of _ fl] fl_rep_local [OF rep])
  qed
qed (use code in simp_all)


text \<open>A call or a return: a node passes between the hands of the thread and those outside.\<close>

lemma fl_rep_call:
  assumes rep: "fl_rep y fl" and fits: "pc_fits (fs_q y) fl (fs_pops y) (fs_seen y t) pc'"
    and out: "distinct out" "\<And>i. pc_node pc' = Some i \<Longrightarrow> i \<notin> set out"
      "\<And>i. i \<in> set out \<or> pc_node pc' = Some i \<longleftrightarrow> i \<in> set (fs_out y) \<or> pc_node (fs_pc y t) = Some i"
  shows "fl_rep (y\<lparr>fs_pc := (fs_pc y)(t := pc'), fs_out := out\<rparr>) fl"
proof -
  have other: "i \<notin> set fl" "i \<notin> set out" "pc_node pc' \<noteq> Some i"
    if "pc_node (fs_pc y u) = Some i" "u \<noteq> t" for u i
    using fl_repD(4,5) [OF rep, of u i] out(3) [of i] that by metis+
  have mine: "i \<notin> set fl" if "i \<in> set out \<or> pc_node pc' = Some i" for i
    using that fl_repD(3) [OF rep] fl_repD(4) [OF rep, of t i] unfolding out(3) by auto
  show ?thesis
  proof (rule fl_repI, goal_cases)
    case (5 u v i)
    then show ?case using other(3) [of v i] other(3) [of u i] fl_repD(5) [OF rep, of u i v]
      by (cases "u = t"; cases "v = t") auto
  next
    case (6 i)
    have "(\<exists>u. pc_node (fs_pc y u) = Some i) \<longleftrightarrow> pc_node (fs_pc y t) = Some i \<or> (\<exists>u. u \<noteq> t \<and> pc_node (fs_pc y u) = Some i)"
      by metis
    then show ?case using fl_repD(6) [OF rep, of i] out(3) [of i] by auto
  next
    case (3)
    then show ?case using mine fl_repD(3) [OF rep] out(1) by auto
  qed (use fl_repD(1,2,7) [OF rep] other mine out(2) fits in \<open>auto split: if_splits\<close>)
qed

lemma fl_rep_step:
  assumes rep: "fl_rep y fl" and "timely y" and "fl_step y y'"
  shows "\<exists>fl'. fl_rep y' fl'"
  using assms(3)
proof cases
  case (fl_code t weak)
  then show ?thesis using fl_rep_code [OF rep assms(2)] by simp
next
  case (fl_allocate t)
  have "fl_rep (y\<lparr>fs_pc := (fs_pc y)(t := ALoad), fs_out := fs_out y\<rparr>) fl"
    by (rule fl_rep_call [OF rep]) (use fl_allocate fl_repD(3) [OF rep] in auto)
  then show ?thesis using fl_allocate by auto
next
  case (fl_allocated t r)
  show ?thesis unfolding fl_allocated(1)
    by (intro exI [of _ fl] fl_rep_call [OF rep])
      (use fl_allocated fl_repD(3) [OF rep] fl_repD(4) [OF rep, of t] in \<open>auto split: option.splits\<close>)
next
  case (fl_deallocate t i)
  show ?thesis unfolding fl_deallocate(1)
    by (intro exI [of _ fl] fl_rep_call [OF rep]) (use fl_deallocate fl_repD(3) [OF rep] in auto)
next
  case (fl_deallocated t)
  have "fl_rep (y\<lparr>fs_pc := (fs_pc y)(t := FIdle), fs_out := fs_out y\<rparr>) fl"
    by (rule fl_rep_call [OF rep]) (use fl_deallocated fl_repD(3) [OF rep] in auto)
  then show ?thesis using fl_deallocated by auto
next
  case (fl_use i v h)
  have i: "i \<notin> set fl" using fl_use(2) fl_repD(3) [OF rep] by auto
  have "fs_pc y t \<noteq> DCas i old" for t old using fl_repD(4) [OF rep, of t i] fl_use(2) by auto
  then have "pc_fits (fs_q y') fl (fs_pops y) (fs_seen y t) (fs_pc y t)" for t
    using pc_fits_off [OF fl_repD(7) [OF rep] i _ refl] fl_use(1) by simp
  moreover have "linked (nx (fs_q y')) (tg_index (q_pool (fs_q y))) fl (null_handle (fs_q y))"
    using linked_write [OF fl_repD(2) [OF rep] i refl] fl_use(1) by simp
  ultimately have "fl_rep y' fl"
    using fl_repD(1,3,5,6) [OF rep] fl_repD(4) [OF rep] fl_use(1)
    by (intro fl_repI) (simp_all add: null_handle_def)
  then show ?thesis ..
qed

section \<open>No node is handed out twice\<close>

lemma fl_rep_run: "fl_run timely y y' \<Longrightarrow> \<exists>fl. fl_rep y fl \<Longrightarrow> \<exists>fl. fl_rep y' fl"
  by (induction rule: fl_run.induct) (use fl_rep_step in blast)+

lemma fl_rep_start:
  assumes "freelist_init mem dat count = Inr q"
  shows "fl_rep (fl_start q) (rev (map of_nat [0..<count]))" and "q_count q = count"
proof -
  have c: "count \<le> 65535" using assms by (auto simp: freelist_init_def split: if_splits)
  let ?q = "\<lparr>q_count = count, q_next = mem, q_data = dat, q_pool = tagged (of_nat count) 0,
         q_head = tagged 0 0, q_tail = tagged 0 0\<rparr>"
  have q: "q = freelist_initialize [0..<count] ?q"
    using assms c by (simp add: freelist_init_def)
  have d: "distinct (map of_nat [0..<count] :: u16 list)"
    using c by (auto simp: distinct_map inj_on_def of_nat_eq_iff_small)
  have l: "linked (nx q) (tg_index (q_pool q)) (rev (map of_nat [0..<count]) @ []) (null_handle ?q) \<and> q_count q = q_count ?q"
    unfolding q by (rule freelist_initialize_linked) (use d in \<open>simp_all add: null_handle_def\<close>)
  then show "q_count q = count" by simp
  have "unat i < count \<longleftrightarrow> i \<in> set (map of_nat [0..<count])" for i :: u16
  proof
    assume "unat i < count"
    then have "of_nat (unat i) \<in> set (map of_nat [0..<count] :: u16 list)" by (auto simp del: of_nat_unat)
    then show "i \<in> set (map of_nat [0..<count])" by simp
  qed (use c in \<open>auto simp: unat_of_nat_small\<close>)
  then show "fl_rep (fl_start q) (rev (map of_nat [0..<count]))"
    using l c d by (intro fl_repI) (simp_all add: fl_start_def null_handle_def)
qed


lemma freelist_step_count: "q_count (snd (freelist_step weak pc q)) = q_count q"
  by (cases "(weak, pc, q)" rule: freelist_step.cases) (auto simp: Let_def)

lemma fl_run_count: "fl_run P y y' \<Longrightarrow> q_count (fs_q y') = q_count (fs_q y)"
proof (induction rule: fl_run.induct)
  case (fl_next y' y'')
  then show ?case by (auto elim!: fl_step.cases simp: fl_move_def freelist_step_count)
qed simp

text \<open>C20: the free list of a fresh queue, used by any number of threads at once.  At every
  moment each node is in exactly one place: on the list, outside, or in the hands of one
  thread; so no allocation returns a node that is still in use and none is ever lost.  Assumed
  is that no allocation is overtaken by 65536 others.\<close>

theorem freelist_hands_out_once:
  assumes "freelist_init mem dat count = Inr q0" and "fl_run timely (fl_start q0) y"
  shows "\<exists>fl. linked (nx (fs_q y)) (tg_index (q_pool (fs_q y))) fl (null_handle (fs_q y))
    \<and> distinct (fl @ fs_out y)
    \<and> (\<forall>t i. pc_node (fs_pc y t) = Some i \<longrightarrow> i \<notin> set fl \<and> i \<notin> set (fs_out y)
         \<and> (\<forall>u. u \<noteq> t \<longrightarrow> pc_node (fs_pc y u) \<noteq> Some i))
    \<and> (\<forall>i. unat i < count \<longleftrightarrow> i \<in> set fl \<or> i \<in> set (fs_out y) \<or> (\<exists>t. pc_node (fs_pc y t) = Some i))"
proof -
  have "q_count (fs_q y) = count"
    using fl_run_count [OF assms(2)] fl_rep_start(2) [OF assms(1)] by (simp add: fl_start_def)
  moreover obtain fl where "fl_rep y fl"
    using fl_rep_run [OF assms(2)] fl_rep_start(1) [OF assms(1)] by blast
  ultimately show ?thesis unfolding fl_rep_def by blast
qed

section \<open>Without interference\<close>

lemma fl_run_trans: "fl_run P y1 y2 \<Longrightarrow> fl_run P y y1 \<Longrightarrow> fl_run P y y2"
  by (induction rule: fl_run.induct) (auto intro: fl_run.intros)

abbreviation free_run :: "'a fl_sys \<Rightarrow> 'a fl_sys \<Rightarrow> bool" where
  "free_run \<equiv> fl_run (\<lambda>_. True)"

lemma free_step: "fl_step y y' \<Longrightarrow> free_run y' y'' \<Longrightarrow> free_run y y''"
  using fl_run_trans [of "\<lambda>_. True" y' y'' y] by (auto intro: fl_run.intros)

text \<open>A call of a thread that the others leave alone is the operation without interference.\<close>

lemma solo_allocate:
  assumes "fs_pc y t = FIdle" and "freelist_allocate (fs_q y) = (r, q')"
  obtains y' where "free_run y y'" and "fs_q y' = q'" and "fs_pc y' = fs_pc y"
    and "fs_out y' = (case r of Some i \<Rightarrow> i # fs_out y | None \<Rightarrow> fs_out y)" and "fs_pops y' \<le> Suc (fs_pops y)"
proof -
  define y1 where "y1 = y\<lparr>fs_pc := (fs_pc y)(t := ALoad)\<rparr>"
  have 1: "fl_step y y1" unfolding y1_def by (rule fl_allocate) (rule assms)
  define y2 where "y2 = fl_move t (freelist_step False (fs_pc y1 t) (fs_q y1)) y1"
  have 2: "fl_step y1 y2" unfolding y2_def by (rule fl_code) (simp add: y1_def)
  have pc2: "fs_pc y2 t = ATest (q_pool (fs_q y))" and y2: "fs_q y2 = fs_q y" "fs_out y2 = fs_out y" "fs_pc y2 = (fs_pc y)(t := ATest (q_pool (fs_q y)))"
    "fs_pops y2 = fs_pops y"
    by (simp_all add: y2_def y1_def fl_move_def)
  define y3 where "y3 = fl_move t (freelist_step False (fs_pc y2 t) (fs_q y2)) y2"
  have 3: "fl_step y2 y3" unfolding y3_def by (rule fl_code) (simp add: pc2)
  have restored: "(fs_pc y)(t := FIdle) = fs_pc y" using assms(1) by auto
  show thesis
  proof (cases "tg_index (q_pool (fs_q y)) = null_handle (fs_q y)")
    case True
    then have y3: "fs_pc y3 t = AGot None" "fs_q y3 = fs_q y" "fs_out y3 = fs_out y" "fs_pc y3 = (fs_pc y)(t := AGot None)"
      "fs_pops y3 = fs_pops y"
      using y2 by (simp_all add: y3_def pc2 fl_move_def)
    have 4: "fl_step y3 (y3\<lparr>fs_pc := (fs_pc y3)(t := FIdle), fs_out := fs_out y3\<rparr>)"
      using fl_allocated [OF y3(1)] by simp
    have r: "r = None" "q' = fs_q y" using True assms(2) by (auto simp: freelist_allocate_def)
    show thesis
      by (rule that [OF free_step [OF 1 free_step [OF 2 free_step [OF 3 free_step [OF 4 fl_refl]]]]])
        (simp_all add: y3 r restored)
  next
    case False
    let ?i = "tg_index (q_pool (fs_q y))"
    have y3: "fs_pc y3 t = ACas (q_pool (fs_q y)) (nx (fs_q y) ?i)" "fs_q y3 = fs_q y" "fs_out y3 = fs_out y"
        "fs_pc y3 = (fs_pc y)(t := ACas (q_pool (fs_q y)) (nx (fs_q y) ?i))" "fs_pops y3 = fs_pops y"
      using y2 False by (simp_all add: y3_def pc2 fl_move_def Let_def)
    define y4 where "y4 = fl_move t (freelist_step False (fs_pc y3 t) (fs_q y3)) y3"
    have 4: "fl_step y3 y4" unfolding y4_def by (rule fl_code) (simp add: y3)
    have y4: "fs_pc y4 t = AGot (Some ?i)" "fs_q y4 = (fs_q y)\<lparr>q_pool := tagged (nx (fs_q y) ?i) (get_next_tag (q_pool (fs_q y)))\<rparr>"
      "fs_out y4 = fs_out y" "fs_pc y4 = (fs_pc y)(t := AGot (Some ?i))"
      "fs_pops y4 = Suc (fs_pops y)"
      using y3 by (simp_all add: y4_def fl_move_def)
    have 5: "fl_step y4 (y4\<lparr>fs_pc := (fs_pc y4)(t := FIdle), fs_out := ?i # fs_out y4\<rparr>)"
      using fl_allocated [OF y4(1)] by simp
    have r: "r = Some ?i" "q' = fs_q y4" using False assms(2) by (auto simp: freelist_allocate_def y4 Let_def)
    show thesis
      by (rule that [OF free_step [OF 1 free_step [OF 2 free_step [OF 3 free_step [OF 4 free_step [OF 5 fl_refl]]]]]])
        (simp_all add: y4 r restored)
  qed
qed

lemma solo_deallocate:
  assumes "fs_pc y t = FIdle" and "i \<in> set (fs_out y)"
  obtains y' where "free_run y y'" and "fs_q y' = freelist_deallocate i (fs_q y)" and "fs_pc y' = fs_pc y"
    and "fs_out y' = remove1 i (fs_out y)"
proof -
  let ?p = "q_pool (fs_q y)"
  define y1 where "y1 = y\<lparr>fs_pc := (fs_pc y)(t := DLoad i), fs_out := remove1 i (fs_out y)\<rparr>"
  have 1: "fl_step y y1" unfolding y1_def by (rule fl_deallocate) (rule assms)+
  define y2 where "y2 = fl_move t (freelist_step False (fs_pc y1 t) (fs_q y1)) y1"
  have 2: "fl_step y1 y2" unfolding y2_def by (rule fl_code) (simp add: y1_def)
  have y2: "fs_pc y2 t = DLink i ?p" "fs_q y2 = fs_q y" "fs_out y2 = remove1 i (fs_out y)" "fs_pc y2 = (fs_pc y)(t := DLink i ?p)"
    by (simp_all add: y2_def y1_def fl_move_def)
  define y3 where "y3 = fl_move t (freelist_step False (fs_pc y2 t) (fs_q y2)) y2"
  have 3: "fl_step y2 y3" unfolding y3_def by (rule fl_code) (simp add: y2)
  have y3: "fs_pc y3 t = DCas i ?p" "fs_out y3 = remove1 i (fs_out y)" "fs_pc y3 = (fs_pc y)(t := DCas i ?p)"
    "fs_q y3 = (fs_q y)\<lparr>q_next := (q_next (fs_q y))(i := tagged (tg_index ?p) (tg_tag (q_next (fs_q y) i)))\<rparr>"
    by (simp_all add: y3_def y2 fl_move_def)
  define y4 where "y4 = fl_move t (freelist_step False (fs_pc y3 t) (fs_q y3)) y3"
  have 4: "fl_step y3 y4" unfolding y4_def by (rule fl_code) (simp add: y3)
  have y4: "fs_pc y4 t = DEnd" "fs_out y4 = remove1 i (fs_out y)" "fs_pc y4 = (fs_pc y)(t := DEnd)"
    "fs_q y4 = freelist_deallocate i (fs_q y)"
    using y3 by (simp_all add: y4_def fl_move_def freelist_deallocate_def)
  have 5: "fl_step y4 (y4\<lparr>fs_pc := (fs_pc y4)(t := FIdle)\<rparr>)" by (rule fl_deallocated) (rule y4)
  show thesis
    by (rule that [OF free_step [OF 1 free_step [OF 2 free_step [OF 3 free_step [OF 4 free_step [OF 5 fl_refl]]]]]])
      (use assms(1) in \<open>auto simp: y4\<close>)
qed


lemma solo_take:
  assumes "fs_pc y t = FIdle" and "tg_index (q_pool (fs_q y)) = a" and "a \<noteq> null_handle (fs_q y)"
  obtains y' where "free_run y y'" and "fs_q y' = (fs_q y)\<lparr>q_pool := tagged (nx (fs_q y) a) (tg_tag (q_pool (fs_q y)) + 1)\<rparr>"
    and "fs_pc y' = fs_pc y" and "fs_out y' = a # fs_out y" and "fs_pops y' \<le> Suc (fs_pops y)"
proof -
  have "freelist_allocate (fs_q y)
    = (Some a, (fs_q y)\<lparr>q_pool := tagged (nx (fs_q y) a) (tg_tag (q_pool (fs_q y)) + 1)\<rparr>)"
    using assms(2,3) by (simp add: freelist_allocate_def get_next_tag_def Let_def)
  from solo_allocate [OF assms(1) this] show thesis using that by auto
qed

lemma stalled_allocate:
  assumes "fs_pc y t = FIdle" and "tg_index (q_pool (fs_q y)) = a" and "a \<noteq> null_handle (fs_q y)"
  obtains y' where "free_run y y'" and "fs_q y' = fs_q y" and "fs_out y' = fs_out y"
    and "fs_pc y' = (fs_pc y)(t := ACas (q_pool (fs_q y)) (nx (fs_q y) a))"
proof -
  define y1 where "y1 = y\<lparr>fs_pc := (fs_pc y)(t := ALoad)\<rparr>"
  have 1: "fl_step y y1" unfolding y1_def by (rule fl_allocate) (rule assms)
  define y2 where "y2 = fl_move t (freelist_step False (fs_pc y1 t) (fs_q y1)) y1"
  have 2: "fl_step y1 y2" unfolding y2_def by (rule fl_code) (simp add: y1_def)
  define y3 where "y3 = fl_move t (freelist_step False (fs_pc y2 t) (fs_q y2)) y2"
  have 3: "fl_step y2 y3" unfolding y3_def by (rule fl_code) (simp add: y2_def y1_def fl_move_def)
  show thesis
    by (rule that [OF free_step [OF 1 free_step [OF 2 free_step [OF 3 fl_refl]]]])
      (use assms in \<open>simp_all add: y3_def y2_def y1_def fl_move_def Let_def\<close>)
qed

text \<open>Fewer than 65536 allocations altogether are timely.\<close>

lemma few_are_timely: "free_run y y' \<Longrightarrow> fs_pops y' < 65536 \<Longrightarrow> fl_run timely y y'"
proof (induction rule: fl_run.induct)
  case (fl_next y1 y2)
  have "fs_pops y1 \<le> fs_pops y2" using fl_next.hyps(3) by cases (simp_all add: fl_move_def)
  then have few: "fs_pops y1 < 65536" using fl_next.prems by simp
  have "timely y1" unfolding timely_def using few by (auto intro: less_imp_diff_less)
  with fl_next.IH [OF few] have "fl_run timely y y1" "timely y1" by auto
  then show ?case using fl_next.hyps(3) by (rule fl_run.fl_next)
qed (rule fl_refl)

section \<open>The tag wraps around\<close>

text \<open>Allocating the first free node and giving it back only advances the tag.\<close>

lemma churn_once:
  assumes "tg_index (q_pool q) \<noteq> null_handle q" and "a = tg_index (q_pool q)"
  shows "freelist_allocate q = (Some a, snd (freelist_allocate q))"
    and "freelist_deallocate a (snd (freelist_allocate q)) = q\<lparr>q_pool := tagged a (tg_tag (q_pool q) + 1)\<rparr>"
proof -
  have parts: "tagged (tg_index h) (tg_tag h) = h" for h by (simp add: tagged_def)
  show "freelist_deallocate a (snd (freelist_allocate q)) = q\<lparr>q_pool := tagged a (tg_tag (q_pool q) + 1)\<rparr>"
    using assms by (simp add: freelist_allocate_def freelist_deallocate_def get_next_tag_def Let_def parts fun_upd_idem)
qed (use assms in \<open>simp add: freelist_allocate_def Let_def\<close>)

lemma churn:
  assumes "fs_pc y u = FIdle" and "tg_index (q_pool (fs_q y)) = a" and "a \<noteq> null_handle (fs_q y)"
  shows "\<exists>y'. free_run y y' \<and> fs_q y' = (fs_q y)\<lparr>q_pool := tagged a (tg_tag (q_pool (fs_q y)) + of_nat n)\<rparr>
    \<and> fs_pc y' = fs_pc y \<and> fs_out y' = fs_out y"
proof (induction n)
  case 0
  have "tagged a (tg_tag (q_pool (fs_q y))) = q_pool (fs_q y)" using assms(2) by (simp add: tagged_def)
  then show ?case by (intro exI [of _ y]) (auto intro: fl_refl)
next
  case (Suc n)
  then obtain y1 where y1: "free_run y y1" "fs_pc y1 = fs_pc y" "fs_out y1 = fs_out y"
    "fs_q y1 = (fs_q y)\<lparr>q_pool := tagged a (tg_tag (q_pool (fs_q y)) + of_nat n)\<rparr>" by blast
  have head: "tg_index (q_pool (fs_q y1)) \<noteq> null_handle (fs_q y1)" "a = tg_index (q_pool (fs_q y1))"
    using assms(3) by (simp_all add: y1 null_handle_def)
  have "fs_pc y1 u = FIdle" using y1(2) assms(1) by simp
  from solo_allocate [OF this churn_once(1) [OF head]] obtain y2 where
    y2: "free_run y1 y2" "fs_q y2 = snd (freelist_allocate (fs_q y1))" "fs_pc y2 = fs_pc y1" "fs_out y2 = a # fs_out y1"
    by auto
  have "fs_pc y2 u = FIdle" "a \<in> set (fs_out y2)" using y1(2) y2(3,4) assms(1) by simp_all
  from solo_deallocate [OF this] obtain y3 where
    y3: "free_run y2 y3" "fs_q y3 = freelist_deallocate a (fs_q y2)" "fs_pc y3 = fs_pc y2" "fs_out y3 = fs_out y1"
    using y2(4) by auto
  have "fs_q y3 = (fs_q y)\<lparr>q_pool := tagged a (tg_tag (q_pool (fs_q y)) + of_nat (Suc n))\<rparr>"
    using churn_once(2) [OF head] y1(4) by (simp add: y3(2) y2(2) add.assoc add.commute)
  moreover have "free_run y y3" using y1(1) y2(1) y3(1) fl_run_trans by blast
  ultimately show ?case using y1(2,3) y2(3) y3(3,4) by (intro exI [of _ y3]) simp
qed

text \<open>C21: the tag has 16 bits, and that is too few.  While a thread is between its load and its
  exchange, another takes the first two free nodes, gives the first back, and takes and gives
  it back 65534 times more.  The exchange succeeds, the second node is on the free list again
  while it is in use, and the next allocation hands it out a second time.\<close>

theorem freelist_tag_wraps:
  assumes "fl_rep y (a # b # fl)" and "t \<noteq> u" and "fs_pc y t = FIdle" and "fs_pc y u = FIdle"
  shows "\<exists>y'. fl_run (\<lambda>_. True) y y' \<and> count_list (fs_out y') b = 2"
proof -
  let ?q = "fs_q y" and ?p = "q_pool (fs_q y)"
  have p: "tg_index ?p = a" "nx ?q a = b" using fl_repD(2) [OF assms(1)] by simp_all
  have null: "a \<noteq> null_handle ?q" "b \<noteq> null_handle ?q" using fl_rep_null(1) [OF assms(1)] by auto
  have ab: "a \<noteq> b" "b \<notin> set (fs_out y)" using fl_repD(3) [OF assms(1)] by auto
  text \<open>Thread \<open>t\<close> stops before its exchange.\<close>
  obtain y3 where y3: "free_run y y3" "fs_q y3 = ?q" "fs_pc y3 = (fs_pc y)(t := ACas ?p b)" "fs_out y3 = fs_out y"
    using stalled_allocate [OF assms(3)] p null by auto
  have u3: "fs_pc y3 u = FIdle" using y3(3) assms(2,4) by simp
  text \<open>Thread \<open>u\<close> takes both nodes and gives the first back.\<close>
  obtain y4 where y4: "free_run y3 y4" "fs_q y4 = ?q\<lparr>q_pool := tagged b (tg_tag ?p + 1)\<rparr>" "fs_pc y4 = fs_pc y3"
    "fs_out y4 = a # fs_out y"
    using solo_take [OF u3] p null y3 by auto
  obtain y5 where y5: "free_run y4 y5" "fs_q y5 = ?q\<lparr>q_pool := tagged (nx ?q b) (tg_tag ?p + 2)\<rparr>" "fs_pc y5 = fs_pc y3"
    "fs_out y5 = b # a # fs_out y"
    using solo_take [of y4 u] u3 null y4 by (auto simp: null_handle_def add.assoc)
  obtain y6 where y6: "free_run y5 y6" "fs_q y6 = freelist_deallocate a (fs_q y5)" "fs_pc y6 = fs_pc y3"
    "fs_out y6 = b # fs_out y"
    using solo_deallocate [of y5 u a] u3 y5(3,4) ab(1) by auto
  have q6: "q_pool (fs_q y6) = tagged a (tg_tag ?p + 2)" "null_handle (fs_q y6) = null_handle ?q"
    by (simp_all add: y6(2) y5(2) freelist_deallocate_def null_handle_def)
  obtain y7 where y7: "free_run y6 y7" "q_pool (fs_q y7) = tagged a (tg_tag ?p + 2 + of_nat 65534)"
    "null_handle (fs_q y7) = null_handle ?q" "fs_pc y7 = fs_pc y3" "fs_out y7 = b # fs_out y"
    using churn [of y6 u a 65534] u3 y6(3,4) q6 null(1) by (auto simp: null_handle_def)
  have wrapped: "q_pool (fs_q y7) = ?p" using y7(2) p(1) by (simp add: tagged_def)
  text \<open>The exchange of \<open>t\<close> succeeds.\<close>
  define y8 where "y8 = fl_move t (freelist_step False (fs_pc y7 t) (fs_q y7)) y7"
  have 8: "fl_step y7 y8" unfolding y8_def by (rule fl_code) (simp add: y7 y3)
  have y8: "fs_pc y8 t = AGot (Some a)" "fs_out y8 = b # fs_out y" "q_pool (fs_q y8) = tagged b (tg_tag ?p + 1)"
    "null_handle (fs_q y8) = null_handle ?q" "fs_pc y8 u = FIdle"
    using wrapped p(1) assms(2,4) y7(3)
    by (simp_all add: y8_def y7 y3 fl_move_def get_next_tag_def null_handle_def)
  define y9 where "y9 = y8\<lparr>fs_pc := (fs_pc y8)(t := FIdle), fs_out := a # fs_out y8\<rparr>"
  have 9: "fl_step y8 y9" unfolding y9_def using fl_allocated [OF y8(1)] by simp
  obtain y10 where y10: "free_run y9 y10" "fs_out y10 = b # a # b # fs_out y"
    using solo_take [of y9 u] y8 assms(2) null(2) by (auto simp: y9_def)
  have "free_run y7 y10" by (rule free_step [OF 8 free_step [OF 9 y10(1)]])
  then have "free_run y y10"
    using y3(1) y4(1) y5(1) y6(1) y7(1) fl_run_trans by metis
  moreover have "count_list (fs_out y10) b = 2"
    using ab y10(2) by (simp add: count_notin)
  ultimately show ?thesis by blast
qed


section \<open>Examples\<close>

definition sample_list :: "nat lfq" where
  "sample_list = freelist_initialize [0, 1]
     \<lparr>q_count = 2, q_next = (\<lambda>_. tagged 0 0), q_data = (\<lambda>_. 0), q_pool = tagged 2 0,
      q_head = tagged 0 0, q_tail = tagged 0 0\<rparr>"

lemma sample_list_init: "freelist_init (\<lambda>_. tagged 0 0) (\<lambda>_. 0) 2 = Inr sample_list"
  by (simp add: freelist_init_def sample_list_def upt_rec numeral_2_eq_2)

lemma sample_list_rep: "fl_rep (fl_start sample_list) [1, 0]"
  using fl_rep_start(1) [OF sample_list_init] by (simp add: upt_rec numeral_2_eq_2)

theorem freelist_hands_out_once_witness:
  "\<exists>y fl. fl_run timely (fl_start sample_list) y \<and> fs_out y = [1]
    \<and> linked (nx (fs_q y)) (tg_index (q_pool (fs_q y))) fl (null_handle (fs_q y)) \<and> distinct (fl @ fs_out y)"
proof -
  have "tg_index (q_pool sample_list) = 1" "1 \<noteq> null_handle sample_list"
    using fl_rep_pool [OF sample_list_rep] fl_rep_null(1) [OF sample_list_rep] by (auto simp: fl_start_def)
  then obtain y where y: "free_run (fl_start sample_list) y" "fs_out y = [1]" "fs_pops y \<le> 1"
    using solo_take [of "fl_start sample_list" 0 1] by (auto simp: fl_start_def)
  have "fl_run timely (fl_start sample_list) y" using few_are_timely [OF y(1)] y(3) by simp
  from freelist_hands_out_once [OF sample_list_init this] this y(2) show ?thesis by blast
qed

theorem freelist_tag_wraps_witness:
  "\<exists>y. fl_run (\<lambda>_. True) (fl_start sample_list) y \<and> count_list (fs_out y) 0 = 2"
  using freelist_tag_wraps [OF sample_list_rep, of 0 1] by (auto simp: fl_start_def)

end
