(* ===== verification/QueueInv.thy ===== *)
theory QueueInv
  imports QueueRaces
begin

text \<open>
  The invariant of the concurrent lock-free queue and its preservation.  \<open>chain\<close> is the linked list
  from the head; \<open>knows\<close> is what a thread may rely on at its program counter; \<open>leaves\<close> is what a
  step of one thread may do to what another knows, so that every fact about a thread is shown
  stable once (\<open>knows_leaves\<close>) and every step is shown to respect the others once.
\<close>

section \<open>The chain of the queue\<close>

text \<open>From the head over the elements to null; the tail is one of the nodes.\<close>

definition chain :: "'a lfq \<Rightarrow> u16 list \<Rightarrow> bool" where
  "chain q ns \<longleftrightarrow> ns \<noteq> [] \<and> distinct ns \<and> null_handle q \<notin> set ns
     \<and> linked (nx q) (tg_index (q_head q)) ns (null_handle q) \<and> tg_index (q_tail q) \<in> set ns"

lemma linked_last: "linked f a xs z \<Longrightarrow> xs \<noteq> [] \<Longrightarrow> f (last xs) = z"
  by (induction xs arbitrary: a) auto

lemma linked_succ: "linked f a xs z \<Longrightarrow> x \<in> set xs \<Longrightarrow> f x = z \<or> f x \<in> set (tl xs)"
proof (induction xs arbitrary: a)
  case (Cons y ys)
  then show ?case by (cases ys) auto
qed simp

lemma chain_head: "chain q ns \<Longrightarrow> tg_index (q_head q) = hd ns \<and> hd ns \<in> set ns"
  by (cases ns) (auto simp: chain_def)

lemma chain_succ:
  assumes "chain q ns" and "x \<in> set ns" and "nx q x \<noteq> null_handle q"
  shows "nx q x \<in> set (tl ns)" and "nx q x \<in> set ns" and "nx q x \<noteq> tg_index (q_head q)"
proof -
  show 1: "nx q x \<in> set (tl ns)"
    using linked_succ [of "nx q" _ ns _ x] assms by (auto simp: chain_def)
  then show "nx q x \<in> set ns" by (cases ns) auto
  show "nx q x \<noteq> tg_index (q_head q)"
    using 1 assms(1) by (cases ns) (auto simp: chain_def)
qed

lemma chain_last:
  assumes "chain q ns" and "x \<in> set ns" and "nx q x = null_handle q"
  shows "x = last ns"
proof (rule ccontr)
  assume "x \<noteq> last ns"
  obtain xs ys where ns: "ns = xs @ x # ys" using assms(2) by (meson split_list)
  then obtain y ys' where "ys = y # ys'" using \<open>x \<noteq> last ns\<close> by (cases ys) auto
  then have "nx q x = y" "y \<in> set ns" using assms(1) ns by (auto simp: chain_def linked_append)
  then show False using assms(1,3) by (auto simp: chain_def)
qed

lemma chain_nulls: "chain q ns \<Longrightarrow> nx q (last ns) = null_handle q"
  using linked_last by (auto simp: chain_def)

lemma chain_single: "chain q ns \<Longrightarrow> ns = [tg_index (q_head q)] \<longleftrightarrow> nx q (tg_index (q_head q)) = null_handle q"
proof -
  assume c: "chain q ns"
  obtain h ms where ns: "ns = h # ms" using c by (cases ns) (auto simp: chain_def)
  then show ?thesis using c by (cases ms) (auto simp: chain_def)
qed

text \<open>The four ways the chain changes.\<close>

lemma chain_off:
  assumes "chain q ns" and "q_head q' = q_head q" and "q_tail q' = q_tail q" and "q_count q' = q_count q"
    and "\<And>x. x \<in> set ns \<Longrightarrow> nx q' x = nx q x"
  shows "chain q' ns"
proof -
  have "linked f a xs z \<Longrightarrow> (\<And>x. x \<in> set xs \<Longrightarrow> g x = f x) \<Longrightarrow> linked g a xs z" for f g a xs and z :: u16
    by (induction xs arbitrary: a) auto
  then show ?thesis using assms by (auto simp: chain_def null_handle_def)
qed

lemma chain_link:
  assumes c: "chain q ns" and x: "x \<in> set ns" "nx q x = null_handle q"
    and n: "n \<notin> set ns" "n \<noteq> null_handle q" "nx q n = null_handle q"
    and q': "q' = q\<lparr>q_next := (q_next q)(x := tagged n g)\<rparr>"
  shows "chain q' (ns @ [n])"
proof -
  have l: "x = last ns" using chain_last [OF c x] .
  obtain ms where ns: "ns = ms @ [x]" using c l by (cases ns rule: rev_cases) (auto simp: chain_def)
  have nx': "nx q' = (nx q)(x := n)" using q' by auto
  have "linked (nx q') (tg_index (q_head q)) (ms @ [x, n]) (null_handle q)"
    using c n ns unfolding nx' by (auto simp: chain_def linked_append)
  then show ?thesis using c n ns q' by (auto simp: chain_def null_handle_def)
qed

lemma chain_advance_head:
  assumes c: "chain q ns" and "tg_index (q_tail q) \<noteq> tg_index (q_head q)" and "p \<noteq> null_handle q"
    and "nx q (tg_index (q_head q)) = p" and "q' = q\<lparr>q_head := tagged p g\<rparr>"
  shows "chain q' (tl ns)"
  using assms by (cases ns) (auto simp: chain_def null_handle_def)

lemma chain_exchange_tail:
  assumes c: "chain q ns" and "tg_index tail \<noteq> null_handle q"
    and "q_tail q = tail \<Longrightarrow> nx q (tg_index tail) = p" and "p \<noteq> null_handle q"
  shows "chain (exchange_tail tail p q) ns"
proof (cases "q_tail q = tail")
  case True
  then have "p \<in> set ns"
    using chain_succ(2) [OF c, of "tg_index tail"] assms by (auto simp: chain_def)
  then show ?thesis using c True by (simp add: exchange_tail_def chain_def null_handle_def)
qed (use c in \<open>simp add: exchange_tail_def\<close>)

section \<open>What a thread knows\<close>

definition head_seen :: "'a lfq \<Rightarrow> counters \<Rightarrow> seen \<Rightarrow> tagged_index \<Rightarrow> bool" where
  "head_seen q c s head \<longleftrightarrow> s_head s \<le> c_head c \<and> tg_index head \<noteq> null_handle q
     \<and> tg_tag head + of_nat (c_head c - s_head s) = tg_tag (q_head q)
     \<and> (c_head c = s_head s \<longrightarrow> q_head q = head)"

definition tail_seen :: "'a lfq \<Rightarrow> counters \<Rightarrow> seen \<Rightarrow> tagged_index \<Rightarrow> bool" where
  "tail_seen q c s tail \<longleftrightarrow> s_tail s \<le> c_tail c \<and> tg_index tail \<noteq> null_handle q
     \<and> tg_tag tail + of_nat (c_tail c - s_tail s) = tg_tag (q_tail q)
     \<and> (c_tail c = s_tail s \<longrightarrow> q_tail q = tail)"

definition next_seen :: "'a lfq \<Rightarrow> counters \<Rightarrow> seen \<Rightarrow> tagged_index \<Rightarrow> u16 \<Rightarrow> bool" where
  "next_seen q c s next x \<longleftrightarrow> s_next s \<le> c_next c x
     \<and> tg_tag next + of_nat (c_next c x - s_next s) = tg_tag (q_next q x)"

definition mine :: "'a lfq \<Rightarrow> 'a \<Rightarrow> u16 \<Rightarrow> bool" where
  "mine q t n \<longleftrightarrow> nx q n = null_handle q \<and> q_data q n = t \<and> n \<noteq> null_handle q"

fun knows :: "'a lfq \<Rightarrow> u16 list \<Rightarrow> counters \<Rightarrow> seen \<Rightarrow> 'a queue_pc \<Rightarrow> bool" where
  "knows q ns c s (PConstruct t n) \<longleftrightarrow> n \<noteq> null_handle q"
| "knows q ns c s (PReset t n) \<longleftrightarrow> n \<noteq> null_handle q \<and> q_data q n = t"
| "knows q ns c s (PLoadTail t n) \<longleftrightarrow> mine q t n"
| "knows q ns c s (PLoadNext t n tail) \<longleftrightarrow> mine q t n \<and> tail_seen q c s tail"
| "knows q ns c s (PLoadTail2 t n tail next) \<longleftrightarrow>
     mine q t n \<and> tail_seen q c s tail \<and> next_seen q c s next (tg_index tail)
     \<and> (c_tail c = s_tail s \<longrightarrow>
          (if tg_index next = null_handle q
           then c_next c (tg_index tail) = s_next s \<longrightarrow> q_next q (tg_index tail) = next
           else nx q (tg_index tail) = tg_index next))"
| "knows q ns c s (PLink t n tail next) \<longleftrightarrow>
     mine q t n \<and> tail_seen q c s tail \<and> next_seen q c s next (tg_index tail) \<and> tg_index next = null_handle q
     \<and> (c_next c (tg_index tail) = s_next s \<longrightarrow>
          tg_index tail \<in> set ns \<and> q_next q (tg_index tail) = next \<and> c_tail c = s_tail s)"
| "knows q ns c s (PSwing t n tail) \<longleftrightarrow>
     tail_seen q c s tail \<and> n \<noteq> null_handle q \<and> (c_tail c = s_tail s \<longrightarrow> nx q (tg_index tail) = n)"
| "knows q ns c s (PHelp t n tail p) \<longleftrightarrow>
     mine q t n \<and> tail_seen q c s tail \<and> p \<noteq> null_handle q \<and> (c_tail c = s_tail s \<longrightarrow> nx q (tg_index tail) = p)"
| "knows q ns c s (QLoadTail head) \<longleftrightarrow> head_seen q c s head"
| "knows q ns c s (QLoadNext head tail) \<longleftrightarrow> head_seen q c s head \<and> tail_seen q c s tail
     \<and> (c_head c = s_head s \<longrightarrow> tg_index tail \<noteq> tg_index head \<longrightarrow> tg_index (q_tail q) \<noteq> tg_index head)"
| "knows q ns c s (QLoadHead2 head tail next) \<longleftrightarrow> head_seen q c s head \<and> tail_seen q c s tail
     \<and> (c_head c = s_head s \<longrightarrow> tg_index tail \<noteq> tg_index head \<longrightarrow> tg_index (q_tail q) \<noteq> tg_index head)
     \<and> (c_head c = s_head s \<longrightarrow>
          (if tg_index next = null_handle q then s_empty s else nx q (tg_index head) = tg_index next))
     \<and> (c_head c = s_head s \<longrightarrow> tg_index tail \<noteq> tg_index head \<longrightarrow> tg_index next \<noteq> null_handle q)
     \<and> (c_tail c = s_tail s \<longrightarrow> tg_index tail = tg_index head \<longrightarrow> tg_index next \<noteq> null_handle q \<longrightarrow>
          nx q (tg_index tail) = tg_index next)"
| "knows q ns c s (QHelp tail p) \<longleftrightarrow>
     tail_seen q c s tail \<and> p \<noteq> null_handle q \<and> (c_tail c = s_tail s \<longrightarrow> nx q (tg_index tail) = p)"
| "knows q ns c s (QCopy head p) \<longleftrightarrow> head_seen q c s head \<and> p \<noteq> null_handle q
     \<and> (c_head c = s_head s \<longrightarrow> nx q (tg_index head) = p \<and> tg_index (q_tail q) \<noteq> tg_index head)"
| "knows q ns c s (QCas head p v) \<longleftrightarrow> head_seen q c s head \<and> p \<noteq> null_handle q
     \<and> (c_head c = s_head s \<longrightarrow> nx q (tg_index head) = p \<and> tg_index (q_tail q) \<noteq> tg_index head \<and> q_data q p = v)"
| "knows q ns c s (PopRet r) \<longleftrightarrow> (r = None \<longrightarrow> s_empty s)"
| "knows q ns c s QFault \<longleftrightarrow> False"
| "knows q ns c s pc \<longleftrightarrow> True"

fun holds_node :: "'a queue_pc \<Rightarrow> u16 option" where
  "holds_node (PConstruct t n) = Some n"
| "holds_node (PReset t n) = Some n"
| "holds_node (PLoadTail t n) = Some n"
| "holds_node (PLoadNext t n tail) = Some n"
| "holds_node (PLoadTail2 t n tail next) = Some n"
| "holds_node (PLink t n tail next) = Some n"
| "holds_node (PHelp t n tail p) = Some n"
| "holds_node (QFree h v) = Some h"
| "holds_node pc = None"

text \<open>What the steps of the others do, as far as a thread with node \<open>m\<close> is concerned.\<close>

definition leaves :: "u16 option \<Rightarrow> 'a lfq \<Rightarrow> u16 list \<Rightarrow> counters \<Rightarrow> 'a lfq \<Rightarrow> u16 list \<Rightarrow> counters \<Rightarrow> bool" where
  "leaves m q ns c q' ns' c' \<longleftrightarrow>
     q_count q' = q_count q
     \<and> (q_head q' = q_head q \<and> c_head c' = c_head c \<or> c_head c' = Suc (c_head c) \<and> tg_tag (q_head q') = tg_tag (q_head q) + 1)
     \<and> (q_tail q' = q_tail q \<and> c_tail c' = c_tail c \<or> c_tail c' = Suc (c_tail c) \<and> tg_tag (q_tail q') = tg_tag (q_tail q) + 1)
     \<and> (c_head c' = c_head c \<longrightarrow> tg_index (q_tail q) \<noteq> tg_index (q_head q) \<longrightarrow> tg_index (q_tail q') \<noteq> tg_index (q_head q))
     \<and> (nx q (tg_index (q_tail q)) = null_handle q \<longrightarrow> c_tail c' = c_tail c)
     \<and> (\<forall>x. tg_tag (q_next q' x) = tg_tag (q_next q x) \<and> c_next c' x = c_next c x
          \<or> tg_tag (q_next q' x) = tg_tag (q_next q x) + 1 \<and> c_next c' x = Suc (c_next c x))
     \<and> (\<forall>x\<in>set ns. (nx q x \<noteq> null_handle q \<longrightarrow> nx q' x = nx q x) \<and> q_data q' x = q_data q x
          \<and> (c_next c' x = c_next c x \<longrightarrow> q_next q' x = q_next q x \<and> (nx q x = null_handle q \<longrightarrow> x \<in> set ns')))
     \<and> (\<forall>n. m = Some n \<longrightarrow> q_next q' n = q_next q n \<and> q_data q' n = q_data q n)"

lemma head_seen_leaves:
  assumes "head_seen q c s head" and "leaves m q ns c q' ns' c'"
  shows "head_seen q' c' s head"
  using assms by (auto simp: head_seen_def leaves_def null_handle_def Suc_diff_le add.assoc add.commute simp del: of_nat_diff)

lemma tail_seen_leaves:
  assumes "tail_seen q c s tail" and "leaves m q ns c q' ns' c'"
  shows "tail_seen q' c' s tail"
  using assms by (auto simp: tail_seen_def leaves_def null_handle_def Suc_diff_le add.assoc add.commute simp del: of_nat_diff)

lemma next_seen_leaves:
  assumes "next_seen q c s next x" and "leaves m q ns c q' ns' c'"
  shows "next_seen q' c' s next x"
proof -
  have "tg_tag (q_next q' x) = tg_tag (q_next q x) \<and> c_next c' x = c_next c x
    \<or> tg_tag (q_next q' x) = tg_tag (q_next q x) + 1 \<and> c_next c' x = Suc (c_next c x)"
    using assms(2) by (simp add: leaves_def)
  then show ?thesis
    using assms(1) by (auto simp: next_seen_def Suc_diff_le add.assoc add.commute simp del: of_nat_diff)
qed

lemma mine_leaves: "mine q t n \<Longrightarrow> leaves (Some n) q ns c q' ns' c' \<Longrightarrow> mine q' t n"
  by (auto simp: mine_def leaves_def null_handle_def)


lemma leavesD:
  assumes "leaves m q ns c q' ns' c'"
  shows "null_handle q' = null_handle q"
    and "c_head c \<le> c_head c'" and "c_tail c \<le> c_tail c'" and "c_next c x \<le> c_next c' x"
    and "c_head c' = c_head c \<Longrightarrow> q_head q' = q_head q"
    and "c_tail c' = c_tail c \<Longrightarrow> q_tail q' = q_tail q"
    and "c_head c' = c_head c \<Longrightarrow> tg_index (q_tail q) \<noteq> tg_index (q_head q) \<Longrightarrow> tg_index (q_tail q') \<noteq> tg_index (q_head q)"
    and "x \<in> set ns \<Longrightarrow> nx q x \<noteq> null_handle q \<Longrightarrow> nx q' x = nx q x"
    and "x \<in> set ns \<Longrightarrow> q_data q' x = q_data q x"
    and "x \<in> set ns \<Longrightarrow> c_next c' x = c_next c x \<Longrightarrow> q_next q' x = q_next q x"
    and "x \<in> set ns \<Longrightarrow> c_next c' x = c_next c x \<Longrightarrow> nx q x = null_handle q \<Longrightarrow> x \<in> set ns'"
    and "m = Some n \<Longrightarrow> q_next q' n = q_next q n \<and> q_data q' n = q_data q n"
    and "nx q (tg_index (q_tail q)) = null_handle q \<Longrightarrow> c_tail c' = c_tail c"
proof -
  have n: "tg_tag (q_next q' x) = tg_tag (q_next q x) \<and> c_next c' x = c_next c x
    \<or> tg_tag (q_next q' x) = tg_tag (q_next q x) + 1 \<and> c_next c' x = Suc (c_next c x)"
    using assms by (simp add: leaves_def)
  then show "c_next c x \<le> c_next c' x" by auto
qed (use assms in \<open>auto simp: leaves_def null_handle_def\<close>)

text \<open>While the head has not moved, it is the first node; while the tail has not moved, it is a
  node of the chain.\<close>

lemma head_unmoved:
  assumes "chain q ns" and "head_seen q c s head" and "leaves m q ns c q' ns' c'" and "c_head c' = s_head s"
  shows "c_head c = s_head s" and "q_head q = head" and "q_head q' = head" and "tg_index head \<in> set ns"
proof -
  show "c_head c = s_head s"
    using assms(2,4) leavesD(2) [OF assms(3)] by (simp add: head_seen_def)
  then show "q_head q = head" using assms(2) by (simp add: head_seen_def)
  then show "q_head q' = head" "tg_index head \<in> set ns"
    using leavesD(5) [OF assms(3)] assms(4) \<open>c_head c = s_head s\<close> chain_head [OF assms(1)] by auto
qed

lemma tail_unmoved:
  assumes "chain q ns" and "tail_seen q c s tail" and "leaves m q ns c q' ns' c'" and "c_tail c' = s_tail s"
  shows "c_tail c = s_tail s" and "q_tail q = tail" and "tg_index tail \<in> set ns"
proof -
  show "c_tail c = s_tail s"
    using assms(2,4) leavesD(3) [OF assms(3)] by (simp add: tail_seen_def)
  then show "q_tail q = tail" using assms(2) by (simp add: tail_seen_def)
  then show "tg_index tail \<in> set ns" using assms(1) by (auto simp: chain_def)
qed

lemma next_unmoved:
  assumes "next_seen q c s next x" and "leaves m q ns c q' ns' c'" and "c_next c' x = s_next s"
  shows "c_next c x = s_next s"
  using assms leavesD(4) [OF assms(2), of x] by (simp add: next_seen_def)

lemma knows_leaves:
  assumes ch: "chain q ns" and k: "knows q ns c s pc" and l: "leaves (holds_node pc) q ns c q' ns' c'"
  shows "knows q' ns' c' s pc"
proof (cases pc)
  case (PLoadTail2 t n tail nxt)
  note k = k [unfolded PLoadTail2 knows.simps]
  have "if tg_index nxt = null_handle q then c_next c' (tg_index tail) = s_next s \<longrightarrow> q_next q' (tg_index tail) = nxt
      else nx q' (tg_index tail) = tg_index nxt" if "c_tail c' = s_tail s"
    using k tail_unmoved [OF ch _ l that] next_unmoved [OF _ l] leavesD(8,10) [OF l] by auto
  then show ?thesis
    using PLoadTail2 k mine_leaves [OF _ l [unfolded PLoadTail2 holds_node.simps]] tail_seen_leaves [OF _ l] next_seen_leaves [OF _ l] leavesD(1) [OF l] by simp
next
  case (PLink t n tail nxt)
  note k = k [unfolded PLink knows.simps]
  have "tg_index tail \<in> set ns' \<and> q_next q' (tg_index tail) = nxt \<and> c_tail c' = s_tail s"
    if "c_next c' (tg_index tail) = s_next s"
    using k next_unmoved [OF _ l that] leavesD(10,11,13) [OF l] that by (auto simp: tail_seen_def)
  then show ?thesis
    using PLink k mine_leaves [OF _ l [unfolded PLink holds_node.simps]] tail_seen_leaves [OF _ l] next_seen_leaves [OF _ l] leavesD(1) [OF l] by simp
next
  case (PSwing t n tail)
  note k = k [unfolded PSwing knows.simps]
  have "nx q' (tg_index tail) = n" if "c_tail c' = s_tail s"
    using k tail_unmoved [OF ch _ l that] leavesD(8) [OF l] by auto
  then show ?thesis using PSwing k tail_seen_leaves [OF _ l] leavesD(1) [OF l] by simp
next
  case (PHelp t n tail p)
  note k = k [unfolded PHelp knows.simps]
  have "nx q' (tg_index tail) = p" if "c_tail c' = s_tail s"
    using k tail_unmoved [OF ch _ l that] leavesD(8) [OF l] by auto
  then show ?thesis using PHelp k mine_leaves [OF _ l [unfolded PHelp holds_node.simps]] tail_seen_leaves [OF _ l] leavesD(1) [OF l] by simp
next
  case (QHelp tail p)
  note k = k [unfolded QHelp knows.simps]
  have "nx q' (tg_index tail) = p" if "c_tail c' = s_tail s"
    using k tail_unmoved [OF ch _ l that] leavesD(8) [OF l] by auto
  then show ?thesis using QHelp k tail_seen_leaves [OF _ l] leavesD(1) [OF l] by simp
next
  case (QLoadNext head tail)
  note k = k [unfolded QLoadNext knows.simps]
  have "tg_index (q_tail q') \<noteq> tg_index head" if "c_head c' = s_head s" "tg_index tail \<noteq> tg_index head"
    using k head_unmoved [OF ch _ l that(1)] leavesD(7) [OF l] that by auto
  then show ?thesis using QLoadNext k head_seen_leaves [OF _ l] tail_seen_leaves [OF _ l] by simp
next
  case (QLoadHead2 head tail nxt)
  note k = k [unfolded QLoadHead2 knows.simps]
  have 1: "tg_index (q_tail q') \<noteq> tg_index head" if "c_head c' = s_head s" "tg_index tail \<noteq> tg_index head"
    using k head_unmoved [OF ch _ l that(1)] leavesD(7) [OF l] that by auto
  have 2: "if tg_index nxt = null_handle q then s_empty s else nx q' (tg_index head) = tg_index nxt"
    if "c_head c' = s_head s"
    using k head_unmoved [OF ch _ l that(1)] leavesD(8) [OF l] that by auto
  have 3: "nx q' (tg_index tail) = tg_index nxt"
    if "c_tail c' = s_tail s" "tg_index tail = tg_index head" "tg_index nxt \<noteq> null_handle q"
  proof -
    have "tail_seen q c s tail" using k by simp
    note u = tail_unmoved [OF ch this l that(1)]
    then show ?thesis using k that(2,3) leavesD(8) [OF l u(3)] by simp
  qed
  have 4: "tg_index nxt \<noteq> null_handle q" if "c_head c' = s_head s" "tg_index tail \<noteq> tg_index head"
    using k head_unmoved [OF ch _ l that(1)] that by auto
  have "head_seen q' c' s head" "tail_seen q' c' s tail" using k head_seen_leaves [OF _ l] tail_seen_leaves [OF _ l] by simp_all
  with 1 2 3 4 show ?thesis unfolding QLoadHead2 knows.simps leavesD(1) [OF l] by blast
next
  case (QCopy head p)
  note k = k [unfolded QCopy knows.simps]
  have "nx q' (tg_index head) = p \<and> tg_index (q_tail q') \<noteq> tg_index head" if "c_head c' = s_head s"
    using k head_unmoved [OF ch _ l that(1)] leavesD(7,8) [OF l] that by auto
  then show ?thesis using QCopy k head_seen_leaves [OF _ l] leavesD(1) [OF l] by simp
next
  case (QCas head p v)
  note k = k [unfolded QCas knows.simps]
  have "nx q' (tg_index head) = p \<and> tg_index (q_tail q') \<noteq> tg_index head \<and> q_data q' p = v" if "c_head c' = s_head s"
    using k head_unmoved [OF ch _ l that(1)] leavesD(7,8) [OF l] leavesD(9) [OF l, of p] chain_succ(2) [OF ch] that
    by auto
  then show ?thesis using QCas k head_seen_leaves [OF _ l] leavesD(1) [OF l] by simp
qed (use k l mine_leaves tail_seen_leaves [OF _ l] head_seen_leaves [OF _ l] leavesD(1) [OF l] leavesD(12) [OF l] in \<open>auto\<close>)


section \<open>The invariant\<close>

fun pool_ok :: "'a queue_pc \<Rightarrow> fl_pc \<Rightarrow> bool" where
  "pool_ok (PAlloc v) pc \<longleftrightarrow> (case pc of ALoad \<Rightarrow> True | ATest old \<Rightarrow> True | ACas old n \<Rightarrow> True | AGot r \<Rightarrow> True | _ \<Rightarrow> False)"
| "pool_ok (QFreeing v) pc \<longleftrightarrow> (case pc of DLoad i \<Rightarrow> True | DLink i old \<Rightarrow> True | DCas i old \<Rightarrow> True | DEnd \<Rightarrow> True | _ \<Rightarrow> False)"
| "pool_ok qpc pc \<longleftrightarrow> pc = FIdle"

text \<open>The tail is the last node, or the thread that linked the last node is about to advance it.\<close>

definition tail_last :: "'a qsys \<Rightarrow> u16 list \<Rightarrow> bool" where
  "tail_last y ns \<longleftrightarrow> tg_index (q_tail (qs_q y)) = last ns
     \<or> (\<exists>t v tail. qs_pc y t = PSwing v (last ns) tail \<and> c_tail (qs_cnt y) = s_tail (qs_seen y t))"

fun swinging :: "'a queue_pc \<Rightarrow> bool" where
  "swinging (PSwing v n tail) = True"
| "swinging pc = False"

lemma tail_last_other:
  assumes "tail_last y ns" and "\<not> swinging (qs_pc y t)" and "last ns' = last ns"
    and "q_tail (qs_q y') = q_tail (qs_q y)" and "c_tail (qs_cnt y') = c_tail (qs_cnt y)"
    and "\<And>u. u \<noteq> t \<Longrightarrow> qs_pc y' u = qs_pc y u" and "\<And>u. u \<noteq> t \<Longrightarrow> qs_seen y' u = qs_seen y u"
  shows "tail_last y' ns'"
  using assms(1) unfolding tail_last_def
proof
  assume "\<exists>u v tail. qs_pc y u = PSwing v (last ns) tail \<and> c_tail (qs_cnt y) = s_tail (qs_seen y u)"
  then obtain u v tail where u: "qs_pc y u = PSwing v (last ns) tail" "c_tail (qs_cnt y) = s_tail (qs_seen y u)" by blast
  then have "u \<noteq> t" using assms(2) by auto
  then show "tg_index (q_tail (qs_q y')) = last ns'
    \<or> (\<exists>t v tail. qs_pc y' t = PSwing v (last ns') tail \<and> c_tail (qs_cnt y') = s_tail (qs_seen y' t))"
    using u assms(3,5-7) by metis
qed (use assms in simp)

definition q_rep :: "'a qsys \<Rightarrow> u16 list \<Rightarrow> bool" where
  "q_rep y ns \<longleftrightarrow>
     (\<exists>fl. fl_rep (qs_fl y) fl) \<and> chain (qs_q y) ns \<and> set ns \<subseteq> set (fs_out (qs_fl y))
     \<and> (\<forall>t n. holds_node (qs_pc y t) = Some n \<longrightarrow> n \<in> set (fs_out (qs_fl y)) \<and> n \<notin> set ns
          \<and> (\<forall>u. u \<noteq> t \<longrightarrow> holds_node (qs_pc y u) \<noteq> Some n))
     \<and> (\<forall>t. pool_ok (qs_pc y t) (fs_pc (qs_fl y) t))
     \<and> (\<forall>t. knows (qs_q y) ns (qs_cnt y) (qs_seen y t) (qs_pc y t))
     \<and> tail_last y ns
     \<and> (\<forall>i \<in> set (fs_out (qs_fl y)). i \<in> set ns \<or> (\<exists>t. holds_node (qs_pc y t) = Some i))"

lemma q_repD:
  assumes "q_rep y ns"
  shows "\<exists>fl. fl_rep (qs_fl y) fl" and "chain (qs_q y) ns" and "set ns \<subseteq> set (fs_out (qs_fl y))"
    and "holds_node (qs_pc y t) = Some n \<Longrightarrow> n \<in> set (fs_out (qs_fl y)) \<and> n \<notin> set ns"
    and "holds_node (qs_pc y t) = Some n \<Longrightarrow> u \<noteq> t \<Longrightarrow> holds_node (qs_pc y u) \<noteq> Some n"
    and "pool_ok (qs_pc y t) (fs_pc (qs_fl y) t)"
    and "knows (qs_q y) ns (qs_cnt y) (qs_seen y t) (qs_pc y t)" and "tail_last y ns"
    and "i \<in> set (fs_out (qs_fl y)) \<Longrightarrow> i \<in> set ns \<or> (\<exists>t. holds_node (qs_pc y t) = Some i)"
  using assms unfolding q_rep_def by blast+

lemma q_repI:
  assumes "\<exists>fl. fl_rep (qs_fl y) fl" and "chain (qs_q y) ns" and "set ns \<subseteq> set (fs_out (qs_fl y))"
    and "\<And>t n. holds_node (qs_pc y t) = Some n \<Longrightarrow> n \<in> set (fs_out (qs_fl y)) \<and> n \<notin> set ns"
    and "\<And>t u n. holds_node (qs_pc y t) = Some n \<Longrightarrow> u \<noteq> t \<Longrightarrow> holds_node (qs_pc y u) \<noteq> Some n"
    and "\<And>t. pool_ok (qs_pc y t) (fs_pc (qs_fl y) t)"
    and "\<And>t. knows (qs_q y) ns (qs_cnt y) (qs_seen y t) (qs_pc y t)" and "tail_last y ns"
    and "\<And>i. i \<in> set (fs_out (qs_fl y)) \<Longrightarrow> i \<in> set ns \<or> (\<exists>t. holds_node (qs_pc y t) = Some i)"
  shows "q_rep y ns"
  using assms unfolding q_rep_def by blast

text \<open>A comparison that succeeds in time compares with the present.\<close>

lemma unchanged:
  assumes "x + of_nat (a - b) = (x :: u16)" and "b \<le> a" and "a - b < 65536"
  shows "a = b"
proof -
  have "(of_nat (a - b) :: u16) = 0" using assms(1) by (simp del: of_nat_diff)
  then have "a - b = 0" using assms(3) by (simp add: word_of_nat_eq_0_iff del: of_nat_diff) (use nat_dvd_not_less in fastforce)
  then show ?thesis using assms(2) by simp
qed

lemma head_now: "head_seen q c s head \<Longrightarrow> q_head q = head \<Longrightarrow> c_head c - s_head s < 65536 \<Longrightarrow> c_head c = s_head s"
  unfolding head_seen_def by (rule unchanged) auto

lemma tail_now: "tail_seen q c s tail \<Longrightarrow> q_tail q = tail \<Longrightarrow> c_tail c - s_tail s < 65536 \<Longrightarrow> c_tail c = s_tail s"
  unfolding tail_seen_def by (rule unchanged) auto

lemma next_now: "next_seen q c s nxt x \<Longrightarrow> q_next q x = nxt \<Longrightarrow> c_next c x - s_next s < 65536 \<Longrightarrow> c_next c x = s_next s"
  unfolding next_seen_def by (rule unchanged) auto

text \<open>A fresh load.\<close>

lemma head_loaded:
  "chain q ns \<Longrightarrow> s_head s = c_head c \<Longrightarrow> head_seen q c s (q_head q)"
  by (cases ns) (auto simp: head_seen_def chain_def)

lemma tail_loaded:
  "chain q ns \<Longrightarrow> s_tail s = c_tail c \<Longrightarrow> tail_seen q c s (q_tail q)"
  by (auto simp: tail_seen_def chain_def)

lemma next_loaded: "s_next s = c_next c x \<Longrightarrow> next_seen q c s (q_next q x) x"
  by (simp add: next_seen_def)

lemma chain_length:
  assumes "fl_rep y fl" and "q = fs_q y" and "chain q ns" and "set ns \<subseteq> set (fs_out y)"
  shows "length ns \<le> q_count q"
proof -
  have "inj_on (unat :: u16 \<Rightarrow> nat) (set ns)" by (auto simp: inj_on_def word_unat_eq_iff)
  moreover have "unat ` set ns \<subseteq> {..<q_count q}"
    using assms(2,4) fl_repD(6) [OF assms(1)] by auto
  ultimately have "card (set ns) \<le> card {..<q_count q}" by (metis card_image card_mono finite_lessThan)
  then show ?thesis using assms(3) by (simp add: chain_def distinct_card)
qed

lemma contents_chain:
  assumes "fl_rep y fl" and "q = fs_q y" and "chain q ns" and "set ns \<subseteq> set (fs_out y)"
  shows "lfq_contents q = map (q_data q) (tl ns)"
  using assms(3) chain_length [OF assms] walk_linked [of "nx q" _ ns "null_handle q"]
  by (simp add: lfq_contents_def chain_def)

lemma fl_rep_cong:
  assumes "fl_rep y fl" and "q_count q' = q_count (fs_q y)" and "q_next q' = q_next (fs_q y)" and "q_pool q' = q_pool (fs_q y)"
  shows "fl_rep (y\<lparr>fs_q := q'\<rparr>) fl"
proof -
  have null: "null_handle q' = null_handle (fs_q y)" using assms(2) by (simp add: null_handle_def)
  have "pc_fits q' fl a b pc = pc_fits (fs_q y) fl a b pc" for a b pc
    by (cases "(q', fl, a, b, pc)" rule: pc_fits.cases) (simp_all add: null assms(3,4))
  then show ?thesis using assms unfolding fl_rep_def by (simp add: null)
qed

text \<open>A step of the queue's own code.\<close>

lemma q_rep_move:
  assumes rep: "q_rep y ns" and "\<exists>fl. fl_rep ((qs_fl y)\<lparr>fs_q := q'\<rparr>) fl"
    and "chain q' ns'" and "set ns' \<subseteq> set (fs_out (qs_fl y))"
    and others: "\<And>u. u \<noteq> t \<Longrightarrow> leaves (holds_node (qs_pc y u)) (qs_q y) ns (qs_cnt y) q' ns' (recount (qs_q y) q' (qs_cnt y))"
    and nodes: "\<And>u n. u \<noteq> t \<Longrightarrow> holds_node (qs_pc y u) = Some n \<Longrightarrow> n \<notin> set ns' \<and> holds_node pc' \<noteq> Some n"
    and own: "\<And>n. holds_node pc' = Some n \<Longrightarrow> n \<in> set (fs_out (qs_fl y)) \<and> n \<notin> set ns'"
    and pool: "pool_ok pc' (fs_pc (qs_fl y) t)"
    and knows: "knows q' ns' (recount (qs_q y) q' (qs_cnt y)) (note_load pc' (qs_q y) (qs_cnt y) (qs_seen y t)) pc'"
    and "tail_last (q_move t (pc', q') y) ns'"
    and kept: "\<And>i. i \<in> set ns \<or> holds_node (qs_pc y t) = Some i \<Longrightarrow> i \<in> set ns' \<or> holds_node pc' = Some i"
  shows "q_rep (q_move t (pc', q') y) ns'"
proof (rule q_repI, goal_cases)
  case (9 i)
  then have "i \<in> set ns \<or> (\<exists>u. holds_node (qs_pc y u) = Some i)"
    using q_repD(9) [OF rep, of i] by (simp add: q_move_def)
  then consider "i \<in> set ns \<or> holds_node (qs_pc y t) = Some i" | u where "u \<noteq> t" "holds_node (qs_pc y u) = Some i"
    by metis
  then show ?case
  proof cases
    case 1
    with kept [of i] show ?thesis by (auto simp: q_move_def)
  next
    case (2 u)
    then have "holds_node (qs_pc (q_move t (pc', q') y) u) = Some i" by (simp add: q_move_def)
    then show ?thesis by blast
  qed
next
  case (4 u n)
  then show ?case using own nodes q_repD(4) [OF rep, of u n] by (auto simp: q_move_def split: if_splits)
next
  case (5 u v n)
  then show ?case using nodes [of u n] nodes [of v n] q_repD(5) [OF rep, of u n v]
    by (cases "u = t"; cases "v = t") (auto simp: q_move_def)
next
  case (6 u)
  then show ?case using pool q_repD(6) [OF rep, of u] by (auto simp: q_move_def)
next
  case (7 u)
  then show ?case
    using knows knows_leaves [OF q_repD(2) [OF rep] q_repD(7) [OF rep] others, of u] by (auto simp: q_move_def)
qed (use assms in \<open>auto simp: q_move_def\<close>)

text \<open>A step that writes nothing.\<close>

lemma recount_same [simp]: "recount q q c = c"
  by (simp add: recount_def)

lemma leaves_same: "leaves m q ns c q ns c"
  by (simp add: leaves_def)

lemma q_rep_read:
  assumes rep: "q_rep y ns" and "holds_node pc' = holds_node (qs_pc y t)" and ns: "\<not> swinging (qs_pc y t)"
    and "pool_ok pc' (fs_pc (qs_fl y) t)"
    and "knows (qs_q y) ns (qs_cnt y) (note_load pc' (qs_q y) (qs_cnt y) (qs_seen y t)) pc'"
  shows "q_rep (q_move t (pc', qs_q y) y) ns"
proof (rule q_rep_move [OF rep], goal_cases)
  case 9
  show ?case by (rule tail_last_other [OF q_repD(8) [OF rep] ns]) (simp_all add: q_move_def)
qed (use assms q_repD(1,2,3) [OF rep] q_repD(4) [OF rep] q_repD(5) [OF rep] in \<open>auto simp: leaves_same\<close>)


text \<open>The writes, as the other threads see them.\<close>

lemma tag_moves [simp]: "tagged i (tg_tag h + 1) \<noteq> h" "h \<noteq> tagged i (tg_tag h + 1)"
  by (auto dest: arg_cong [of _ _ tg_tag])

lemma leaves_node:
  assumes "n \<notin> set ns" and "m \<noteq> Some n" and "tg_tag h = tg_tag (q_next q n) \<or> tg_tag h = tg_tag (q_next q n) + 1"
    and "q' = q\<lparr>q_next := (q_next q)(n := h), q_data := (q_data q)(n := v)\<rparr>"
  shows "leaves m q ns c q' ns (recount q q' c)"
  using assms by (auto simp: leaves_def recount_def)

lemma leaves_link:
  assumes "nx q x = null_handle q" and "\<And>k. m = Some k \<Longrightarrow> k \<noteq> x"
    and "q' = q\<lparr>q_next := (q_next q)(x := tagged n (tg_tag (q_next q x) + 1))\<rparr>"
  shows "leaves m q ns c q' (ns @ [n]) (recount q q' c)"
  using assms by (auto simp: leaves_def recount_def)

lemma leaves_tail:
  assumes "q_tail q = tail \<Longrightarrow> p \<noteq> tg_index (q_head q) \<and> nx q (tg_index tail) \<noteq> null_handle q"
  shows "leaves m q ns c (exchange_tail tail p q) ns (recount q (exchange_tail tail p q) c)"
  using assms by (auto simp: leaves_def recount_def exchange_tail_def get_next_tag_def)

lemma leaves_head:
  assumes "chain q ns" and "nx q (tg_index (q_head q)) \<noteq> null_handle q"
    and "q' = q\<lparr>q_head := tagged p (tg_tag (q_head q) + 1)\<rparr>"
  shows "leaves m q ns c q' (tl ns) (recount q q' c)"
proof -
  have "x \<in> set (tl ns)" if "x \<in> set ns" "nx q x = null_handle q" for x
    using that assms(1,2) by (cases ns) (auto simp: chain_def)
  then show ?thesis using assms(3) by (auto simp: leaves_def recount_def)
qed

text \<open>The free list sees a write to a node that is out.\<close>

lemma fl_rep_write:
  assumes "fl_rep y fl" and "timely y" and "n \<in> set (fs_out y)"
    and "q' = (fs_q y)\<lparr>q_next := (q_next (fs_q y))(n := h), q_data := (q_data (fs_q y))(n := v)\<rparr>"
  shows "\<exists>fl. fl_rep (y\<lparr>fs_q := q'\<rparr>) fl"
  using fl_rep_step [OF assms(1,2) fl_use [OF assms(3), where h = h and v = v]] assms(4) by simp

lemma replay_append: "replay (xs @ ys) zs = Option.bind (replay xs zs) (replay ys)"
  by (induction xs zs rule: replay.induct) (auto split: list.splits)

definition keeps :: "'a qsys \<Rightarrow> u16 list \<Rightarrow> 'a queue_op list \<Rightarrow> 'a qsys \<Rightarrow> bool" where
  "keeps y ns ops y' \<longleftrightarrow> (\<exists>ns'. q_rep y' ns'
     \<and> replay ops (map (q_data (qs_q y)) (tl ns)) = Some (map (q_data (qs_q y')) (tl ns')))"

lemma keeps_read:
  assumes "q_rep y ns" and "holds_node pc' = holds_node (qs_pc y t)" and "\<not> swinging (qs_pc y t)" and "pool_ok pc' (fs_pc (qs_fl y) t)"
    and "knows (qs_q y) ns (qs_cnt y) (note_load pc' (qs_q y) (qs_cnt y) (qs_seen y t)) pc'"
  shows "keeps y ns [] (q_move t (pc', qs_q y) y)"
  using q_rep_read [OF assms] by (auto simp: keeps_def q_move_def)


lemma q_timelyD: "q_timely y \<Longrightarrow> timely (qs_fl y)" "q_timely y \<Longrightarrow> in_time (qs_cnt y) (qs_seen y t) (qs_pc y t)"
  by (simp_all add: q_timely_def)

lemma exchange_tail_simps [simp]:
  "q_next (exchange_tail tail p q) = q_next q" "q_data (exchange_tail tail p q) = q_data q"
  "q_count (exchange_tail tail p q) = q_count q" "q_pool (exchange_tail tail p q) = q_pool q"
  "null_handle (exchange_tail tail p q) = null_handle q"
  by (simp_all add: exchange_tail_def null_handle_def)

lemma exchange_keeps:
  assumes rep: "q_rep y ns" and tail: "tail_seen (qs_q y) (qs_cnt y) (qs_seen y t) tail"
    and time: "c_tail (qs_cnt y) - s_tail (qs_seen y t) < 65536"
    and p: "p \<noteq> null_handle (qs_q y)" "c_tail (qs_cnt y) = s_tail (qs_seen y t) \<longrightarrow> nx (qs_q y) (tg_index tail) = p"
    and own: "holds_node pc' = holds_node (qs_pc y t)" "pool_ok pc' (fs_pc (qs_fl y) t)"
      "\<And>c s. knows (exchange_tail tail p (qs_q y)) ns c s pc'" "\<And>q c. note_load pc' q c (qs_seen y t) = qs_seen y t"
  shows "keeps y ns [] (q_move t (pc', exchange_tail tail p (qs_q y)) y)"
proof -
  let ?q' = "exchange_tail tail p (qs_q y)"
  note ch = q_repD(2) [OF rep]
  obtain fl where fl: "fl_rep (qs_fl y) fl" using q_repD(1) [OF rep] by blast
  have succ: "nx (qs_q y) (tg_index tail) = p" if "q_tail (qs_q y) = tail"
    using p(2) tail_now [OF tail that time] by simp
  have "q_rep (q_move t (pc', ?q') y) ns"
  proof (rule q_rep_move [OF rep], goal_cases)
    case 9
    show ?case
    proof (cases "q_tail (qs_q y) = tail")
      case True
      then have "tg_index (q_tail (qs_q y)) \<noteq> last ns" using succ p(1) chain_nulls [OF ch] by auto
      then obtain u v tl where "qs_pc y u = PSwing v (last ns) tl" "c_tail (qs_cnt y) = s_tail (qs_seen y u)"
        using q_repD(8) [OF rep] by (auto simp: tail_last_def)
      then have "nx (qs_q y) (tg_index tail) = last ns"
        using q_repD(7) [OF rep, of u] True by (auto simp: tail_seen_def)
      then show ?thesis using True succ by (simp add: tail_last_def q_move_def exchange_tail_def)
    next
      case False
      then have t: "c_tail (qs_cnt y) \<noteq> s_tail (qs_seen y t)" using tail by (auto simp: tail_seen_def)
      from q_repD(8) [OF rep] show ?thesis unfolding tail_last_def
      proof
        assume "\<exists>u v tl. qs_pc y u = PSwing v (last ns) tl \<and> c_tail (qs_cnt y) = s_tail (qs_seen y u)"
        then obtain u v tl where u: "qs_pc y u = PSwing v (last ns) tl" "c_tail (qs_cnt y) = s_tail (qs_seen y u)" by blast
        then have "u \<noteq> t" using t by auto
        then have "qs_pc (q_move t (pc', ?q') y) u = PSwing v (last ns) tl
          \<and> c_tail (qs_cnt (q_move t (pc', ?q') y)) = s_tail (qs_seen (q_move t (pc', ?q') y) u)"
          using u False by (simp add: q_move_def exchange_tail_def)
        then show "tg_index (q_tail (qs_q (q_move t (pc', ?q') y))) = last ns
          \<or> (\<exists>u v tl. qs_pc (q_move t (pc', ?q') y) u = PSwing v (last ns) tl
             \<and> c_tail (qs_cnt (q_move t (pc', ?q') y)) = s_tail (qs_seen (q_move t (pc', ?q') y) u))" by blast
      qed (use False in \<open>simp add: q_move_def exchange_tail_def\<close>)
    qed
  next
    case 1 show ?case using fl_rep_cong [OF fl, of ?q'] by auto
  next
    case 2 show ?case using p(1) tail succ by (intro chain_exchange_tail [OF ch]) (auto simp: tail_seen_def)
  next
    case (4 u)
    have "p \<noteq> tg_index (q_head (qs_q y)) \<and> nx (qs_q y) (tg_index tail) \<noteq> null_handle (qs_q y)"
      if "q_tail (qs_q y) = tail"
      using chain_succ(3) [OF ch, of "tg_index tail"] succ that p(1) ch by (auto simp: chain_def)
    then show ?case by (rule leaves_tail)
  next
    case (5 u n) then show ?case using own(1) q_repD(4) [OF rep, of u n] q_repD(5) [OF rep, of u n t] by auto
  qed (use own q_repD(3) [OF rep] q_repD(4) [OF rep, of t] in auto)
  then show ?thesis by (auto simp: keeps_def q_move_def)
qed

text \<open>The constructor writes a node no other thread sees.\<close>

lemma construct_keeps:
  assumes rep: "q_rep y ns" and tm: "q_timely y"
    and node: "holds_node (qs_pc y t) = Some n" "holds_node pc' = Some n" "\<not> swinging (qs_pc y t)"
    and q': "q' = (qs_q y)\<lparr>q_next := (q_next (qs_q y))(n := h), q_data := (q_data (qs_q y))(n := v)\<rparr>"
    and tag: "tg_tag h = tg_tag (q_next (qs_q y) n) \<or> tg_tag h = tg_tag (q_next (qs_q y) n) + 1"
    and pool: "pool_ok pc' (fs_pc (qs_fl y) t)"
    and knows: "knows q' ns (recount (qs_q y) q' (qs_cnt y)) (note_load pc' (qs_q y) (qs_cnt y) (qs_seen y t)) pc'"
  shows "keeps y ns [] (q_move t (pc', q') y)"
proof -
  note ch = q_repD(2) [OF rep]
  obtain fl where fl: "fl_rep (qs_fl y) fl" using q_repD(1) [OF rep] by blast
  have n: "n \<in> set (fs_out (qs_fl y))" "n \<notin> set ns" using q_repD(4) [OF rep node(1)] by auto
  have "q_rep (q_move t (pc', q') y) ns"
  proof (rule q_rep_move [OF rep], goal_cases)
    case 1 then show ?case by (rule fl_rep_write [OF fl q_timelyD(1) [OF tm] n(1) q'])
  next
    case 2 then show ?case using n(2) q' by (intro chain_off [OF ch]) auto
  next
    case (4 u) then show ?case using q_repD(5) [OF rep node(1), of u] by (intro leaves_node [OF n(2) _ tag q']) auto
  next
    case (5 u m) then show ?case using q_repD(4) [OF rep, of u m] q_repD(5) [OF rep node(1), of u] node(2) by auto
  next
    case 9 show ?case
      by (rule tail_last_other [OF q_repD(8) [OF rep] node(3)]) (simp_all add: q' q_move_def recount_def)
  qed (use n node pool knows q_repD(3) [OF rep] in auto)
  moreover have "map (q_data q') (tl ns) = map (q_data (qs_q y)) (tl ns)" using n(2) q' by (cases ns) auto
  ultimately show ?thesis by (auto simp: keeps_def q_move_def)
qed

lemma link_keeps:
  assumes rep: "q_rep y ns" and tm: "q_timely y" and pc: "qs_pc y t = PLink v n tail nxt"
    and eq: "q_next (qs_q y) (tg_index tail) = nxt"
    and q': "q' = (qs_q y)\<lparr>q_next := (q_next (qs_q y))(tg_index tail := tagged n (tg_tag nxt + 1))\<rparr>"
  shows "keeps y ns [Enq v] (q_move t (PSwing v n tail, q') y)"
proof -
  let ?q = "qs_q y" and ?c = "qs_cnt y" and ?s = "qs_seen y t" and ?x = "tg_index tail"
  note ch = q_repD(2) [OF rep]
  note know = q_repD(7) [OF rep, of t, unfolded pc knows.simps]
  obtain fl where fl: "fl_rep (qs_fl y) fl" using q_repD(1) [OF rep] by blast
  have now: "c_next ?c ?x = s_next ?s"
    using next_now [OF _ eq] know q_timelyD(2) [OF tm, of t, unfolded pc in_time.simps] by blast
  then have x: "?x \<in> set ns" "nx ?q ?x = null_handle ?q" using know eq by auto
  have n: "n \<in> set (fs_out (qs_fl y))" "n \<notin> set ns" using q_repD(4) [OF rep, of t] pc by auto
  have m: "nx ?q n = null_handle ?q" "q_data ?q n = v" "n \<noteq> null_handle ?q" using know by (simp_all add: mine_def)
  have other: "holds_node (qs_pc y u) = Some k \<Longrightarrow> k \<notin> set ns" for u k using q_repD(4) [OF rep] by blast
  have q: "q' = ?q\<lparr>q_next := (q_next ?q)(?x := tagged n (tg_tag (q_next ?q ?x) + 1))\<rparr>" using q' eq by simp
  have out: "?x \<in> set (fs_out (qs_fl y))" using x(1) q_repD(3) [OF rep] by auto
  have "q_rep (q_move t (PSwing v n tail, q') y) (ns @ [n])"
  proof (rule q_rep_move [OF rep], goal_cases)
    case 1 show ?case by (rule fl_rep_write [OF fl q_timelyD(1) [OF tm] out, where v = "q_data ?q ?x"]) (simp add: q)
  next
    case 2 show ?case by (rule chain_link [OF ch x n(2) m(3,1) q])
  next
    case (4 u) show ?case by (rule leaves_link [OF x(2) _ q]) (use x(1) other in auto)
  next
    case (5 u k) then show ?case using other q_repD(5) [OF rep, of t n u] pc by auto
  next
    case 8
    have "tail_seen q' (recount ?q q' ?c) ?s tail" using know by (auto simp: q tail_seen_def recount_def null_handle_def)
    then show ?case using m by (simp add: q null_handle_def)
  next
    case 9
    have "c_tail ?c = s_tail ?s" using know now by blast
    then show ?case by (auto simp: q tail_last_def q_move_def recount_def)
  qed (use n pc q_repD(6) [OF rep, of t] q_repD(3) [OF rep] in auto)
  moreover have "map (q_data q') (tl (ns @ [n])) = map (q_data ?q) (tl ns) @ [v]"
    using ch m by (cases ns) (auto simp: q chain_def)
  ultimately show ?thesis by (auto simp: keeps_def q_move_def)
qed

lemma push_keeps:
  fixes weak :: bool
  assumes rep: "q_rep y ns" and tm: "q_timely y" and pushing: "pushing (qs_pc y t)"
  defines "r \<equiv> push_step weak (qs_pc y t) (qs_q y)"
  shows "keeps y ns (completed (qs_pc y t) (fst r)) (q_move t r y)"
proof -
  let ?q = "qs_q y" and ?c = "qs_cnt y" and ?s = "qs_seen y t"
  note ch = q_repD(2) [OF rep]
  note know = q_repD(7) [OF rep, of t]
  note pool = q_repD(6) [OF rep, of t]
  note time = q_timelyD(2) [OF tm, of t]
  show ?thesis
  proof (cases "qs_pc y t")
    case (PConstruct v n)
    have "keeps y ns [] (q_move t (PReset v n, ?q\<lparr>q_data := (q_data ?q)(n := v)\<rparr>) y)"
      by (rule construct_keeps [OF rep tm, where h = "q_next ?q n" and v = v])
        (use PConstruct know pool in \<open>auto simp: null_handle_def\<close>)
    then show ?thesis using PConstruct by (simp add: r_def)
  next
    case (PReset v n)
    have "keeps y ns [] (q_move t (PLoadTail v n,
        ?q\<lparr>q_next := (q_next ?q)(n := tagged (null_handle ?q) (get_next_tag (q_next ?q n)))\<rparr>) y)"
      by (rule construct_keeps [OF rep tm, where v = "q_data ?q n" and n = n])
        (use PReset know pool in \<open>auto simp: null_handle_def mine_def get_next_tag_def\<close>)
    then show ?thesis using PReset by (simp add: r_def)
  next
    case (PLoadTail v n)
    then show ?thesis using know pool tail_loaded [OF ch]
      by (auto simp: r_def intro!: keeps_read [OF rep])
  next
    case (PLoadNext v n tail)
    have x: "get_pointer ?q (tg_index tail) = Some (tg_index tail)"
      using know PLoadNext by (simp add: tail_seen_def get_pointer_def)
    have "knows ?q ns ?c (?s\<lparr>s_next := c_next ?c (tg_index tail)\<rparr>) (PLoadTail2 v n tail (q_next ?q (tg_index tail)))"
      using know PLoadNext by (auto simp: next_loaded tail_seen_def)
    then show ?thesis using PLoadNext x pool by (auto simp: r_def intro!: keeps_read [OF rep])
  next
    case (PLoadTail2 v n tail nxt)
    show ?thesis
    proof (cases "q_tail ?q = tail")
      case True
      have now: "c_tail ?c = s_tail ?s" using tail_now [OF _ True] know time PLoadTail2 by auto
      have x: "tg_index tail \<in> set ns" using ch True by (auto simp: chain_def)
      show ?thesis
        using know pool now x True PLoadTail2
        by (cases "tg_index nxt = null_handle ?q")
          (auto simp: r_def get_pointer_def intro!: keeps_read [OF rep])
    next
      case False
      then show ?thesis using know pool PLoadTail2 by (auto simp: r_def intro!: keeps_read [OF rep])
    qed
  next
    case (PLink v n tail nxt)
    show ?thesis
    proof (cases "q_next ?q (tg_index tail) = nxt \<and> \<not> weak")
      case True
      then show ?thesis using link_keeps [OF rep tm PLink _ refl] PLink by (simp add: r_def get_next_tag_def)
    next
      case False
      then show ?thesis using know pool PLink by (auto simp: r_def intro!: keeps_read [OF rep])
    qed
  next
    case (PSwing v n tail)
    then show ?thesis using know pool time by (auto simp: r_def intro!: exchange_keeps [OF rep])
  next
    case (PHelp v n tail p)
    then show ?thesis using know pool time by (auto simp: r_def mine_def intro!: exchange_keeps [OF rep])
  qed (use pushing in simp_all)
qed


lemma note_head_seen: "head_seen q c (s\<lparr>s_tail := a\<rparr>) head = head_seen q c s head"
    "head_seen q c (s\<lparr>s_empty := b\<rparr>) head = head_seen q c s head"
    "tail_seen q c (s\<lparr>s_empty := b\<rparr>) tail = tail_seen q c s tail"
  by (simp_all add: head_seen_def tail_seen_def)

lemma advance_keeps:
  assumes rep: "q_rep y ns" and tm: "q_timely y" and pc: "qs_pc y t = QCas head p v"
    and eq: "q_head (qs_q y) = head" and q': "q' = (qs_q y)\<lparr>q_head := tagged p (tg_tag head + 1)\<rparr>"
  shows "keeps y ns [Deq v] (q_move t (QFree (tg_index head) v, q') y)"
proof -
  let ?q = "qs_q y" and ?h = "tg_index head"
  note ch = q_repD(2) [OF rep]
  note know = q_repD(7) [OF rep, of t, unfolded pc knows.simps]
  obtain fl where fl: "fl_rep (qs_fl y) fl" using q_repD(1) [OF rep] by blast
  have "c_head (qs_cnt y) = s_head (qs_seen y t)"
    using head_now [OF _ eq] know q_timelyD(2) [OF tm, of t, unfolded pc in_time.simps] by blast
  then have p: "nx ?q ?h = p" "tg_index (q_tail ?q) \<noteq> ?h" "q_data ?q p = v" "p \<noteq> null_handle ?q"
    using know by auto
  have h: "tg_index (q_head ?q) = ?h" using eq by simp
  obtain ks where ks: "ns = ?h # ks" using ch h by (cases ns) (auto simp: chain_def)
  moreover obtain ms where "ks = p # ms" using ch h p(1,4) ks by (cases ks) (auto simp: chain_def)
  ultimately have ns: "ns = ?h # p # ms" by simp
  have q: "q' = ?q\<lparr>q_head := tagged p (tg_tag (q_head ?q) + 1)\<rparr>" using q' eq by simp
  have "q_rep (q_move t (QFree ?h v, q') y) (tl ns)"
  proof (rule q_rep_move [OF rep], goal_cases)
    case 9 show ?case
      by (rule tail_last_other [OF q_repD(8) [OF rep], where t = t]) (simp_all add: q ns pc q_move_def recount_def)
  next
    case 1 show ?case using fl_rep_cong [OF fl, of q'] by (auto simp: q)
  next
    case 2 show ?case by (rule chain_advance_head [OF ch _ p(4) _ q]) (use p h in auto)
  next
    case 3 show ?case using q_repD(3) [OF rep] ns by auto
  next
    case (4 u) show ?case by (rule leaves_head [OF ch _ q]) (use p h in auto)
  next
    case (5 u n) then show ?case using q_repD(4) [OF rep, of u n] ns by auto
  next
    case (6 n) then show ?case using q_repD(3) [OF rep] ns ch by (auto simp: chain_def)
  qed (use pc q_repD(6) [OF rep, of t] ns in auto)
  then show ?thesis using ns p(3) by (auto simp: q keeps_def q_move_def)
qed

text \<open>The second load of \<open>pop\<close>: a null link of the head means an empty queue.\<close>

lemma head_next_loaded:
  assumes rep: "q_rep y ns" and pc: "qs_pc y t = QLoadNext head tail"
  shows "knows (qs_q y) ns (qs_cnt y) ((qs_seen y t)\<lparr>s_empty := (lfq_contents (qs_q y) = [])\<rparr>)
    (QLoadHead2 head tail (q_next (qs_q y) (tg_index head)))"
proof -
  let ?q = "qs_q y" and ?c = "qs_cnt y" and ?s = "qs_seen y t"
  note ch = q_repD(2) [OF rep]
  have know: "knows ?q ns ?c ?s (QLoadNext head tail)" using q_repD(7) [OF rep, of t] pc by simp
  obtain fl where fl: "fl_rep (qs_fl y) fl" using q_repD(1) [OF rep] by blast
  have single: "ns = [tg_index head]" if "c_head ?c = s_head ?s" "nx ?q (tg_index head) = null_handle ?q"
  proof -
    have "q_head ?q = head" using know that(1) by (simp add: head_seen_def)
    then show ?thesis using chain_single [OF ch] that(2) by simp
  qed
  have "lfq_contents ?q = []" if "c_head ?c = s_head ?s" "nx ?q (tg_index head) = null_handle ?q"
    using contents_chain [OF fl refl ch q_repD(3) [OF rep]] single [OF that] by simp
  moreover have "nx ?q (tg_index head) \<noteq> null_handle ?q"
    if "c_head ?c = s_head ?s" "tg_index tail \<noteq> tg_index head"
  proof
    assume "nx ?q (tg_index head) = null_handle ?q"
    then have "tg_index (q_tail ?q) = tg_index head" using single that(1) ch by (auto simp: chain_def)
    then show False using know that by simp
  qed
  ultimately show ?thesis using know by (auto simp: note_head_seen)
qed

lemma pop_keeps:
  fixes weak :: bool
  assumes rep: "q_rep y ns" and tm: "q_timely y" and popping: "popping (qs_pc y t)"
  defines "r \<equiv> pop_step weak (qs_pc y t) (qs_q y)"
  shows "keeps y ns (completed (qs_pc y t) (fst r)) (q_move t r y)"
proof -
  let ?q = "qs_q y" and ?c = "qs_cnt y" and ?s = "qs_seen y t"
  note ch = q_repD(2) [OF rep]
  note know = q_repD(7) [OF rep, of t]
  note pool = q_repD(6) [OF rep, of t]
  note time = q_timelyD(2) [OF tm, of t]
  show ?thesis
  proof (cases "qs_pc y t")
    case QLoadHead
    then show ?thesis using pool head_loaded [OF ch]
      by (auto simp: r_def intro!: keeps_read [OF rep])
  next
    case (QLoadTail head)
    then show ?thesis using know pool tail_loaded [OF ch]
      by (auto simp: r_def note_head_seen intro!: keeps_read [OF rep])
  next
    case (QLoadNext head tail)
    have x: "get_pointer ?q (tg_index head) = Some (tg_index head)"
      using know QLoadNext by (simp add: head_seen_def get_pointer_def)
    show ?thesis using QLoadNext x pool head_next_loaded [OF rep QLoadNext]
      by (auto simp: r_def intro!: keeps_read [OF rep])
  next
    case (QLoadHead2 head tail nxt)
    show ?thesis
    proof (cases "q_head ?q = head")
      case True
      have now: "c_head ?c = s_head ?s" using head_now [OF _ True] know time QLoadHead2 by auto
      show ?thesis
        using know pool now True QLoadHead2
        by (cases "tg_index nxt = null_handle ?q"; cases "tg_index head = tg_index tail")
          (auto simp: r_def get_pointer_def intro!: keeps_read [OF rep])
    next
      case False
      then show ?thesis using know pool QLoadHead2 by (auto simp: r_def intro!: keeps_read [OF rep])
    qed
  next
    case (QHelp tail p)
    then show ?thesis using know pool time by (auto simp: r_def intro!: exchange_keeps [OF rep])
  next
    case (QCopy head p)
    then show ?thesis using know pool by (auto simp: r_def intro!: keeps_read [OF rep])
  next
    case (QCas head p v)
    show ?thesis
    proof (cases "q_head ?q = head \<and> \<not> weak")
      case True
      then show ?thesis using advance_keeps [OF rep tm QCas _ refl] QCas by (simp add: r_def get_next_tag_def)
    next
      case False
      then show ?thesis using know pool QCas by (auto simp: r_def intro!: keeps_read [OF rep])
    qed
  qed (use popping in simp_all)
qed


text \<open>A call into the free list or out of it, and of the queue.\<close>

lemma q_rep_call:
  assumes rep: "q_rep y ns" and "\<exists>fl. fl_rep f fl" and q: "fs_q f = qs_q y"
    and "set ns \<subseteq> set (fs_out f)"
    and others: "\<And>u n. u \<noteq> t \<Longrightarrow> holds_node (qs_pc y u) = Some n \<Longrightarrow> n \<in> set (fs_out f) \<and> holds_node pc' \<noteq> Some n"
    and own: "\<And>n. holds_node pc' = Some n \<Longrightarrow> n \<in> set (fs_out f) \<and> n \<notin> set ns"
    and pools: "\<And>u. u \<noteq> t \<Longrightarrow> fs_pc f u = fs_pc (qs_fl y) u" and pool: "pool_ok pc' (fs_pc f t)"
    and knows: "knows (qs_q y) ns (qs_cnt y) (qs_seen y t) pc'" and swing: "\<not> swinging (qs_pc y t)"
    and kept: "\<And>i. i \<in> set (fs_out f) \<Longrightarrow>
      i \<in> set (fs_out (qs_fl y)) \<and> holds_node (qs_pc y t) \<noteq> Some i \<or> holds_node pc' = Some i"
  shows "q_rep (y\<lparr>qs_fl := f, qs_pc := (qs_pc y)(t := pc')\<rparr>) ns"
proof (rule q_repI, goal_cases)
  case (4 u n)
  then show ?case using own others [of u n] q_repD(4) [OF rep, of u n] by (auto split: if_splits)
next
  case (5 u v n)
  then show ?case using others [of u n] others [of v n] q_repD(5) [OF rep, of u n v]
    by (cases "u = t"; cases "v = t") auto
next
  case (6 u)
  then show ?case using pools [of u] pool q_repD(6) [OF rep, of u] by auto
next
  case 8
  show ?case by (rule tail_last_other [OF q_repD(8) [OF rep] swing]) (simp_all add: q)
next
  case (9 i)
  then consider "i \<in> set (fs_out (qs_fl y))" "holds_node (qs_pc y t) \<noteq> Some i" | "holds_node pc' = Some i"
    using kept [of i] by auto
  then show ?case
  proof cases
    case 1
    from q_repD(9) [OF rep 1(1)] show ?thesis
    proof
      assume "\<exists>u. holds_node (qs_pc y u) = Some i"
      then obtain u where "holds_node (qs_pc y u) = Some i" by blast
      with 1(2) have "holds_node (((qs_pc y)(t := pc')) u) = Some i" by auto
      then have "\<exists>u. holds_node (((qs_pc y)(t := pc')) u) = Some i" by blast
      then show ?thesis by simp
    qed simp
  qed auto
qed (use assms q_repD(2,7) [OF rep] in auto)

lemma keeps_call:
  assumes "q_rep (y\<lparr>qs_fl := f, qs_pc := (qs_pc y)(t := pc')\<rparr>) ns" and "fs_q f = qs_q y"
  shows "keeps y ns [] (y\<lparr>qs_fl := f, qs_pc := (qs_pc y)(t := pc')\<rparr>)"
  using assms by (auto simp: keeps_def)

lemma freelist_step_frame:
  assumes "freelist_step weak pc q = (pc', q')"
  shows "q_head q' = q_head q" and "q_tail q' = q_tail q" and "q_count q' = q_count q" and "q_data q' = q_data q"
    and "tg_tag (q_next q' x) = tg_tag (q_next q x)" and "pc_node pc \<noteq> Some x \<Longrightarrow> q_next q' x = q_next q x"
  using assms by (cases "(weak, pc, q)" rule: freelist_step.cases; auto simp: Let_def split: if_splits)+

lemma pool_keeps:
  assumes rep: "q_rep y ns" and tm: "q_timely y" and code: "in_code (fs_pc (qs_fl y) t)"
  shows "keeps y ns [] (y\<lparr>qs_fl := fl_move t (freelist_step weak (fs_pc (qs_fl y) t) (qs_q y)) (qs_fl y)\<rparr>)"
proof -
  obtain fl where fl: "fl_rep (qs_fl y) fl" using q_repD(1) [OF rep] by blast
  obtain pc' q' where st: "freelist_step weak (fs_pc (qs_fl y) t) (qs_q y) = (pc', q')" by (metis surj_pair)
  note frame = freelist_step_frame [OF st]
  let ?y = "y\<lparr>qs_fl := fl_move t (pc', q') (qs_fl y)\<rparr>"
  have same: "q_next q' x = q_next (qs_q y) x" if "x \<in> set (fs_out (qs_fl y))" for x
    using frame(6) fl_repD(4) [OF fl, of t x] that by blast
  have ns: "set ns \<subseteq> set (fs_out (qs_fl y))" by (rule q_repD(3) [OF rep])
  have fl': "\<exists>fl. fl_rep (fl_move t (pc', q') (qs_fl y)) fl"
    using fl_rep_step [OF fl q_timelyD(1) [OF tm] fl_code [OF code, of weak]] st by simp
  have "q_rep ?y ns"
  proof (rule q_repI, goal_cases)
    case 1 show ?case using fl' by simp
  next
    case 2 show ?case using frame same ns by (auto simp: fl_move_def intro!: chain_off [OF q_repD(2) [OF rep]])
  next
    case (6 u)
    have "pool_ok (qs_pc y t) pc'"
      using q_repD(6) [OF rep, of t] code st
      by (cases "qs_pc y t"; cases "fs_pc (qs_fl y) t") (auto simp: Let_def split: if_splits)
    then show ?case using q_repD(6) [OF rep, of u] by (auto simp: fl_move_def)
  next
    case (7 u)
    have "leaves (holds_node (qs_pc y u)) (qs_q y) ns (qs_cnt y) q' ns (qs_cnt y)"
      unfolding leaves_def using frame same ns q_repD(4) [OF rep, of u] by auto
    from knows_leaves [OF q_repD(2) [OF rep] q_repD(7) [OF rep] this] show ?case by (simp add: fl_move_def)
  next
    case 8 show ?case using q_repD(8) [OF rep] frame(2) by (simp add: tail_last_def fl_move_def)
  qed (use q_repD(3) [OF rep] q_repD(4) [OF rep] q_repD(5) [OF rep] q_repD(9) [OF rep] in \<open>auto simp: fl_move_def\<close>)
  then show ?thesis using frame(4) st by (auto simp: keeps_def fl_move_def)
qed

text \<open>A step that only starts or ends a call leaves queue and free list alone.\<close>

lemma keeps_idle:
  assumes rep: "q_rep y ns" and now: "holds_node (qs_pc y t) = None" "\<not> swinging (qs_pc y t)" "\<And>pc. pool_ok (qs_pc y t) pc = (pc = FIdle)"
    and pc': "pc' \<in> {QIdle, QLoadHead}"
  shows "keeps y ns [] (y\<lparr>qs_pc := (qs_pc y)(t := pc')\<rparr>)"
proof -
  have "q_rep (y\<lparr>qs_fl := qs_fl y, qs_pc := (qs_pc y)(t := pc')\<rparr>) ns"
    by (rule q_rep_call [OF rep])
      (use q_repD(1) [OF rep] q_repD(3) [OF rep] q_repD(4) [OF rep] q_repD(6) [OF rep, of t] now pc' in \<open>auto\<close>)
  then show ?thesis by (auto simp: keeps_def)
qed

lemma allocated_keeps:
  assumes rep: "q_rep y ns" and tm: "q_timely y" and pc: "qs_pc y t = PAlloc v" "fs_pc (qs_fl y) t = AGot r"
  shows "keeps y ns [] (y\<lparr>qs_fl := (qs_fl y)\<lparr>fs_pc := (fs_pc (qs_fl y))(t := FIdle),
      fs_out := (case r of Some i \<Rightarrow> i # fs_out (qs_fl y) | None \<Rightarrow> fs_out (qs_fl y))\<rparr>,
    qs_pc := (qs_pc y)(t := (case r of Some n \<Rightarrow> PConstruct v n | None \<Rightarrow> PushRet False))\<rparr>)"
proof -
  obtain fl where fl: "fl_rep (qs_fl y) fl" using q_repD(1) [OF rep] by blast
  note fl' = fl_rep_step [OF fl q_timelyD(1) [OF tm] fl_allocated [OF pc(2)]] and ns = q_repD(3) [OF rep]
  have holds: "n \<in> set (fs_out (qs_fl y)) \<and> n \<notin> set ns" if "holds_node (qs_pc y u) = Some n" for u n
    using q_repD(4) [OF rep that] .
  show ?thesis
  proof (cases r)
    case None
    then show ?thesis using fl' pc by (auto intro!: keeps_call q_rep_call [OF rep] simp: subsetD [OF ns] holds)
  next
    case (Some n)
    have new: "n \<notin> set (fs_out (qs_fl y))" "n \<noteq> null_handle (qs_q y)"
      using fl_repD(4) [OF fl, of t n] fl_rep_null(3) [OF fl, of t] pc(2) Some by auto
    have "holds_node (qs_pc y u) \<noteq> Some n" for u using new holds by blast
    then show ?thesis using fl' pc Some new ns holds by (auto intro!: keeps_call q_rep_call [OF rep])
  qed
qed

lemma q_step_keeps:
  assumes rep: "q_rep y ns" and tm: "q_timely y" and "q_step y ops y'"
  shows "keeps y ns ops y'"
proof -
  obtain fl where fl: "fl_rep (qs_fl y) fl" using q_repD(1) [OF rep] by blast
  have fl_call: "\<exists>fl. fl_rep f fl" if "fl_step (qs_fl y) f" for f
    using fl_rep_step [OF fl q_timelyD(1) [OF tm] that] .
  note ns = q_repD(3) [OF rep]
  have holds: "n \<in> set (fs_out (qs_fl y)) \<and> n \<notin> set ns" if "holds_node (qs_pc y u) = Some n" for u n
    using q_repD(4) [OF rep that] .
  show ?thesis
    using assms(3)
  proof cases
  case (q_code t weak r)
  then show ?thesis using push_keeps [OF rep tm, of t weak] pop_keeps [OF rep tm, of t weak]
    by (auto simp: queue_step_def)
next
  case (q_pool t weak)
  then show ?thesis using pool_keeps [OF rep tm] by simp
next
  case (q_push t v)
  have "fs_pc (qs_fl y) t = FIdle" using q_repD(6) [OF rep, of t] q_push by simp
  from fl_call [OF fl_allocate [OF this]] q_push show ?thesis
    by (auto intro!: keeps_call q_rep_call [OF rep] simp: subsetD [OF ns] holds)
next
  case (q_allocated t v r)
  then show ?thesis using allocated_keeps [OF rep tm q_allocated(3,4)] by simp
next
  case (q_pop t)
  then show ?thesis using keeps_idle [OF rep, of t] by simp
next
  case (q_free t h v)
  have idle: "fs_pc (qs_fl y) t = FIdle" using q_repD(6) [OF rep, of t] q_free by simp
  have h: "h \<in> set (fs_out (qs_fl y))" "h \<notin> set ns" using q_repD(4) [OF rep, of t h] q_free by auto
  have "holds_node (qs_pc y u) \<noteq> Some h" if "u \<noteq> t" for u using q_repD(5) [OF rep, of t h u] q_free that by simp
  moreover have "distinct (fs_out (qs_fl y))" using fl_repD(3) [OF fl] by simp
  ultimately show ?thesis using fl_call [OF fl_deallocate [OF idle h(1)]] q_free ns holds h(2)
    by (auto intro!: keeps_call q_rep_call [OF rep])
next
  case (q_freed t v)
  from fl_call [OF fl_deallocated [OF q_freed(4)]] q_freed show ?thesis
    by (auto intro!: keeps_call q_rep_call [OF rep] simp: subsetD [OF ns] holds)
next
  case (q_pushed t b)
  then show ?thesis using keeps_idle [OF rep, of t] by simp
next
  case (q_popped t b)
  then show ?thesis using keeps_idle [OF rep, of t] by simp
qed
qed

end
