(* ===== verification/QueueFifo.thy ===== *)
theory QueueFifo
  imports QueueInv
begin

text \<open>
  What the concurrent lock-free queue is: a first-in first-out queue whose operations take effect
  at their exchanges, and whose uninterrupted calls are the operations of \<open>LockfreeQueue\<close>.
\<close>

section \<open>The queue is a queue\<close>

lemma all_nodes:
  assumes "distinct xs" and "length xs = count" and "\<forall>i\<in>set xs. unat (i :: u16) < count"
  shows "unat i < count \<longleftrightarrow> i \<in> set xs"
proof -
  have "inj_on unat (set xs)" by (auto simp: inj_on_def word_unat_eq_iff)
  then have "card (unat ` set xs) = count" using assms(1,2) by (simp add: card_image distinct_card)
  moreover have "unat ` set xs \<subseteq> {..<count}" using assms(3) by auto
  ultimately have "unat ` set xs = {..<count}" by (simp add: card_subset_eq)
  then show ?thesis using assms(3) by (metis image_iff lessThan_iff word_unat_eq_iff)
qed

lemma q_rep_start:
  assumes "lfq_inv q"
  obtains ns where "q_rep (qs_start q) ns" and "lfq_contents q = map (q_data q) (tl ns)"
proof -
  obtain fl ns where rep: "lfq_rep q fl ns" using assms by (auto simp: lfq_inv_def)
  note r = rep [unfolded lfq_rep_def]
  have null: "null_handle q \<notin> set ns" by (rule null_not_node [OF rep])
  have out: "walk (q_count q) (nx q) (tg_index (q_head q)) (null_handle q) = ns"
    using r null by (intro walk_linked) auto
  have "unat i < q_count q \<longleftrightarrow> i \<in> set (fl @ ns)" for i using r by (intro all_nodes) auto
  then have "fl_rep (qs_fl (qs_start q)) fl"
    using r out by (intro fl_repI) (auto simp: qs_start_def fl_start_def)
  then have "q_rep (qs_start q) ns"
    using r out null by (intro q_repI) (auto simp: qs_start_def fl_start_def chain_def tail_last_def)
  then show thesis using that lfq_contents_rep [OF rep] by blast
qed

lemma keeps_run:
  assumes "q_run q_timely y ops y'" and "q_rep y ns"
  shows "keeps y ns ops y'"
  using assms(1)
proof (induction rule: q_run.induct)
  case q_refl
  then show ?case using assms(2) by (auto simp: keeps_def)
next
  case (q_next ops y1 ops' y2)
  then obtain ns1 where ns1: "q_rep y1 ns1"
    "replay ops (map (q_data (qs_q y)) (tl ns)) = Some (map (q_data (qs_q y1)) (tl ns1))" by (auto simp: keeps_def)
  from q_step_keeps [OF this(1) q_next.hyps(2,3)] ns1(2) show ?case by (auto simp: keeps_def replay_append)
qed

lemma q_step_count: "q_step y ops y' \<Longrightarrow> q_count (qs_q y') = q_count (qs_q y)"
proof (induction rule: q_step.induct)
  case (q_code y t weak r)
  then show ?case
    by (cases "(weak, qs_pc y t, qs_q y)" rule: push_step.cases;
        cases "(weak, qs_pc y t, qs_q y)" rule: pop_step.cases)
      (auto simp: q_move_def queue_step_def exchange_tail_def split: option.splits)
next
  case (q_pool y t weak)
  then show ?case by (simp add: fl_move_def freelist_step_count)
qed simp_all

lemma q_run_count: "q_run P y ops y' \<Longrightarrow> q_count (qs_q y') = q_count (qs_q y)"
  by (induction rule: q_run.induct) (auto simp: q_step_count)

text \<open>When no call is running the state is one of the model without interference.\<close>

lemma q_rep_idle:
  assumes rep: "q_rep y ns" and idle: "\<And>t. qs_pc y t = QIdle"
  shows "lfq_inv (qs_q y)"
proof -
  obtain fl where fl: "fl_rep (qs_fl y) fl" using q_repD(1) [OF rep] by blast
  have pcs: "fs_pc (qs_fl y) t = FIdle" for t using q_repD(6) [OF rep, of t] idle by simp
  have out: "set (fs_out (qs_fl y)) \<subseteq> set ns" using q_repD(9) [OF rep] idle by auto
  have tail: "tg_index (q_tail (qs_q y)) = last ns" using q_repD(8) [OF rep] idle by (simp add: tail_last_def)
  have nodes: "unat i < q_count (qs_q y) \<longleftrightarrow> i \<in> set (fl @ ns)" for i
    using fl_repD(6) [OF fl, of i] pcs out q_repD(3) [OF rep] by auto
  have d: "distinct (fl @ ns)"
    using fl_repD(3) [OF fl] q_repD(2,3) [OF rep] by (auto simp: chain_def)
  have "set (fl @ ns) = {i. unat i < q_count (qs_q y)}" using nodes by blast
  moreover have "card {i :: u16. unat i < k} = k" if "k \<le> 65535" for k
  proof -
    have "{i :: u16. unat i < k} = of_nat ` {..<k}"
      using that by (auto simp: unat_of_nat_small intro!: image_eqI [of _ _ "unat _"])
    moreover have "inj_on (of_nat :: nat \<Rightarrow> u16) {..<k}"
      using that by (auto simp: inj_on_def of_nat_eq_iff_small)
    ultimately show ?thesis by (simp add: card_image)
  qed
  ultimately have "length (fl @ ns) = q_count (qs_q y)"
    using distinct_card [OF d] fl_repD(1) [OF fl] by simp
  then have "lfq_rep (qs_q y) fl ns"
    using fl_repD(1,2) [OF fl] q_repD(2) [OF rep] tail d nodes by (auto simp: lfq_rep_def chain_def)
  then show ?thesis by (auto simp: lfq_inv_def)
qed


text \<open>C5: the lock-free queue, used by any number of threads at once, is a first-in first-out
  queue.  The operations in the order their exchanges succeed are a history of a list: what the
  queue holds at any moment is what this history leaves.  A \<open>pop\<close> that reports the queue empty
  found it empty at some moment of its call.  No thread follows a null handle, the queue never
  holds more than its capacity, and whenever no call is running its state is one of the model
  without interference.\<close>

theorem concurrent_queue_is_fifo:
  assumes "lfq_inv q0" and "q_run q_timely (qs_start q0) ops y"
  shows "replay ops (lfq_contents q0) = Some (lfq_contents (qs_q y))
    \<and> (\<forall>t. qs_pc y t \<noteq> QFault \<and> (qs_pc y t = PopRet None \<longrightarrow> s_empty (qs_seen y t)))
    \<and> length (lfq_contents (qs_q y)) \<le> lfq_cap q0
    \<and> ((\<forall>t. qs_pc y t = QIdle) \<longrightarrow> lfq_inv (qs_q y))"
proof -
  obtain ns0 where ns0: "q_rep (qs_start q0) ns0" "lfq_contents q0 = map (q_data q0) (tl ns0)"
    by (rule q_rep_start [OF assms(1)])
  from keeps_run [OF assms(2) ns0(1)] obtain ns where ns: "q_rep y ns"
    "replay ops (lfq_contents q0) = Some (map (q_data (qs_q y)) (tl ns))"
    by (auto simp: keeps_def ns0(2) qs_start_def fl_start_def)
  obtain fl where fl: "fl_rep (qs_fl y) fl" using q_repD(1) [OF ns(1)] by blast
  have c: "lfq_contents (qs_q y) = map (q_data (qs_q y)) (tl ns)"
    by (rule contents_chain [OF fl refl q_repD(2,3) [OF ns(1)]])
  have "qs_pc y t \<noteq> QFault \<and> (qs_pc y t = PopRet None \<longrightarrow> s_empty (qs_seen y t))" for t
    using q_repD(7) [OF ns(1), of t] by auto
  moreover have "length (lfq_contents (qs_q y)) \<le> lfq_cap q0"
    using chain_length [OF fl refl q_repD(2,3) [OF ns(1)]] q_run_count [OF assms(2)]
    by (simp add: c lfq_cap_def qs_start_def fl_start_def)
  ultimately show ?thesis using ns(2) c q_rep_idle [OF ns(1)] by simp
qed

section \<open>A call that is left alone\<close>

text \<open>The part of the state a single thread works on, and where its steps take it.\<close>

definition at_pc :: "nat \<Rightarrow> (nat \<Rightarrow> 'a queue_pc) \<Rightarrow> (nat \<Rightarrow> fl_pc) \<Rightarrow> 'a queue_pc \<times> fl_pc \<times> 'a lfq \<Rightarrow> 'a qsys \<Rightarrow> bool" where
  "at_pc t qpcs fpcs c y \<longleftrightarrow> (case c of (qpc, fpc, q) \<Rightarrow>
     qs_pc y = qpcs(t := qpc) \<and> fs_pc (qs_fl y) = fpcs(t := fpc) \<and> qs_q y = q)"

definition grows :: "nat \<Rightarrow> 'a qsys \<Rightarrow> 'a qsys \<Rightarrow> bool" where
  "grows k y y' \<longleftrightarrow> fs_pops (qs_fl y') \<le> fs_pops (qs_fl y) + k
     \<and> c_head (qs_cnt y') \<le> c_head (qs_cnt y) + k \<and> c_tail (qs_cnt y') \<le> c_tail (qs_cnt y) + k
     \<and> (\<forall>x. c_next (qs_cnt y') x \<le> c_next (qs_cnt y) x + k)"

lemma popped_le: "popped pc pc' \<le> 1"
  by (cases "(pc, pc')" rule: popped.cases) auto

lemma grows_step: "q_step y ops y' \<Longrightarrow> grows 1 y y'"
proof (induction rule: q_step.induct)
  case (q_pool y t weak)
  then show ?case using popped_le by (simp add: grows_def fl_move_def)
qed (simp_all add: grows_def q_move_def recount_def)

lemma grows_trans:
  assumes "grows k y y1" and "grows k' y1 y2"
  shows "grows (k + k') y y2"
proof -
  have "c_next (qs_cnt y2) x \<le> c_next (qs_cnt y) x + (k + k')" for x
  proof -
    have "c_next (qs_cnt y1) x \<le> c_next (qs_cnt y) x + k" "c_next (qs_cnt y2) x \<le> c_next (qs_cnt y1) x + k'"
      using assms by (simp_all add: grows_def)
    then show ?thesis by simp
  qed
  then show ?thesis using assms by (simp add: grows_def)
qed

definition reaches :: "nat \<Rightarrow> 'a queue_pc \<times> fl_pc \<times> 'a lfq \<Rightarrow> 'a queue_op list \<Rightarrow> 'a queue_pc \<times> fl_pc \<times> 'a lfq \<Rightarrow> bool" where
  "reaches k c ops c' \<longleftrightarrow> (\<forall>t qpcs fpcs y. at_pc t qpcs fpcs c y \<longrightarrow>
     (\<exists>y'. q_run (\<lambda>_. True) y ops y' \<and> grows k y y' \<and> at_pc t qpcs fpcs c' y'))"

lemma q_run_trans: "q_run P y1 ops2 y2 \<Longrightarrow> q_run P y ops1 y1 \<Longrightarrow> q_run P y (ops1 @ ops2) y2"
proof (induction rule: q_run.induct)
  case (q_next ops y' ops' y'')
  then show ?case using q_run.q_next [of P y "ops1 @ ops" y' ops' y''] by simp
qed simp

lemma reaches_trans: "reaches k c ops c' \<Longrightarrow> reaches k' c' ops' c'' \<Longrightarrow> reaches (k + k') c (ops @ ops') c''"
  unfolding reaches_def
proof (intro allI impI)
  fix t qpcs fpcs y
  assume "\<forall>t qpcs fpcs y. at_pc t qpcs fpcs c y \<longrightarrow> (\<exists>y'. q_run (\<lambda>_. True) y ops y' \<and> grows k y y' \<and> at_pc t qpcs fpcs c' y')"
    and 2: "\<forall>t qpcs fpcs y. at_pc t qpcs fpcs c' y \<longrightarrow> (\<exists>y'. q_run (\<lambda>_. True) y ops' y' \<and> grows k' y y' \<and> at_pc t qpcs fpcs c'' y')"
    and "at_pc t qpcs fpcs c (y :: 'a qsys)"
  then obtain y1 where y1: "q_run (\<lambda>_. True) y ops y1" "grows k y y1" "at_pc t qpcs fpcs c' y1" by blast
  with 2 obtain y2 where y2: "q_run (\<lambda>_. True) y1 ops' y2" "grows k' y1 y2" "at_pc t qpcs fpcs c'' y2" by blast
  show "\<exists>y'. q_run (\<lambda>_. True) y (ops @ ops') y' \<and> grows (k + k') y y' \<and> at_pc t qpcs fpcs c'' y'"
    using q_run_trans [OF y2(1) y1(1)] grows_trans [OF y1(2) y2(2)] y2(3) by blast
qed

lemma reaches_step:
  assumes "\<And>t qpcs fpcs y. at_pc t qpcs fpcs c y \<Longrightarrow> \<exists>y'. q_step y ops y' \<and> at_pc t qpcs fpcs c' y'"
  shows "reaches 1 c ops c'"
  unfolding reaches_def using assms q_run.q_next [OF q_refl TrueI] grows_step by fastforce

lemma reaches_code:
  assumes "pushing qpc \<or> popping qpc" and "queue_step False qpc q = (qpc', q')"
  shows "reaches 1 (qpc, fpc, q) (completed qpc qpc') (qpc', fpc, q')"
proof (rule reaches_step)
  fix t qpcs fpcs y assume y: "at_pc t qpcs fpcs (qpc, fpc, q) (y :: 'a qsys)"
  then have "qs_pc y t = qpc" "qs_q y = q" by (auto simp: at_pc_def)
  then have "q_step y (completed qpc qpc') (q_move t (qpc', q') y)"
    using q_code [of y t False "(qpc', q')"] assms by simp
  moreover have "at_pc t qpcs fpcs (qpc', fpc, q') (q_move t (qpc', q') y)"
    using y by (auto simp: at_pc_def q_move_def)
  ultimately show "\<exists>y'. q_step y (completed qpc qpc') y' \<and> at_pc t qpcs fpcs (qpc', fpc, q') y'" by blast
qed

lemma reaches_pool:
  assumes "in_code fpc" and "freelist_step False fpc q = (fpc', q')"
  shows "reaches 1 (qpc, fpc, q) [] (qpc, fpc', q')"
proof (rule reaches_step)
  fix t qpcs fpcs y assume y: "at_pc t qpcs fpcs (qpc, fpc, q) (y :: 'a qsys)"
  then have "fs_pc (qs_fl y) t = fpc" "qs_q y = q" by (auto simp: at_pc_def)
  then have "q_step y [] (y\<lparr>qs_fl := fl_move t (fpc', q') (qs_fl y)\<rparr>)"
    using q_pool [of y t False] assms by simp
  moreover have "at_pc t qpcs fpcs (qpc, fpc', q') (y\<lparr>qs_fl := fl_move t (fpc', q') (qs_fl y)\<rparr>)"
    using y by (auto simp: at_pc_def fl_move_def)
  ultimately show "\<exists>y'. q_step y [] y' \<and> at_pc t qpcs fpcs (qpc, fpc', q') y'" by blast
qed

lemma reaches_calls:
  "reaches 1 (QIdle, FIdle, q) [] (PAlloc v, ALoad, q)"
  "reaches 1 (PAlloc v, AGot (Some n), q) [] (PConstruct v n, FIdle, q)"
  "reaches 1 (PAlloc v, AGot None, q) [] (PushRet False, FIdle, q)"
  "reaches 1 (QIdle, FIdle, q) [] (QLoadHead, FIdle, q)"
  "reaches 1 (QFree h v, FIdle, q) [] (QFreeing v, DLoad h, q)"
  "reaches 1 (QFreeing v, DEnd, q) [] (PopRet (Some v), FIdle, q)"
  "reaches 1 (PushRet b, FIdle, q) [] (QIdle, FIdle, q)"
  "reaches 1 (PopRet r, FIdle, q) [] (QIdle, FIdle, q)"
proof (goal_cases)
  case 1 show ?case by (rule reaches_step, rule exI, rule conjI, rule q_push) (auto simp: at_pc_def)
next
  case 2 show ?case by (rule reaches_step, rule exI, rule conjI, rule q_allocated) (auto simp: at_pc_def)
next
  case 3 show ?case by (rule reaches_step, rule exI, rule conjI, rule q_allocated) (auto simp: at_pc_def)
next
  case 4 show ?case by (rule reaches_step, rule exI, rule conjI, rule q_pop) (auto simp: at_pc_def)
next
  case 5 show ?case by (rule reaches_step, rule exI, rule conjI, rule q_free) (auto simp: at_pc_def)
next
  case 6 show ?case by (rule reaches_step, rule exI, rule conjI, rule q_freed) (auto simp: at_pc_def)
next
  case 7 show ?case by (rule reaches_step, rule exI, rule conjI, rule q_pushed [where b = b]) (auto simp: at_pc_def)
next
  case 8 show ?case by (rule reaches_step, rule exI, rule conjI, rule q_popped) (auto simp: at_pc_def)
qed


lemma reaches_head:
  assumes "reaches k c ops c'" and "reaches k' c' ops' c''" and "os = ops @ ops'"
  shows "reaches (k + k') c os c''"
  using reaches_trans [OF assms(1,2)] assms(3) by simp

lemma reaches_within:
  assumes "reaches k c ops c'" and "k \<le> k'" and "ops = ops'"
  shows "reaches k' c ops' c'"
proof -
  have "grows k y y' \<Longrightarrow> grows k' y y'" for y y' :: "'a qsys"
    using assms(2) unfolding grows_def by (meson add_left_mono le_trans)
  then show ?thesis using assms(1,3) unfolding reaches_def by blast
qed

lemma reaches_allocate:
  assumes "freelist_allocate q = (r, q')"
  shows "reaches 3 (qpc, ALoad, q) [] (qpc, AGot r, q')"
proof -
  let ?p = "q_pool q"
  have 1: "reaches 1 (qpc, ALoad, q) [] (qpc, ATest ?p, q)" by (rule reaches_pool) simp_all
  show ?thesis
  proof (cases "tg_index ?p = null_handle q")
    case True
    then have "reaches 1 (qpc, ATest ?p, q) [] (qpc, AGot r, q')"
      using assms by (intro reaches_pool) (simp_all add: freelist_allocate_def)
    from reaches_within [OF reaches_head [OF 1 this refl]] show ?thesis by simp
  next
    case False
    have 2: "reaches 1 (qpc, ATest ?p, q) [] (qpc, ACas ?p (nx q (tg_index ?p)), q)"
      using False by (intro reaches_pool) simp_all
    have 3: "reaches 1 (qpc, ACas ?p (nx q (tg_index ?p)), q) [] (qpc, AGot r, q')"
      using False assms by (intro reaches_pool) (auto simp: freelist_allocate_def Let_def)
    from reaches_within [OF reaches_head [OF 1 reaches_head [OF 2 3 refl] refl]] show ?thesis by simp
  qed
qed

lemma reaches_deallocate: "reaches 3 (qpc, DLoad i, q) [] (qpc, DEnd, freelist_deallocate i q)"
proof -
  let ?p = "q_pool q"
  let ?q = "q\<lparr>q_next := (q_next q)(i := tagged (tg_index ?p) (tg_tag (q_next q i)))\<rparr>"
  have 1: "reaches 1 (qpc, DLoad i, q) [] (qpc, DLink i ?p, q)" by (rule reaches_pool) simp_all
  have 2: "reaches 1 (qpc, DLink i ?p, q) [] (qpc, DCas i ?p, ?q)" by (rule reaches_pool) simp_all
  have 3: "reaches 1 (qpc, DCas i ?p, ?q) [] (qpc, DEnd, freelist_deallocate i q)"
    by (rule reaches_pool) (simp_all add: freelist_deallocate_def)
  from reaches_within [OF reaches_head [OF 1 reaches_head [OF 2 3 refl] refl]] show ?thesis by simp
qed

text \<open>The two loops, as long as they find what the model without interference finds.\<close>

lemma reaches_push_loop:
  assumes "push_loop fuel n q = Inr q'"
  shows "reaches (5 * fuel) (PLoadTail v n, FIdle, q) [Enq v] (PushRet True, FIdle, q')"
  using assms
proof (induction fuel arbitrary: q)
  case (Suc fuel)
  let ?tail = "q_tail q"
  have 1: "reaches 1 (PLoadTail v n, FIdle, q) [] (PLoadNext v n ?tail, FIdle, q)"
    using reaches_code [of "PLoadTail v n" q] by (simp add: queue_step_def)
  obtain x where x: "get_pointer q (tg_index ?tail) = Some x" "x = tg_index ?tail"
    using Suc.prems by (cases "tg_index ?tail = null_handle q") (auto simp: get_pointer_def Let_def)
  have 2: "reaches 1 (PLoadNext v n ?tail, FIdle, q) [] (PLoadTail2 v n ?tail (q_next q x), FIdle, q)"
    using reaches_code [of "PLoadNext v n ?tail" q] x by (simp add: queue_step_def)
  show ?case
  proof (cases "get_pointer q (nx q x)")
    case None
    let ?q = "q\<lparr>q_next := (q_next q)(x := tagged n (get_next_tag (q_next q x)))\<rparr>"
    have 3: "reaches 1 (PLoadTail2 v n ?tail (q_next q x), FIdle, q) [] (PLink v n ?tail (q_next q x), FIdle, q)"
      using reaches_code [of "PLoadTail2 v n ?tail (q_next q x)" q] None by (simp add: queue_step_def)
    have 4: "reaches 1 (PLink v n ?tail (q_next q x), FIdle, q) [Enq v] (PSwing v n ?tail, FIdle, ?q)"
      using reaches_code [of "PLink v n ?tail (q_next q x)" q "PSwing v n ?tail" ?q FIdle] x
      by (simp add: queue_step_def)
    have 5: "reaches 1 (PSwing v n ?tail, FIdle, ?q) [] (PushRet True, FIdle, q')"
      using reaches_code [of "PSwing v n ?tail" ?q] Suc.prems x None
      by (simp add: queue_step_def exchange_tail_def Let_def)
    from reaches_within [OF reaches_head [OF 1 reaches_head [OF 2 reaches_head [OF 3 reaches_head [OF 4 5 refl] refl] refl] refl]]
    show ?thesis by simp
  next
    case (Some p)
    let ?q = "q\<lparr>q_tail := tagged p (get_next_tag ?tail)\<rparr>"
    have 3: "reaches 1 (PLoadTail2 v n ?tail (q_next q x), FIdle, q) [] (PHelp v n ?tail p, FIdle, q)"
      using reaches_code [of "PLoadTail2 v n ?tail (q_next q x)" q] Some by (simp add: queue_step_def)
    have 4: "reaches 1 (PHelp v n ?tail p, FIdle, q) [] (PLoadTail v n, FIdle, ?q)"
      using reaches_code [of "PHelp v n ?tail p" q] by (simp add: queue_step_def exchange_tail_def)
    have 5: "reaches (5 * fuel) (PLoadTail v n, FIdle, ?q) [Enq v] (PushRet True, FIdle, q')"
      using Suc.prems x Some by (intro Suc.IH) (simp add: Let_def)
    from reaches_within [OF reaches_head [OF 1 reaches_head [OF 2 reaches_head [OF 3 reaches_head [OF 4 5 refl] refl] refl] refl]]
    show ?thesis by simp
  qed
qed simp

lemma reaches_pop_loop:
  assumes "pop_loop fuel q = Inr (r, q')"
  shows "reaches (11 * fuel) (QLoadHead, FIdle, q) (case r of None \<Rightarrow> [] | Some v \<Rightarrow> [Deq v]) (PopRet r, FIdle, q')"
  using assms
proof (induction fuel arbitrary: q)
  case (Suc fuel)
  let ?head = "q_head q" and ?tail = "q_tail q"
  have 1: "reaches 1 (QLoadHead, FIdle, q) [] (QLoadTail ?head, FIdle, q)"
    using reaches_code [of QLoadHead q] by (simp add: queue_step_def)
  have 2: "reaches 1 (QLoadTail ?head, FIdle, q) [] (QLoadNext ?head ?tail, FIdle, q)"
    using reaches_code [of "QLoadTail ?head" q] by (simp add: queue_step_def)
  obtain h where h: "get_pointer q (tg_index ?head) = Some h" "h = tg_index ?head"
    using Suc.prems by (cases "tg_index ?head = null_handle q") (auto simp: get_pointer_def Let_def)
  let ?next = "q_next q h"
  have 3: "reaches 1 (QLoadNext ?head ?tail, FIdle, q) [] (QLoadHead2 ?head ?tail ?next, FIdle, q)"
    using reaches_code [of "QLoadNext ?head ?tail" q] h by (simp add: queue_step_def)
  note start = reaches_head [OF 1 reaches_head [OF 2 3 refl] refl]
  note test = reaches_code [of "QLoadHead2 ?head ?tail ?next" q]
  consider (empty) "tg_index ?head = tg_index ?tail" "get_pointer q (tg_index ?next) = None"
    | (swing) p where "tg_index ?head = tg_index ?tail" "get_pointer q (tg_index ?next) = Some p"
    | (retry) "tg_index ?head \<noteq> tg_index ?tail" "get_pointer q (tg_index ?next) = None"
    | (take) p where "tg_index ?head \<noteq> tg_index ?tail" "get_pointer q (tg_index ?next) = Some p"
    by (cases "get_pointer q (tg_index ?next)") auto
  then show ?case
  proof cases
    case empty
    then have "reaches 1 (QLoadHead2 ?head ?tail ?next, FIdle, q) [] (PopRet None, FIdle, q)"
      using test by (simp add: queue_step_def)
    from reaches_within [OF reaches_head [OF start this refl]] show ?thesis
      using Suc.prems h empty by (auto simp: Let_def)
  next
    case (swing p)
    then have 4: "reaches 1 (QLoadHead2 ?head ?tail ?next, FIdle, q) [] (QHelp ?tail p, FIdle, q)"
      using test by (simp add: queue_step_def)
    let ?q = "q\<lparr>q_tail := tagged p (get_next_tag ?tail)\<rparr>"
    have 5: "reaches 1 (QHelp ?tail p, FIdle, q) [] (QLoadHead, FIdle, ?q)"
      using reaches_code [of "QHelp ?tail p" q] by (simp add: queue_step_def exchange_tail_def)
    have p: "p = tg_index ?next" using swing by (simp add: get_pointer_def split: if_splits)
    have "pop_loop fuel ?q = Inr (r, q')"
      using Suc.prems h swing p by (simp add: Let_def)
    from reaches_within [OF reaches_head [OF start reaches_head [OF 4 reaches_head [OF 5 Suc.IH [OF this] refl] refl] refl]]
    show ?thesis by simp
  next
    case retry
    then have 4: "reaches 1 (QLoadHead2 ?head ?tail ?next, FIdle, q) [] (QLoadHead, FIdle, q)"
      using test by (simp add: queue_step_def)
    have "pop_loop fuel q = Inr (r, q')" using Suc.prems h retry by (simp add: Let_def)
    from reaches_within [OF reaches_head [OF start reaches_head [OF 4 Suc.IH [OF this] refl] refl]] show ?thesis by simp
  next
    case (take p)
    then have 4: "reaches 1 (QLoadHead2 ?head ?tail ?next, FIdle, q) [] (QCopy ?head p, FIdle, q)"
      using test by (simp add: queue_step_def)
    have 5: "reaches 1 (QCopy ?head p, FIdle, q) [] (QCas ?head p (q_data q p), FIdle, q)"
      using reaches_code [of "QCopy ?head p" q] by (simp add: queue_step_def)
    let ?q = "q\<lparr>q_head := tagged p (get_next_tag ?head)\<rparr>"
    have 6: "reaches 1 (QCas ?head p (q_data q p), FIdle, q) [Deq (q_data q p)] (QFree h (q_data q p), FIdle, ?q)"
      using reaches_code [of "QCas ?head p (q_data q p)" q "QFree h (q_data q p)" ?q FIdle] h
      by (simp add: queue_step_def)
    have p: "p = tg_index ?next" using take by (simp add: get_pointer_def split: if_splits)
    have r: "r = Some (q_data q p)" "q' = freelist_deallocate h ?q"
      using Suc.prems h take p by (auto simp: Let_def)
    from reaches_within [OF reaches_head [OF start reaches_head [OF 4 reaches_head [OF 5 reaches_head [OF 6
      reaches_head [OF reaches_calls(5) reaches_head [OF reaches_deallocate reaches_calls(6) refl] refl] refl] refl] refl] refl]]
    show ?thesis using r by simp
  qed
qed simp

lemma reaches_push:
  assumes "queue_push v q = Inr (b, q')"
  shows "reaches (5 * q_count q + 20) (QIdle, FIdle, q) (if b then [Enq v] else []) (PushRet b, FIdle, q')"
proof -
  obtain n q1 where a: "freelist_allocate q = (n, q1)" by (cases "freelist_allocate q")
  note start = reaches_head [OF reaches_calls(1) reaches_allocate [OF a, of "PAlloc v"] refl]
  show ?thesis
  proof (cases n)
    case None
    then have "b = False" "q' = q1" using assms a by (auto simp: queue_push_def)
    then show ?thesis
      using reaches_within [OF reaches_head [OF start reaches_calls(3) [of v q1, folded None] refl]] None by simp
  next
    case (Some i)
    then obtain q2 where q2: "push_loop (q_count q + 2) i (construct_value i v q1) = Inr q2" "b" "q' = q2"
      using assms a
      by (cases "push_loop (q_count q + 2) i (construct_value i v q1)") (auto simp: queue_push_def simp del: push_loop.simps)
    let ?q = "q1\<lparr>q_data := (q_data q1)(i := v)\<rparr>"
    have 1: "reaches 1 (PConstruct v i, FIdle, q1) [] (PReset v i, FIdle, ?q)"
      using reaches_code [of "PConstruct v i" q1] by (simp add: queue_step_def)
    have 2: "reaches 1 (PReset v i, FIdle, ?q) [] (PLoadTail v i, FIdle, construct_value i v q1)"
      using reaches_code [of "PReset v i" ?q] by (simp add: queue_step_def construct_value_def null_handle_def)
    have 3: "reaches 1 (PAlloc v, AGot n, q1) [] (PConstruct v i, FIdle, q1)" unfolding Some by (rule reaches_calls)
    from reaches_within [OF reaches_head [OF start reaches_head [OF 3 reaches_head [OF 1 reaches_head [OF 2
      reaches_push_loop [OF q2(1), of v] refl] refl] refl] refl]]
    show ?thesis using q2 by simp
  qed
qed

lemma reaches_pop:
  assumes "queue_pop q = Inr (r, q')"
  shows "reaches (11 * q_count q + 23) (QIdle, FIdle, q) (case r of None \<Rightarrow> [] | Some v \<Rightarrow> [Deq v]) (PopRet r, FIdle, q')"
proof -
  have "pop_loop (q_count q + 2) q = Inr (r, q')" using assms by (simp only: queue_pop_def)
  from reaches_within [OF reaches_head [OF reaches_calls(4) reaches_pop_loop [OF this] refl]] show ?thesis by simp
qed

lemma reachesE:
  assumes "reaches k (QIdle, FIdle, q) ops (pc, FIdle, q')" and "qs_pc y t = QIdle" and "fs_pc (qs_fl y) t = FIdle" and "qs_q y = q"
  shows "\<exists>y'. q_run (\<lambda>_. True) y ops y' \<and> qs_q y' = q' \<and> qs_pc y' = (qs_pc y)(t := pc)
    \<and> fs_pc (qs_fl y') = fs_pc (qs_fl y) \<and> grows k y y'"
proof -
  have "at_pc t (qs_pc y) (fs_pc (qs_fl y)) (QIdle, FIdle, q) y" using assms(2-4) by (auto simp: at_pc_def)
  then obtain y' where "q_run (\<lambda>_. True) y ops y'" "grows k y y'" "at_pc t (qs_pc y) (fs_pc (qs_fl y)) (pc, FIdle, q') y'"
    using assms(1) unfolding reaches_def by blast
  then show ?thesis using assms(3) by (intro exI [of _ y']) (auto simp: at_pc_def)
qed

text \<open>C19: a call of \<open>push\<close> or \<open>pop\<close> that is not interrupted is the operation of the model
  without interference: some run, in which only that thread moves, leaves the memory of the
  queue as \<open>queue_push\<close> or \<open>queue_pop\<close> leaves it, completes the same operation and ends at the
  return of the same answer.\<close>

theorem uninterrupted_calls:
  assumes "qs_pc y t = QIdle" and "fs_pc (qs_fl y) t = FIdle"
  shows "(\<forall>b q'. queue_push v (qs_q y) = Inr (b, q') \<longrightarrow>
      (\<exists>y'. q_run (\<lambda>_. True) y (if b then [Enq v] else []) y' \<and> qs_q y' = q'
        \<and> qs_pc y' = (qs_pc y)(t := PushRet b) \<and> fs_pc (qs_fl y') = fs_pc (qs_fl y)))
    \<and> (\<forall>r q'. queue_pop (qs_q y) = Inr (r, q') \<longrightarrow>
      (\<exists>y'. q_run (\<lambda>_. True) y (case r of None \<Rightarrow> [] | Some x \<Rightarrow> [Deq x]) y' \<and> qs_q y' = q'
        \<and> qs_pc y' = (qs_pc y)(t := PopRet r) \<and> fs_pc (qs_fl y') = fs_pc (qs_fl y)))"
  using reachesE [OF reaches_push assms refl] reachesE [OF reaches_pop assms refl] by blast


section \<open>Runs with few replacements\<close>

definition few :: "'a qsys \<Rightarrow> bool" where
  "few y \<longleftrightarrow> fs_pops (qs_fl y) < 65536 \<and> c_head (qs_cnt y) < 65536 \<and> c_tail (qs_cnt y) < 65536
     \<and> (\<forall>x. c_next (qs_cnt y) x < 65536)"

lemma few_timely: "few y \<Longrightarrow> q_timely y"
proof -
  assume f: "few y"
  have "in_time (qs_cnt y) (qs_seen y t) (qs_pc y t)" for t
    using f by (cases "qs_pc y t") (auto simp: few_def intro: less_imp_diff_less)
  then show "q_timely y" using f by (auto simp: q_timely_def timely_def few_def intro: less_imp_diff_less)
qed

lemma few_before: "q_step y ops y' \<Longrightarrow> few y' \<Longrightarrow> few y"
proof (induction rule: q_step.induct)
  case (q_code y t weak r)
  have "c_head (qs_cnt y) \<le> c_head (recount (qs_q y) (snd r) (qs_cnt y))"
    "c_tail (qs_cnt y) \<le> c_tail (recount (qs_q y) (snd r) (qs_cnt y))"
    "c_next (qs_cnt y) x \<le> c_next (recount (qs_q y) (snd r) (qs_cnt y)) x" for x
    by (simp_all add: recount_def)
  then show ?case using q_code.prems
    by (auto simp: few_def q_move_def intro: le_less_trans)
qed (auto simp: few_def fl_move_def)

lemma few_run: "q_run (\<lambda>_. True) y ops y' \<Longrightarrow> few y' \<Longrightarrow> q_run q_timely y ops y'"
proof (induction rule: q_run.induct)
  case (q_next ops y1 ops' y2)
  then have "few y1" using few_before by blast
  with q_next show ?case using few_timely q_run.q_next by blast
qed (rule q_refl)


section \<open>Examples\<close>

lemma start_idle:
  "qs_pc (qs_start q) t = QIdle" "fs_pc (qs_fl (qs_start q)) t = FIdle" "qs_q (qs_start q) = q"
  by (simp_all add: qs_start_def fl_start_def)

lemma sample_queue:
  obtains q0 q1 where "queue_init (\<lambda>_. tagged 0 0) (\<lambda>_. 0 :: nat) 2 = Inr q0" and "lfq_inv q0" and "lfq_contents q0 = []"
    and "queue_push 7 q0 = Inr (True, q1)" and "q_count q0 = 3"
proof -
  obtain q0 where q0: "queue_init (\<lambda>_. tagged 0 0) (\<lambda>_. 0 :: nat) 2 = Inr q0" "lfq_inv q0" "lfq_contents q0 = []"
    "lfq_cap q0 = 2"
    using queue_init_rep [of 2 "\<lambda>_. tagged 0 0" "\<lambda>_. 0 :: nat"] by auto
  moreover obtain q1 where "queue_push 7 q0 = Inr (True, q1)"
    using lf.pushE [OF q0(2), of 7] q0(3,4) by auto
  moreover have "q_count q0 = 3" using q0(4) by (simp add: lfq_cap_def)
  ultimately show thesis using that by blast
qed

theorem concurrent_queue_is_fifo_witness:
  "\<exists>q0 y. queue_init (\<lambda>_. tagged 0 0) (\<lambda>_. 0 :: nat) 2 = Inr q0
    \<and> q_run q_timely (qs_start q0) [Enq 7] y \<and> lfq_contents (qs_q y) = [7]"
proof -
  obtain q0 q1 where q: "queue_init (\<lambda>_. tagged 0 0) (\<lambda>_. 0 :: nat) 2 = Inr q0" "lfq_inv q0" "lfq_contents q0 = []"
    "queue_push 7 q0 = Inr (True, q1)" "q_count q0 = 3" by (rule sample_queue)
  from reachesE [OF reaches_push [OF q(4)] start_idle] obtain y where
    y: "q_run (\<lambda>_. True) (qs_start q0) [Enq 7] y" "grows 35 (qs_start q0) y" by (auto simp: q(5))
  have "few y" using y(2) by (auto simp: few_def grows_def qs_start_def fl_start_def intro: le_less_trans)
  then have run: "q_run q_timely (qs_start q0) [Enq 7] y" by (rule few_run [OF y(1)])
  from concurrent_queue_is_fifo [OF q(2) run] q(3) have "lfq_contents (qs_q y) = [7]" by simp
  with q(1) run show ?thesis by blast
qed

theorem uninterrupted_calls_witness:
  "\<exists>q0 q1 y. queue_init (\<lambda>_. tagged 0 0) (\<lambda>_. 0 :: nat) 2 = Inr q0 \<and> queue_push 7 q0 = Inr (True, q1)
    \<and> q_run (\<lambda>_. True) (qs_start q0) [Enq 7] y \<and> qs_q y = q1 \<and> qs_pc y 0 = PushRet True"
proof -
  obtain q0 q1 where q: "queue_init (\<lambda>_. tagged 0 0) (\<lambda>_. 0 :: nat) 2 = Inr q0" "lfq_inv q0" "lfq_contents q0 = []"
    "queue_push 7 q0 = Inr (True, q1)" "q_count q0 = 3" by (rule sample_queue)
  from uninterrupted_calls [OF start_idle(1,2) [of q0 0], of 7] obtain y where
    "q_run (\<lambda>_. True) (qs_start q0) [Enq 7] y" "qs_q y = q1" "qs_pc y = (qs_pc (qs_start q0))(0 := PushRet True)"
    using q(4) by (auto simp: start_idle(3))
  with q(1,4) show ?thesis by (intro exI conjI) auto
qed

end
