(* ===== verification/QueueProgress.thy ===== *)
theory QueueProgress
  imports QueueFifo
begin

text \<open>
  The concurrent queue is lock-free: however the threads are scheduled, and wherever others have
  been stopped, after a bounded number of steps some call returns.  \<open>turn\<close> is the step a thread
  takes when its exchanges do not fail without cause.  Every step either writes to the queue, of
  which each call does only so much, or brings its thread nearer to its next write, of which
  only a write of another thread can take it away (\<open>steps_left\<close>).
\<close>

section \<open>Schedules\<close>

text \<open>The next step of thread \<open>t\<close>; an idle thread calls \<open>push v\<close> if \<open>call = Some v\<close>, and \<open>pop\<close>
  otherwise.\<close>

definition pool_turn :: "nat \<Rightarrow> 'a qsys \<Rightarrow> 'a qsys" where
  "pool_turn t y = y\<lparr>qs_fl := fl_move t (freelist_step False (fs_pc (qs_fl y) t) (qs_q y)) (qs_fl y)\<rparr>"

definition goes_to :: "nat \<Rightarrow> fl_pc \<Rightarrow> u16 list \<Rightarrow> 'a queue_pc \<Rightarrow> 'a qsys \<Rightarrow> 'a qsys" where
  "goes_to t fpc out pc y =
     y\<lparr>qs_fl := (qs_fl y)\<lparr>fs_pc := (fs_pc (qs_fl y))(t := fpc), fs_out := out\<rparr>, qs_pc := (qs_pc y)(t := pc)\<rparr>"

definition turn :: "nat \<times> 'a option \<Rightarrow> 'a qsys \<Rightarrow> 'a qsys" where
  "turn c y = (case c of (t, call) \<Rightarrow>
     let out = fs_out (qs_fl y) in
     case qs_pc y t of
       QIdle \<Rightarrow> (case call of
           Some v \<Rightarrow> goes_to t ALoad out (PAlloc v) y
         | None \<Rightarrow> goes_to t (fs_pc (qs_fl y) t) out QLoadHead y)
     | PAlloc v \<Rightarrow> (case fs_pc (qs_fl y) t of
           AGot (Some n) \<Rightarrow> goes_to t FIdle (n # out) (PConstruct v n) y
         | AGot None \<Rightarrow> goes_to t FIdle out (PushRet False) y
         | _ \<Rightarrow> pool_turn t y)
     | QFree h v \<Rightarrow> goes_to t (DLoad h) (remove1 h out) (QFreeing v) y
     | QFreeing v \<Rightarrow> (case fs_pc (qs_fl y) t of
           DEnd \<Rightarrow> goes_to t FIdle out (PopRet (Some v)) y
         | _ \<Rightarrow> pool_turn t y)
     | PushRet b \<Rightarrow> goes_to t (fs_pc (qs_fl y) t) out QIdle y
     | PopRet r \<Rightarrow> goes_to t (fs_pc (qs_fl y) t) out QIdle y
     | pc \<Rightarrow> q_move t (queue_step False pc (qs_q y)) y)"

definition turns :: "(nat \<times> 'a option) list \<Rightarrow> 'a qsys \<Rightarrow> 'a qsys" where
  "turns cs y = fold turn cs y"

fun returning :: "'a queue_pc \<Rightarrow> bool" where
  "returning (PushRet b) = True"
| "returning (PopRet r) = True"
| "returning pc = False"

text \<open>A turn is a step of the system.\<close>

lemma goes_to_same:
  "goes_to t (fs_pc (qs_fl y) t) (fs_out (qs_fl y)) pc y = y\<lparr>qs_pc := (qs_pc y)(t := pc)\<rparr>"
  by (simp add: goes_to_def)

lemma turn_step:
  assumes "pool_ok (qs_pc y t) (fs_pc (qs_fl y) t)" and "qs_pc y t \<noteq> QFault"
  shows "\<exists>ops. q_step y ops (turn (t, call) y)"
proof (cases "pushing (qs_pc y t) \<or> popping (qs_pc y t)")
  case True
  from q_code [OF this refl, of False] have "\<exists>ops. q_step y ops (q_move t (queue_step False (qs_pc y t) (qs_q y)) y)" ..
  moreover have "turn (t, call) y = q_move t (queue_step False (qs_pc y t) (qs_q y)) y"
    using True by (cases "qs_pc y t") (simp_all add: turn_def)
  ultimately show ?thesis by simp
next
  case code: False
  have pool: "\<exists>ops. q_step y ops (pool_turn t y)" if "in_code (fs_pc (qs_fl y) t)"
    unfolding pool_turn_def using QueueRaces.q_pool [OF that] by blast
  show ?thesis
  proof (cases "qs_pc y t")
    case QIdle
    then show ?thesis
      using q_push [of y t] q_pop [of y t] by (cases call) (auto simp: turn_def Let_def goes_to_same, auto simp: goes_to_def)
  next
    case (PAlloc v)
    show ?thesis
    proof (cases "fs_pc (qs_fl y) t")
      case (AGot r)
      then show ?thesis using q_allocated [OF PAlloc AGot] PAlloc
        by (cases r) (auto simp: turn_def Let_def goes_to_def)
    qed (use assms PAlloc pool in \<open>auto simp: turn_def Let_def\<close>)
  next
    case (QFree h v)
    then show ?thesis using q_free [OF QFree] by (auto simp: turn_def Let_def goes_to_def)
  next
    case (QFreeing v)
    show ?thesis
    proof (cases "fs_pc (qs_fl y) t")
      case DEnd
      then show ?thesis using q_freed [OF QFreeing DEnd] QFreeing by (auto simp: turn_def Let_def goes_to_def)
    qed (use assms QFreeing pool in \<open>auto simp: turn_def Let_def\<close>)
  next
    case (PushRet b)
    then show ?thesis using q_pushed [OF PushRet] by (auto simp: turn_def Let_def goes_to_same)
  next
    case (PopRet r)
    then show ?thesis using q_popped [OF PopRet] by (auto simp: turn_def Let_def goes_to_same)
  qed (use code assms in simp_all)
qed

section \<open>How far the tail is behind\<close>

definition lag :: "'a lfq \<Rightarrow> nat" where
  "lag q = length (walk (q_count q) (nx q) (nx q (tg_index (q_tail q))) (null_handle q))"

lemma length_walk: "length (walk n f a z) \<le> n"
  by (induction n arbitrary: a) auto

lemma lag_le: "lag q \<le> q_count q"
  unfolding lag_def by (rule length_walk)

lemma chain_lag:
  assumes "chain q ns" and "length ns \<le> q_count q"
  obtains xs ys where "ns = xs @ tg_index (q_tail q) # ys" and "lag q = length ys"
    and "linked (nx q) (nx q (tg_index (q_tail q))) ys (null_handle q)"
proof -
  obtain xs ys where ns: "ns = xs @ tg_index (q_tail q) # ys"
    using assms(1) unfolding chain_def by (meson split_list)
  then have l: "linked (nx q) (nx q (tg_index (q_tail q))) ys (null_handle q)"
    using assms(1) by (auto simp: chain_def linked_append)
  then have "walk (q_count q) (nx q) (nx q (tg_index (q_tail q))) (null_handle q) = ys"
    by (rule walk_linked) (use assms ns in \<open>auto simp: chain_def\<close>)
  then show thesis using that [OF ns _ l] by (simp add: lag_def)
qed

lemma walk_cong: "linked f a xs z \<Longrightarrow> z \<notin> set xs \<Longrightarrow> (\<And>x. x \<in> set xs \<Longrightarrow> g x = f x) \<Longrightarrow> walk n g a z = walk n f a z"
proof (induction xs arbitrary: a n)
  case Nil
  then show ?case by (cases n) auto
next
  case (Cons x xs)
  then show ?case by (cases n) auto
qed

lemma lag_off:
  assumes "chain q ns" and "length ns \<le> q_count q" and "q_tail q' = q_tail q" and "q_count q' = q_count q"
    and "\<And>x. x \<in> set ns \<Longrightarrow> nx q' x = nx q x"
  shows "lag q' = lag q"
proof -
  obtain xs ys where n: "ns = xs @ tg_index (q_tail q) # ys"
    and l: "linked (nx q) (nx q (tg_index (q_tail q))) ys (null_handle q)"
    by (rule chain_lag [OF assms(1,2)])
  have e: "nx q' x = nx q x" if "x \<in> insert (tg_index (q_tail q)) (set ys)" for x
    using assms(5) that unfolding n by auto
  have "null_handle q \<notin> set ys" using assms(1) n by (auto simp: chain_def)
  then have "walk k (nx q') a (null_handle q) = walk k (nx q) a (null_handle q)"
    if "a = nx q (tg_index (q_tail q))" for k a
    unfolding that by (rule walk_cong [OF l]) (use e in auto)
  moreover have "null_handle q' = null_handle q" using assms(4) by (simp add: null_handle_def)
  ultimately show ?thesis using e [of "tg_index (q_tail q)"] by (simp add: lag_def assms(3,4))
qed

lemma lag_swing:
  assumes "chain q ns" and "length ns \<le> q_count q" and "nx q (tg_index (q_tail q)) = p" and "p \<noteq> null_handle q"
  shows "Suc (lag (exchange_tail (q_tail q) p q)) = lag q"
proof -
  let ?q = "exchange_tail (q_tail q) p q"
  obtain xs ys where n: "ns = xs @ tg_index (q_tail q) # ys" "lag q = length ys"
    and l: "linked (nx q) (nx q (tg_index (q_tail q))) ys (null_handle q)"
    by (rule chain_lag [OF assms(1,2)])
  then obtain ys' where y: "ys = p # ys'" using assms(3,4) by (cases ys) auto
  have "walk (q_count q) (nx q) (nx q p) (null_handle q) = ys'"
    by (rule walk_linked) (use l y n assms(1,2) in \<open>auto simp: chain_def\<close>)
  then show ?thesis using n y by (simp add: lag_def exchange_tail_def null_handle_def)
qed

lemma lag_link:
  assumes "chain q ns" and "nx q (tg_index (q_tail q)) = null_handle q" and "nx q n = null_handle q"
    and "n \<noteq> tg_index (q_tail q)" and "q' = q\<lparr>q_next := (q_next q)(tg_index (q_tail q) := tagged n g)\<rparr>"
  shows "lag q' \<le> 1"
proof -
  have "walk k (nx q') n (null_handle q') = (if k = 0 \<or> n = null_handle q then [] else [n])" for k
    using assms by (cases k; cases "k - 1") (auto simp: null_handle_def)
  then show ?thesis using assms(5) by (simp add: lag_def null_handle_def)
qed

section \<open>The steps that are left\<close>

text \<open>The writes a call may still do to what others compare with; linking a node counts twice,
  since the tail has to follow.\<close>

fun writes_left :: "fl_pc \<Rightarrow> 'a queue_pc \<Rightarrow> nat" where
  "writes_left fpc QIdle = 3"
| "writes_left fpc (PAlloc v) = (case fpc of AGot r \<Rightarrow> 2 | _ \<Rightarrow> 3)"
| "writes_left fpc (PSwing v n tail) = 0"
| "writes_left fpc (QFree h v) = 1"
| "writes_left fpc (QFreeing v) = (if fpc = DEnd then 0 else 1)"
| "writes_left fpc pc = (if pushing pc \<or> popping pc then 2 else 0)"

text \<open>The steps before the next write or the return, if no other thread writes.  What was loaded
  may have been overtaken: then the round fails, and there is another.\<close>

fun pool_round :: "'a lfq \<Rightarrow> fl_pc \<Rightarrow> nat" where
  "pool_round q ALoad = 4"
| "pool_round q (ATest old) = (if q_pool q = old then 3 else 5)"
| "pool_round q (ACas old n) = (if q_pool q = old then 2 else 4)"
| "pool_round q (AGot r) = 8"
| "pool_round q (DLoad i) = 4"
| "pool_round q (DLink i old) = (if q_pool q = old then 3 else 5)"
| "pool_round q (DCas i old) = (if q_pool q = old then 2 else 4)"
| "pool_round q pc = 1"

fun round_left :: "'a lfq \<Rightarrow> counters \<Rightarrow> seen \<Rightarrow> fl_pc \<Rightarrow> 'a queue_pc \<Rightarrow> nat" where
  "round_left q c s fpc QIdle = 8"
| "round_left q c s fpc (PAlloc v) = pool_round q fpc"
| "round_left q c s fpc (PConstruct v n) = 7"
| "round_left q c s fpc (PReset v n) = 6"
| "round_left q c s fpc (PLoadTail v n) = 5"
| "round_left q c s fpc (PLoadNext v n tail) = (if c_tail c = s_tail s then 4 else 8)"
| "round_left q c s fpc (PLoadTail2 v n tail next) =
     (if c_tail c = s_tail s \<and> c_next c (tg_index tail) = s_next s then 3 else 7)"
| "round_left q c s fpc (PLink v n tail next) = (if c_next c (tg_index tail) = s_next s then 2 else 6)"
| "round_left q c s fpc (PHelp v n tail p) = (if c_tail c = s_tail s then 2 else 6)"
| "round_left q c s fpc (PSwing v n tail) = 1"
| "round_left q c s fpc QLoadHead = 7"
| "round_left q c s fpc (QLoadTail head) = (if c_head c = s_head s then 6 else 12)"
| "round_left q c s fpc (QLoadNext head tail) = (if c_head c = s_head s \<and> c_tail c = s_tail s then 5 else 11)"
| "round_left q c s fpc (QLoadHead2 head tail next) = (if c_head c = s_head s \<and> c_tail c = s_tail s then 4 else 10)"
| "round_left q c s fpc (QHelp tail p) = (if c_tail c = s_tail s then 3 else 8)"
| "round_left q c s fpc (QCopy head p) = (if c_head c = s_head s then 3 else 9)"
| "round_left q c s fpc (QCas head p v) = (if c_head c = s_head s then 2 else 8)"
| "round_left q c s fpc (QFree h v) = 5"
| "round_left q c s fpc (QFreeing v) = pool_round q fpc"
| "round_left q c s fpc pc = 0"

definition writes_of :: "'a qsys \<Rightarrow> nat \<Rightarrow> nat" where
  "writes_of y t = writes_left (fs_pc (qs_fl y) t) (qs_pc y t)"

definition round_of :: "'a qsys \<Rightarrow> nat \<Rightarrow> nat" where
  "round_of y t = round_left (qs_q y) (qs_cnt y) (qs_seen y t) (fs_pc (qs_fl y) t) (qs_pc y t)"

definition steps_left :: "nat \<Rightarrow> 'a qsys \<Rightarrow> nat" where
  "steps_left n y = (12 * n + 1) * ((\<Sum>t<n. writes_of y t) + lag (qs_q y)) + (\<Sum>t<n. round_of y t)"

lemma pool_round_le: "pool_round q pc \<le> 8"
  by (cases pc) auto

lemma round_of_le: "round_of y t \<le> 12"
  unfolding round_of_def using pool_round_le [of "qs_q y" "fs_pc (qs_fl y) t"]
  by (cases "qs_pc y t") auto

lemma writes_of_le: "writes_of y t \<le> 3"
  unfolding writes_of_def by (cases "qs_pc y t") (auto split: fl_pc.split)

lemma sum_writes_le: "(\<Sum>t<n. writes_of y t) \<le> 3 * n"
  using sum_bounded_above [of "{..<n}" "writes_of y" 3, OF writes_of_le] by (simp add: mult.commute)

lemma sum_round_le: "(\<Sum>t<n. round_of y t) \<le> 12 * n"
  using sum_bounded_above [of "{..<n}" "round_of y" 12, OF round_of_le] by (simp add: mult.commute)

lemma steps_left_bound: "steps_left n y < (12 * n + 1) * (3 * n + q_count (qs_q y) + 1)"
proof -
  have "(\<Sum>t<n. writes_of y t) + lag (qs_q y) \<le> 3 * n + q_count (qs_q y)"
    using sum_writes_le lag_le by (rule add_mono)
  then have "(12 * n + 1) * ((\<Sum>t<n. writes_of y t) + lag (qs_q y)) \<le> (12 * n + 1) * (3 * n + q_count (qs_q y))"
    by (rule mult_le_mono2)
  then show ?thesis using sum_round_le [of y n] by (simp add: steps_left_def)
qed

text \<open>A step of thread \<open>t\<close> uses up a write, or a part of the round and no round of another
  thread starts anew.\<close>

definition nearer :: "nat \<Rightarrow> 'a qsys \<Rightarrow> 'a qsys \<Rightarrow> bool" where
  "nearer t y y' \<longleftrightarrow>
     (\<forall>u. u \<noteq> t \<longrightarrow> writes_of y' u = writes_of y u)
     \<and> (writes_of y' t + lag (qs_q y') < writes_of y t + lag (qs_q y)
        \<or> writes_of y' t + lag (qs_q y') = writes_of y t + lag (qs_q y) \<and> round_of y' t < round_of y t
          \<and> (\<forall>u. u \<noteq> t \<longrightarrow> round_of y' u = round_of y u))"

lemma sum_one_other:
  fixes f g :: "nat \<Rightarrow> nat"
  assumes "t < n" and "\<And>u. u \<noteq> t \<Longrightarrow> g u = f u"
  shows "(\<Sum>u<n. g u) + f t = (\<Sum>u<n. f u) + g t"
proof -
  have s: "(\<Sum>u<n. h u) = h t + (\<Sum>u\<in>{..<n} - {t}. h u)" for h :: "nat \<Rightarrow> nat"
    using assms(1) by (intro sum.remove) auto
  have "(\<Sum>u\<in>{..<n} - {t}. g u) = (\<Sum>u\<in>{..<n} - {t}. f u)" using assms(2) by (intro sum.cong) auto
  then show ?thesis by (simp add: s [of g] s [of f])
qed

lemma nearer_steps_left:
  assumes "nearer t y y'" and t: "t < n"
  shows "steps_left n y' < steps_left n y"
proof -
  let ?w = "\<lambda>y. (\<Sum>t<n. writes_of y t) + lag (qs_q y)"
  have w: "(\<Sum>u<n. writes_of y' u) + writes_of y t = (\<Sum>u<n. writes_of y u) + writes_of y' t"
    using assms by (intro sum_one_other) (auto simp: nearer_def)
  from assms(1) consider "writes_of y' t + lag (qs_q y') < writes_of y t + lag (qs_q y)"
    | "writes_of y' t + lag (qs_q y') = writes_of y t + lag (qs_q y)" "round_of y' t < round_of y t"
      "\<And>u. u \<noteq> t \<Longrightarrow> round_of y' u = round_of y u"
    unfolding nearer_def by blast
  then show ?thesis
  proof cases
    case 1
    then have "Suc (?w y') \<le> ?w y" using w by linarith
    then have "(12 * n + 1) * Suc (?w y') \<le> (12 * n + 1) * ?w y" by (rule mult_le_mono2)
    then show ?thesis using sum_round_le [of y' n] by (simp add: steps_left_def)
  next
    case 2
    then have "?w y' = ?w y" using w by linarith
    moreover have "(\<Sum>t<n. round_of y' t) < (\<Sum>t<n. round_of y t)"
      using sum_one_other [OF t, of "round_of y'" "round_of y"] 2(2,3) by simp
    ultimately show ?thesis unfolding steps_left_def by simp
  qed
qed

section \<open>Every step brings a return nearer\<close>

lemma others_move [simp]: "u \<noteq> t \<Longrightarrow> writes_of (q_move t r y) u = writes_of y u"
  by (simp add: writes_of_def q_move_def)

lemma nearer_write:
  assumes "writes_left (fs_pc (qs_fl y) t) pc' + lag q' < writes_of y t + lag (qs_q y)"
  shows "nearer t y (q_move t (pc', q') y)"
  using assms by (simp add: nearer_def) (simp add: q_move_def writes_of_def)

lemma nearer_read:
  assumes "writes_left (fs_pc (qs_fl y) t) pc' \<le> writes_of y t"
    and "round_left (qs_q y) (qs_cnt y) (note_load pc' (qs_q y) (qs_cnt y) (qs_seen y t)) (fs_pc (qs_fl y) t) pc' < round_of y t"
  shows "nearer t y (q_move t (pc', qs_q y) y)"
proof -
  have "round_of (q_move t (pc', qs_q y) y) u = round_of y u" if "u \<noteq> t" for u
    using that by (simp add: round_of_def q_move_def)
  moreover have "writes_of (q_move t (pc', qs_q y) y) t \<le> writes_of y t"
    "round_of (q_move t (pc', qs_q y) y) t < round_of y t" "lag (qs_q (q_move t (pc', qs_q y) y)) = lag (qs_q y)"
    using assms by (simp_all add: writes_of_def round_of_def q_move_def)
  ultimately show ?thesis unfolding nearer_def by (simp add: le_less)
qed

text \<open>The constructor of a node writes only what no comparison that can still succeed depends on.\<close>

lemma nearer_construct:
  assumes rep: "q_rep y ns" and n: "n \<notin> set ns"
    and q': "q' = (qs_q y)\<lparr>q_next := (q_next (qs_q y))(n := h), q_data := (q_data (qs_q y))(n := v)\<rparr>"
    and w: "writes_left (fs_pc (qs_fl y) t) pc' = writes_of y t"
    and r: "\<And>c s. round_left q' c s (fs_pc (qs_fl y) t) pc' < round_of y t"
  shows "nearer t y (q_move t (pc', q') y)"
proof -
  let ?c = "qs_cnt y" and ?c' = "recount (qs_q y) q' (qs_cnt y)"
  note ch = q_repD(2) [OF rep]
  obtain fl where fl: "fl_rep (qs_fl y) fl" using q_repD(1) [OF rep] by blast
  have len: "length ns \<le> q_count (qs_q y)" by (rule chain_length [OF fl refl ch q_repD(3) [OF rep]])
  have cnt: "c_head ?c' = c_head ?c" "c_tail ?c' = c_tail ?c" "\<And>x. x \<noteq> n \<Longrightarrow> c_next ?c' x = c_next ?c x"
    "c_next ?c n \<le> c_next ?c' n"
    using q' by (auto simp: recount_def)
  have "lag q' = lag (qs_q y)" by (rule lag_off [OF ch len]) (use q' n in auto)
  moreover have "round_of (q_move t (pc', q') y) u = round_of y u" if "u \<noteq> t" for u
  proof -
    have same: "c_next ?c' x = s_next (qs_seen y u) \<longleftrightarrow> c_next ?c x = s_next (qs_seen y u)"
      if "c_next ?c x = s_next (qs_seen y u) \<longrightarrow> x \<in> set ns" and "s_next (qs_seen y u) \<le> c_next ?c x" for x
      using that cnt(3) [of x] cnt(4) n by (cases "x = n") auto
    note k = q_repD(7) [OF rep, of u]
    have pool: "q_pool q' = q_pool (qs_q y)" using q' by simp
    have pr: "pool_round q' pc = pool_round (qs_q y) pc" for pc by (cases pc) (simp_all add: pool)
    have "round_left q' ?c' (qs_seen y u) (fs_pc (qs_fl y) u) (qs_pc y u)
        = round_left (qs_q y) ?c (qs_seen y u) (fs_pc (qs_fl y) u) (qs_pc y u)"
    proof (cases "qs_pc y u")
      case (PLoadTail2 v m tail nxt)
      have "c_tail ?c = s_tail (qs_seen y u) \<Longrightarrow> tg_index tail \<in> set ns"
        using k PLoadTail2 ch by (auto simp: tail_seen_def chain_def)
      then show ?thesis using PLoadTail2 k same [of "tg_index tail"] by (auto simp: cnt(2) next_seen_def)
    next
      case (PLink v m tail nxt)
      then show ?thesis using k same [of "tg_index tail"] by (auto simp: next_seen_def)
    qed (simp_all add: cnt pr)
    then show ?thesis using that by (simp add: round_of_def q_move_def)
  qed
  ultimately show ?thesis using w r unfolding nearer_def by (simp) (simp add: q_move_def writes_of_def round_of_def)
qed

text \<open>An exchange of the tail that succeeds makes it follow; one that fails had been overtaken.\<close>

lemma nearer_exchange:
  assumes rep: "q_rep y ns" and tail: "tail_seen (qs_q y) (qs_cnt y) (qs_seen y t) tail"
    and time: "c_tail (qs_cnt y) - s_tail (qs_seen y t) < 65536"
    and p: "p \<noteq> null_handle (qs_q y)" "c_tail (qs_cnt y) = s_tail (qs_seen y t) \<longrightarrow> nx (qs_q y) (tg_index tail) = p"
    and w: "writes_left (fs_pc (qs_fl y) t) pc' = writes_of y t"
    and r: "c_tail (qs_cnt y) \<noteq> s_tail (qs_seen y t) \<Longrightarrow>
      round_left (qs_q y) (qs_cnt y) (note_load pc' (qs_q y) (qs_cnt y) (qs_seen y t)) (fs_pc (qs_fl y) t) pc' < round_of y t"
  shows "nearer t y (q_move t (pc', exchange_tail tail p (qs_q y)) y)"
proof (cases "q_tail (qs_q y) = tail")
  case True
  obtain fl where fl: "fl_rep (qs_fl y) fl" using q_repD(1) [OF rep] by blast
  have len: "length ns \<le> q_count (qs_q y)" by (rule chain_length [OF fl refl q_repD(2,3) [OF rep]])
  have "nx (qs_q y) (tg_index tail) = p" using p(2) tail_now [OF tail True time] by simp
  then have "Suc (lag (exchange_tail tail p (qs_q y))) = lag (qs_q y)"
    using lag_swing [OF q_repD(2) [OF rep] len _ p(1)] True by simp
  then show ?thesis using w by (intro nearer_write) simp
next
  case False
  then have "c_tail (qs_cnt y) \<noteq> s_tail (qs_seen y t)" using tail by (auto simp: tail_seen_def)
  moreover have "exchange_tail tail p (qs_q y) = qs_q y" using False by (simp add: exchange_tail_def)
  ultimately show ?thesis using nearer_read [of y t pc'] w r by simp
qed

lemma push_nearer:
  assumes rep: "q_rep y ns" and tm: "q_timely y" and pushing: "pushing (qs_pc y t)"
  shows "nearer t y (q_move t (push_step False (qs_pc y t) (qs_q y)) y)"
proof -
  let ?q = "qs_q y" and ?c = "qs_cnt y" and ?s = "qs_seen y t"
  note ch = q_repD(2) [OF rep]
  note know = q_repD(7) [OF rep, of t]
  note hold = q_repD(4) [OF rep, of t]
  note time = q_timelyD(2) [OF tm, of t]
  note measures = writes_of_def round_of_def
  show ?thesis
  proof (cases "qs_pc y t")
    case (PConstruct v n)
    have "nearer t y (q_move t (PReset v n, ?q\<lparr>q_data := (q_data ?q)(n := v)\<rparr>) y)"
      by (rule nearer_construct [OF rep, where n = n and h = "q_next ?q n" and v = v])
        (use PConstruct hold in \<open>auto simp: measures\<close>)
    then show ?thesis using PConstruct by simp
  next
    case (PReset v n)
    have "nearer t y (q_move t (PLoadTail v n,
        ?q\<lparr>q_next := (q_next ?q)(n := tagged (null_handle ?q) (get_next_tag (q_next ?q n)))\<rparr>) y)"
      by (rule nearer_construct [OF rep, where n = n and v = "q_data ?q n"]) (use PReset hold in \<open>auto simp: measures\<close>)
    then show ?thesis using PReset by simp
  next
    case (PLoadTail v n)
    then show ?thesis by (auto simp: measures intro!: nearer_read)
  next
    case (PLoadNext v n tail)
    then show ?thesis using know by (auto simp: measures tail_seen_def get_pointer_def intro!: nearer_read)
  next
    case (PLoadTail2 v n tail nxt)
    then show ?thesis
      using know time by (auto simp: measures tail_seen_def get_pointer_def intro!: nearer_read)
  next
    case (PLink v n tail nxt)
    let ?x = "tg_index tail"
    show ?thesis
    proof (cases "q_next ?q ?x = nxt")
      case True
      then have now: "c_next ?c ?x = s_next ?s" using know time PLink by (auto intro: next_now)
      then have "q_tail ?q = tail" using know PLink by (auto simp: tail_seen_def)
      moreover have "n \<noteq> ?x" using hold know PLink now by auto
      ultimately have "lag (?q\<lparr>q_next := (q_next ?q)(?x := tagged n (get_next_tag nxt))\<rparr>) \<le> 1"
        using know PLink True by (intro lag_link [OF ch]) (auto simp: mine_def)
      then have "nearer t y (q_move t (PSwing v n tail, ?q\<lparr>q_next := (q_next ?q)(?x := tagged n (get_next_tag nxt))\<rparr>) y)"
        by (intro nearer_write) (use PLink in \<open>simp add: measures\<close>)
      then show ?thesis using PLink True by simp
    next
      case False
      then have "c_next ?c ?x \<noteq> s_next ?s" using know PLink by auto
      then show ?thesis using False PLink by (auto simp: measures intro!: nearer_read)
    qed
  next
    case (PSwing v n tail)
    then show ?thesis using know time by (auto simp: measures intro!: nearer_exchange [OF rep])
  next
    case (PHelp v n tail p)
    then show ?thesis using know time by (auto simp: measures intro!: nearer_exchange [OF rep])
  qed (use pushing in simp_all)
qed

lemma pop_nearer:
  assumes rep: "q_rep y ns" and tm: "q_timely y" and popping: "popping (qs_pc y t)"
  shows "nearer t y (q_move t (pop_step False (qs_pc y t) (qs_q y)) y)"
proof -
  let ?q = "qs_q y" and ?c = "qs_cnt y" and ?s = "qs_seen y t"
  note ch = q_repD(2) [OF rep]
  note know = q_repD(7) [OF rep, of t]
  note time = q_timelyD(2) [OF tm, of t]
  note measures = writes_of_def round_of_def
  show ?thesis
  proof (cases "qs_pc y t")
    case QLoadHead
    then show ?thesis by (auto simp: measures intro!: nearer_read)
  next
    case (QLoadTail head)
    then show ?thesis by (auto simp: measures intro!: nearer_read)
  next
    case (QLoadNext head tail)
    then have "get_pointer ?q (tg_index head) = Some (tg_index head)"
      using know by (simp add: head_seen_def get_pointer_def)
    then show ?thesis using QLoadNext by (auto simp: measures intro!: nearer_read)
  next
    case (QLoadHead2 head tail nxt)
    show ?thesis
    proof (cases "q_head ?q = head")
      case True
      have "c_head ?c = s_head ?s" using head_now [OF _ True] know time QLoadHead2 by auto
      then show ?thesis
        using know True QLoadHead2
        by (cases "tg_index nxt = null_handle ?q"; cases "tg_index head = tg_index tail")
          (auto simp: measures get_pointer_def intro!: nearer_read)
    next
      case False
      then have "c_head ?c \<noteq> s_head ?s" using know QLoadHead2 by (auto simp: head_seen_def)
      then show ?thesis using False QLoadHead2 by (auto simp: measures intro!: nearer_read)
    qed
  next
    case (QHelp tail p)
    then show ?thesis using know time by (auto simp: measures intro!: nearer_exchange [OF rep])
  next
    case (QCopy head p)
    then show ?thesis by (auto simp: measures intro!: nearer_read)
  next
    case (QCas head p v)
    show ?thesis
    proof (cases "q_head ?q = head")
      case True
      have "lag (?q\<lparr>q_head := tagged p (get_next_tag head)\<rparr>) = lag ?q" by (simp add: lag_def null_handle_def)
      then have "nearer t y (q_move t (QFree (tg_index head) v, ?q\<lparr>q_head := tagged p (get_next_tag head)\<rparr>) y)"
        by (intro nearer_write) (use QCas in \<open>simp add: measures\<close>)
      then show ?thesis using True QCas by simp
    next
      case False
      then have "c_head ?c \<noteq> s_head ?s" using know QCas by (auto simp: head_seen_def)
      then show ?thesis using False QCas by (auto simp: measures intro!: nearer_read)
    qed
  qed (use popping in simp_all)
qed

text \<open>The free list, and the steps between the two.\<close>

lemma pool_nearer:
  assumes rep: "q_rep y ns" and code: "in_code (fs_pc (qs_fl y) t)"
  shows "nearer t y (pool_turn t y)"
proof -
  let ?q = "qs_q y" and ?pc = "fs_pc (qs_fl y) t"
  obtain fl where fl: "fl_rep (qs_fl y) fl" using q_repD(1) [OF rep] by blast
  obtain pc' q' where st: "freelist_step False ?pc ?q = (pc', q')" by (metis surj_pair)
  note frame = freelist_step_frame [OF st]
  have "nx q' x = nx ?q x" if "x \<in> set ns" for x
  proof -
    have "x \<in> set (fs_out (qs_fl y))" using q_repD(3) [OF rep] that by blast
    then have "pc_node ?pc \<noteq> Some x" using fl_repD(4) [OF fl, of t x] by blast
    then show ?thesis by (simp add: frame(6))
  qed
  then have lag: "lag q' = lag ?q"
    using frame(2,3) by (intro lag_off [OF q_repD(2) [OF rep] chain_length [OF fl refl q_repD(2,3) [OF rep]]]) auto
  have y': "qs_q (pool_turn t y) = q'" "qs_pc (pool_turn t y) = qs_pc y" "qs_cnt (pool_turn t y) = qs_cnt y"
    "qs_seen (pool_turn t y) = qs_seen y" "fs_pc (qs_fl (pool_turn t y)) = (fs_pc (qs_fl y))(t := pc')"
    by (simp_all add: pool_turn_def fl_move_def st)
  have others: "writes_of (pool_turn t y) u = writes_of y u" if "u \<noteq> t" for u
    using that by (simp add: writes_of_def y')
  have own: "writes_of (pool_turn t y) t < writes_of y t
      \<or> writes_of (pool_turn t y) t = writes_of y t \<and> round_of (pool_turn t y) t < round_of y t \<and> q_pool q' = q_pool ?q"
    using q_repD(6) [OF rep, of t] code st
    by (cases "qs_pc y t"; cases ?pc) (auto simp: writes_of_def round_of_def y' Let_def split: if_splits)
  have "round_of (pool_turn t y) u = round_of y u" if "u \<noteq> t" "q_pool q' = q_pool ?q" for u
  proof -
    have "pool_round q' pc = pool_round ?q pc" for pc by (cases pc) (simp_all add: that(2))
    then have "round_left q' c s fpc pc = round_left ?q c s fpc pc" for c s fpc and pc :: "'a queue_pc"
      by (cases pc) simp_all
    then show ?thesis using that(1) by (simp add: round_of_def y')
  qed
  then show ?thesis using own others lag unfolding nearer_def y' by (elim disjE) simp_all
qed

lemma nearer_call:
  assumes "writes_left fpc pc' \<le> writes_of y t" and "round_left (qs_q y) (qs_cnt y) (qs_seen y t) fpc pc' < round_of y t"
  shows "nearer t y (goes_to t fpc out pc' y)"
proof -
  have "round_of (goes_to t fpc out pc' y) u = round_of y u" "writes_of (goes_to t fpc out pc' y) u = writes_of y u"
    if "u \<noteq> t" for u
    using that by (simp_all add: round_of_def writes_of_def goes_to_def)
  moreover have "writes_of (goes_to t fpc out pc' y) t \<le> writes_of y t"
    "round_of (goes_to t fpc out pc' y) t < round_of y t" "lag (qs_q (goes_to t fpc out pc' y)) = lag (qs_q y)"
    using assms by (simp_all add: writes_of_def round_of_def goes_to_def)
  ultimately show ?thesis unfolding nearer_def by (simp add: le_less)
qed

lemma turn_nearer:
  assumes rep: "q_rep y ns" and tm: "q_timely y" and "\<not> returning (qs_pc y t)"
  shows "nearer t y (turn (t, call) y)"
proof (cases "pushing (qs_pc y t) \<or> popping (qs_pc y t)")
  case True
  then have "turn (t, call) y = q_move t (queue_step False (qs_pc y t) (qs_q y)) y"
    by (cases "qs_pc y t") (simp_all add: turn_def)
  then show ?thesis using True push_nearer [OF rep tm, of t] pop_nearer [OF rep tm, of t]
    by (auto simp: queue_step_def)
next
  case False
  note pool = q_repD(6) [OF rep, of t] and code = pool_nearer [OF rep, of t]
  show ?thesis
  proof (cases "qs_pc y t")
    case QIdle
    then show ?thesis by (cases call) (auto simp: turn_def Let_def writes_of_def round_of_def intro!: nearer_call)
  next
    case (PAlloc v)
    show ?thesis
    proof (cases "fs_pc (qs_fl y) t")
      case (AGot r)
      then show ?thesis using PAlloc
        by (cases r) (auto simp: turn_def Let_def writes_of_def round_of_def intro!: nearer_call)
    qed (use PAlloc pool code in \<open>auto simp: turn_def Let_def\<close>)
  next
    case (QFree h v)
    then show ?thesis by (auto simp: turn_def Let_def writes_of_def round_of_def intro!: nearer_call)
  next
    case (QFreeing v)
    show ?thesis
    proof (cases "fs_pc (qs_fl y) t")
      case DEnd
      then show ?thesis using QFreeing by (auto simp: turn_def Let_def writes_of_def round_of_def intro!: nearer_call)
    qed (use QFreeing pool code in \<open>auto simp: turn_def Let_def\<close>)
  qed (use False assms(3) q_repD(7) [OF rep, of t] in auto)
qed

lemma turn_keeps:
  assumes "q_rep y ns" and "q_timely y"
  obtains ops ns' where "q_step y ops (turn c y)" and "q_rep (turn c y) ns'"
proof -
  obtain t call where c: "c = (t, call)" by (metis surj_pair)
  have "qs_pc y t \<noteq> QFault" using q_repD(7) [OF assms(1), of t] by auto
  then obtain ops where "q_step y ops (turn c y)" using turn_step [OF q_repD(6) [OF assms(1)]] c by blast
  moreover from q_step_keeps [OF assms this] obtain ns' where "q_rep (turn c y) ns'" by (auto simp: keeps_def)
  ultimately show thesis by (rule that)
qed

lemma turns_simps [simp]: "turns [] y = y" "turns (c # cs) y = turns cs (turn c y)"
  by (simp_all add: turns_def)

lemma turns_steps:
  assumes "q_rep y ns" and "\<forall>k<length cs. q_timely (turns (take k cs) y)" and "k < length cs"
  shows "\<exists>ops. q_step (turns (take k cs) y) ops (turns (take (Suc k) cs) y)"
  using assms
proof (induction cs arbitrary: y ns k)
  case (Cons c cs)
  have "q_timely y" using Cons.prems(2) by force
  then obtain ops ns' where s: "q_step y ops (turn c y)" "q_rep (turn c y) ns'"
    using turn_keeps [OF Cons.prems(1)] by blast
  have "\<forall>k<length cs. q_timely (turns (take k cs) (turn c y))"
    using Cons.prems(2) by (metis Suc_less_eq length_Cons take_Suc_Cons turns_simps(2))
  from Cons.IH [OF s(2) this] s(1) Cons.prems(3) show ?case by (cases k) auto
qed simp

lemma turns_descend:
  assumes "q_rep y ns" and "\<forall>k<length cs. q_timely (turns (take k cs) y)" and "\<forall>(t, call)\<in>set cs. t < n"
    and "\<forall>k<length cs. \<not> returning (qs_pc (turns (take k cs) y) (fst (cs ! k)))"
  shows "steps_left n (turns cs y) + length cs \<le> steps_left n y"
  using assms
proof (induction cs arbitrary: y ns)
  case (Cons c cs)
  obtain t call where c: "c = (t, call)" by (metis surj_pair)
  have tm: "q_timely y" "\<not> returning (qs_pc y t)" using Cons.prems(2,4) c by force+
  obtain ops ns' where s: "q_rep (turn c y) ns'" using turn_keeps [OF Cons.prems(1) tm(1)] by metis
  have "steps_left n (turns cs (turn c y)) + length cs \<le> steps_left n (turn c y)"
  proof (rule Cons.IH [OF s])
    show "\<forall>k<length cs. q_timely (turns (take k cs) (turn c y))"
      using Cons.prems(2) by (metis Suc_less_eq length_Cons take_Suc_Cons turns_simps(2))
    show "\<forall>k<length cs. \<not> returning (qs_pc (turns (take k cs) (turn c y)) (fst (cs ! k)))"
      using Cons.prems(4) by (metis Suc_less_eq length_Cons nth_Cons_Suc take_Suc_Cons turns_simps(2))
  qed (use Cons.prems(3) in simp)
  moreover have "steps_left n (turn c y) < steps_left n y"
    using nearer_steps_left [OF turn_nearer [OF Cons.prems(1) tm]] Cons.prems(3) c by auto
  ultimately show ?case by simp
qed simp

text \<open>C6: the queue is lock-free.  From every state the running queue reaches, with threads stopped
  at any point of their calls, let any \<open>n\<close> threads go on under any schedule; every turn is a step
  of the system.  Among any \<open>(12 n + 1) (3 n + c + 1)\<close> turns, \<open>c\<close> the number of nodes, there is
  one in which a call returns, however the others are delayed or stopped, as long as no
  comparison comes 65536 replacements too late.  (An exchange that fails without cause is not a
  turn.)\<close>

theorem queue_is_lock_free:
  assumes "lfq_inv q0" and "q_run q_timely (qs_start q0) ops y"
    and "\<forall>(t, call)\<in>set cs. t < n" and "\<forall>k<length cs. q_timely (turns (take k cs) y)"
    and "(12 * n + 1) * (3 * n + q_count q0 + 1) \<le> length cs"
  shows "(\<forall>k<length cs. \<exists>ops. q_step (turns (take k cs) y) ops (turns (take (Suc k) cs) y))
    \<and> (\<exists>k<length cs. returning (qs_pc (turns (take k cs) y) (fst (cs ! k))))"
proof -
  obtain ns0 where "q_rep (qs_start q0) ns0" using q_rep_start [OF assms(1)] by metis
  from keeps_run [OF assms(2) this] obtain ns where rep: "q_rep y ns" by (auto simp: keeps_def)
  have "steps_left n y < length cs"
    using steps_left_bound [of n y] q_run_count [OF assms(2)] assms(5) by (simp add: start_idle(3))
  then have "\<not> steps_left n (turns cs y) + length cs \<le> steps_left n y" by simp
  then have "\<exists>k<length cs. returning (qs_pc (turns (take k cs) y) (fst (cs ! k)))"
    using turns_descend [OF rep assms(4,3)] by blast
  then show ?thesis using turns_steps [OF rep assms(4)] by blast
qed

text \<open>One thread that pushes and one that pops by turns.\<close>

lemma grows_turn: "grows 1 y (turn c y)"
proof -
  have 1: "grows 1 y (q_move t r y)" "grows 1 y (pool_turn t y)" "grows 1 y (goes_to t fpc out pc y)" for t r fpc out pc
    using popped_le by (simp_all add: grows_def q_move_def recount_def pool_turn_def fl_move_def goes_to_def)
  show ?thesis
    by (cases c; cases "qs_pc y (fst c)") (auto simp: turn_def Let_def 1 [unfolded One_nat_def] split: option.split fl_pc.split)
qed

lemma grows_turns: "grows (length cs) y (turns cs y)"
proof (induction cs arbitrary: y)
  case (Cons c cs)
  from grows_trans [OF grows_turn this] show ?case by simp
qed (simp add: grows_def)

lemma start_turns_timely:
  assumes "length cs < 65536"
  shows "q_timely (turns cs (qs_start q))"
proof -
  have "few (turns cs (qs_start q))"
    using grows_turns [of cs "qs_start q"] assms
    by (auto simp: few_def grows_def qs_start_def fl_start_def intro: le_less_trans)
  then show ?thesis by (rule few_timely)
qed

theorem queue_is_lock_free_witness:
  "\<exists>q0. queue_init (\<lambda>_. tagged 0 0) (\<lambda>_. 0 :: nat) 2 = Inr q0
    \<and> (\<exists>k<250. returning (qs_pc (turns (take k (concat (replicate 125 [(0, Some 7), (1, None)]))) (qs_start q0)) (k mod 2)))"
proof -
  obtain q0 q1 where q: "queue_init (\<lambda>_. tagged 0 0) (\<lambda>_. 0 :: nat) 2 = Inr q0" "lfq_inv q0" "lfq_contents q0 = []"
    "queue_push 7 q0 = Inr (True, q1)" "q_count q0 = 3" by (rule sample_queue)
  let ?cs = "concat (replicate 125 [(0 :: nat, Some (7 :: nat)), (1, None)])"
  have len: "length ?cs = 250" by (simp add: length_concat sum_list_replicate)
  have nth: "fst (concat (replicate m [(0 :: nat, Some (7 :: nat)), (1, None)]) ! k) = k mod 2" if "k < 2 * m" for m k
    using that
  proof (induction m arbitrary: k)
    case (Suc m)
    show ?case
    proof (cases "k < 2")
      case True
      then show ?thesis by (cases k) auto
    next
      case False
      then obtain j where "k = Suc (Suc j)" by (metis add_2_eq_Suc le_add_diff_inverse not_less)
      then show ?thesis using Suc.IH [of j] Suc.prems by simp
    qed
  qed simp
  have time: "\<forall>k<length ?cs. q_timely (turns (take k ?cs) (qs_start q0))"
    using len by (intro allI impI start_turns_timely) simp
  have "\<forall>(t, call)\<in>set ?cs. t < 2" by auto
  from queue_is_lock_free [OF q(2) q_refl this time] obtain k
    where "k < 250" "returning (qs_pc (turns (take k ?cs) (qs_start q0)) (fst (?cs ! k)))"
    unfolding len q(5) by auto
  with q(1) nth [of k 125] show ?thesis by auto
qed

end
