(* ===== verification/Callable.thy ===== *)
theory Callable
  imports Console
begin

text \<open>
  \<open>Function<RT>\<close> (\<open>Common/Function.h\<close>), the callable that \<open>ParamParser\<close> keeps its command in,
  and what the two programs do with a console event.  A callable acts on a state and may
  fault; its arguments were bound when it was made.  \<open>std::function\<close> is \<open>None\<close> when empty;
  moving from one leaves it valid but unspecified, which is the parameter \<open>moved\<close>.
\<close>

section \<open>Function\<close>

type_synonym ('s, 'r) action = "('s \<Rightarrow> ('r \<times> 's) res) option"

text \<open>The three constructors: a function, a member function of a referenced object, a member
  function of the object a pointer points to (0 is null).  The bound arguments are copies, so
  every call passes the same.\<close>

definition Function_of_func :: "('a \<Rightarrow> 's \<Rightarrow> ('r \<times> 's) res) \<Rightarrow> 'a \<Rightarrow> ('s, 'r) action" where
  "Function_of_func func args = Some (func args)"

definition Function_of_ref :: "('o \<Rightarrow> 'a \<Rightarrow> 's \<Rightarrow> ('r \<times> 's) res) \<Rightarrow> 'o \<Rightarrow> 'a \<Rightarrow> ('s, 'r) action" where
  "Function_of_ref func obj args = Some (func obj args)"

definition Function_of_ptr :: "(nat \<Rightarrow> 'a \<Rightarrow> 's \<Rightarrow> ('r \<times> 's) res) \<Rightarrow> nat \<Rightarrow> 'a \<Rightarrow> ('s, 'r) action" where
  "Function_of_ptr func obj args = Some (\<lambda>s. if obj = 0 then Inl NullDeref else func obj args s)"

definition Function_copy :: "('s, 'r) action \<Rightarrow> ('s, 'r) action" where
  "Function_copy func = func"

text \<open>The assignments take \<open>self\<close>, whether both sides are the same object, and return the new
  values of the left and the right side.\<close>

definition Function_assign :: "bool \<Rightarrow> ('s, 'r) action \<Rightarrow> ('s, 'r) action \<Rightarrow> ('s, 'r) action \<times> ('s, 'r) action" where
  "Function_assign self this func = (if \<not> self then (func, func) else (this, func))"

definition Function_move :: "('s, 'r) action \<Rightarrow> ('s, 'r) action \<Rightarrow> ('s, 'r) action \<times> ('s, 'r) action" where
  "Function_move moved func = (func, moved)"

definition Function_move_assign ::
  "('s, 'r) action \<Rightarrow> bool \<Rightarrow> ('s, 'r) action \<Rightarrow> ('s, 'r) action \<Rightarrow> ('s, 'r) action \<times> ('s, 'r) action" where
  "Function_move_assign moved self this func = (if \<not> self then (func, moved) else (this, func))"

definition Function_valid :: "('s, 'r) action \<Rightarrow> bool" where
  "Function_valid action \<longleftrightarrow> action \<noteq> None"

text \<open>Calling an empty \<open>std::function\<close> throws.\<close>

definition Function_call :: "('s, 'r) action \<Rightarrow> 's \<Rightarrow> ('r \<times> 's) res" where
  "Function_call action s = (case action of None \<Rightarrow> Inl Uncaught | Some f \<Rightarrow> f s)"

lemma Function_call_valid: "Function_call action s = Inr x \<Longrightarrow> Function_valid action"
  by (cases action) (simp_all add: Function_call_def Function_valid_def)

text \<open>Whichever way a callable gets from one object to another, the target does what the source
  did, and self-assignment changes nothing.\<close>

lemma Function_transfer:
  "Function_call (fst (Function_assign False this func)) s = Function_call func s"
  "Function_call (fst (Function_move moved func)) s = Function_call func s"
  "Function_call (fst (Function_move_assign moved False this func)) s = Function_call func s"
  "Function_assign True func func = (func, func)" "Function_move_assign moved True func func = (func, func)"
  by (simp_all add: Function_assign_def Function_move_def Function_move_assign_def)

section \<open>Console events\<close>

datatype ctrl_type = CTRL_C_EVENT | CTRL_BREAK_EVENT | CTRL_CLOSE_EVENT | CTRL_LOGOFF_EVENT
  | CTRL_SHUTDOWN_EVENT | CTRL_OTHER

text \<open>The result is the return value and whether \<open>CleanupNetworking\<close> was called.\<close>

definition client_ConsoleHandler :: "ctrl_type \<Rightarrow> bool \<times> bool" where
  "client_ConsoleHandler ctrlType =
     (case ctrlType of
        CTRL_C_EVENT \<Rightarrow> (True, False) | CTRL_BREAK_EVENT \<Rightarrow> (True, False)
      | CTRL_CLOSE_EVENT \<Rightarrow> (True, True) | CTRL_LOGOFF_EVENT \<Rightarrow> (True, True) | CTRL_SHUTDOWN_EVENT \<Rightarrow> (True, True)
      | CTRL_OTHER \<Rightarrow> (False, False))"

definition server_ConsoleHandler :: "ctrl_type \<Rightarrow> bool \<times> bool" where
  "server_ConsoleHandler ctrlType =
     (case ctrlType of
        CTRL_C_EVENT \<Rightarrow> (True, False) | CTRL_BREAK_EVENT \<Rightarrow> (True, False)
      | CTRL_CLOSE_EVENT \<Rightarrow> (True, False) | CTRL_LOGOFF_EVENT \<Rightarrow> (True, False) | CTRL_SHUTDOWN_EVENT \<Rightarrow> (True, False)
      | CTRL_OTHER \<Rightarrow> (False, False))"

lemma ConsoleHandler_same_answer: "fst (client_ConsoleHandler e) = fst (server_ConsoleHandler e)"
  by (cases e) (simp_all add: client_ConsoleHandler_def server_ConsoleHandler_def)

end
