(* ===== verification/Programs.thy ===== *)
theory Programs
  imports ConsoleRun Callable
begin

text \<open>
  The three programs from the first to the last statement of \<open>_tmain\<close>: the server
  (\<open>Server/main.cpp\<close>), the client (\<open>Client/main.cpp\<close>) and the data generator (\<open>DataGen/main.cpp\<close>).
  What they ask of Win32 and of the closed networking library is a list of calls; \<open>set_handler\<close>
  is what \<open>SetConsoleCtrlHandler\<close> answers, \<open>fullPath\<close> what \<open>GetFullFilePathName\<close> gives.  The
  projects do not define \<open>NDEBUG\<close>, so the calls inside \<open>assert\<close> are made in every configuration.
\<close>

section \<open>Names\<close>

definition ALGORITHMPATH :: wstring where "ALGORITHMPATH = tx ''Algorithms''"
definition DATANAME :: wstring where "DATANAME = tx ''Data.dat''"
definition NEWDATANAME :: wstring where "NEWDATANAME = tx ''NewData.dat''"

section \<open>Server and client\<close>

text \<open>\<open>Commands\<close> stands for what happens between the first prompt and the end of the loop,
  \<open>DestroyObjects\<close> for the destructors of the local objects.\<close>

datatype sys_call =
    SetDllDirectory "wstring option"
  | InitializeNetworking
  | SetConsoleCtrlHandler bool
  | Atexit
  | Commands
  | CleanupNetworking
  | DestroyObjects

definition server_OnExit :: "sys_call list" where
  "server_OnExit = [CleanupNetworking]"

definition client_OnExit :: "sys_call list" where
  "client_OnExit = [CleanupNetworking]"

definition server_tmain ::
  "(bool \<Rightarrow> bool) \<Rightarrow> (wstring \<Rightarrow> wstring) \<Rightarrow> ('f server \<Rightarrow> 'f server res) \<Rightarrow> (nat \<Rightarrow> bool)
     \<Rightarrow> (serv_call list \<Rightarrow> bool) \<Rightarrow> wstring list \<Rightarrow> 'f server res
     \<Rightarrow> (console_msg list \<times> serv_call list \<times> 'f server \<times> sys_call list) res" where
  "server_tmain set_handler fullPath run ends allowed input server =
     (let start = [SetDllDirectory (Some (fullPath ALGORITHMPATH)), InitializeNetworking, SetConsoleCtrlHandler True] in
      if \<not> set_handler True then Inl AssertFail
      else rbind server (\<lambda>s.
           rbind (console_loop input (replicate buffer_size NUL) (server_commands allowed) []) (\<lambda>(ms, calls).
           rbind (run s) (\<lambda>s1.
           rbind (Server_Shutdown ends s1) (\<lambda>s2.
             if \<not> set_handler False then Inl AssertFail
             else rbind (Server_destroy ends s2) (\<lambda>s3.
                    Inr (ms, calls, s3, start @ [Atexit, Commands, CleanupNetworking, SetConsoleCtrlHandler False,
                      SetDllDirectory None, DestroyObjects] @ server_OnExit)))))))"

definition client_tmain ::
  "(bool \<Rightarrow> bool) \<Rightarrow> (wstring \<Rightarrow> wstring) \<Rightarrow> (nat \<Rightarrow> nat) \<Rightarrow> 'd \<Rightarrow> (nat \<Rightarrow> bool) \<Rightarrow> (wstring \<Rightarrow> real option)
     \<Rightarrow> u32 \<Rightarrow> wstring \<Rightarrow> wstring list \<Rightarrow> (console_msg list \<times> 'd client_state \<times> sys_call list) res" where
  "client_tmain set_handler fullPath newClient d ok stof nClients rest input =
     (let start = [SetDllDirectory (Some (fullPath ALGORITHMPATH)), InitializeNetworking, SetConsoleCtrlHandler True] in
      if \<not> set_handler True then Inl AssertFail
      else rbind (getts_s rest (replicate buffer_size NUL)) (\<lambda>buffer.
           rbind (console_loop input buffer (client_commands ok stof) (Client_init newClient d nClients (lit_KB 64)))
             (\<lambda>(ms, cl).
             if \<not> set_handler False then Inl AssertFail
             else Inr (ms, Client_destroy cl, start @ [Atexit, Commands, CleanupNetworking, SetConsoleCtrlHandler False,
                    SetDllDirectory None, DestroyObjects] @ client_OnExit))))"

text \<open>When the console handler is installed and removed, \<open>_tmain\<close> is the console loop with the
  life of the server (of the client) around it.\<close>

lemma server_tmain_main:
  assumes "set_handler True" and "set_handler False"
  shows "rbind (server_tmain set_handler fullPath run ends allowed input server) (\<lambda>(ms, calls, s, sys). Inr (ms, calls, s))
    = server_main run ends allowed input server"
  using assms by (simp add: server_tmain_def server_main_def rbind_assoc Let_def case_prod_unfold)

lemma client_tmain_main:
  assumes "set_handler True" and "set_handler False"
  shows "rbind (client_tmain set_handler fullPath newClient d ok stof nClients rest input) (\<lambda>(ms, cl, sys). Inr (ms, cl))
    = client_main newClient d ok stof nClients rest input"
  using assms by (simp add: client_tmain_def client_main_def rbind_assoc Let_def case_prod_unfold)

text \<open>A program that ends has cleaned up the network twice, once at the end of \<open>_tmain\<close> and once
  in the function registered with \<open>atexit\<close>; its server or clients are destroyed in between.\<close>

lemma tmain_cleans_up_twice:
  "server_tmain set_handler fullPath run ends allowed input server = Inr (ms, calls, s, sys) \<Longrightarrow>
    filter (\<lambda>c. c = CleanupNetworking \<or> c = DestroyObjects) sys = [CleanupNetworking, DestroyObjects, CleanupNetworking]"
  "client_tmain set_handler fullPath newClient d ok stof nClients rest input = Inr (ms, cl, sys) \<Longrightarrow>
    filter (\<lambda>c. c = CleanupNetworking \<or> c = DestroyObjects) sys = [CleanupNetworking, DestroyObjects, CleanupNetworking]"
  by (auto simp: server_tmain_def client_tmain_def server_OnExit_def client_OnExit_def rbind_eq_Inr split: if_splits)

section \<open>The data generator\<close>

text \<open>\<open>rnd seed i\<close> is what the \<open>i\<close>-th \<open>rand()\<close> after \<open>srand(seed)\<close> returns.  The result is the
  directory that is made current, and the name and contents of the file written there.\<close>

definition DataGen_tmain :: "(u32 \<Rightarrow> nat \<Rightarrow> nat) \<Rightarrow> u64 \<Rightarrow> wstring \<times> wstring \<times> byte list" where
  "DataGen_tmain rnd time =
     (tx ''..'' @ of_char (CHR 0x5C) # tx ''Server'', DATANAME, GenerateData (rnd (ucast time)) (unat (lit_MB 25)))"

text \<open>The file has 25 MB, and two runs in the same second write the same.\<close>

lemma length_GenerateData: "length (GenerateData rnd n) = 4 * (n div 4)"
proof -
  have "length (fold (\<lambda>i out. out @ word_bytes (gen_value (rnd i))) xs out) = length out + 4 * length xs" for xs out
    by (induction xs arbitrary: out) simp_all
  then show ?thesis by (simp add: GenerateData_def)
qed

lemma DataGen_file:
  "length (snd (snd (DataGen_tmain rnd time))) = 26214400"
  "(ucast time :: u32) = ucast time' \<Longrightarrow> DataGen_tmain rnd time = DataGen_tmain rnd time'"
proof -
  have "unat (lit_MB 25) = 26214400" by (simp add: lit_MB_def)
  then show "length (snd (snd (DataGen_tmain rnd time))) = 26214400"
    by (simp add: DataGen_tmain_def length_GenerateData)
  show "(ucast time :: u32) = ucast time' \<Longrightarrow> DataGen_tmain rnd time = DataGen_tmain rnd time'"
    by (simp add: DataGen_tmain_def)
qed

end
