(* ===== verification/PoolMove.thy ===== *)
theory PoolMove
  imports MemPool
begin

text \<open>
  Moving a memory pool (\<open>Common/CNLIB/MemPool.h\<close>), its accessors and the critical section of
  \<open>MemPoolSync\<close>.  The move operations take the members over and then zero the moved-from pool
  bytewise; a node has no destructor, so the buffers of the pool that is assigned to are given
  up without being freed.
\<close>

section \<open>Accessors\<close>

definition MemPool_ElementSizeMax :: "mem_pool \<Rightarrow> nat" where
  "MemPool_ElementSizeMax p = mp_elementSizeMax p"

definition MemPool_Capacity :: "mem_pool \<Rightarrow> nat" where
  "MemPool_Capacity p = mp_capacity p"

definition Node_FreeNode :: "mp_node \<Rightarrow> (nat \<times> nat option) list" where
  "Node_FreeNode node = (if n_data node \<noteq> 0 then [(n_data node, n_bufferSize node)] else [])"

definition Node_InNode :: "nat \<Rightarrow> nat \<Rightarrow> mp_node \<Rightarrow> bool" where
  "Node_InNode ptr elementSizeMax node = ElementInNode node (ptr + elementSizeMax)"

lemma MemPool_destroy_FreeNode:
  "MemPool_destroy p = (if mp_elementSizeMax p \<noteq> 0 then concat (map Node_FreeNode (mp_nodes p)) else [])"
proof -
  have "map (\<lambda>n. (n_data n, n_bufferSize n)) (filter (\<lambda>n. n_data n \<noteq> 0) ns) = concat (map Node_FreeNode ns)" for ns
    by (induction ns) (simp_all add: Node_FreeNode_def)
  then show ?thesis by (simp add: MemPool_destroy_def)
qed

lemma MemPool_InPool_InNode:
  "MemPool_InPool ptr p \<longleftrightarrow> list_ex (Node_InNode ptr (mp_elementSizeMax p)) (mp_nodes p)"
  by (simp add: MemPool_InPool_def Node_InNode_def [abs_def])

section \<open>Moves\<close>

definition zeroed :: "mem_pool \<Rightarrow> mem_pool" where
  "zeroed p = p\<lparr>mp_avail := 0, mp_nodes := [], mp_nodesReserved := 0, mp_elementSizeMax := 0, mp_capacity := 0\<rparr>"

definition MemPool_move :: "mem_pool \<Rightarrow> mem_pool \<times> mem_pool" where
  "MemPool_move memPool = (memPool, zeroed memPool)"

definition MemPool_move_assign :: "bool \<Rightarrow> mem_pool \<Rightarrow> mem_pool \<Rightarrow> mem_pool \<times> mem_pool" where
  "MemPool_move_assign self this memPool =
     (if \<not> self then (memPool, zeroed memPool) else (this, memPool))"

text \<open>The critical section: not initialized, free, or held by a thread \<open>n\<close> times.\<close>

datatype crit_sect = NoSect | Free | Held nat nat

record sync_pool =
  sp_pool :: mem_pool
  sp_sect :: crit_sect

definition MemPoolSync_init :: "(nat \<Rightarrow> nat) \<Rightarrow> nat \<Rightarrow> nat \<Rightarrow> nat \<Rightarrow> nat \<Rightarrow> sync_pool res" where
  "MemPoolSync_init mem base elementSize initialCapacity alignment =
     rbind (MemPool_init mem base elementSize initialCapacity alignment) (\<lambda>p.
       Inr \<lparr>sp_pool = p, sp_sect = Free\<rparr>)"

text \<open>\<open>sect\<close> is copied; what a copied critical section does is not specified by its interface, so
  the copy is kept as the value it was and the source is left without one.\<close>

definition MemPoolSync_move :: "sync_pool \<Rightarrow> sync_pool \<times> sync_pool" where
  "MemPoolSync_move memPool =
     (let (p, q) = MemPool_move (sp_pool memPool)
      in (\<lparr>sp_pool = p, sp_sect = sp_sect memPool\<rparr>, \<lparr>sp_pool = q, sp_sect = NoSect\<rparr>))"

definition MemPoolSync_move_assign :: "bool \<Rightarrow> sync_pool \<Rightarrow> sync_pool \<Rightarrow> sync_pool \<times> sync_pool" where
  "MemPoolSync_move_assign self this memPool =
     (if \<not> self
      then (let (p, q) = MemPool_move_assign False (sp_pool this) (sp_pool memPool)
            in (\<lparr>sp_pool = p, sp_sect = sp_sect memPool\<rparr>, \<lparr>sp_pool = q, sp_sect = NoSect\<rparr>))
      else (this, memPool))"

definition MemPoolSync_destroy :: "sync_pool \<Rightarrow> crit_sect \<times> (nat \<times> nat option) list" where
  "MemPoolSync_destroy p =
     (if mp_elementSizeMax (sp_pool p) \<noteq> 0 then NoSect else sp_sect p, MemPool_destroy (sp_pool p))"

text \<open>\<open>lock\<close> and \<open>unlock\<close> by thread \<open>t\<close>; \<open>lock\<close> waits while another thread is inside.\<close>

definition MemPoolSync_lock :: "nat \<Rightarrow> sync_pool \<Rightarrow> sync_pool res" where
  "MemPoolSync_lock t p =
     (case sp_sect p of
        NoSect \<Rightarrow> Inl NullDeref
      | Free \<Rightarrow> Inr (p\<lparr>sp_sect := Held t 1\<rparr>)
      | Held u n \<Rightarrow> if u = t then Inr (p\<lparr>sp_sect := Held t (n + 1)\<rparr>) else Inl NoReturn)"

definition MemPoolSync_unlock :: "nat \<Rightarrow> sync_pool \<Rightarrow> sync_pool res" where
  "MemPoolSync_unlock t p =
     (case sp_sect p of
        Held u n \<Rightarrow> if u = t then Inr (p\<lparr>sp_sect := (if n \<le> 1 then Free else Held t (n - 1))\<rparr>) else Inl NullDeref
      | _ \<Rightarrow> Inl NullDeref)"

section \<open>What a move keeps and what it loses\<close>

lemma zeroed_simps [simp]:
  "mp_elementSizeMax (zeroed p) = 0" "mp_nodes (zeroed p) = []" "mp_avail (zeroed p) = 0"
  by (simp_all add: zeroed_def)

lemma destroy_zeroed [simp]: "MemPool_destroy (zeroed p) = []"
  by (simp add: MemPool_destroy_def)

text \<open>After a move the blocks that are out stay where they are, the new pool frees what the old
  one would have, and the old one frees nothing.\<close>

lemma MemPool_move_spec:
  assumes "MemPool_move p = (q, r)"
  shows "pool_live q = pool_live p" and "MemPool_destroy q = MemPool_destroy p" and "MemPool_destroy r = []"
    and "pool_inv p \<Longrightarrow> pool_inv q"
  using assms by (auto simp: MemPool_move_def)

text \<open>After an assignment by move, neither pool frees the buffers the target had.\<close>

lemma MemPool_move_assign_leaks:
  assumes "MemPool_move_assign False this p = (q, r)"
  shows "MemPool_destroy q @ MemPool_destroy r = MemPool_destroy p"
  using assms by (auto simp: MemPool_move_assign_def)

lemma lock_unlock: "MemPoolSync_lock t p = Inr q \<Longrightarrow> sp_sect p = Free \<or> (\<exists>n > 0. sp_sect p = Held t n) \<Longrightarrow>
  MemPoolSync_unlock t q = Inr p"
  by (auto simp: MemPoolSync_lock_def MemPoolSync_unlock_def split: crit_sect.splits if_splits)

lemma lock_excludes: "MemPoolSync_lock t p = Inr q \<Longrightarrow> u \<noteq> t \<Longrightarrow> MemPoolSync_lock u q = Inl NoReturn"
  by (auto simp: MemPoolSync_lock_def split: crit_sect.splits if_splits)

lemma moved_from_lock_faults: "MemPoolSync_move p = (q, r) \<Longrightarrow> MemPoolSync_lock t r = Inl NullDeref"
  by (auto simp: MemPoolSync_move_def MemPoolSync_lock_def split: prod.splits)

end
