(* ===== verification/UnitTests.thy ===== *)
theory UnitTests
  imports WorkMap Performance
begin

text \<open>
  The unit tests of the repository (\<open>Server_UnitTests\<close>), run on the model.  A test is true if
  none of its assertions fails.  The client is any value, and the tests of
  \<open>StandardDeviation\<close> are computed exactly: their numbers are small integers.
\<close>

section \<open>ClientWorkMap\<close>

definition test_Add_Valid :: "client \<Rightarrow> bool" where
  "test_Add_Valid clint = (let map = ClientWorkMap_Add clint 0 100 1 ClientWorkMap_init in \<not> ClientWorkMap_Empty map)"

definition test_Remove_Valid :: "client \<Rightarrow> bool" where
  "test_Remove_Valid clint =
     (let map = ClientWorkMap_Add clint 0 100 1 ClientWorkMap_init;
          (res, map) = ClientWorkMap_Remove clint map
      in res \<and> ClientWorkMap_Empty map)"

definition test_Remove_Invalid :: "client \<Rightarrow> bool" where
  "test_Remove_Invalid clint =
     (let (res, map) = ClientWorkMap_Remove clint ClientWorkMap_init in \<not> res \<and> ClientWorkMap_Empty map)"

text \<open>\<open>clintWorkInfo\<close> is default constructed and overwritten if there is work.\<close>

definition test_GetClientWork_Valid :: "client \<Rightarrow> bool" where
  "test_GetClientWork_Valid clint =
     (let map = ClientWorkMap_Add clint 0 100 1 ClientWorkMap_init;
          (w, map) = ClientWorkMap_GetClientWork clint map;
          clintWorkInfo = (case w of Some wi \<Rightarrow> wi | None \<Rightarrow> WorkInfo_default)
      in wi_cursor clintWorkInfo = 0 \<and> wi_size clintWorkInfo = 100 \<and> wi_curIndex clintWorkInfo = 1)"

section \<open>StandardDeviation\<close>

definition test_OneResult :: "(real \<Rightarrow> real) \<Rightarrow> (real \<Rightarrow> real) \<Rightarrow> bool" where
  "test_OneResult r32 r64 =
     (let (res, std) = StandardDeviation_Calculate r32 r64 100 (StandardDeviation_init 1)
      in cd_mean res = 100 \<and> cd_sd res = 0)"

definition test_TwoResults :: "(real \<Rightarrow> real) \<Rightarrow> (real \<Rightarrow> real) \<Rightarrow> bool" where
  "test_TwoResults r32 r64 =
     (let (_, std) = StandardDeviation_Calculate r32 r64 100 (StandardDeviation_init 2);
          (res, std) = StandardDeviation_Calculate r32 r64 150 std
      in cd_mean res = 125 \<and> cd_sd res = 25)"

definition RUN_ALL_TESTS :: "client \<Rightarrow> bool" where
  "RUN_ALL_TESTS clint \<longleftrightarrow> test_Add_Valid clint \<and> test_Remove_Valid clint \<and> test_Remove_Invalid clint
     \<and> test_GetClientWork_Valid clint \<and> test_OneResult id id \<and> test_TwoResults id id"

lemma two_results_exact:
  "test_TwoResults id id" "test_OneResult id id"
proof -
  have sq: "sqrt 625 = 25" by (rule real_sqrt_unique) simp_all
  show "test_TwoResults id id" "test_OneResult id id"
    by (simp_all add: test_TwoResults_def test_OneResult_def StandardDeviation_Calculate_def
        StandardDeviation_init_def absorb_batch_def diff_loop_def sq_loop_def Let_def sq)
qed

text \<open>The model passes the repository's own tests, for every client.\<close>

lemma unit_tests_pass: "RUN_ALL_TESTS clint"
  using two_results_exact
  by (simp add: RUN_ALL_TESTS_def test_Add_Valid_def test_Remove_Valid_def test_Remove_Invalid_def
      test_GetClientWork_Valid_def ClientWorkMap_defs WorkInfo_def erase_entry_def)

end
