(* ===== verification/StreamApi.thy ===== *)
theory StreamApi
  imports Codec
begin

text \<open>
  What the program calls on a message: the members of \<open>MsgStreamWriter\<close> and \<open>MsgStreamReader\<close>
  (\<open>Common/CNLIB/MsgStream.h\<close>) that pass a value to the helper of its type and return the
  stream, the move constructors, and the sending information a writer carries.

  The members are templates over the type of the value: they take the helper of that type, a
  function of \<open>Codec\<close>, as their first argument.  A buffer of \<open>BuffSendInfo\<close> is its address; the
  bytes there are the memory of the stream.
\<close>

section \<open>The writer\<close>

datatype CompressionType = BESTFIT | SETCOMPRESSION | NOCOMPRESSION

record BuffSendInfo =
  bs_buffer :: nat
  bs_compType :: CompressionType
  bs_maxCompSize :: u32
  bs_alloc :: "nat option"

record writer =
  wr_stream :: stream
  wr_buffSendInfo :: BuffSendInfo

definition writer_construct :: "(nat \<Rightarrow> byte list) \<Rightarrow> BuffSendInfo \<Rightarrow> nat \<Rightarrow> u16 \<Rightarrow> u16 \<Rightarrow> writer" where
  "writer_construct memory info capacity type msg =
     \<lparr>wr_stream = MsgStreamWriter_init (memory (bs_buffer info)) capacity type msg, wr_buffSendInfo = info\<rparr>"

text \<open>The move constructor zeroes the stream of its argument, not the sending information.\<close>

definition writer_move :: "nat \<Rightarrow> writer \<Rightarrow> writer \<times> writer" where
  "writer_move junk w =
     (\<lparr>wr_stream = fst (MsgStream_move junk (wr_stream w)), wr_buffSendInfo = wr_buffSendInfo w\<rparr>,
      w\<lparr>wr_stream := snd (MsgStream_move junk (wr_stream w))\<rparr>)"

text \<open>\<open>operator const char*\<close> and \<open>GetData\<close> give the pointer to the whole message.\<close>

definition writer_pointer :: "writer \<Rightarrow> byte list" where
  "writer_pointer w = st_mem (wr_stream w)"

definition writer_GetData :: "writer \<Rightarrow> byte list" where
  "writer_GetData w = st_mem (wr_stream w)"

definition GetBuffSendInfo :: "writer \<Rightarrow> BuffSendInfo" where
  "GetBuffSendInfo w = wr_buffSendInfo w"

definition writer_Write :: "('a \<Rightarrow> stream \<Rightarrow> stream res) \<Rightarrow> 'a \<Rightarrow> writer \<Rightarrow> writer res" where
  "writer_Write helper t w = rbind (helper t (wr_stream w)) (\<lambda>s. Inr (w\<lparr>wr_stream := s\<rparr>))"

text \<open>\<open>operator<<\<close>: the result is the writer itself, for the next \<open><<\<close>.\<close>

definition put_to :: "('a \<Rightarrow> stream \<Rightarrow> stream res) \<Rightarrow> 'a \<Rightarrow> writer \<Rightarrow> writer res" where
  "put_to helper t w = rbind (writer_Write helper t w) (\<lambda>w1. Inr w1)"

definition writer_WriteArray :: "'a::len word list \<Rightarrow> u32 \<Rightarrow> writer \<Rightarrow> writer res" where
  "writer_WriteArray t count w = rbind (write_array t count (wr_stream w)) (\<lambda>s. Inr (w\<lparr>wr_stream := s\<rparr>))"

definition writer_WriteEnd :: "byte list \<Rightarrow> writer \<Rightarrow> writer res" where
  "writer_WriteEnd t w = rbind (write_end t (wr_stream w)) (\<lambda>s. Inr (w\<lparr>wr_stream := s\<rparr>))"

text \<open>\<open>SizeType<Ts...>()\<close>: the sum of the sizes of the types, folded from the right.\<close>

fun SizeType_of_types :: "nat list \<Rightarrow> nat" where
  "SizeType_of_types [] = 0"
| "SizeType_of_types [n] = n"
| "SizeType_of_types (n # ns) = n + SizeType_of_types ns"

section \<open>The reader\<close>

definition reader_move :: "nat \<Rightarrow> stream \<Rightarrow> stream \<times> stream" where
  "reader_move junk s = MsgStream_move junk s"

definition reader_pointer :: "stream \<Rightarrow> byte list" where
  "reader_pointer s = st_mem s"

definition reader_Read :: "(stream \<Rightarrow> ('a \<times> stream) res) \<Rightarrow> stream \<Rightarrow> ('a \<times> stream) res" where
  "reader_Read helper s = helper s"

text \<open>\<open>Read(T& t)\<close> assigns to its argument, so the old value \<open>t\<close> is lost.\<close>

definition reader_ReadTo :: "(stream \<Rightarrow> ('a \<times> stream) res) \<Rightarrow> 'a \<Rightarrow> stream \<Rightarrow> ('a \<times> stream) res" where
  "reader_ReadTo helper t s = rbind (helper s) (\<lambda>(v, s1). Inr (v, s1))"

definition get_from :: "(stream \<Rightarrow> ('a \<times> stream) res) \<Rightarrow> 'a \<Rightarrow> stream \<Rightarrow> ('a \<times> stream) res" where
  "get_from helper dest s = reader_ReadTo helper dest s"

text \<open>\<open>Read(size_t count)\<close> passes its count on as a \<open>UINT\<close>.\<close>

definition reader_ReadArray :: "nat \<Rightarrow> u64 \<Rightarrow> stream \<Rightarrow> (nat \<times> stream) res" where
  "reader_ReadArray sizeof_T count s = read_array sizeof_T (ucast count) s"

definition reader_ReadEnd :: "stream \<Rightarrow> nat \<times> stream" where
  "reader_ReadEnd s = read_end s"

section \<open>A message written and read with the operators\<close>

lemma put_to_eq: "put_to helper t w = rbind (helper t (wr_stream w)) (\<lambda>s. Inr (w\<lparr>wr_stream := s\<rparr>))"
  by (cases "helper t (wr_stream w)") (simp_all add: put_to_def writer_Write_def)

lemma get_from_eq: "get_from helper dest s = helper s"
  by (cases "helper s") (auto simp: get_from_def reader_ReadTo_def)

lemma SizeType_of_types_eq: "SizeType_of_types ns = sum_list ns"
  by (induction ns rule: SizeType_of_types.induct) simp_all

context codec_pair
begin

text \<open>\<open>w << a << b\<close> into a buffer of the size \<open>SizeType(a, b)\<close> fills it, and \<open>r >> a >> b\<close> gives
  both back and ends at the end of the message.\<close>

lemma operators_round_trip:
  assumes ok: "oka a" "okb b" and n: "n = size_types [za a, zb b]"
    and buf: "length (memory (bs_buffer info)) = n + MSG_OFFSET"
  shows "\<exists>w1 w2 r1 r2. put_to wa a (writer_construct memory info n type msg) = Inr w1
    \<and> put_to wb b w1 = Inr w2 \<and> GetBuffSendInfo w2 = info
    \<and> MsgStreamWriter_GetDataSize (wr_stream w2) = n
    \<and> get_from ra x (MsgStreamReader_init (writer_GetData w2) n) = Inr (a, r1)
    \<and> get_from rb y r1 = Inr (b, r2) \<and> MsgStream_End r2"
proof -
  have len: "n = length (enca a @ encb b)"
    using fst.sz_spec [OF ok(1)] snd.sz_spec [OF ok(2)] by (simp add: n size_types_def)
  let ?s0 = "MsgStreamWriter_init (memory (bs_buffer info)) n type msg"
  obtain s where s: "stream_put (enca a @ encb b) ?s0 = Inr s"
    "MsgStreamWriter_GetSize s = n + MSG_OFFSET" "length (st_mem s) = n + MSG_OFFSET"
    "stands (enca a @ encb b) (MsgStreamReader_init (st_mem s) n)"
    by (rule full_message [OF buf len, of type msg])
  obtain s1 where s1: "stream_put (enca a) ?s0 = Inr s1" "stream_put (encb b) s1 = Inr s"
    using s(1) unfolding stream_put_append by (rule rbind_InrE)
  let ?r = "MsgStreamReader_init (st_mem s) n"
  have "stands (enca a) ?r" "stands (encb b) (skip (length (enca a)) ?r)"
    using s(4) by (simp_all add: stands_append)
  note rd = fst.rd_spec [OF ok(1) this(1)] snd.rd_spec [OF ok(2) this(2)]
  have "MsgStream_End (skip (length (encb b)) (skip (length (enca a)) ?r))"
    using reader_mem [OF s(3)] s(3) len by (simp add: MsgStream_End_def)
  moreover have "MsgStreamWriter_GetDataSize s = n"
    using s(2) by (simp add: MsgStreamWriter_GetDataSize_def MsgStreamWriter_GetSize_def)
  ultimately show ?thesis
    using rd s1 by (simp add: put_to_eq get_from_eq writer_construct_def writer_GetData_def
        GetBuffSendInfo_def fst.wr_spec [OF ok(1)] snd.wr_spec [OF ok(2)])
qed

end

section \<open>Moving a writer\<close>

text \<open>The new writer goes on where the old one stopped; the old one can write nothing any more,
  yet it still names the same buffer to be sent.\<close>

lemma move_then_write:
  "writer_Write write_word t (fst (writer_move junk w))
    = rbind (writer_Write write_word t w) (\<lambda>w1. Inr (fst (writer_move junk w1)))"
  by (simp add: writer_Write_def writer_move_def MsgStream_move_def write_word_def stream_put_def)

lemma moved_from_writer:
  fixes t :: "'a::len word"
  assumes "8 \<le> LENGTH('a)"
  shows "writer_Write write_word t (snd (writer_move junk w)) = Inl OutOfBounds"
    and "GetBuffSendInfo (snd (writer_move junk w)) = GetBuffSendInfo w"
proof -
  have "0 < sizeof_word (0 :: 'a word)" using assms by (simp add: sizeof_word_def div_greater_zero_iff)
  then show "writer_Write write_word t (snd (writer_move junk w)) = Inl OutOfBounds"
    by (simp add: writer_Write_def writer_move_def MsgStream_move_def write_word_def stream_put_def)
  show "GetBuffSendInfo (snd (writer_move junk w)) = GetBuffSendInfo w"
    by (simp add: GetBuffSendInfo_def writer_move_def)
qed

text \<open>The count of \<open>Read(count)\<close> is cut to 32 bits on its way to the helper: a count of \<open>2^32\<close>
  reads nothing and moves nowhere.\<close>

lemma read_array_count_cut:
  "st_pos s \<le> length (st_mem s) \<Longrightarrow> reader_ReadArray n (2 ^ 32) s = Inr (st_pos s, s)"
proof -
  assume "st_pos s \<le> length (st_mem s)"
  moreover have "(ucast (2 ^ 32 :: u64) :: u32) = 0" by simp
  then have "reader_ReadArray n (2 ^ 32) s = read_array n 0 s" unfolding reader_ReadArray_def by (rule arg_cong)
  ultimately show ?thesis by (simp add: read_array_def array_bytes_def)
qed

text \<open>Two integers with the operators, on the model's codecs.\<close>

lemma two_words_round_trip:
  assumes "length (memory (bs_buffer info)) = SizeType_of_types [4, 4] + MSG_OFFSET"
  shows "\<exists>w1 w2 r1 r2. put_to write_word (a :: u32) (writer_construct memory info 8 type msg) = Inr w1
    \<and> put_to write_word (b :: u32) w1 = Inr w2
    \<and> get_from read_word 0 (MsgStreamReader_init (writer_pointer w2) 8) = Inr (a, r1)
    \<and> get_from read_word 0 r1 = Inr (b, r2) \<and> MsgStream_End r2"
proof -
  have n: "8 = size_types [sizeof_word a, sizeof_word b]" by (simp add: size_types_def sizeof_word_def)
  have "length (memory (bs_buffer info)) = 8 + MSG_OFFSET" using assms by simp
  from c3232.operators_round_trip [where memory = memory and info = info and x = 0 and y = 0, OF TrueI TrueI n this]
  show ?thesis unfolding writer_pointer_def writer_GetData_def by blast
qed

end
