(* ===== verification/NodePool.thy ===== *)
theory NodePool
  imports Base
begin

text \<open>
  The other memory management of the lock-free queue: \<open>freelist_stack\<close>
  (\<open>Common/boost/lockfree/detail/freelist.hpp\<close>), whose nodes come from an allocator one by one,
  and the tagged pointers that link them (\<open>tagged_ptr_ptrcompression.hpp\<close>).  The queues of the
  server choose the free list of fixed size (\<open>LockfreeQueue\<close>); this is what the library gives a
  queue without \<open>fixed_sized<true>\<close>.

  A tagged pointer is one 64-bit word: 48 bits of address, 16 bits of tag.  The memory is a map
  from addresses to words; the link of a free node is the first word of the node, where an
  object in use has its own data, whatever \<open>image\<close> says that is.  \<open>Alloc::allocate\<close> is the
  parameter \<open>heap\<close>: the address its \<open>k\<close>-th call returns.  Operations run without interference.
\<close>

unbundle bit_operations_syntax

section \<open>Tagged pointers\<close>

type_synonym tagged_ptr = u64

definition ptr_mask :: u64 where
  "ptr_mask = 0xffffffffffff"

definition extract_ptr :: "tagged_ptr \<Rightarrow> u64" where
  "extract_ptr i = i AND ptr_mask"

text \<open>The union with four 16-bit words: \<open>tag[3]\<close> is the uppermost of a little-endian machine.\<close>

definition extract_tag :: "tagged_ptr \<Rightarrow> u16" where
  "extract_tag i = ucast (drop_bit 48 i)"

definition pack_ptr :: "u64 \<Rightarrow> u16 \<Rightarrow> tagged_ptr" where
  "pack_ptr ptr tag = (ptr AND ptr_mask) OR push_bit 48 (ucast tag)"

definition tagged_ptr_init :: "u64 \<Rightarrow> u16 \<Rightarrow> tagged_ptr" where
  "tagged_ptr_init p t = pack_ptr p t"

definition tp_set :: "u64 \<Rightarrow> u16 \<Rightarrow> tagged_ptr \<Rightarrow> tagged_ptr" where
  "tp_set p t h = pack_ptr p t"

definition tp_eq :: "tagged_ptr \<Rightarrow> tagged_ptr \<Rightarrow> bool" where
  "tp_eq a b \<longleftrightarrow> a = b"

definition tp_neq :: "tagged_ptr \<Rightarrow> tagged_ptr \<Rightarrow> bool" where
  "tp_neq a b \<longleftrightarrow> \<not> tp_eq a b"

definition tp_get_ptr :: "tagged_ptr \<Rightarrow> u64" where
  "tp_get_ptr h = extract_ptr h"

definition tp_get_tag :: "tagged_ptr \<Rightarrow> u16" where
  "tp_get_tag h = extract_tag h"

definition tp_set_ptr :: "u64 \<Rightarrow> tagged_ptr \<Rightarrow> tagged_ptr" where
  "tp_set_ptr p h = (let tag = tp_get_tag h in pack_ptr p tag)"

text \<open>The sum is computed in 32 bits and masked.\<close>

definition tp_get_next_tag :: "tagged_ptr \<Rightarrow> u16" where
  "tp_get_next_tag h = ucast (((ucast (tp_get_tag h) :: u32) + 1) AND 0xffff)"

definition tp_set_tag :: "u16 \<Rightarrow> tagged_ptr \<Rightarrow> tagged_ptr" where
  "tp_set_tag t h = (let p = tp_get_ptr h in pack_ptr p t)"

text \<open>\<open>operator*\<close> and \<open>operator->\<close>: the object at the address, if there is an address.\<close>

definition tp_deref :: "(u64 \<Rightarrow> 'a) \<Rightarrow> tagged_ptr \<Rightarrow> 'a res" where
  "tp_deref memory h = (if tp_get_ptr h = 0 then Inl NullDeref else Inr (memory (tp_get_ptr h)))"

definition tp_arrow :: "(u64 \<Rightarrow> 'a) \<Rightarrow> tagged_ptr \<Rightarrow> 'a res" where
  "tp_arrow memory h = (if tp_get_ptr h = 0 then Inl NullDeref else Inr (memory (tp_get_ptr h)))"

definition tp_valid :: "tagged_ptr \<Rightarrow> bool" where
  "tp_valid h \<longleftrightarrow> tp_get_ptr h \<noteq> 0"

section \<open>The free list\<close>

record node_pool =
  np_word :: "u64 \<Rightarrow> tagged_ptr"
  np_pool :: tagged_ptr
  np_allocs :: nat
  np_freed :: "u64 list"

text \<open>\<open>Alloc::allocate(1)\<close> and \<open>Alloc::deallocate(p, 1)\<close>.\<close>

definition np_new :: "(nat \<Rightarrow> u64) \<Rightarrow> node_pool \<Rightarrow> u64 \<times> node_pool" where
  "np_new heap s = (heap (np_allocs s), s\<lparr>np_allocs := np_allocs s + 1\<rparr>)"

definition np_delete :: "u64 \<Rightarrow> node_pool \<Rightarrow> node_pool" where
  "np_delete p s = s\<lparr>np_freed := np_freed s @ [p]\<rparr>"

definition np_deallocate_impl :: "u64 \<Rightarrow> node_pool \<Rightarrow> node_pool res" where
  "np_deallocate_impl n s =
     (let old_pool = np_pool s; new_pool = tagged_ptr_init n (tp_get_tag old_pool) in
      rbind (tp_arrow (np_word s) new_pool) (\<lambda>next.
        Inr (s\<lparr>np_word := (np_word s)(tp_get_ptr new_pool := tp_set_ptr (tp_get_ptr old_pool) next),
               np_pool := new_pool\<rparr>)))"

definition np_deallocate_impl_unsafe :: "u64 \<Rightarrow> node_pool \<Rightarrow> node_pool res" where
  "np_deallocate_impl_unsafe n s =
     (let old_pool = np_pool s; new_pool = tagged_ptr_init n (tp_get_tag old_pool) in
      rbind (tp_arrow (np_word s) new_pool) (\<lambda>next.
        let word = (np_word s)(tp_get_ptr new_pool := tp_set_ptr (tp_get_ptr old_pool) next)
        in Inr (s\<lparr>np_word := word, np_pool := new_pool\<rparr>)))"

definition np_deallocate :: "bool \<Rightarrow> u64 \<Rightarrow> node_pool \<Rightarrow> node_pool res" where
  "np_deallocate ThreadSafe n s =
     (if ThreadSafe then np_deallocate_impl n s else np_deallocate_impl_unsafe n s)"

text \<open>The result 0 is the null pointer.\<close>

definition np_allocate_impl :: "(nat \<Rightarrow> u64) \<Rightarrow> bool \<Rightarrow> node_pool \<Rightarrow> (u64 \<times> node_pool) res" where
  "np_allocate_impl heap Bounded s =
     (let old_pool = np_pool s in
      if tp_get_ptr old_pool = 0 then (if \<not> Bounded then Inr (np_new heap s) else Inr (0, s))
      else rbind (tp_arrow (np_word s) old_pool) (\<lambda>next.
        let new_pool_ptr = tp_get_ptr next;
            new_pool = tagged_ptr_init new_pool_ptr (tp_get_next_tag old_pool)
        in Inr (tp_get_ptr old_pool, s\<lparr>np_pool := new_pool\<rparr>)))"

definition np_allocate_impl_unsafe :: "(nat \<Rightarrow> u64) \<Rightarrow> bool \<Rightarrow> node_pool \<Rightarrow> (u64 \<times> node_pool) res" where
  "np_allocate_impl_unsafe heap Bounded s =
     (let old_pool = np_pool s in
      if tp_get_ptr old_pool = 0 then (if \<not> Bounded then Inr (np_new heap s) else Inr (0, s))
      else rbind (tp_arrow (np_word s) old_pool) (\<lambda>next.
        let new_pool_ptr = tp_get_ptr next;
            new_pool = tagged_ptr_init new_pool_ptr (tp_get_next_tag old_pool)
        in Inr (tp_get_ptr old_pool, s\<lparr>np_pool := new_pool\<rparr>)))"

definition np_allocate :: "(nat \<Rightarrow> u64) \<Rightarrow> bool \<Rightarrow> bool \<Rightarrow> node_pool \<Rightarrow> (u64 \<times> node_pool) res" where
  "np_allocate heap ThreadSafe Bounded s =
     (if ThreadSafe then np_allocate_impl heap Bounded s else np_allocate_impl_unsafe heap Bounded s)"

text \<open>The constructor of the pool and \<open>reserve\<close>; \<open>memory\<close> is what the memory holds before.\<close>

fun np_reserve :: "(nat \<Rightarrow> u64) \<Rightarrow> bool \<Rightarrow> nat \<Rightarrow> node_pool \<Rightarrow> node_pool res" where
  "np_reserve heap ThreadSafe 0 s = Inr s"
| "np_reserve heap ThreadSafe (Suc count) s =
     (case np_new heap s of (node, s1) \<Rightarrow>
        rbind (np_deallocate ThreadSafe node s1) (np_reserve heap ThreadSafe count))"

fun np_init_loop :: "(nat \<Rightarrow> u64) \<Rightarrow> nat \<Rightarrow> node_pool \<Rightarrow> node_pool res" where
  "np_init_loop heap 0 s = Inr s"
| "np_init_loop heap (Suc n) s =
     (case np_new heap s of (node, s1) \<Rightarrow> rbind (np_deallocate False node s1) (np_init_loop heap n))"

definition freelist_stack_init :: "(u64 \<Rightarrow> tagged_ptr) \<Rightarrow> (nat \<Rightarrow> u64) \<Rightarrow> nat \<Rightarrow> node_pool res" where
  "freelist_stack_init memory heap n =
     np_init_loop heap n
       \<lparr>np_word = memory, np_pool = tagged_ptr_init 0 0, np_allocs = 0, np_freed = []\<rparr>"

text \<open>\<open>construct\<close>: the constructor of \<open>T\<close> writes over the first word of the node.\<close>

definition place_new :: "(tagged_ptr \<Rightarrow> tagged_ptr) \<Rightarrow> u64 \<Rightarrow> node_pool \<Rightarrow> node_pool" where
  "place_new ctor node s = s\<lparr>np_word := (np_word s)(node := ctor (np_word s node))\<rparr>"

definition np_construct ::
  "(nat \<Rightarrow> u64) \<Rightarrow> bool \<Rightarrow> bool \<Rightarrow> (tagged_ptr \<Rightarrow> tagged_ptr) \<Rightarrow> node_pool \<Rightarrow> (u64 \<times> node_pool) res" where
  "np_construct heap ThreadSafe Bounded ctor s =
     rbind (np_allocate heap ThreadSafe Bounded s) (\<lambda>(node, s1).
       Inr (node, if node \<noteq> 0 then place_new ctor node s1 else s1))"

definition np_construct_arg ::
  "(nat \<Rightarrow> u64) \<Rightarrow> bool \<Rightarrow> bool \<Rightarrow> ('a \<Rightarrow> tagged_ptr \<Rightarrow> tagged_ptr) \<Rightarrow> 'a \<Rightarrow> node_pool \<Rightarrow> (u64 \<times> node_pool) res" where
  "np_construct_arg heap ThreadSafe Bounded ctor arg s =
     rbind (np_allocate heap ThreadSafe Bounded s) (\<lambda>(node, s1).
       Inr (node, if node \<noteq> 0 then place_new (ctor arg) node s1 else s1))"

definition np_construct_args ::
  "(nat \<Rightarrow> u64) \<Rightarrow> bool \<Rightarrow> bool \<Rightarrow> ('a \<Rightarrow> 'b \<Rightarrow> tagged_ptr \<Rightarrow> tagged_ptr) \<Rightarrow> 'a \<Rightarrow> 'b \<Rightarrow> node_pool
     \<Rightarrow> (u64 \<times> node_pool) res" where
  "np_construct_args heap ThreadSafe Bounded ctor arg1 arg2 s =
     rbind (np_allocate heap ThreadSafe Bounded s) (\<lambda>(node, s1).
       Inr (node, if node \<noteq> 0 then place_new (ctor arg1 arg2) node s1 else s1))"

text \<open>\<open>destruct\<close>: \<open>dtor\<close> is what the destructor of \<open>T\<close> leaves in the first word.\<close>

definition np_destruct :: "(tagged_ptr \<Rightarrow> tagged_ptr) \<Rightarrow> bool \<Rightarrow> u64 \<Rightarrow> node_pool \<Rightarrow> node_pool res" where
  "np_destruct dtor ThreadSafe n s =
     (if n = 0 then Inl NullDeref else np_deallocate ThreadSafe n (place_new dtor n s))"

definition np_destruct_tagged ::
  "(tagged_ptr \<Rightarrow> tagged_ptr) \<Rightarrow> bool \<Rightarrow> tagged_ptr \<Rightarrow> node_pool \<Rightarrow> node_pool res" where
  "np_destruct_tagged dtor ThreadSafe h s =
     (let n = tp_get_ptr h in
      if n = 0 then Inl NullDeref else np_deallocate ThreadSafe n (place_new dtor n s))"

text \<open>The destructor of the pool frees the nodes of the free list.\<close>

fun np_destroy_loop :: "nat \<Rightarrow> tagged_ptr \<Rightarrow> node_pool \<Rightarrow> node_pool res" where
  "np_destroy_loop 0 current s = Inl NoReturn"
| "np_destroy_loop (Suc fuel) current s =
     (if tp_valid current
      then (let current_ptr = tp_get_ptr current;
                current1 = (if current_ptr \<noteq> 0 then np_word s current_ptr else current)
            in np_destroy_loop fuel current1 (np_delete current_ptr s))
      else Inr s)"

definition freelist_stack_destroy :: "node_pool \<Rightarrow> node_pool res" where
  "freelist_stack_destroy s = np_destroy_loop (np_allocs s + 1) (np_pool s) s"

definition np_get_handle :: "u64 \<Rightarrow> u64" where
  "np_get_handle pointer = pointer"

definition np_get_pointer_tagged :: "tagged_ptr \<Rightarrow> u64" where
  "np_get_pointer_tagged tptr = tp_get_ptr tptr"

definition np_get_handle_tagged :: "tagged_ptr \<Rightarrow> u64" where
  "np_get_handle_tagged handle = np_get_pointer_tagged handle"

definition np_get_pointer :: "u64 \<Rightarrow> u64" where
  "np_get_pointer pointer = pointer"

definition np_null_handle :: u64 where
  "np_null_handle = 0"

section \<open>Packing and unpacking\<close>

lemma ptr_mask_eq: "ptr_mask = mask 48"
  by (simp add: ptr_mask_def mask_eq_exp_minus_1)

lemma extract_tag_pack [simp]: "extract_tag (pack_ptr p t) = t"
  by (rule bit_word_eqI) (auto simp: extract_tag_def pack_ptr_def ptr_mask_eq bit_simps)

lemma extract_ptr_pack [simp]: "extract_ptr (pack_ptr p t) = extract_ptr p"
  by (rule bit_word_eqI) (auto simp: extract_ptr_def pack_ptr_def ptr_mask_eq bit_simps)

lemma extract_ptr_idem [simp]: "extract_ptr (extract_ptr h) = extract_ptr h"
  by (rule bit_word_eqI) (auto simp: extract_ptr_def ptr_mask_eq bit_simps)

text \<open>A pointer is its address and its tag.\<close>

lemma pack_extract [simp]: "pack_ptr (extract_ptr h) (extract_tag h) = h"
  by (rule bit_word_eqI) (auto simp: extract_ptr_def extract_tag_def pack_ptr_def ptr_mask_eq bit_simps)

text \<open>What is packed is got back exactly if the address has at most 48 bits.\<close>

lemma extract_ptr_iff: "extract_ptr p = p \<longleftrightarrow> unat p < 2 ^ 48"
proof -
  have "extract_ptr p = take_bit 48 p" by (simp only: extract_ptr_def ptr_mask_eq take_bit_eq_mask)
  then have "unat (extract_ptr p) = take_bit 48 (unat p)" by (simp only: unsigned_take_bit_eq)
  then have "unat (extract_ptr p) = unat p mod 2 ^ 48" by (simp only: take_bit_eq_mod)
  then show ?thesis by (metis mod_less mod_less_divisor word_unat_eq_iff zero_less_numeral zero_less_power)
qed

text \<open>The tag after the last one is 0 again.\<close>

lemma get_next_tag_eq: "tp_get_next_tag h = tp_get_tag h + 1"
proof -
  have "(ucast (((ucast t :: u32) + 1) AND 0xffff) :: u16) = t + 1" for t :: u16
  proof (rule word_unat_eq_iff [THEN iffD2])
    have t: "unat t < 2 ^ 16" using unsigned_less [of t] by simp
    have m: "(0xffff :: u32) = mask 16" by (simp add: mask_eq_exp_minus_1)
    have "((ucast t :: u32) + 1) AND 0xffff = take_bit 16 ((ucast t :: u32) + 1)"
      by (simp only: m take_bit_eq_mask)
    then have "unat (((ucast t :: u32) + 1) AND 0xffff) = take_bit 16 (unat ((ucast t :: u32) + 1))"
      by (simp only: unsigned_take_bit_eq)
    then have "unat (((ucast t :: u32) + 1) AND 0xffff) = unat ((ucast t :: u32) + 1) mod 2 ^ 16"
      by (simp only: take_bit_eq_mod)
    moreover have "unat ((ucast t :: u32) + 1) = unat t + 1"
      using t unat_add_small [of "ucast t :: u32" 1] unat_ucast_up [where 'b = 32, of t] by simp
    moreover have "unat (t + 1) = (unat t + 1) mod 2 ^ 16" by (simp add: unat_word_ariths)
    moreover have "unat (ucast x :: u16) = unat x mod 2 ^ 16" for x :: u32
      by (simp add: unsigned_ucast_eq take_bit_eq_mod)
    ultimately show "unat (ucast (((ucast t :: u32) + 1) AND 0xffff) :: u16) = unat (t + 1)" by simp
  qed
  then show ?thesis by (simp add: tp_get_next_tag_def)
qed

section \<open>The stack of free nodes\<close>

lemmas tp_defs = tp_get_ptr_def tp_get_tag_def tp_set_ptr_def tagged_ptr_init_def

text \<open>\<open>held s fl us\<close>: the free list of \<open>s\<close> is \<open>fl\<close> and the nodes in use are \<open>us\<close>; each is an
  address of 48 bits that is not null, no node is in two places, and together they are all the
  nodes the allocator gave.\<close>

definition link :: "node_pool \<Rightarrow> u64 \<Rightarrow> u64" where
  "link s p = tp_get_ptr (np_word s p)"

definition held :: "(nat \<Rightarrow> u64) \<Rightarrow> node_pool \<Rightarrow> u64 list \<Rightarrow> u64 set \<Rightarrow> bool" where
  "held heap s fl us \<longleftrightarrow> linked (link s) (tp_get_ptr (np_pool s)) fl 0 \<and> distinct fl \<and> set fl \<inter> us = {}
     \<and> set fl \<union> us = heap ` {..< np_allocs s} \<and> np_freed s = []"

text \<open>What the allocator promises for its first \<open>N\<close> calls.\<close>

definition heap_law :: "nat \<Rightarrow> (nat \<Rightarrow> u64) \<Rightarrow> bool" where
  "heap_law N heap \<longleftrightarrow> inj_on heap {..< N} \<and> (\<forall>k < N. heap k \<noteq> 0 \<and> unat (heap k) < 2 ^ 48)"

lemma heap_law_node:
  assumes "heap_law N heap" and "np_allocs s \<le> N" and "p \<in> heap ` {..< np_allocs s}"
  shows "p \<noteq> 0" and "extract_ptr p = p"
  using assms by (auto simp: heap_law_def extract_ptr_iff)

lemma heldD:
  assumes "held heap s fl us" and "heap_law N heap" and "np_allocs s \<le> N" and "p \<in> set fl \<union> us"
  shows "p \<noteq> 0" and "extract_ptr p = p"
  using heap_law_node [OF assms(2,3), of p] assms(1,4) by (auto simp: held_def)

lemma unsafe_eq:
  "np_deallocate b n s = np_deallocate_impl n s" "np_allocate heap b c s = np_allocate_impl heap c s"
  by (simp_all add: np_deallocate_def np_deallocate_impl_def np_deallocate_impl_unsafe_def Let_def
      np_allocate_def np_allocate_impl_def np_allocate_impl_unsafe_def)

text \<open>The word of a node that is in use does not matter: an object is constructed and destroyed
  there.\<close>

lemma held_overwrite:
  assumes "held heap s fl us" and "n \<notin> set fl"
  shows "held heap (place_new ctor n s) fl us"
proof -
  have "link (place_new ctor n s) = (link s)(n := tp_get_ptr (ctor (np_word s n)))"
    by (rule ext) (simp add: link_def place_new_def)
  then show ?thesis using assms by (simp add: held_def place_new_def)
qed

lemma deallocate_held:
  assumes h: "held heap s fl us" and law: "heap_law N heap" "np_allocs s \<le> N" and n: "n \<in> us"
  shows "\<exists>s'. np_deallocate b n s = Inr s' \<and> held heap s' (n # fl) (us - {n}) \<and> np_allocs s' = np_allocs s"
proof -
  have p: "n \<noteq> 0" "extract_ptr n = n" using heldD [OF h law, of n] n by blast+
  let ?s = "s\<lparr>np_word := (np_word s)(n := tp_set_ptr (tp_get_ptr (np_pool s)) (np_word s n)),
              np_pool := pack_ptr n (tp_get_tag (np_pool s))\<rparr>"
  have r: "np_deallocate b n s = Inr ?s"
    using p n by (simp add: unsafe_eq np_deallocate_impl_def tp_arrow_def tp_defs Let_def)
  have nf: "n \<notin> set fl" using h n by (auto simp: held_def)
  have "link ?s = (link s)(n := tp_get_ptr (np_pool s))"
    by (rule ext) (simp add: link_def tp_defs)
  then have "linked (link ?s) (tp_get_ptr (np_pool ?s)) (n # fl) 0"
    using h nf p n by (simp add: held_def tp_defs)
  moreover have "set (n # fl) \<union> (us - {n}) = heap ` {..< np_allocs s}" using h n by (auto simp: held_def)
  ultimately have "held heap ?s (n # fl) (us - {n})" using h nf by (auto simp: held_def)
  then show ?thesis using r by auto
qed

lemma allocate_held_Cons:
  assumes h: "held heap s (n # fl) us" and law: "heap_law N heap" "np_allocs s \<le> N"
  shows "\<exists>s'. np_allocate heap b c s = Inr (n, s') \<and> held heap s' fl (insert n us) \<and> np_allocs s' = np_allocs s"
proof -
  note p = heldD [OF h law, of n]
  have hd: "tp_get_ptr (np_pool s) = n" using h by (simp add: held_def)
  let ?s = "s\<lparr>np_pool := pack_ptr (link s n) (tp_get_next_tag (np_pool s))\<rparr>"
  have r: "np_allocate heap b c s = Inr (n, ?s)"
    using p hd by (simp add: unsafe_eq np_allocate_impl_def tp_arrow_def tagged_ptr_init_def link_def Let_def)
  have "link ?s = link s" by (rule ext) (simp add: link_def)
  moreover have "tp_get_ptr (np_pool ?s) = link s n" by (simp add: tp_defs link_def)
  ultimately have "held heap ?s fl (insert n us)" using h by (auto simp: held_def)
  then show ?thesis using r by auto
qed

lemma np_new_held:
  assumes h: "held heap s fl us" and law: "heap_law N heap" "np_allocs s < N" and new: "np_new heap s = (n, s')"
  shows "held heap s' fl (insert n us)" and "n \<notin> set fl \<union> us" and "np_allocs s' = np_allocs s + 1"
proof -
  have s': "n = heap (np_allocs s)" "s' = s\<lparr>np_allocs := np_allocs s + 1\<rparr>" using new by (auto simp: np_new_def)
  have "n \<notin> heap ` {..< np_allocs s}"
  proof
    assume "n \<in> heap ` {..< np_allocs s}"
    then obtain k where k: "k < np_allocs s" "heap k = heap (np_allocs s)" by (auto simp: s')
    then show False using law inj_onD [of heap "{..< N}" k "np_allocs s"] by (simp add: heap_law_def)
  qed
  then show nn: "n \<notin> set fl \<union> us" using h by (simp add: held_def)
  have "heap ` {..< np_allocs s'} = insert n (heap ` {..< np_allocs s})"
    by (auto simp: s' lessThan_Suc)
  moreover have "link s' = link s" by (rule ext) (simp add: link_def s')
  ultimately show "held heap s' fl (insert n us)" using h nn by (auto simp: held_def s')
  show "np_allocs s' = np_allocs s + 1" by (simp add: s')
qed

lemma allocate_held_Nil:
  assumes h: "held heap s [] us" and law: "heap_law N heap" "np_allocs s < N"
  shows "np_allocate heap b True s = Inr (0, s)"
    and "\<exists>n s'. np_allocate heap b False s = Inr (n, s') \<and> n \<notin> us \<and> held heap s' [] (insert n us)
      \<and> np_allocs s' = np_allocs s + 1"
proof -
  have z: "tp_get_ptr (np_pool s) = 0" using h by (simp add: held_def)
  show "np_allocate heap b True s = Inr (0, s)" using z by (simp add: unsafe_eq np_allocate_impl_def)
  obtain n s' where new: "np_new heap s = (n, s')" by (cases "np_new heap s")
  have "np_allocate heap b False s = Inr (n, s')" using z new by (simp add: unsafe_eq np_allocate_impl_def)
  then show "\<exists>n s'. np_allocate heap b False s = Inr (n, s') \<and> n \<notin> us \<and> held heap s' [] (insert n us)
      \<and> np_allocs s' = np_allocs s + 1"
    using np_new_held [OF h law new] by auto
qed

lemma reserve_held:
  assumes "held heap s fl us" and "heap_law N heap" and "np_allocs s + count \<le> N"
  shows "\<exists>s' ns. np_reserve heap b count s = Inr s' \<and> held heap s' (ns @ fl) us \<and> length ns = count
    \<and> np_allocs s' = np_allocs s + count"
  using assms
proof (induction count arbitrary: s fl)
  case (Suc count)
  obtain n s1 where new: "np_new heap s = (n, s1)" by (cases "np_new heap s")
  have lt: "np_allocs s < N" using Suc.prems(3) by simp
  note n = np_new_held [OF Suc.prems(1,2) lt new]
  obtain s2 where s2: "np_deallocate b n s1 = Inr s2" "held heap s2 (n # fl) (insert n us - {n})" "np_allocs s2 = np_allocs s1"
    using deallocate_held [OF n(1) Suc.prems(2), of n b] n(3) lt by auto
  then have "held heap s2 (n # fl) us" using n(2) by simp
  moreover have "np_allocs s2 + count \<le> N" using s2(3) n(3) Suc.prems(3) by simp
  ultimately obtain s' ns where "np_reserve heap b count s2 = Inr s'" "held heap s' (ns @ n # fl) us" "length ns = count"
    "np_allocs s' = np_allocs s2 + count"
    using Suc.IH [OF _ Suc.prems(2)] by blast
  then show ?case using new s2 n(3) by (intro exI [of _ s'] exI [of _ "ns @ [n]"]) simp
qed auto

lemma init_loop_reserve: "np_init_loop heap n s = np_reserve heap False n s"
proof (induction n arbitrary: s)
  case (Suc n)
  then have "np_init_loop heap n = np_reserve heap False n" by (rule ext)
  then show ?case by simp
qed simp

lemma init_held:
  assumes "heap_law N heap" and "n \<le> N"
  shows "\<exists>s fl. freelist_stack_init memory heap n = Inr s \<and> held heap s fl {} \<and> length fl = n \<and> np_allocs s = n"
proof -
  let ?s = "\<lparr>np_word = memory, np_pool = tagged_ptr_init 0 0, np_allocs = 0, np_freed = []\<rparr>"
  have "extract_ptr 0 = 0" by (simp add: extract_ptr_def)
  then have "held heap ?s [] {}" by (simp add: held_def tp_defs)
  from reserve_held [OF this assms(1), of n False] assms(2) show ?thesis
    by (auto simp: freelist_stack_init_def init_loop_reserve)
qed

lemma destroy_loop:
  "linked (link s) (tp_get_ptr c) fl 0 \<Longrightarrow> 0 \<notin> set fl \<Longrightarrow> length fl < fuel \<Longrightarrow>
    np_destroy_loop fuel c s = Inr (s\<lparr>np_freed := np_freed s @ fl\<rparr>)"
proof (induction fuel arbitrary: c fl s)
  case (Suc fuel)
  show ?case
  proof (cases fl)
    case Nil
    then show ?thesis using Suc.prems by (simp add: tp_valid_def)
  next
    case (Cons n ns)
    then have n: "tp_get_ptr c = n" "n \<noteq> 0" "linked (link s) (tp_get_ptr (np_word s n)) ns 0"
      using Suc.prems by auto (simp add: link_def)
    have "link (np_delete n s) = link s" by (rule ext) (simp add: link_def np_delete_def)
    then have "np_destroy_loop fuel (np_word s n) (np_delete n s)
        = Inr ((np_delete n s)\<lparr>np_freed := np_freed (np_delete n s) @ ns\<rparr>)"
      using Suc.IH [of "np_delete n s" "np_word s n" ns] n(3) Suc.prems(2,3) Cons by simp
    then show ?thesis using n Cons by (simp add: tp_valid_def np_delete_def Let_def)
  qed
qed simp

text \<open>The destructor returns and frees exactly the free nodes, each once; nodes still in use are
  not freed.\<close>

lemma destroy_held:
  assumes h: "held heap s fl us" and law: "heap_law N heap" "np_allocs s \<le> N"
  shows "\<exists>s'. freelist_stack_destroy s = Inr s' \<and> np_freed s' = fl"
proof -
  have "set fl \<subseteq> heap ` {..< np_allocs s}" "distinct fl" using h by (auto simp: held_def)
  then have "length fl \<le> np_allocs s"
    by (metis card_image_le card_lessThan card_mono distinct_card finite_imageI finite_lessThan order_trans)
  moreover have "0 \<notin> set fl" using heldD(1) [OF h law] by blast
  ultimately have "freelist_stack_destroy s = Inr (s\<lparr>np_freed := np_freed s @ fl\<rparr>)"
    unfolding freelist_stack_destroy_def using h by (intro destroy_loop) (auto simp: held_def)
  then show ?thesis using h by (simp add: held_def)
qed

section \<open>The life of a pool\<close>

text \<open>A client of the pool: it constructs objects, bounded or not, and destroys those it has, by
  their number.\<close>

datatype np_op = Construct bool bool "tagged_ptr \<Rightarrow> tagged_ptr" | Destruct bool nat

fun np_op_step :: "(nat \<Rightarrow> u64) \<Rightarrow> np_op \<Rightarrow> u64 list \<times> node_pool \<Rightarrow> (u64 list \<times> node_pool) res" where
  "np_op_step heap (Construct ts bounded ctor) (us, s) =
     rbind (np_construct heap ts bounded ctor s) (\<lambda>(p, s1). Inr (if p = 0 then us else us @ [p], s1))"
| "np_op_step heap (Destruct ts i) (us, s) =
     (if i < length us
      then rbind (np_destruct (\<lambda>w. w) ts (us ! i) s) (\<lambda>s1. Inr (take i us @ drop (Suc i) us, s1))
      else Inr (us, s))"

fun np_run :: "(nat \<Rightarrow> u64) \<Rightarrow> np_op list \<Rightarrow> u64 list \<times> node_pool \<Rightarrow> (u64 list \<times> node_pool) res" where
  "np_run heap [] st = Inr st"
| "np_run heap (x # xs) st = rbind (np_op_step heap x st) (np_run heap xs)"

lemma construct_held:
  assumes h: "held heap s fl us" and law: "heap_law N heap" "np_allocs s < N"
  shows "\<exists>p s' fl'. np_construct heap ts bounded ctor s = Inr (p, s') \<and> np_allocs s' \<le> np_allocs s + 1
    \<and> (if p = 0 then bounded \<and> fl = [] \<and> held heap s' fl' us
       else p \<notin> us \<and> held heap s' fl' (insert p us) \<and> fl' = tl fl)"
proof (cases fl)
  case (Cons n ns)
  have le: "np_allocs s \<le> N" using law(2) by simp
  obtain s1 where s1: "np_allocate heap ts bounded s = Inr (n, s1)" "held heap s1 ns (insert n us)" "np_allocs s1 = np_allocs s"
    using allocate_held_Cons [OF h [unfolded Cons] law(1) le] by blast
  have n: "n \<noteq> 0" "n \<notin> us" "n \<notin> set ns"
    using heldD(1) [OF h law(1) le, of n] h Cons by (auto simp: held_def)
  show ?thesis using s1 n held_overwrite [OF s1(2) n(3), of ctor] Cons
    by (auto simp: np_construct_def place_new_def)
next
  case Nil
  note h = h [unfolded Nil]
  show ?thesis
  proof (cases bounded)
    case True
    then show ?thesis using allocate_held_Nil(1) [OF h law] h Nil by (auto simp: np_construct_def)
  next
    case False
    obtain n s1 where s1: "np_allocate heap ts False s = Inr (n, s1)" "n \<notin> us" "held heap s1 [] (insert n us)"
      "np_allocs s1 = np_allocs s + 1"
      using allocate_held_Nil(2) [OF h law] by blast
    have "n \<noteq> 0" using heldD(1) [OF s1(3) law(1)] s1(4) law(2) by simp
    then show ?thesis using s1 False Nil held_overwrite [OF s1(3), of n ctor]
      by (auto simp: np_construct_def place_new_def)
  qed
qed

lemma destruct_held:
  assumes h: "held heap s fl us" and law: "heap_law N heap" "np_allocs s \<le> N" and n: "n \<in> us"
  shows "\<exists>s'. np_destruct dtor ts n s = Inr s' \<and> held heap s' (n # fl) (us - {n}) \<and> np_allocs s' = np_allocs s"
proof -
  have "n \<noteq> 0" using heldD(1) [OF h law] n by simp
  moreover have "n \<notin> set fl" using h n by (auto simp: held_def)
  from held_overwrite [OF h this, of dtor] have "held heap (place_new dtor n s) fl us" .
  from deallocate_held [OF this law(1) _ n, of ts] law(2)
  have "\<exists>s'. np_deallocate ts n (place_new dtor n s) = Inr s' \<and> held heap s' (n # fl) (us - {n}) \<and> np_allocs s' = np_allocs s"
    by (simp add: place_new_def)
  ultimately show ?thesis by (simp add: np_destruct_def)
qed

text \<open>Whatever is constructed and destroyed, in any order: nothing faults, the objects alive are
  at distinct addresses, none of them free, and at the end the destructor of the pool frees
  exactly the nodes that hold no object.\<close>

lemma node_pool_run:
  assumes "held heap s fl (set us)" and "distinct us" and "heap_law N heap" and "np_allocs s + length xs \<le> N"
  shows "\<exists>us' s' fl'. np_run heap xs (us, s) = Inr (us', s') \<and> distinct us' \<and> held heap s' fl' (set us')
    \<and> np_allocs s' \<le> np_allocs s + length xs"
  using assms
proof (induction xs arbitrary: us s fl)
  case (Cons x xs)
  have lt: "np_allocs s < N" using Cons.prems(4) by simp
  obtain us1 s1 fl1 where 1: "np_op_step heap x (us, s) = Inr (us1, s1)" "distinct us1" "held heap s1 fl1 (set us1)"
    "np_allocs s1 \<le> np_allocs s + 1"
  proof (cases x)
    case (Construct ts bounded ctor)
    obtain p s' fl' where p: "np_construct heap ts bounded ctor s = Inr (p, s')" "np_allocs s' \<le> np_allocs s + 1"
      "if p = 0 then bounded \<and> fl = [] \<and> held heap s' fl' (set us)
       else p \<notin> set us \<and> held heap s' fl' (insert p (set us)) \<and> fl' = tl fl"
      using construct_held [OF Cons.prems(1,3) lt] by blast
    show thesis
      by (rule that [of "if p = 0 then us else us @ [p]" s' fl'])
        (use p Construct Cons.prems(2) in \<open>auto split: if_splits\<close>)
  next
    case (Destruct ts i)
    show thesis
    proof (cases "i < length us")
      case True
      then have u: "us = take i us @ us ! i # drop (Suc i) us" by (simp add: id_take_nth_drop)
      have d: "distinct (take i us @ us ! i # drop (Suc i) us)" using Cons.prems(2) u by simp
      have "set us = set (take i us @ us ! i # drop (Suc i) us)" using u by simp
      then have rest: "set us - {us ! i} = set (take i us @ drop (Suc i) us)" using d by auto
      obtain s' where "np_destruct (\<lambda>w. w) ts (us ! i) s = Inr s'" "held heap s' (us ! i # fl) (set us - {us ! i})"
        "np_allocs s' = np_allocs s"
        using destruct_held [OF Cons.prems(1,3), of "us ! i"] True lt by auto
      then show thesis using Destruct True d
        by (intro that [of "take i us @ drop (Suc i) us" s' "us ! i # fl"]) (simp_all add: rest)
    next
      case False
      then show thesis using Destruct Cons.prems by (intro that [of us s fl]) simp_all
    qed
  qed
  have "np_allocs s1 + length xs \<le> N" using 1(4) Cons.prems(4) by simp
  from Cons.IH [OF 1(3) 1(2) Cons.prems(3) this] 1 show ?case by fastforce
qed auto

theorem node_pool_life:
  assumes law: "heap_law N heap" and "n + length xs \<le> N"
  shows "\<exists>s us s' s''. freelist_stack_init memory heap n = Inr s \<and> np_run heap xs ([], s) = Inr (us, s')
    \<and> distinct us \<and> freelist_stack_destroy s' = Inr s'' \<and> distinct (np_freed s'')
    \<and> set (np_freed s'') = heap ` {..< np_allocs s'} - set us"
proof -
  obtain s fl where s: "freelist_stack_init memory heap n = Inr s" "held heap s fl {}" "np_allocs s = n"
    using init_held [OF law, of n memory] assms(2) by auto
  obtain us s' fl' where r: "np_run heap xs ([], s) = Inr (us, s')" "distinct us" "held heap s' fl' (set us)"
    "np_allocs s' \<le> n + length xs"
    using node_pool_run [OF _ _ law, of s fl "[]" xs] s assms(2) by auto
  obtain s'' where "freelist_stack_destroy s' = Inr s''" "np_freed s'' = fl'"
    using destroy_held [OF r(3) law] r(4) assms(2) by auto
  moreover have "distinct fl'" "set fl' = heap ` {..< np_allocs s'} - set us" using r(3) by (auto simp: held_def)
  ultimately show ?thesis using s r by blast
qed

end
